(* ===== verification/Prelude.thy ===== *)
theory Prelude
  imports Complex_Main "HOL-Library.Word"
begin

text \<open>
  What every component shares: the Go integer types as machine words, instants and durations of
  Go's \<open>time\<close> package, the IEEE-754 numbers of Go's \<open>float32\<close> and \<open>float64\<close>, and generic lemmas
  about lists, finite maps and words. \<open>int\<close>, \<open>uint\<close> and \<open>uintptr\<close> are 64 bits wide, as on
  the amd64 and arm64 targets of the repository.
\<close>

section \<open>Collections of simplification rules\<close>

named_theorems go_word_simps \<open>reading machine words as integers\<close>
named_theorems go_time_simps \<open>instants and durations\<close>

section \<open>Machine integers\<close>

type_synonym i8 = "8 word"
type_synonym i16 = "16 word"
type_synonym i32 = "32 word"
type_synonym i64 = "64 word"
type_synonym u8 = "8 word"
type_synonym u16 = "16 word"
type_synonym u32 = "32 word"
type_synonym u64 = "64 word"

abbreviation max_i64 :: int where
  "max_i64 \<equiv> 9223372036854775807"

abbreviation min_i64 :: int where
  "min_i64 \<equiv> - 9223372036854775808"

lemma sint_of_int64:
  assumes "min_i64 \<le> x" and "x \<le> max_i64"
  shows "sint (word_of_int x :: i64) = x"
  using assms by (simp add: signed_of_int signed_take_bit_int_eq_self_iff)

lemma sint64_bounds: "min_i64 \<le> sint (w :: i64)" "sint (w :: i64) \<le> max_i64"
  using sint_greater_eq [of w] sint_less [of w] by simp_all

lemma sint64_eq_0 [go_word_simps]: "sint (w :: i64) = 0 \<longleftrightarrow> w = 0"
  by (rule signed_eq_0_iff)

lemma unat_of_int64:
  assumes "0 \<le> x" and "x < 2 ^ 64"
  shows "unat (word_of_int x :: u64) = nat x"
  using assms by (simp add: unsigned_of_int take_bit_int_eq_self)

lemma uint_sint_nonneg: "0 \<le> sint (w :: i64) \<Longrightarrow> uint w = sint w"
  using sint64_bounds [of w] by (simp add: uint_sint take_bit_int_eq_self)

lemma sint_diff64:
  assumes "min_i64 \<le> sint (a :: i64) - sint b" and "sint a - sint b \<le> max_i64"
  shows "sint (a - b) = sint a - sint b"
proof -
  have "a - b = word_of_int (sint a - sint b)" by simp
  then show ?thesis using assms by (simp only: sint_of_int64)
qed

lemma sint_add64:
  assumes "min_i64 \<le> sint (a :: i64) + sint b" and "sint a + sint b \<le> max_i64"
  shows "sint (a + b) = sint a + sint b"
proof -
  have "a + b = word_of_int (sint a + sint b)" by simp
  then show ?thesis using assms by (simp only: sint_of_int64)
qed

lemma sint_Suc64: "sint (a :: i64) < max_i64 \<Longrightarrow> sint (a + 1) = sint a + 1"
  using sint64_bounds [of a] sint_add64 [of a 1] by simp

text \<open>A shift without loss, and bits put below a shifted number.\<close>

lemma uint_shl:
  "uint (w :: 'a::len word) * 2 ^ n < 2 ^ LENGTH('a) \<Longrightarrow> uint (push_bit n w) = uint w * 2 ^ n"
  by (subst unsigned_push_bit_eq) (simp add: push_bit_eq_mult take_bit_int_eq_self)

lemma int_or_shift:
  assumes "0 \<le> (b :: int)" and "b < 2 ^ n"
  shows "or (push_bit n a) b = a * 2 ^ n + b"
proof -
  have b: "take_bit n b = b" using assms by (simp add: take_bit_int_eq_self)
  have "and (push_bit n a) b = 0"
    by (rule bit_eqI, subst b [symmetric]) (auto simp: bit_simps)
  then have "or (push_bit n a) b = push_bit n a + b"
    by (simp add: disjunctive_add_eq_or)
  then show ?thesis by (simp add: push_bit_eq_mult)
qed

text \<open>Go's truncated integer division and remainder (the sign of the remainder is the dividend's).\<close>

definition go_div :: "int \<Rightarrow> int \<Rightarrow> int" where
  "go_div a b = sgn a * sgn b * (\<bar>a\<bar> div \<bar>b\<bar>)"

definition go_mod :: "int \<Rightarrow> int \<Rightarrow> int" where
  "go_mod a b = a - b * go_div a b"

lemma go_div_nonneg [simp]: "0 \<le> a \<Longrightarrow> 0 < b \<Longrightarrow> go_div a b = a div b"
  by (cases "a = 0") (simp_all add: go_div_def sgn_if)

lemma go_mod_nonneg [simp]: "0 \<le> a \<Longrightarrow> 0 < b \<Longrightarrow> go_mod a b = a mod b"
  by (simp add: go_mod_def minus_mult_div_eq_mod)

section \<open>Instants and durations\<close>

text \<open>
  A \<open>time.Time\<close> is the exact number of nanoseconds since the Unix epoch; a \<open>time.Duration\<close> is an
  \<open>int64\<close>. \<open>UnixNano\<close> is computed in \<open>int64\<close> arithmetic, so it wraps around outside the years
  1678 to 2262.
\<close>

type_synonym gotime = int
type_synonym duration = i64

definition TimeAdd :: "gotime \<Rightarrow> duration \<Rightarrow> gotime" where
  "TimeAdd t d = t + sint d"

definition UnixNano :: "gotime \<Rightarrow> i64" where
  "UnixNano t = word_of_int t"

abbreviation nano_range :: "gotime \<Rightarrow> bool" where
  "nano_range t \<equiv> min_i64 \<le> t \<and> t \<le> max_i64"

lemma sint_UnixNano [go_time_simps]: "nano_range t \<Longrightarrow> sint (UnixNano t) = t"
  by (simp add: UnixNano_def sint_of_int64)

lemma UnixNano_eq_0 [go_time_simps]: "nano_range t \<Longrightarrow> UnixNano t = 0 \<longleftrightarrow> t = 0"
  by (metis sint64_eq_0 sint_UnixNano)

lemma UnixNano_wrap: "UnixNano t = UnixNano (t - 2 ^ 64)"
  by (simp add: UnixNano_def word_of_int_eq_iff take_bit_eq_mod)

section \<open>Lists and maps\<close>

lemma finite_dom_upd [simp]: "finite (dom (m(k := v))) \<longleftrightarrow> finite (dom m)"
proof -
  have "finite (dom m)" if "finite (dom (m(k := v)))"
    using that by (rule finite_subset [rotated, OF finite.insertI [where a = k]]) (auto split: if_splits)
  moreover have "finite (dom (m(k := v)))" if "finite (dom m)"
    using that by (rule finite_subset [rotated, OF finite.insertI [where a = k]]) (auto split: if_splits)
  ultimately show ?thesis by blast
qed

section \<open>Results\<close>

text \<open>A Go function that returns a value and an error, or panics.\<close>

datatype ('e, 'a) go = Ok 'a | Err 'e | Panic

fun go_bind :: "('e, 'a) go \<Rightarrow> ('a \<Rightarrow> ('e, 'b) go) \<Rightarrow> ('e, 'b) go" where
  "go_bind (Ok x) f = f x"
| "go_bind (Err e) f = Err e"
| "go_bind Panic f = Panic"

lemma go_bind_Ok: "go_bind m f = Ok y \<longleftrightarrow> (\<exists>x. m = Ok x \<and> f x = Ok y)"
  by (cases m) simp_all

section \<open>Sums over lists\<close>

lemma sum_list_update_nth:
  fixes f :: "'a \<Rightarrow> 'b :: cancel_comm_monoid_add"
  shows "i < length xs \<Longrightarrow> sum_list (map f (xs[i := y])) + f (xs ! i) = sum_list (map f xs) + f y"
proof (induction xs arbitrary: i)
  case (Cons x xs)
  then show ?case by (cases i) (simp_all add: ac_simps)
qed simp

lemma sum_list_zero: "\<forall>x \<in> set xs. f x = (0 :: 'b :: monoid_add) \<Longrightarrow> sum_list (map f xs) = 0"
  by (induction xs) auto

end
