(* ===== verification/GoFloat.thy ===== *)
theory GoFloat
  imports Prelude
begin

text \<open>
  Go's \<open>float32\<close> and \<open>float64\<close>: the IEEE-754 binary numbers with round-to-nearest-even, which the
  Go specification prescribes. A finite number is its rational value (positive zero is \<open>FNum 0\<close>),
  negative zero, the infinities and NaN are their own values. Every operation rounds the exact
  rational result into the format, so the model is executable and has the code's rounding.
\<close>

datatype gofloat = FNaN | FPosInf | FNegInf | FNegZero | FNum rat

section \<open>Comparison\<close>

text \<open>Negative and positive zero compare equal; every comparison with NaN is false.\<close>

fun fkey :: "gofloat \<Rightarrow> int \<times> rat" where
  "fkey FNaN = (3, 0)"
| "fkey FNegInf = (0, 0)"
| "fkey FNegZero = (1, 0)"
| "fkey (FNum r) = (1, r)"
| "fkey FPosInf = (2, 0)"

definition flt :: "gofloat \<Rightarrow> gofloat \<Rightarrow> bool" where
  "flt a b \<longleftrightarrow> a \<noteq> FNaN \<and> b \<noteq> FNaN \<and>
     (fst (fkey a) < fst (fkey b) \<or> fst (fkey a) = fst (fkey b) \<and> snd (fkey a) < snd (fkey b))"

definition feq :: "gofloat \<Rightarrow> gofloat \<Rightarrow> bool" where
  "feq a b \<longleftrightarrow> a \<noteq> FNaN \<and> b \<noteq> FNaN \<and> fkey a = fkey b"

definition fle :: "gofloat \<Rightarrow> gofloat \<Rightarrow> bool" where
  "fle a b \<longleftrightarrow> flt a b \<or> feq a b"

definition is_nan :: "gofloat \<Rightarrow> bool" where
  "is_nan a \<longleftrightarrow> a = FNaN"

lemmas fcmp_defs = flt_def feq_def fle_def is_nan_def

lemma flt_irrefl [simp]: "\<not> flt a a"
  by (simp add: flt_def)

lemma flt_trans: "flt a b \<Longrightarrow> flt b c \<Longrightarrow> flt a c"
  by (auto simp: flt_def)

lemma feq_refl: "\<not> is_nan a \<Longrightarrow> feq a a"
  by (simp add: fcmp_defs)

lemma feq_sym: "feq a b \<Longrightarrow> feq b a"
  by (auto simp: feq_def)

lemma feq_trans: "feq a b \<Longrightarrow> feq b c \<Longrightarrow> feq a c"
  by (auto simp: feq_def)

lemma flt_feq_trans: "flt a b \<Longrightarrow> feq b c \<Longrightarrow> flt a c" "feq a b \<Longrightarrow> flt b c \<Longrightarrow> flt a c"
  by (auto simp: flt_def feq_def)

lemma flt_not_feq: "flt a b \<Longrightarrow> \<not> feq a b" "flt a b \<Longrightarrow> \<not> feq b a" "flt a b \<Longrightarrow> \<not> flt b a"
  by (auto simp: flt_def feq_def)

lemma flt_linear: "\<not> is_nan a \<Longrightarrow> \<not> is_nan b \<Longrightarrow> flt a b \<or> feq a b \<or> flt b a"
  by (auto simp: fcmp_defs prod_eq_iff)

section \<open>Rounding\<close>

record ffmt =
  fprec :: nat  \<comment> \<open>bits of the significand\<close>
  femin :: int  \<comment> \<open>exponent of the least subnormal number\<close>
  femax :: int  \<comment> \<open>numbers from two to this power on overflow\<close>

definition float64_fmt :: ffmt where
  "float64_fmt = \<lparr>fprec = 53, femin = - 1074, femax = 1024\<rparr>"

definition float32_fmt :: ffmt where
  "float32_fmt = \<lparr>fprec = 24, femin = - 149, femax = 128\<rparr>"

fun bit_length :: "nat \<Rightarrow> nat" where
  "bit_length n = (if n = 0 then 0 else Suc (bit_length (n div 2)))"

declare bit_length.simps [simp del]

text \<open>The exponent of the binary digit a positive rational starts with.\<close>

definition ilog2 :: "rat \<Rightarrow> int" where
  "ilog2 x = (let (a, b) = quotient_of x;
                  k = int (bit_length (nat a)) - int (bit_length (nat b))
              in if 2 powi k \<le> x then k else k - 1)"

definition round_half_even :: "rat \<Rightarrow> int" where
  "round_half_even q = (let f = \<lfloor>q\<rfloor>; d = q - of_int f
     in if d < 1/2 then f else if 1/2 < d then f + 1 else if even f then f else f + 1)"

definition fround :: "ffmt \<Rightarrow> rat \<Rightarrow> gofloat" where
  "fround fmt x = (if x = 0 then FNum 0 else
     let e = max (femin fmt) (ilog2 \<bar>x\<bar> - (int (fprec fmt) - 1));
         y = of_int (round_half_even (x / 2 powi e)) * 2 powi e
     in if y = 0 then (if x < 0 then FNegZero else FNum 0)
        else if 2 powi (femax fmt) \<le> y then FPosInf
        else if y \<le> - (2 powi (femax fmt)) then FNegInf
        else FNum y)"

definition f_of_int :: "ffmt \<Rightarrow> int \<Rightarrow> gofloat" where
  "f_of_int fmt n = fround fmt (of_int n)"

fun fconv :: "ffmt \<Rightarrow> gofloat \<Rightarrow> gofloat" where
  "fconv fmt (FNum r) = fround fmt r"
| "fconv fmt x = x"

section \<open>Addition and subtraction\<close>

fun fadd :: "ffmt \<Rightarrow> gofloat \<Rightarrow> gofloat \<Rightarrow> gofloat" where
  "fadd fmt FNaN b = FNaN"
| "fadd fmt a FNaN = FNaN"
| "fadd fmt FPosInf FNegInf = FNaN"
| "fadd fmt FNegInf FPosInf = FNaN"
| "fadd fmt FPosInf b = FPosInf"
| "fadd fmt a FPosInf = FPosInf"
| "fadd fmt FNegInf b = FNegInf"
| "fadd fmt a FNegInf = FNegInf"
| "fadd fmt FNegZero b = b"
| "fadd fmt a FNegZero = a"
| "fadd fmt (FNum a) (FNum b) = fround fmt (a + b)"

fun fneg :: "gofloat \<Rightarrow> gofloat" where
  "fneg FNaN = FNaN"
| "fneg FPosInf = FNegInf"
| "fneg FNegInf = FPosInf"
| "fneg FNegZero = FNum 0"
| "fneg (FNum r) = (if r = 0 then FNegZero else FNum (- r))"

definition fsub :: "ffmt \<Rightarrow> gofloat \<Rightarrow> gofloat \<Rightarrow> gofloat" where
  "fsub fmt a b = fadd fmt a (fneg b)"

lemma fround_not_nan [simp]: "fround fmt x \<noteq> FNaN"
  by (simp add: fround_def Let_def)

text \<open>A sum is NaN only when an operand is, or when the operands are opposite infinities.\<close>

lemma fadd_nan:
  "fadd fmt a b = FNaN \<longleftrightarrow>
     a = FNaN \<or> b = FNaN \<or> (a = FPosInf \<and> b = FNegInf) \<or> (a = FNegInf \<and> b = FPosInf)"
  by (cases a; cases b) simp_all

lemma fadd_commute: "fadd fmt a b = fadd fmt b a"
  by (cases a; cases b) (simp_all add: add.commute)

lemma fround_0 [simp]: "fround fmt 0 = FNum 0"
  by (simp add: fround_def)

text \<open>Integers that fit the significand are represented exactly.\<close>

lemma bit_length_le: "n < 2 ^ p \<Longrightarrow> bit_length n \<le> p"
proof (induction p arbitrary: n)
  case 0
  then show ?case by (simp add: bit_length.simps)
next
  case (Suc p)
  then have "bit_length (n div 2) \<le> p" by simp
  then show ?case by (subst bit_length.simps) simp
qed

lemma round_half_even_of_int [simp]: "round_half_even (of_int n) = n"
  by (simp add: round_half_even_def Let_def)

lemma ilog2_of_int_le:
  assumes "0 < n" and "n < 2 ^ p"
  shows "ilog2 (of_int n) \<le> int p - 1"
proof -
  have "nat n < 2 ^ p"
    using assms by (simp add: nat_less_iff)
  then have "bit_length (nat n) \<le> p" by (rule bit_length_le)
  moreover have "bit_length (Suc 0) = 1"
    by (simp add: bit_length.simps)
  ultimately show ?thesis
    by (simp add: ilog2_def quotient_of_int Let_def)
qed

lemma fround_of_int:
  assumes n: "\<bar>n\<bar> < 2 ^ fprec fmt" and p: "int (fprec fmt) \<le> femax fmt" and e: "femin fmt \<le> 0"
  shows "fround fmt (of_int n) = FNum (of_int n)"
proof (cases "n = 0")
  case False
  define k where "k = max (femin fmt) (ilog2 \<bar>of_int n\<bar> - (int (fprec fmt) - 1))"
  have "ilog2 (of_int \<bar>n\<bar>) \<le> int (fprec fmt) - 1"
    using False n by (intro ilog2_of_int_le) auto
  then have k: "k \<le> 0"
    using e by (simp add: k_def)
  have q: "(of_int n :: rat) / 2 powi k = of_int (n * 2 ^ nat (- k))"
    using k by (simp add: power_int_def field_simps)
  have y: "(of_int (round_half_even (of_int n / 2 powi k)) :: rat) * 2 powi k = of_int n"
    unfolding q round_half_even_of_int using k by (simp add: power_int_def field_simps)
  have "(of_int \<bar>n\<bar> :: rat) < of_int (2 ^ fprec fmt)"
    using n by (simp only: of_int_less_iff)
  also have "(of_int (2 ^ fprec fmt) :: rat) = 2 powi (int (fprec fmt))"
    by simp
  also have "(2 :: rat) powi (int (fprec fmt)) \<le> 2 powi (femax fmt)"
    using p by (intro power_int_increasing) auto
  finally have "\<bar>of_int n\<bar> < (2 :: rat) powi (femax fmt)"
    by simp
  then have "\<not> 2 powi femax fmt \<le> (of_int n :: rat)" "\<not> (of_int n :: rat) \<le> - (2 powi femax fmt)"
    by (simp_all only: abs_less_iff not_le) linarith
  moreover have "round_half_even (of_int n / 2 powi k) \<noteq> 0"
    using False y by auto
  ultimately show ?thesis
    using False y by (simp add: fround_def k_def [symmetric] Let_def)
qed simp

end
