(* ===== verification/LocalCache.thy ===== *)
theory LocalCache
  imports GoFloat
begin

text \<open>
  The in-process cache of \<open>cache/local_cache\<close>: entries with an expiry instant, the typed counters,
  eviction with a capture callback, the janitor and the snapshot file.

  Every method runs its critical sections under the cache's lock, so a critical section is one
  atomic function on the state record. A method with two critical sections (\<open>Get\<close>,
  \<open>GetWithExpire\<close>, \<open>Iterator\<close>) takes the interference of other goroutines between them as a
  function on the state. Instants read with \<open>time.Now()\<close> are arguments. Callbacks run after the
  lock is released: a method returns the list of capture calls it makes, each with the handler it
  read under the lock. Go's map iteration order is not specified, so a loop over the map takes the
  order of the keys as an argument.
\<close>

section \<open>Values, entries and errors\<close>

text \<open>The dynamic types an \<open>interface{}\<close> value is tested for; every other value is opaque.\<close>

datatype 'a gval =
    VNil
  | VInt i64 | VInt8 i8 | VInt16 i16 | VInt32 i32 | VInt64 i64
  | VUint u64 | VUint8 u8 | VUint16 u16 | VUint32 u32 | VUint64 u64 | VUintptr u64
  | VFloat32 gofloat | VFloat64 gofloat
  | VOther 'a

record 'a iterator =
  Val :: "'a gval"
  Expire :: i64

datatype cache_err = CacheExist | CacheNoExist | CacheExpire | CacheTypeErr | CacheGobErr

definition CacheErrExist :: "cache_err option \<Rightarrow> bool" where
  "CacheErrExist e \<longleftrightarrow> e = Some CacheExist"

definition CacheErrNoExist :: "cache_err option \<Rightarrow> bool" where
  "CacheErrNoExist e \<longleftrightarrow> e = Some CacheNoExist"

definition CacheErrExpire :: "cache_err option \<Rightarrow> bool" where
  "CacheErrExpire e \<longleftrightarrow> e = Some CacheExpire"

definition CacheErrTypeErr :: "cache_err option \<Rightarrow> bool" where
  "CacheErrTypeErr e \<longleftrightarrow> e = Some CacheTypeErr"

text \<open>\<open>Expired\<close> takes an optional instant; without one it reads the clock, \<open>now\<close>.\<close>

definition Expired :: "'a iterator \<Rightarrow> i64 list \<Rightarrow> gotime \<Rightarrow> bool" where
  "Expired i v now =
     (if Expire i = 0 then False
      else if length v \<noteq> 0 then Expire i <s v ! 0
      else Expire i <s UnixNano now)"

section \<open>State\<close>

definition DefaultExpire :: duration where
  "DefaultExpire = 0"

definition NoExpire :: duration where
  "NoExpire = - 1"

text \<open>The periodic task of the janitor: the cache's own sweep, or a function the user set.\<close>

datatype 'f janitor = JDeleteExpire | JUser 'f

record ('a, 'h, 'f) cache =
  interval :: duration
  fn :: "'f janitor"
  defaultExpire :: duration
  member :: "string \<rightharpoonup> 'a iterator"
  capture :: "'h option"
  cancelled :: bool

type_synonym ('a, 'h) captures = "('h \<times> string \<times> 'a gval) list"

section \<open>Options and construction\<close>

record ('a, 'h, 'f) Config =
  cfg_defaultExpire :: duration
  cfg_interval :: duration
  cfg_fn :: "'f option"
  cfg_capture :: "'h option"
  cfg_member :: "(string \<rightharpoonup> 'a iterator) option"

type_synonym ('a, 'h, 'f) cache_option = "('a, 'h, 'f) Config \<Rightarrow> ('a, 'h, 'f) Config"

definition SetInternal :: "duration \<Rightarrow> ('a, 'h, 'f) cache_option" where
  "SetInternal i c = c\<lparr>cfg_interval := i\<rparr>"

definition SetDefaultExpire :: "duration \<Rightarrow> ('a, 'h, 'f) cache_option" where
  "SetDefaultExpire d c = c\<lparr>cfg_defaultExpire := d\<rparr>"

definition SetFn :: "'f option \<Rightarrow> ('a, 'h, 'f) cache_option" where
  "SetFn f c = c\<lparr>cfg_fn := f\<rparr>"

definition SetCapture :: "'h option \<Rightarrow> ('a, 'h, 'f) cache_option" where
  "SetCapture h c = c\<lparr>cfg_capture := h\<rparr>"

definition SetMember :: "(string \<rightharpoonup> 'a iterator) option \<Rightarrow> ('a, 'h, 'f) cache_option" where
  "SetMember m c = c\<lparr>cfg_member := m\<rparr>"

text \<open>\<open>printer\<close> is the default capture handler, which prints the evicted pair.\<close>

definition NewCache :: "'h \<Rightarrow> ('a, 'h, 'f) cache_option list \<Rightarrow> ('a, 'h, 'f) cache" where
  "NewCache printer options =
     (let c = fold (\<lambda>option c. option c) options
                \<lparr>cfg_defaultExpire = 0, cfg_interval = 0, cfg_fn = None,
                 cfg_capture = Some printer, cfg_member = None\<rparr>
      in \<lparr>interval = cfg_interval c,
          fn = (case cfg_fn c of None \<Rightarrow> JDeleteExpire | Some f \<Rightarrow> JUser f),
          defaultExpire = cfg_defaultExpire c,
          member = (case cfg_member c of None \<Rightarrow> Map.empty | Some m \<Rightarrow> m),
          capture = cfg_capture c,
          cancelled = False\<rparr>)"

section \<open>Writing\<close>

text \<open>The expiry instant that \<open>Set\<close> and \<open>set\<close> compute from the requested duration.\<close>

definition expire_of :: "duration \<Rightarrow> gotime \<Rightarrow> duration \<Rightarrow> i64" where
  "expire_of dflt now d =
     (if d = NoExpire then 0
      else if d = DefaultExpire then
        (if 0 <s dflt then UnixNano (TimeAdd now dflt) else 0)
      else if 0 <s d then UnixNano (TimeAdd now d) else 0)"

definition set_unlocked ::
  "gotime \<Rightarrow> string \<Rightarrow> 'a gval \<Rightarrow> duration \<Rightarrow> ('a, 'h, 'f) cache \<Rightarrow> ('a, 'h, 'f) cache" where
  "set_unlocked now k v d c =
     (let expire = expire_of (defaultExpire c) now d
      in c\<lparr>member := (member c)(k \<mapsto> \<lparr>Val = v, Expire = expire\<rparr>)\<rparr>)"

definition Set ::
  "gotime \<Rightarrow> string \<Rightarrow> 'a gval \<Rightarrow> duration \<Rightarrow> ('a, 'h, 'f) cache \<Rightarrow> ('a, 'h, 'f) cache" where
  "Set now k v d c =
     (let expire = expire_of (defaultExpire c) now d
      in c\<lparr>member := (member c)(k \<mapsto> \<lparr>Val = v, Expire = expire\<rparr>)\<rparr>)"

definition SetDefault ::
  "gotime \<Rightarrow> string \<Rightarrow> 'a gval \<Rightarrow> ('a, 'h, 'f) cache \<Rightarrow> ('a, 'h, 'f) cache" where
  "SetDefault now k v c = Set now k v DefaultExpire c"

definition SetNoExpire ::
  "gotime \<Rightarrow> string \<Rightarrow> 'a gval \<Rightarrow> ('a, 'h, 'f) cache \<Rightarrow> ('a, 'h, 'f) cache" where
  "SetNoExpire now k v c = Set now k v NoExpire c"

section \<open>Removing\<close>

definition delete_unlocked ::
  "string \<Rightarrow> ('a, 'h, 'f) cache \<Rightarrow> ('a gval \<times> bool) \<times> ('a, 'h, 'f) cache" where
  "delete_unlocked k c =
     (case member c k of
        Some v \<Rightarrow> ((Val v, True), c\<lparr>member := (member c)(k := None)\<rparr>)
      | None \<Rightarrow> ((VNil, False), c))"

text \<open>The capture call made after the lock is released, with the handler read under it.\<close>

definition capture_call :: "'h option \<Rightarrow> string \<Rightarrow> 'a gval \<times> bool \<Rightarrow> ('a, 'h) captures" where
  "capture_call cap k r = (case r of (v, ok) \<Rightarrow>
     (case cap of Some h \<Rightarrow> if ok then [(h, k, v)] else [] | None \<Rightarrow> []))"

definition Delete ::
  "string \<Rightarrow> ('a, 'h, 'f) cache \<Rightarrow> ('a, 'h, 'f) cache \<times> ('a, 'h) captures" where
  "Delete k c =
     (let cap = capture c; (r, c') = delete_unlocked k c
      in (c', capture_call cap k r))"

definition expireEvictUnlock ::
  "string \<Rightarrow> ('a, 'h, 'f) cache \<Rightarrow> ('a, 'h, 'f) cache \<times> ('a, 'h) captures" where
  "expireEvictUnlock k c =
     (let cap = capture c; (r, c') = delete_unlocked k c
      in (c', capture_call cap k r))"

definition deleteExpired ::
  "gotime \<Rightarrow> string \<Rightarrow> ('a, 'h, 'f) cache \<Rightarrow> ('a, 'h, 'f) cache \<times> ('a, 'h) captures" where
  "deleteExpired now k c =
     (case member c k of
        None \<Rightarrow> (c, [])
      | Some v \<Rightarrow>
          if \<not> Expired v [] now then (c, [])
          else (c\<lparr>member := (member c)(k := None)\<rparr>, capture_call (capture c) k (Val v, True)))"

text \<open>The sweep: the loop over the map in the order \<open>ks\<close>, then the captures of what it removed.\<close>

fun sweep :: "i64 \<Rightarrow> string list \<Rightarrow> ('a, 'h, 'f) cache \<Rightarrow>
    (string \<times> 'a gval) list \<times> ('a, 'h, 'f) cache" where
  "sweep t [] c = ([], c)"
| "sweep t (k # ks) c =
     (case member c k of
        None \<Rightarrow> sweep t ks c
      | Some v \<Rightarrow>
          if Expired v [t] 0 then
            (let ((vv, ok), c1) = delete_unlocked k c; (kvList, c2) = sweep t ks c1
             in (if ok \<and> capture c \<noteq> None then ((k, vv) # kvList, c2) else (kvList, c2)))
          else sweep t ks c)"

definition DeleteExpire ::
  "gotime \<Rightarrow> string list \<Rightarrow> ('a, 'h, 'f) cache \<Rightarrow> ('a, 'h, 'f) cache \<times> ('a, 'h) captures" where
  "DeleteExpire now ks c =
     (let (kvList, c') = sweep (UnixNano now) ks c
      in (c', case capture c of
                None \<Rightarrow> []
              | Some h \<Rightarrow> map (\<lambda>(k, v). (h, k, v)) kvList))"

definition ChangeCapture :: "'h option \<Rightarrow> ('a, 'h, 'f) cache \<Rightarrow> ('a, 'h, 'f) cache" where
  "ChangeCapture f c = c\<lparr>capture := f\<rparr>"

section \<open>Reading\<close>

definition get_unlocked :: "gotime \<Rightarrow> string \<Rightarrow> ('a, 'h, 'f) cache \<Rightarrow> 'a gval \<times> bool" where
  "get_unlocked now k c =
     (case member c k of
        None \<Rightarrow> (VNil, False)
      | Some v \<Rightarrow> if Expired v [] now then (VNil, False) else (Val v, True))"

text \<open>
  The write-locked second section of \<open>Get\<close> and \<open>GetWithExpire\<close>: look again and evict only what is
  still expired.
\<close>

definition recheck_evict ::
  "gotime \<Rightarrow> string \<Rightarrow> ('a, 'h, 'f) cache \<Rightarrow> ('a, 'h, 'f) cache \<times> ('a, 'h) captures" where
  "recheck_evict now k c =
     (case member c k of
        Some cur \<Rightarrow> if Expired cur [] now then expireEvictUnlock k c else (c, [])
      | None \<Rightarrow> (c, []))"

text \<open>
  \<open>Get\<close>: a read-locked section at \<open>now\<close>; when the entry is expired, the interference \<open>env\<close> of other
  goroutines, then the write-locked section at \<open>now'\<close>.
\<close>

definition Get ::
  "(('a, 'h, 'f) cache \<Rightarrow> ('a, 'h, 'f) cache) \<Rightarrow> gotime \<Rightarrow> gotime \<Rightarrow> string \<Rightarrow> ('a, 'h, 'f) cache \<Rightarrow>
     ('a gval \<times> bool) \<times> ('a, 'h, 'f) cache \<times> ('a, 'h) captures" where
  "Get env now now' k c =
     (case member c k of
        None \<Rightarrow> ((VNil, False), c, [])
      | Some v \<Rightarrow>
          if \<not> Expired v [] now then ((Val v, True), c, [])
          else ((VNil, False), recheck_evict now' k (env c)))"

text \<open>The expiry instant \<open>GetWithExpire\<close> reports; \<open>None\<close> is the zero \<open>time.Time\<close>.\<close>

definition GetWithExpire ::
  "(('a, 'h, 'f) cache \<Rightarrow> ('a, 'h, 'f) cache) \<Rightarrow> gotime \<Rightarrow> gotime \<Rightarrow> string \<Rightarrow> ('a, 'h, 'f) cache \<Rightarrow>
     ('a gval \<times> gotime option \<times> bool) \<times> ('a, 'h, 'f) cache \<times> ('a, 'h) captures" where
  "GetWithExpire env now now' k c =
     (case member c k of
        None \<Rightarrow> ((VNil, None, False), c, [])
      | Some v \<Rightarrow>
          if \<not> Expired v [] now then
            (if 0 <s Expire v then ((Val v, Some (sint (Expire v)), True), c, [])
             else ((Val v, None, True), c, []))
          else ((VNil, None, False), recheck_evict now' k (env c)))"

text \<open>
  \<open>Add\<close> and \<open>Replace\<close> read the clock twice under one lock: \<open>now\<close> for the look-up and \<open>now'\<close> for
  the expiry of the new entry.
\<close>

definition Add ::
  "gotime \<Rightarrow> gotime \<Rightarrow> string \<Rightarrow> 'a gval \<Rightarrow> duration \<Rightarrow> ('a, 'h, 'f) cache \<Rightarrow>
     cache_err option \<times> ('a, 'h, 'f) cache" where
  "Add now now' k x d c =
     (if snd (get_unlocked now k c) then (Some CacheExist, c)
      else (None, set_unlocked now' k x d c))"

definition Replace ::
  "gotime \<Rightarrow> gotime \<Rightarrow> string \<Rightarrow> 'a gval \<Rightarrow> duration \<Rightarrow> ('a, 'h, 'f) cache \<Rightarrow>
     cache_err option \<times> ('a, 'h, 'f) cache" where
  "Replace now now' k x d c =
     (if \<not> snd (get_unlocked now k c) then (Some CacheNoExist, c)
      else (None, set_unlocked now' k x d c))"

section \<open>Counters\<close>

text \<open>
  The frame every counter method has: a missing key, an expired entry (evicted under the held lock),
  a value of another type, or the updated entry stored back with its expiry kept. \<open>f\<close> gives the new
  value, or \<open>None\<close> for a type error.
\<close>

definition modify ::
  "('a gval \<Rightarrow> ('a gval \<times> 'r) option) \<Rightarrow> 'r \<Rightarrow> gotime \<Rightarrow> string \<Rightarrow> ('a, 'h, 'f) cache \<Rightarrow>
     ('r \<times> cache_err option) \<times> ('a, 'h, 'f) cache \<times> ('a, 'h) captures" where
  "modify f z now k c =
     (case member c k of
        None \<Rightarrow> ((z, Some CacheNoExist), c, [])
      | Some v \<Rightarrow>
          if Expired v [] now then ((z, Some CacheExpire), expireEvictUnlock k c)
          else (case f (Val v) of
                  None \<Rightarrow> ((z, Some CacheTypeErr), c, [])
                | Some (x, ret) \<Rightarrow>
                    ((ret, None), c\<lparr>member := (member c)(k \<mapsto> v\<lparr>Val := x\<rparr>)\<rparr>, [])))"

text \<open>
  The conversions \<open>int8(n)\<close>, \<open>uint32(n)\<close> and so on of an \<open>int64\<close> truncate it, and
  \<open>float32(n)\<close>, \<open>float64(n)\<close> round it.
\<close>

fun incr_val :: "i64 \<Rightarrow> 'a gval \<Rightarrow> 'a gval option" where
  "incr_val n (VInt i) = Some (VInt (i + n))"
| "incr_val n (VInt8 i) = Some (VInt8 (i + ucast n))"
| "incr_val n (VInt16 i) = Some (VInt16 (i + ucast n))"
| "incr_val n (VInt32 i) = Some (VInt32 (i + ucast n))"
| "incr_val n (VInt64 i) = Some (VInt64 (i + n))"
| "incr_val n (VUint i) = Some (VUint (i + n))"
| "incr_val n (VUintptr i) = Some (VUintptr (i + n))"
| "incr_val n (VUint8 i) = Some (VUint8 (i + ucast n))"
| "incr_val n (VUint16 i) = Some (VUint16 (i + ucast n))"
| "incr_val n (VUint32 i) = Some (VUint32 (i + ucast n))"
| "incr_val n (VUint64 i) = Some (VUint64 (i + n))"
| "incr_val n (VFloat32 x) = Some (VFloat32 (fadd float32_fmt x (f_of_int float32_fmt (sint n))))"
| "incr_val n (VFloat64 x) = Some (VFloat64 (fadd float64_fmt x (f_of_int float64_fmt (sint n))))"
| "incr_val n v = None"

fun decr_val :: "i64 \<Rightarrow> 'a gval \<Rightarrow> 'a gval option" where
  "decr_val n (VInt i) = Some (VInt (i - n))"
| "decr_val n (VInt8 i) = Some (VInt8 (i - ucast n))"
| "decr_val n (VInt16 i) = Some (VInt16 (i - ucast n))"
| "decr_val n (VInt32 i) = Some (VInt32 (i - ucast n))"
| "decr_val n (VInt64 i) = Some (VInt64 (i - n))"
| "decr_val n (VUint i) = Some (VUint (i - n))"
| "decr_val n (VUintptr i) = Some (VUintptr (i - n))"
| "decr_val n (VUint8 i) = Some (VUint8 (i - ucast n))"
| "decr_val n (VUint16 i) = Some (VUint16 (i - ucast n))"
| "decr_val n (VUint32 i) = Some (VUint32 (i - ucast n))"
| "decr_val n (VUint64 i) = Some (VUint64 (i - n))"
| "decr_val n (VFloat32 x) = Some (VFloat32 (fsub float32_fmt x (f_of_int float32_fmt (sint n))))"
| "decr_val n (VFloat64 x) = Some (VFloat64 (fsub float64_fmt x (f_of_int float64_fmt (sint n))))"
| "decr_val n v = None"

fun incr_float_val :: "gofloat \<Rightarrow> 'a gval \<Rightarrow> 'a gval option" where
  "incr_float_val n (VFloat32 x) = Some (VFloat32 (fadd float32_fmt x (fconv float32_fmt n)))"
| "incr_float_val n (VFloat64 x) = Some (VFloat64 (fadd float64_fmt x n))"
| "incr_float_val n v = None"

fun decr_float_val :: "gofloat \<Rightarrow> 'a gval \<Rightarrow> 'a gval option" where
  "decr_float_val n (VFloat32 x) = Some (VFloat32 (fsub float32_fmt x (fconv float32_fmt n)))"
| "decr_float_val n (VFloat64 x) = Some (VFloat64 (fsub float64_fmt x n))"
| "decr_float_val n v = None"

abbreviation no_ret :: "('a gval \<Rightarrow> 'a gval option) \<Rightarrow> 'a gval \<Rightarrow> ('a gval \<times> unit) option" where
  "no_ret f v \<equiv> map_option (\<lambda>x. (x, ())) (f v)"

type_synonym ('a, 'h, 'f, 'r) counter_op =
  "gotime \<Rightarrow> string \<Rightarrow> ('a, 'h, 'f) cache \<Rightarrow>
     ('r \<times> cache_err option) \<times> ('a, 'h, 'f) cache \<times> ('a, 'h) captures"

definition Increment :: "i64 \<Rightarrow> ('a, 'h, 'f, unit) counter_op" where
  "Increment n = modify (no_ret (incr_val n)) ()"

definition IncrementFloat :: "gofloat \<Rightarrow> ('a, 'h, 'f, unit) counter_op" where
  "IncrementFloat n = modify (no_ret (incr_float_val n)) ()"

definition Decrement :: "i64 \<Rightarrow> ('a, 'h, 'f, unit) counter_op" where
  "Decrement n = modify (no_ret (decr_val n)) ()"

definition DecrementFloat :: "gofloat \<Rightarrow> ('a, 'h, 'f, unit) counter_op" where
  "DecrementFloat n = modify (no_ret (decr_float_val n)) ()"

text \<open>The typed increments: the type assertion on the stored value, then \<open>ret := i + n\<close>.\<close>

definition IncrementInt :: "i64 \<Rightarrow> ('a, 'h, 'f, i64) counter_op" where
  "IncrementInt n = modify (\<lambda>v. case v of VInt i \<Rightarrow> (let ret = i + n in Some (VInt ret, ret)) | _ \<Rightarrow> None) 0"

definition IncrementInt8 :: "i8 \<Rightarrow> ('a, 'h, 'f, i8) counter_op" where
  "IncrementInt8 n = modify (\<lambda>v. case v of VInt8 i \<Rightarrow> (let ret = i + n in Some (VInt8 ret, ret)) | _ \<Rightarrow> None) 0"

definition IncrementInt16 :: "i16 \<Rightarrow> ('a, 'h, 'f, i16) counter_op" where
  "IncrementInt16 n = modify (\<lambda>v. case v of VInt16 i \<Rightarrow> (let ret = i + n in Some (VInt16 ret, ret)) | _ \<Rightarrow> None) 0"

definition IncrementInt32 :: "i32 \<Rightarrow> ('a, 'h, 'f, i32) counter_op" where
  "IncrementInt32 n = modify (\<lambda>v. case v of VInt32 i \<Rightarrow> (let ret = i + n in Some (VInt32 ret, ret)) | _ \<Rightarrow> None) 0"

definition IncrementInt64 :: "i64 \<Rightarrow> ('a, 'h, 'f, i64) counter_op" where
  "IncrementInt64 n = modify (\<lambda>v. case v of VInt64 i \<Rightarrow> (let ret = i + n in Some (VInt64 ret, ret)) | _ \<Rightarrow> None) 0"

definition IncrementUint :: "u64 \<Rightarrow> ('a, 'h, 'f, u64) counter_op" where
  "IncrementUint n = modify (\<lambda>v. case v of VUint i \<Rightarrow> (let ret = i + n in Some (VUint ret, ret)) | _ \<Rightarrow> None) 0"

definition IncrementUint8 :: "u8 \<Rightarrow> ('a, 'h, 'f, u8) counter_op" where
  "IncrementUint8 n = modify (\<lambda>v. case v of VUint8 i \<Rightarrow> (let ret = i + n in Some (VUint8 ret, ret)) | _ \<Rightarrow> None) 0"

definition IncrementUint16 :: "u16 \<Rightarrow> ('a, 'h, 'f, u16) counter_op" where
  "IncrementUint16 n = modify (\<lambda>v. case v of VUint16 i \<Rightarrow> (let ret = i + n in Some (VUint16 ret, ret)) | _ \<Rightarrow> None) 0"

definition IncrementUint32 :: "u32 \<Rightarrow> ('a, 'h, 'f, u32) counter_op" where
  "IncrementUint32 n = modify (\<lambda>v. case v of VUint32 i \<Rightarrow> (let ret = i + n in Some (VUint32 ret, ret)) | _ \<Rightarrow> None) 0"

definition IncrementUint64 :: "u64 \<Rightarrow> ('a, 'h, 'f, u64) counter_op" where
  "IncrementUint64 n = modify (\<lambda>v. case v of VUint64 i \<Rightarrow> (let ret = i + n in Some (VUint64 ret, ret)) | _ \<Rightarrow> None) 0"

definition IncrementUintPtr :: "u64 \<Rightarrow> ('a, 'h, 'f, u64) counter_op" where
  "IncrementUintPtr n = modify (\<lambda>v. case v of VUintptr i \<Rightarrow> (let ret = i + n in Some (VUintptr ret, ret)) | _ \<Rightarrow> None) 0"

definition IncrementFloat32 :: "gofloat \<Rightarrow> ('a, 'h, 'f, gofloat) counter_op" where
  "IncrementFloat32 n = modify (\<lambda>v. case v of VFloat32 i \<Rightarrow> (let ret = fadd float32_fmt i n in Some (VFloat32 ret, ret)) | _ \<Rightarrow> None) (FNum 0)"

definition IncrementFloat64 :: "gofloat \<Rightarrow> ('a, 'h, 'f, gofloat) counter_op" where
  "IncrementFloat64 n = modify (\<lambda>v. case v of VFloat64 i \<Rightarrow> (let ret = fadd float64_fmt i n in Some (VFloat64 ret, ret)) | _ \<Rightarrow> None) (FNum 0)"

text \<open>The typed decrements: the type assertion on the stored value, then \<open>ret := i - n\<close>.\<close>

definition DecrementInt :: "i64 \<Rightarrow> ('a, 'h, 'f, i64) counter_op" where
  "DecrementInt n = modify (\<lambda>v. case v of VInt i \<Rightarrow> (let ret = i - n in Some (VInt ret, ret)) | _ \<Rightarrow> None) 0"

definition DecrementInt8 :: "i8 \<Rightarrow> ('a, 'h, 'f, i8) counter_op" where
  "DecrementInt8 n = modify (\<lambda>v. case v of VInt8 i \<Rightarrow> (let ret = i - n in Some (VInt8 ret, ret)) | _ \<Rightarrow> None) 0"

definition DecrementInt16 :: "i16 \<Rightarrow> ('a, 'h, 'f, i16) counter_op" where
  "DecrementInt16 n = modify (\<lambda>v. case v of VInt16 i \<Rightarrow> (let ret = i - n in Some (VInt16 ret, ret)) | _ \<Rightarrow> None) 0"

definition DecrementInt32 :: "i32 \<Rightarrow> ('a, 'h, 'f, i32) counter_op" where
  "DecrementInt32 n = modify (\<lambda>v. case v of VInt32 i \<Rightarrow> (let ret = i - n in Some (VInt32 ret, ret)) | _ \<Rightarrow> None) 0"

definition DecrementInt64 :: "i64 \<Rightarrow> ('a, 'h, 'f, i64) counter_op" where
  "DecrementInt64 n = modify (\<lambda>v. case v of VInt64 i \<Rightarrow> (let ret = i - n in Some (VInt64 ret, ret)) | _ \<Rightarrow> None) 0"

definition DecrementUint :: "u64 \<Rightarrow> ('a, 'h, 'f, u64) counter_op" where
  "DecrementUint n = modify (\<lambda>v. case v of VUint i \<Rightarrow> (let ret = i - n in Some (VUint ret, ret)) | _ \<Rightarrow> None) 0"

definition DecrementUint8 :: "u8 \<Rightarrow> ('a, 'h, 'f, u8) counter_op" where
  "DecrementUint8 n = modify (\<lambda>v. case v of VUint8 i \<Rightarrow> (let ret = i - n in Some (VUint8 ret, ret)) | _ \<Rightarrow> None) 0"

definition DecrementUint16 :: "u16 \<Rightarrow> ('a, 'h, 'f, u16) counter_op" where
  "DecrementUint16 n = modify (\<lambda>v. case v of VUint16 i \<Rightarrow> (let ret = i - n in Some (VUint16 ret, ret)) | _ \<Rightarrow> None) 0"

definition DecrementUint32 :: "u32 \<Rightarrow> ('a, 'h, 'f, u32) counter_op" where
  "DecrementUint32 n = modify (\<lambda>v. case v of VUint32 i \<Rightarrow> (let ret = i - n in Some (VUint32 ret, ret)) | _ \<Rightarrow> None) 0"

definition DecrementUint64 :: "u64 \<Rightarrow> ('a, 'h, 'f, u64) counter_op" where
  "DecrementUint64 n = modify (\<lambda>v. case v of VUint64 i \<Rightarrow> (let ret = i - n in Some (VUint64 ret, ret)) | _ \<Rightarrow> None) 0"

definition DecrementUintPtr :: "u64 \<Rightarrow> ('a, 'h, 'f, u64) counter_op" where
  "DecrementUintPtr n = modify (\<lambda>v. case v of VUintptr i \<Rightarrow> (let ret = i - n in Some (VUintptr ret, ret)) | _ \<Rightarrow> None) 0"

definition DecrementFloat32 :: "gofloat \<Rightarrow> ('a, 'h, 'f, gofloat) counter_op" where
  "DecrementFloat32 n = modify (\<lambda>v. case v of VFloat32 i \<Rightarrow> (let ret = fsub float32_fmt i n in Some (VFloat32 ret, ret)) | _ \<Rightarrow> None) (FNum 0)"

definition DecrementFloat64 :: "gofloat \<Rightarrow> ('a, 'h, 'f, gofloat) counter_op" where
  "DecrementFloat64 n = modify (\<lambda>v. case v of VFloat64 i \<Rightarrow> (let ret = fsub float64_fmt i n in Some (VFloat64 ret, ret)) | _ \<Rightarrow> None) (FNum 0)"

section \<open>Snapshots, iteration and shutdown\<close>

text \<open>
  \<open>encoding/gob\<close> and the file system are outside the repository: \<open>enc\<close> and \<open>dec\<close> are what the codec
  does with a snapshot, \<open>GobPanic\<close> a panic that \<open>Save\<close> recovers from.
\<close>

datatype ('w, 'e) gob_out = GobOk 'w | GobErr 'e | GobPanic

datatype ('w, 'e) save_result = Saved 'w | SaveErr 'e | SaveGobErr

definition Save ::
  "((string \<rightharpoonup> 'a iterator) \<Rightarrow> ('w, 'e) gob_out) \<Rightarrow> ('a, 'h, 'f) cache \<Rightarrow> ('w, 'e) save_result" where
  "Save enc c =
     (let snapshot = member c
      in case enc snapshot of GobOk w \<Rightarrow> Saved w | GobErr e \<Rightarrow> SaveErr e | GobPanic \<Rightarrow> SaveGobErr)"

text \<open>The loop of \<open>Load\<close> over the decoded map in the order \<open>ks\<close>; \<open>now k\<close> is the instant at which
  the resident entry of \<open>k\<close> is tested.\<close>

fun load_loop ::
  "(string \<Rightarrow> gotime) \<Rightarrow> (string \<rightharpoonup> 'a iterator) \<Rightarrow> string list \<Rightarrow> (string \<rightharpoonup> 'a iterator) \<Rightarrow>
     (string \<rightharpoonup> 'a iterator)" where
  "load_loop now src [] m = m"
| "load_loop now src (k # ks) m =
     (case src k of
        None \<Rightarrow> load_loop now src ks m
      | Some iterator \<Rightarrow>
          (case m k of
             None \<Rightarrow> load_loop now src ks (m(k \<mapsto> iterator))
           | Some v \<Rightarrow>
               if Expired v [] (now k) then load_loop now src ks (m(k \<mapsto> iterator))
               else load_loop now src ks m))"

definition Load ::
  "('w \<Rightarrow> 'e + (string \<rightharpoonup> 'a iterator)) \<Rightarrow> (string \<Rightarrow> gotime) \<Rightarrow> string list \<Rightarrow> 'w \<Rightarrow>
     ('a, 'h, 'f) cache \<Rightarrow> 'e option \<times> ('a, 'h, 'f) cache" where
  "Load dec now ks r c =
     (case dec r of
        Inl err \<Rightarrow> (Some err, c)
      | Inr src \<Rightarrow> (None, c\<lparr>member := load_loop now src ks (member c)\<rparr>))"

text \<open>\<open>SaveFile\<close> and \<open>LoadFile\<close>: the outcome of opening the file, then \<open>Save\<close> or \<open>Load\<close> on it.\<close>

definition SaveFile ::
  "'e option \<Rightarrow> ((string \<rightharpoonup> 'a iterator) \<Rightarrow> ('w, 'e) gob_out) \<Rightarrow> ('a, 'h, 'f) cache \<Rightarrow>
     ('w, 'e) save_result" where
  "SaveFile create_err enc c = (case create_err of Some err \<Rightarrow> SaveErr err | None \<Rightarrow> Save enc c)"

definition LoadFile ::
  "'e + 'w \<Rightarrow> ('w \<Rightarrow> 'e + (string \<rightharpoonup> 'a iterator)) \<Rightarrow> (string \<Rightarrow> gotime) \<Rightarrow> string list \<Rightarrow>
     ('a, 'h, 'f) cache \<Rightarrow> 'e option \<times> ('a, 'h, 'f) cache" where
  "LoadFile opened dec now ks c =
     (case opened of Inl err \<Rightarrow> (Some err, c) | Inr f \<Rightarrow> Load dec now ks f c)"

text \<open>The read-locked loop of \<open>Iterator\<close>: the live entries and the keys found expired.\<close>

fun iterator_loop ::
  "(string \<Rightarrow> gotime) \<Rightarrow> string list \<Rightarrow> (string \<rightharpoonup> 'a iterator) \<Rightarrow>
     (string \<rightharpoonup> 'a iterator) \<times> string list" where
  "iterator_loop now [] m = (Map.empty, [])"
| "iterator_loop now (k # ks) m =
     (let (ret, keys) = iterator_loop now ks m
      in case m k of
           None \<Rightarrow> (ret, keys)
         | Some v \<Rightarrow> if \<not> Expired v [] (now k) then (ret(k \<mapsto> v), keys) else (ret, k # keys))"

text \<open>Each expired key is removed in a critical section of its own, after interference \<open>env k\<close>.\<close>

fun evict_keys ::
  "(string \<Rightarrow> ('a, 'h, 'f) cache \<Rightarrow> ('a, 'h, 'f) cache) \<Rightarrow> (string \<Rightarrow> gotime) \<Rightarrow> string list \<Rightarrow>
     ('a, 'h, 'f) cache \<Rightarrow> ('a, 'h, 'f) cache \<times> ('a, 'h) captures" where
  "evict_keys env now [] c = (c, [])"
| "evict_keys env now (k # ks) c =
     (let (c1, ev1) = deleteExpired (now k) k (env k c); (c2, ev2) = evict_keys env now ks c1
      in (c2, ev1 @ ev2))"

definition Iterator ::
  "(string \<Rightarrow> ('a, 'h, 'f) cache \<Rightarrow> ('a, 'h, 'f) cache) \<Rightarrow> (string \<Rightarrow> gotime) \<Rightarrow> (string \<Rightarrow> gotime) \<Rightarrow>
     string list \<Rightarrow> ('a, 'h, 'f) cache \<Rightarrow>
     (string \<rightharpoonup> 'a iterator) \<times> ('a, 'h, 'f) cache \<times> ('a, 'h) captures" where
  "Iterator env now now' ks c =
     (let (ret, keys) = iterator_loop now ks (member c)
      in (ret, evict_keys env now' keys c))"

definition Count :: "('a, 'h, 'f) cache \<Rightarrow> nat" where
  "Count c = card (dom (member c))"

definition Flush :: "('a, 'h, 'f) cache \<Rightarrow> ('a, 'h, 'f) cache" where
  "Flush c = c\<lparr>member := Map.empty\<rparr>"

definition Shutdown :: "('a, 'h, 'f) cache \<Rightarrow> ('a, 'h, 'f) cache" where
  "Shutdown c = (Flush c)\<lparr>cancelled := True\<rparr>"

section \<open>The janitor\<close>

text \<open>
  The select loop of the sentinel over the events it receives: a tick runs the periodic function,
  the cancelled context ends the loop. A janitor with a non-positive interval never runs.
\<close>

datatype sentinel_event = Tick gotime | Done

fun sentinel_loop :: "(gotime \<Rightarrow> 's \<Rightarrow> 's) \<Rightarrow> sentinel_event list \<Rightarrow> 's \<Rightarrow> 's" where
  "sentinel_loop f [] s = s"
| "sentinel_loop f (Tick now # es) s = sentinel_loop f es (f now s)"
| "sentinel_loop f (Done # es) s = s"

definition sentinel_Start :: "duration \<Rightarrow> (gotime \<Rightarrow> 's \<Rightarrow> 's) \<Rightarrow> sentinel_event list \<Rightarrow> 's \<Rightarrow> 's" where
  "sentinel_Start i f es s = (if i <=s 0 then s else sentinel_loop f es s)"

section \<open>Abstract view\<close>

text \<open>
  What a cache holds at an instant: the values of the entries that are not expired. The methods are
  specified by what they do to this view.
\<close>

definition view :: "gotime \<Rightarrow> ('a, 'h, 'f) cache \<Rightarrow> string \<rightharpoonup> 'a gval" where
  "view t c k = (case member c k of
     None \<Rightarrow> None
   | Some it \<Rightarrow> if Expired it [] t then None else Some (Val it))"

text \<open>Whether an entry stored at \<open>t0\<close> with duration \<open>d\<close> is live at \<open>t\<close>.\<close>

definition lives :: "('a, 'h, 'f) cache \<Rightarrow> gotime \<Rightarrow> duration \<Rightarrow> gotime \<Rightarrow> bool" where
  "lives c t0 d t \<longleftrightarrow> \<not> (let e = expire_of (defaultExpire c) t0 d in e \<noteq> 0 \<and> e <s UnixNano t)"

text \<open>The atomic sections a cache goes through, with the instants they read.\<close>

datatype ('a, 'h) cache_op =
    OpSet gotime string "'a gval" duration
  | OpAdd gotime gotime string "'a gval" duration
  | OpReplace gotime gotime string "'a gval" duration
  | OpRecheck gotime string
  | OpIncrement i64 gotime string
  | OpDecrement i64 gotime string
  | OpDelete string
  | OpDeleteExpired gotime string
  | OpDeleteExpire gotime "string list"
  | OpChangeCapture "'h option"
  | OpLoad "string \<Rightarrow> gotime" "string list" "string \<rightharpoonup> 'a iterator"
  | OpFlush

fun exec_op :: "('a, 'h) cache_op \<Rightarrow> ('a, 'h, 'f) cache \<Rightarrow> ('a, 'h, 'f) cache" where
  "exec_op (OpSet now k v d) c = Set now k v d c"
| "exec_op (OpAdd now now' k v d) c = snd (Add now now' k v d c)"
| "exec_op (OpReplace now now' k v d) c = snd (Replace now now' k v d c)"
| "exec_op (OpRecheck now k) c = fst (recheck_evict now k c)"
| "exec_op (OpIncrement n now k) c = fst (snd (Increment n now k c))"
| "exec_op (OpDecrement n now k) c = fst (snd (Decrement n now k c))"
| "exec_op (OpDelete k) c = fst (Delete k c)"
| "exec_op (OpDeleteExpired now k) c = fst (deleteExpired now k c)"
| "exec_op (OpDeleteExpire now ks) c = fst (DeleteExpire now ks c)"
| "exec_op (OpChangeCapture h) c = ChangeCapture h c"
| "exec_op (OpLoad now ks src) c = c\<lparr>member := load_loop now src ks (member c)\<rparr>"
| "exec_op OpFlush c = Flush c"

text \<open>The sections that may change a live entry of \<open>k\<close>, and the instants at which a section tests it.\<close>

fun writes_key :: "string \<Rightarrow> ('a, 'h) cache_op \<Rightarrow> bool" where
  "writes_key k (OpSet now j v d) = (j = k)"
| "writes_key k (OpReplace now now' j v d) = (j = k)"
| "writes_key k (OpIncrement n now j) = (j = k)"
| "writes_key k (OpDecrement n now j) = (j = k)"
| "writes_key k (OpDelete j) = (j = k)"
| "writes_key k OpFlush = True"
| "writes_key k op = False"

fun op_times :: "string \<Rightarrow> ('a, 'h) cache_op \<Rightarrow> gotime set" where
  "op_times k (OpAdd now now' j v d) = {now}"
| "op_times k (OpRecheck now j) = {now}"
| "op_times k (OpDeleteExpired now j) = {now}"
| "op_times k (OpDeleteExpire now ks) = {now}"
| "op_times k (OpLoad now ks src) = {now k}"
| "op_times k op = {}"

section \<open>Lemmas\<close>

named_theorems cache_defs \<open>definitions of the cache methods\<close>

lemmas [cache_defs] = Set_def set_unlocked_def get_unlocked_def Add_def Replace_def Delete_def
  delete_unlocked_def expireEvictUnlock_def recheck_evict_def deleteExpired_def Flush_def
  ChangeCapture_def modify_def Let_def

lemma Expired_now: "Expired i [] now \<longleftrightarrow> Expire i \<noteq> 0 \<and> sint (Expire i) < sint (UnixNano now)"
  by (simp add: Expired_def word_sless_alt)

lemma Expired_at: "Expired i [UnixNano now] t \<longleftrightarrow> Expired i [] now"
  by (simp add: Expired_def)

lemma Expired_mono:
  "Expired i [] t \<Longrightarrow> t \<le> t' \<Longrightarrow> nano_range t \<Longrightarrow> nano_range t' \<Longrightarrow> Expired i [] t'"
  by (auto simp: Expired_now sint_UnixNano)

lemma view_Set:
  "view t (Set t0 k v d c) = (view t c)(k := if lives c t0 d t then Some v else None)"
  by (rule ext) (simp add: view_def lives_def Expired_def cache_defs)

lemma view_Delete: "view t (fst (Delete k c)) = (view t c)(k := None)"
  by (rule ext) (auto simp: view_def cache_defs split: option.splits)

lemma lives_Set [simp]: "lives (Set t0 k v d c) = lives c"
  by (simp add: fun_eq_iff lives_def cache_defs)

lemma lives_no_wrap:
  assumes "0 <s d" and "nano_range (t0 + sint d)" and "t0 + sint d \<noteq> 0" and "nano_range t"
  shows "lives c t0 d t \<longleftrightarrow> t \<le> t0 + sint d"
proof -
  have "d \<noteq> NoExpire" "d \<noteq> DefaultExpire"
    using assms(1) by (auto simp: NoExpire_def DefaultExpire_def word_sless_alt)
  then show ?thesis
    using assms by (auto simp: lives_def expire_of_def TimeAdd_def word_sless_alt sint_UnixNano UnixNano_eq_0)
qed

lemma lives_wrap:
  assumes "0 \<le> t0" and "max_i64 < t0 + sint d" and "t0 \<le> max_i64" and "0 \<le> t" and "t \<le> max_i64"
  shows "\<not> lives c t0 d t"
proof -
  have d: "0 < sint d" "sint d \<le> max_i64"
    using assms sint64_bounds [of d] by linarith+
  then have "d \<noteq> NoExpire" "d \<noteq> DefaultExpire"
    by (auto simp: NoExpire_def DefaultExpire_def)
  moreover have "sint (UnixNano (t0 + sint d)) = t0 + sint d - 2 ^ 64"
    using assms d by (subst UnixNano_wrap) (simp_all add: sint_UnixNano)
  moreover have "t0 + sint d - 2 ^ 64 < 0"
    using assms d by simp
  ultimately show ?thesis
    using assms d
    by (auto simp: lives_def expire_of_def TimeAdd_def word_sless_alt sint_UnixNano Let_def
        simp flip: sint64_eq_0)
qed

text \<open>The result of \<open>Get\<close> is the view at the instant of its first section.\<close>

lemma Get_result:
  "fst (Get env now now' k c) = (case view now c k of None \<Rightarrow> (VNil, False) | Some v \<Rightarrow> (v, True))"
  by (simp add: Get_def view_def split: option.splits)

lemma recheck_evict_member:
  "member (fst (recheck_evict now k c)) =
     (if \<exists>it. member c k = Some it \<and> Expired it [] now then (member c)(k := None) else member c)"
  by (auto simp: cache_defs split: option.splits)

lemma view_recheck:
  assumes "nano_range now" and "nano_range t" and "now \<le> t"
  shows "view t (fst (recheck_evict now k c)) = view t c"
  using assms Expired_mono [of _ now t]
  by (auto simp: fun_eq_iff view_def recheck_evict_member split: option.splits)

lemma sweep_spec:
  assumes "distinct ks"
  shows "sweep (UnixNano now) ks c =
     ((if capture c = None then [] else map (\<lambda>k. (k, Val (the (member c k))))
         (filter (\<lambda>k. \<exists>it. member c k = Some it \<and> Expired it [] now) ks)),
      c\<lparr>member := (\<lambda>k. if k \<in> set ks \<and> (\<exists>it. member c k = Some it \<and> Expired it [] now)
                      then None else member c k)\<rparr>)"
  using assms
proof (induction ks arbitrary: c)
  case Nil
  then show ?case by simp
next
  case (Cons k ks)
  let ?dead = "\<lambda>m j. \<exists>it. m j = Some it \<and> Expired it [] now"
  let ?m = "(member c)(k := None)"
  show ?case
  proof (cases "?dead (member c) k")
    case True
    then obtain it where it: "member c k = Some it" "Expired it [] now" by blast
    have step: "sweep (UnixNano now) (k # ks) c =
      (let (kvList, c2) = sweep (UnixNano now) ks (c\<lparr>member := ?m\<rparr>)
       in (if capture c \<noteq> None then ((k, Val it) # kvList, c2) else (kvList, c2)))"
      using it by (simp add: Expired_at delete_unlocked_def Let_def)
    have flt: "filter (?dead ?m) ks = filter (?dead (member c)) ks"
      using Cons.prems by (intro filter_cong) auto
    have vals: "map (\<lambda>j. (j, Val (the (?m j)))) (filter (?dead (member c)) ks) =
        map (\<lambda>j. (j, Val (the (member c j)))) (filter (?dead (member c)) ks)"
      using Cons.prems by (intro map_cong) auto
    have mem: "(\<lambda>j. if j \<in> set ks \<and> ?dead ?m j then None else ?m j) =
        (\<lambda>j. if j \<in> set (k # ks) \<and> ?dead (member c) j then None else member c j)"
      using it by (auto simp: fun_eq_iff)
    have IH: "sweep (UnixNano now) ks (c\<lparr>member := ?m\<rparr>) =
       (if capture c = None then [] else map (\<lambda>j. (j, Val (the (?m j)))) (filter (?dead ?m) ks),
        c\<lparr>member := \<lambda>j. if j \<in> set ks \<and> ?dead ?m j then None else ?m j\<rparr>)"
      using Cons.IH [of "c\<lparr>member := ?m\<rparr>"] Cons.prems by (simp cong: if_cong)
    show ?thesis
      unfolding step IH flt vals mem using it by simp
  next
    case False
    have step: "sweep (UnixNano now) (k # ks) c = sweep (UnixNano now) ks c"
      using False by (auto simp: Expired_at split: option.splits)
    have mem: "(\<lambda>j. if j \<in> set ks \<and> ?dead (member c) j then None else member c j) =
        (\<lambda>j. if j \<in> set (k # ks) \<and> ?dead (member c) j then None else member c j)"
      using False by (auto simp: fun_eq_iff)
    show ?thesis
      unfolding step using Cons.IH [of c] Cons.prems False
      by (simp only: mem distinct.simps filter.simps if_False)
  qed
qed

text \<open>One round of the loop of \<open>Load\<close> and what the whole loop does to a key.\<close>

definition loads :: "(string \<Rightarrow> gotime) \<Rightarrow> (string \<rightharpoonup> 'a iterator) \<Rightarrow> (string \<rightharpoonup> 'a iterator) \<Rightarrow> string \<Rightarrow> bool" where
  "loads now src m k \<longleftrightarrow>
     src k \<noteq> None \<and> (case m k of None \<Rightarrow> True | Some v \<Rightarrow> Expired v [] (now k))"

lemma load_loop_Cons:
  "load_loop now src (k # ks) m =
     load_loop now src ks (if loads now src m k then m(k := src k) else m)"
  by (simp add: loads_def split: option.splits)

lemma load_loop_apply:
  assumes "distinct ks"
  shows "load_loop now src ks m k = (if k \<in> set ks \<and> loads now src m k then src k else m k)"
  using assms
proof (induction ks arbitrary: m)
  case (Cons j ks)
  have frame: "loads now src (m(j := src j)) k \<longleftrightarrow> loads now src m k" if "k \<noteq> j"
    using that by (simp add: loads_def)
  show ?case
    unfolding load_loop_Cons using Cons frame by (cases "k = j") auto
qed simp

lemma modify_member:
  "member (fst (snd (modify f z now k c))) j =
     (if j \<noteq> k then member c j
      else case member c k of
             None \<Rightarrow> None
           | Some v \<Rightarrow> if Expired v [] now then None
                      else case f (Val v) of None \<Rightarrow> Some v | Some (x, ret) \<Rightarrow> Some (v\<lparr>Val := x\<rparr>))"
  by (auto simp: cache_defs split: option.splits)

text \<open>A live entry survives every section that is not a write to its key.\<close>

lemma exec_op_keeps:
  assumes it: "member c k = Some it" and live: "\<And>t. t \<in> op_times k op \<Longrightarrow> \<not> Expired it [] t"
    and nw: "\<not> writes_key k op" and order: "\<And>now ks. op = OpDeleteExpire now ks \<Longrightarrow> distinct ks"
      "\<And>now ks src. op = OpLoad now ks src \<Longrightarrow> distinct ks"
  shows "member (exec_op op c) k = Some it"
proof (cases op)
  case (OpDeleteExpire now ks)
  then show ?thesis
    using it live order(1) by (simp add: DeleteExpire_def sweep_spec Let_def split: prod.splits)
next
  case (OpLoad now ks src)
  then show ?thesis
    using it live order(2) by (simp add: load_loop_apply loads_def)
next
  case (OpIncrement n now j)
  then show ?thesis using it nw by (simp add: Increment_def modify_member)
next
  case (OpDecrement n now j)
  then show ?thesis using it nw by (simp add: Decrement_def modify_member)
qed (use it live nw in \<open>auto simp: cache_defs split: option.splits\<close>)

section \<open>The contract of an expiring store\<close>

text \<open>
  What clients of the cache rely on: storing and removing change the view of one key only, and
  a stored value is visible exactly while it lives. \<open>add\<close> stores only where nothing is visible and
  \<open>replace\<close> only where something is.
\<close>

locale expiring_store =
  fixes look :: "gotime \<Rightarrow> 's \<Rightarrow> 'k \<rightharpoonup> 'v"
    and alive :: "'s \<Rightarrow> gotime \<Rightarrow> duration \<Rightarrow> gotime \<Rightarrow> bool"
    and put :: "gotime \<Rightarrow> 'k \<Rightarrow> 'v \<Rightarrow> duration \<Rightarrow> 's \<Rightarrow> 's"
    and del :: "'k \<Rightarrow> 's \<Rightarrow> 's"
    and add :: "gotime \<Rightarrow> gotime \<Rightarrow> 'k \<Rightarrow> 'v \<Rightarrow> duration \<Rightarrow> 's \<Rightarrow> cache_err option \<times> 's"
    and replace :: "gotime \<Rightarrow> gotime \<Rightarrow> 'k \<Rightarrow> 'v \<Rightarrow> duration \<Rightarrow> 's \<Rightarrow> cache_err option \<times> 's"
  assumes look_put: "look t (put t0 k v d s) = (look t s)(k := if alive s t0 d t then Some v else None)"
    and look_del: "look t (del k s) = (look t s)(k := None)"
    and alive_put: "alive (put t0 k v d s) = alive s"
    and add_spec: "add t t0 k v d s =
       (if look t s k = None then (None, put t0 k v d s) else (Some CacheExist, s))"
    and replace_spec: "replace t t0 k v d s =
       (if look t s k = None then (Some CacheNoExist, s) else (None, put t0 k v d s))"
begin

lemma put_commute:
  "j \<noteq> k \<Longrightarrow> look t (put t1 j w e (put t0 k v d s)) = look t (put t0 k v d (put t1 j w e s))"
  by (simp add: look_put alive_put fun_upd_twist)

lemma add_once:
  assumes "fst (add t t0 k v d s) = None" and "alive s t0 d t'"
  shows "add t' t1 k w e (snd (add t t0 k v d s)) = (Some CacheExist, snd (add t t0 k v d s))"
    and "fst (replace t' t1 k w e (snd (add t t0 k v d s))) = None"
  using assms by (auto simp: add_spec replace_spec look_put split: if_splits)

lemma add_xor_replace:
  "(fst (add t t0 k v d s) = None) \<noteq> (fst (replace t t0 k v d s) = None)"
  by (simp add: add_spec replace_spec)

lemma add_after_del: "fst (add t t0 k v d (del k s)) = None"
  by (simp add: add_spec look_del)

end

interpretation lc: expiring_store view lives Set "\<lambda>k c. fst (Delete k c)" Add Replace
proof unfold_locales
  show "Add t t0 k v d s =
      (if view t s k = None then (None, Set t0 k v d s) else (Some CacheExist, s))"
    for t t0 k v d and s :: "('a, 'h, 'f) cache"
    by (simp add: view_def cache_defs split: option.splits)
  show "Replace t t0 k v d s =
      (if view t s k = None then (Some CacheNoExist, s) else (None, Set t0 k v d s))"
    for t t0 k v d and s :: "('a, 'h, 'f) cache"
    by (simp add: view_def cache_defs split: option.splits)
qed (simp_all add: view_Set view_Delete)

section \<open>Properties\<close>

text \<open>A small cache for the witnesses: one entry that expires at instant 100 and one that never does.\<close>

definition demo_cache :: "(nat, nat, nat) cache" where
  "demo_cache = \<lparr>interval = 0, fn = JDeleteExpire, defaultExpire = 0,
     member = [''a'' \<mapsto> \<lparr>Val = VInt8 127, Expire = 100\<rparr>, ''b'' \<mapsto> \<lparr>Val = VOther 7, Expire = 0\<rparr>],
     capture = Some 1, cancelled = False\<rparr>"

lemma demo_Expired:
  "Expired \<lparr>Val = v, Expire = 100\<rparr> [] 50 = False" "Expired \<lparr>Val = v, Expire = 100\<rparr> [] 200 = True"
  "Expired \<lparr>Val = v, Expire = 0\<rparr> [] t = False"
  by (simp_all add: Expired_now UnixNano_def)

text \<open>
  C18: When \<open>Get\<close> finds its entry expired and another goroutine stores fresh entries before \<open>Get\<close>
  takes the write lock, no entry is lost: every entry present at that moment is still there
  afterwards, unless it is the entry of the requested key and is itself expired.
\<close>

theorem Get_keeps_fresh:
  assumes "member c k = Some v" and "Expired v [] now"
    and "member (env c) j = Some it" and "j \<noteq> k \<or> \<not> Expired it [] now'"
  shows "member (fst (snd (Get env now now' k c))) j = Some it"
  using assms by (auto simp: Get_def recheck_evict_member)

theorem Get_keeps_fresh_witness:
  "member (fst (snd (Get (Set 200 ''a'' (VInt 5) (- 1)) 200 200 ''a'' demo_cache))) ''a'' =
     Some \<lparr>Val = VInt 5, Expire = 0\<rparr>"
  by (rule Get_keeps_fresh [where v = "\<lparr>Val = VInt8 127, Expire = 100\<rparr>"])
    (simp_all add: demo_cache_def demo_Expired cache_defs expire_of_def NoExpire_def)

text \<open>
  C28: The value \<open>Get\<close> returns is the one visible at the instant it looks, and without interference
  it changes nothing that is visible then or later, although it may evict.
\<close>

theorem Get_refines_view:
  assumes "nano_range now" and "nano_range t" and "now \<le> t"
  shows "fst (Get env now now' k c) = (case view now c k of None \<Rightarrow> (VNil, False) | Some v \<Rightarrow> (v, True))
    \<and> view t (fst (snd (Get id now now k c))) = view t c"
  using assms by (simp add: Get_result) (simp add: Get_def view_recheck split: option.splits)

theorem Get_refines_view_witness:
  "fst (Get id 200 200 ''a'' demo_cache) = (VNil, False)
    \<and> view 300 (fst (snd (Get id 200 200 ''a'' demo_cache))) = view 300 demo_cache"
  using Get_refines_view [of 200 300 id 200 "''a''" demo_cache]
  by (simp add: view_def demo_cache_def demo_Expired)

text \<open>
  C34: A value stored with a positive duration is returned by \<open>Get\<close> up to and including the instant
  its duration has elapsed, and is a miss at every later instant, as long as the expiry instant fits
  the 64-bit nanosecond counter.
\<close>

theorem Set_Get_lifetime:
  assumes "0 <s d" and "nano_range (t0 + sint d)" and "t0 + sint d \<noteq> 0" and "nano_range t"
  shows "fst (Get env t t' k (Set t0 k v d c)) = (if t \<le> t0 + sint d then (v, True) else (VNil, False))"
  using assms by (simp add: Get_result view_Set lives_no_wrap)

theorem Set_Get_lifetime_witness:
  "fst (Get id 60 60 ''x'' (Set 10 ''x'' (VInt 3) 50 demo_cache)) = (VInt 3, True)
    \<and> fst (Get id 61 61 ''x'' (Set 10 ''x'' (VInt 3) 50 demo_cache)) = (VNil, False)"
  using Set_Get_lifetime [of 50 10 60 id 60 "''x''" "VInt 3" demo_cache]
    Set_Get_lifetime [of 50 10 61 id 61 "''x''" "VInt 3" demo_cache]
  by (simp add: word_sless_alt)

text \<open>
  A duration that carries the expiry instant past the largest 64-bit nanosecond count makes the
  counter wrap to a negative instant: the entry is a miss from the start, although it was stored
  with the longest of lifetimes.
\<close>

theorem Set_overflow_expires_at_once:
  assumes "0 \<le> t0" and "t0 \<le> max_i64" and "max_i64 < t0 + sint d" and "0 \<le> t" and "t \<le> max_i64"
  shows "fst (Get env t t' k (Set t0 k v d c)) = (VNil, False)"
  using assms by (simp add: Get_result view_Set lives_wrap)

theorem Set_overflow_expires_at_once_witness:
  "fst (Get id 1700000000000000000 1700000000000000000 ''x''
     (Set 1700000000000000000 ''x'' (VInt 3) 9223372036854775807 demo_cache)) = (VNil, False)"
  by (rule Set_overflow_expires_at_once) simp_all

text \<open>
  C35: \<open>DeleteExpire\<close> removes exactly the expired entries, in whatever order Go iterates over the
  map, and calls the capture handler once for each removed pair, in that order, after unlocking.
\<close>

theorem DeleteExpire_exact:
  assumes "distinct ks" and "set ks = dom (member c)"
  shows "DeleteExpire now ks c =
     (c\<lparr>member := \<lambda>k. case member c k of None \<Rightarrow> None
                      | Some it \<Rightarrow> if Expired it [] now then None else Some it\<rparr>,
      case capture c of None \<Rightarrow> []
      | Some h \<Rightarrow> map (\<lambda>k. (h, k, Val (the (member c k))))
          (filter (\<lambda>k. case member c k of None \<Rightarrow> False | Some it \<Rightarrow> Expired it [] now) ks))"
proof -
  let ?dead = "\<lambda>k. \<exists>it. member c k = Some it \<and> Expired it [] now"
  have mem: "(\<lambda>k. if k \<in> set ks \<and> ?dead k then None else member c k) =
      (\<lambda>k. case member c k of None \<Rightarrow> None | Some it \<Rightarrow> if Expired it [] now then None else Some it)"
    using assms(2) by (auto simp: fun_eq_iff split: option.splits)
  have dead: "?dead = (\<lambda>k. case member c k of None \<Rightarrow> False | Some it \<Rightarrow> Expired it [] now)"
    by (auto simp: fun_eq_iff split: option.splits)
  show ?thesis
    unfolding DeleteExpire_def sweep_spec [OF assms(1)] mem dead
    by (simp add: comp_def split: option.splits)
qed

theorem DeleteExpire_exact_witness:
  "DeleteExpire 200 [''b'', ''a''] demo_cache =
     (demo_cache\<lparr>member := [''b'' \<mapsto> \<lparr>Val = VOther 7, Expire = 0\<rparr>]\<rparr>, [(1, ''a'', VInt8 127)])"
proof -
  have dom: "set [''b'', ''a''] = dom (member demo_cache)"
    by (auto simp: demo_cache_def)
  have "(\<lambda>k. case member demo_cache k of None \<Rightarrow> None
       | Some it \<Rightarrow> if Expired it [] 200 then None else Some it) = [''b'' \<mapsto> \<lparr>Val = VOther 7, Expire = 0\<rparr>]"
    by (auto simp: fun_eq_iff demo_cache_def demo_Expired)
  then show ?thesis
    using DeleteExpire_exact [OF _ dom, of 200] by (simp add: demo_cache_def demo_Expired)
qed

text \<open>
  C27: A live entry survives any sequence of critical sections, in any interleaving, that does not
  itself write, replace, count or delete that key or flush the cache: lookups, sweeps of expired
  entries, a competing \<open>Add\<close>, a \<open>Load\<close> of a snapshot that holds the key, changes of the handler.
\<close>

theorem live_entry_survives:
  assumes "member c k = Some it" and "\<not> Expired it [] T" and "nano_range T"
    and "list_all (\<lambda>op. \<not> writes_key k op \<and> (\<forall>t \<in> op_times k op. nano_range t \<and> t \<le> T)
           \<and> (case op of OpDeleteExpire now ks \<Rightarrow> distinct ks | OpLoad now ks src \<Rightarrow> distinct ks
              | _ \<Rightarrow> True)) ops"
  shows "member (fold exec_op ops c) k = Some it"
  using assms
proof (induction ops arbitrary: c)
  case (Cons op ops)
  have "member (exec_op op c) k = Some it"
  proof (rule exec_op_keeps)
    show "\<not> Expired it [] t" if "t \<in> op_times k op" for t
      using Cons.prems that Expired_mono [of it t T] by auto
  qed (use Cons.prems in auto)
  with Cons show ?case by simp
qed simp

theorem live_entry_survives_witness:
  "member (fold exec_op [OpDeleteExpire 50 [''a'', ''b''], OpAdd 50 50 ''a'' (VInt 1) 0,
      OpRecheck 50 ''a'', OpDelete ''b''] demo_cache) ''a'' = Some \<lparr>Val = VInt8 127, Expire = 100\<rparr>"
  by (rule live_entry_survives [where T = 50]) (simp_all add: demo_cache_def demo_Expired)

text \<open>
  C36: Counting an integer entry up and down again by the same amount restores the cache exactly, for
  every integer type and every amount: both directions wrap around at the width of the type.
\<close>

theorem Increment_Decrement_roundtrip:
  assumes "member c k = Some it" and "\<not> Expired it [] t" and "\<not> Expired it [] t'"
    and "case Val it of VNil \<Rightarrow> False | VFloat32 x \<Rightarrow> False | VFloat64 x \<Rightarrow> False | VOther a \<Rightarrow> False
         | _ \<Rightarrow> True"
  shows "Decrement n t' k (fst (snd (Increment n t k c))) = (((), None), c, [])"
proof -
  obtain x where x: "incr_val n (Val it) = Some x" "decr_val n x = Some (Val it)"
    using assms(4) by (cases "Val it") auto
  have Inc: "fst (snd (Increment n t k c)) = c\<lparr>member := (member c)(k \<mapsto> it\<lparr>Val := x\<rparr>)\<rparr>"
    using assms x by (simp add: Increment_def modify_def)
  have "\<not> Expired (it\<lparr>Val := x\<rparr>) [] t'"
    using assms(3) by (simp add: Expired_now)
  then show ?thesis
    unfolding Inc using assms(1) x by (simp add: Decrement_def modify_def map_upd_triv)
qed

theorem Increment_Decrement_roundtrip_witness:
  "Decrement 1 50 ''a'' (fst (snd (Increment 1 50 ''a'' demo_cache))) = (((), None), demo_cache, [])"
  by (rule Increment_Decrement_roundtrip [where it = "\<lparr>Val = VInt8 127, Expire = 100\<rparr>"])
    (simp_all add: demo_cache_def demo_Expired)

text \<open>
  The untyped \<open>Increment\<close> does to the cache what the typed increment of the stored value's type
  does with the truncated or rounded amount, for all thirteen numeric types.
\<close>

theorem Increment_is_typed:
  "snd (Increment n now k c) = (case member c k of None \<Rightarrow> (c, []) | Some it \<Rightarrow>
     (case Val it of
        VInt i \<Rightarrow> snd (IncrementInt n now k c)
      | VInt8 i \<Rightarrow> snd (IncrementInt8 (ucast n) now k c)
      | VInt16 i \<Rightarrow> snd (IncrementInt16 (ucast n) now k c)
      | VInt32 i \<Rightarrow> snd (IncrementInt32 (ucast n) now k c)
      | VInt64 i \<Rightarrow> snd (IncrementInt64 n now k c)
      | VUint i \<Rightarrow> snd (IncrementUint n now k c)
      | VUint8 i \<Rightarrow> snd (IncrementUint8 (ucast n) now k c)
      | VUint16 i \<Rightarrow> snd (IncrementUint16 (ucast n) now k c)
      | VUint32 i \<Rightarrow> snd (IncrementUint32 (ucast n) now k c)
      | VUint64 i \<Rightarrow> snd (IncrementUint64 n now k c)
      | VUintptr i \<Rightarrow> snd (IncrementUintPtr n now k c)
      | VFloat32 x \<Rightarrow> snd (IncrementFloat32 (f_of_int float32_fmt (sint n)) now k c)
      | VFloat64 x \<Rightarrow> snd (IncrementFloat64 (f_of_int float64_fmt (sint n)) now k c)
      | _ \<Rightarrow> if Expired it [] now then expireEvictUnlock k c else (c, [])))"
proof (cases "member c k")
  case (Some it)
  then show ?thesis
    by (cases "Val it")
      (simp_all add: Increment_def modify_def IncrementInt_def IncrementInt8_def IncrementInt16_def
        IncrementInt32_def IncrementInt64_def IncrementUint_def IncrementUint8_def IncrementUint16_def
        IncrementUint32_def IncrementUint64_def IncrementUintPtr_def IncrementFloat32_def
        IncrementFloat64_def Let_def)
qed (simp add: Increment_def modify_def)

text \<open>
  C37: A snapshot written by \<open>Save\<close> and read back by \<open>Load\<close> into an empty cache reproduces every
  entry with its expiry, provided the codec decodes what it encoded.
\<close>

theorem Save_Load_roundtrip:
  assumes "Save enc c = Saved w" and "\<And>m w. enc m = GobOk w \<Longrightarrow> dec w = Inr m"
    and "distinct ks" and "set ks = dom (member c)"
  shows "Load dec now ks w (Flush c') = (None, c'\<lparr>member := member c\<rparr>)"
proof -
  have "dec w = Inr (member c)"
    using assms(1,2) by (simp add: Save_def split: gob_out.splits)
  moreover have "load_loop now (member c) ks Map.empty = member c"
    using assms(3,4) by (auto simp: fun_eq_iff load_loop_apply loads_def)
  ultimately show ?thesis
    by (simp add: Load_def Flush_def)
qed

theorem Save_Load_roundtrip_witness:
  "Load (\<lambda>w. Inr w :: nat + _) (\<lambda>_. 50) [''a'', ''b''] (member demo_cache) (Flush demo_cache) =
     (None, demo_cache)"
  using Save_Load_roundtrip [of GobOk demo_cache "member demo_cache" "\<lambda>w. Inr w :: nat + _"
      "[''a'', ''b'']" "\<lambda>_. 50" demo_cache]
  by (auto simp: Save_def demo_cache_def)

text \<open>
  After a successful \<open>Add\<close>, and while its entry lives, every further \<open>Add\<close> of the key fails
  with \<open>CacheExist\<close> and changes nothing, whereas \<open>Replace\<close> succeeds.
\<close>

theorem Add_exclusive:
  assumes "fst (Add t t0 k v d c) = None" and "lives c t0 d t'"
  shows "Add t' t1 k w e (snd (Add t t0 k v d c)) = (Some CacheExist, snd (Add t t0 k v d c))
    \<and> fst (Replace t' t1 k w e (snd (Add t t0 k v d c))) = None"
  using lc.add_once [OF assms] by blast

theorem Add_exclusive_witness:
  "fst (Add 20 20 ''x'' (VInt 2) 0 (snd (Add 10 10 ''x'' (VInt 1) 50 demo_cache))) = Some CacheExist"
  using Add_exclusive [of 10 10 "''x''" "VInt 1" 50 demo_cache 20 20 "VInt 2" 0]
  by (simp add: lives_no_wrap word_sless_alt Add_def get_unlocked_def demo_cache_def)

end
