(* ===== verification/GoStrings.thy ===== *)
theory GoStrings
  imports Prelude
begin

text \<open>
  The functions of Go's \<open>strings\<close> and \<open>strconv\<close> packages that the modelled code calls, on strings of bytes.
\<close>

section \<open>Searching and splitting\<close>

definition HasPrefix :: "string \<Rightarrow> string \<Rightarrow> bool" where
  "HasPrefix s pre = (take (length pre) s = pre)"

text \<open>The first index of a character, or \<open>-1\<close>.\<close>

fun index_from :: "int \<Rightarrow> string \<Rightarrow> char \<Rightarrow> int" where
  "index_from i [] c = - 1"
| "index_from i (x # xs) c = (if x = c then i else index_from (i + 1) xs c)"

definition IndexByte :: "string \<Rightarrow> char \<Rightarrow> int" where
  "IndexByte s c = index_from 0 s c"

text \<open>
  The encodings of the runes of \<open>unicode.IsSpace\<close>. Their first bytes begin a rune wherever they occur, and no encoding is
  the start or the end of another, so a space is found by its bytes. \<open>space_len\<close>: the length of the space at the start of a
  string, or 0.
\<close>

definition space_runes :: "string list" where
  "space_runes =
     map (\<lambda>c. [c]) [CHR 0x09, CHR 0x0A, CHR 0x0B, CHR 0x0C, CHR 0x0D, CHR '' ''] @
     map (\<lambda>c. [CHR 0xC2, c]) [CHR 0x85, CHR 0xA0] @ [[CHR 0xE1, CHR 0x9A, CHR 0x80]] @
     map (\<lambda>c. [CHR 0xE2, CHR 0x80, c])
       [CHR 0x80, CHR 0x81, CHR 0x82, CHR 0x83, CHR 0x84, CHR 0x85, CHR 0x86, CHR 0x87, CHR 0x88, CHR 0x89, CHR 0x8A, CHR 0xA8, CHR 0xA9, CHR 0xAF] @
     [[CHR 0xE2, CHR 0x81, CHR 0x9F], [CHR 0xE3, CHR 0x80, CHR 0x80]]"

definition space_len :: "string list \<Rightarrow> string \<Rightarrow> nat" where
  "space_len spaces s = (case find (\<lambda>w. take (length w) s = w) spaces of Some w \<Rightarrow> length w | None \<Rightarrow> 0)"

text \<open>The string without the spaces at its start; the first argument is the number of bytes that are left of a space.\<close>

fun trim_left :: "string list \<Rightarrow> nat \<Rightarrow> string \<Rightarrow> string" where
  "trim_left spaces k [] = []"
| "trim_left spaces (Suc k) (c # cs) = trim_left spaces k cs"
| "trim_left spaces 0 (c # cs) = (case space_len spaces (c # cs) of 0 \<Rightarrow> c # cs | Suc k \<Rightarrow> trim_left spaces k cs)"

definition TrimSpace :: "string \<Rightarrow> string" where
  "TrimSpace s = rev (trim_left (map rev space_runes) 0 (rev (trim_left space_runes 0 s)))"

text \<open>Maximal runs of bytes between spaces; \<open>cur\<close> is the run being read.\<close>

fun space_fields :: "nat \<Rightarrow> string \<Rightarrow> string \<Rightarrow> string list" where
  "space_fields k cur [] = (if cur = [] then [] else [cur])"
| "space_fields (Suc k) cur (c # cs) = space_fields k cur cs"
| "space_fields 0 cur (c # cs) =
     (case space_len space_runes (c # cs) of
        0 \<Rightarrow> space_fields 0 (cur @ [c]) cs
      | Suc k \<Rightarrow> (if cur = [] then [] else [cur]) @ space_fields k [] cs)"

definition Fields :: "string \<Rightarrow> string list" where
  "Fields s = space_fields 0 [] s"

text \<open>Maximal runs of bytes that do not satisfy \<open>p\<close>; \<open>cur\<close> is the run being read.\<close>

fun fields_aux :: "(char \<Rightarrow> bool) \<Rightarrow> string \<Rightarrow> string \<Rightarrow> string list" where
  "fields_aux p cur [] = (if cur = [] then [] else [cur])"
| "fields_aux p cur (c # cs) =
     (if p c then (if cur = [] then [] else [cur]) @ fields_aux p [] cs
      else fields_aux p (cur @ [c]) cs)"

definition FieldsFunc :: "string \<Rightarrow> (char \<Rightarrow> bool) \<Rightarrow> string list" where
  "FieldsFunc s p = fields_aux p [] s"

fun split_aux :: "char \<Rightarrow> string \<Rightarrow> string \<Rightarrow> string list" where
  "split_aux c cur [] = [cur]"
| "split_aux c cur (x # xs) = (if x = c then cur # split_aux c [] xs else split_aux c (cur @ [x]) xs)"

definition Split :: "string \<Rightarrow> char \<Rightarrow> string list" where
  "Split s c = split_aux c [] s"

lemma split_aux_nonempty [simp]: "split_aux c cur s \<noteq> []"
  by (induction s arbitrary: cur) auto

lemma Split_nonempty [simp]: "Split s c \<noteq> []"
  by (simp add: Split_def)

lemma split_aux_no_sep: "c \<notin> set s \<Longrightarrow> split_aux c cur s = [cur @ s]"
  by (induction s arbitrary: cur) auto

lemma Split_no_sep: "c \<notin> set s \<Longrightarrow> Split s c = [s]"
  by (simp add: Split_def split_aux_no_sep)

lemma split_aux_sep: "c \<notin> set s \<Longrightarrow> split_aux c cur (s @ c # t) = (cur @ s) # split_aux c [] t"
  by (induction s arbitrary: cur) auto

lemma Split_sep: "c \<notin> set s \<Longrightarrow> Split (s @ c # t) c = s # Split t c"
  by (simp add: Split_def split_aux_sep)

lemma fields_aux_run: "list_all (\<lambda>x. \<not> p x) s \<Longrightarrow> fields_aux p cur s = (if cur @ s = [] then [] else [cur @ s])"
  by (induction s arbitrary: cur) auto

lemma fields_aux_sep:
  "list_all (\<lambda>x. \<not> p x) s \<Longrightarrow> p c \<Longrightarrow>
     fields_aux p cur (s @ c # t) = (if cur @ s = [] then [] else [cur @ s]) @ fields_aux p [] t"
  by (induction s arbitrary: cur) auto

lemma fields_aux_clean:
  "list_all (\<lambda>x. \<not> p x) cur \<Longrightarrow> f \<in> set (fields_aux p cur s) \<Longrightarrow> f \<noteq> [] \<and> list_all (\<lambda>x. \<not> p x) f"
  by (induction p cur s rule: fields_aux.induct) (auto split: if_splits)

lemma FieldsFunc_clean: "f \<in> set (FieldsFunc s p) \<Longrightarrow> f \<noteq> [] \<and> list_all (\<lambda>x. \<not> p x) f"
  unfolding FieldsFunc_def by (rule fields_aux_clean) simp_all

section \<open>Case and numbers\<close>

definition to_lower_char :: "char \<Rightarrow> char" where
  "to_lower_char c = (if 65 \<le> (of_char c :: nat) \<and> (of_char c :: nat) \<le> 90
     then char_of ((of_char c :: nat) + 32) else c)"

text \<open>
  Two letters outside ASCII have a lower case in it, U+0130 and U+212A. The others are left as they are: what they become is not ASCII
  either, and the callers look the result up among ASCII names.
\<close>

fun ToLower :: "string \<Rightarrow> string" where
  "ToLower [] = []"
| "ToLower (c # cs) =
     (if c = CHR 0xC4 \<and> take 1 cs = [CHR 0xB0] then CHR ''i'' # ToLower (drop 1 cs)
      else if c = CHR 0xE2 \<and> take 2 cs = [CHR 0x84, CHR 0xAA] then CHR ''k'' # ToLower (drop 2 cs)
      else to_lower_char c # ToLower cs)"

definition digit_val :: "char \<Rightarrow> int" where
  "digit_val c = int (of_char c :: nat) - 48"

definition is_digit :: "char \<Rightarrow> bool" where
  "is_digit c \<longleftrightarrow> 48 \<le> (of_char c :: nat) \<and> (of_char c :: nat) \<le> 57"

fun digits_val :: "int \<Rightarrow> string \<Rightarrow> int" where
  "digits_val acc [] = acc"
| "digits_val acc (c # cs) = digits_val (acc * 10 + digit_val c) cs"

definition parse_digits :: "string \<Rightarrow> int option" where
  "parse_digits s = (if s \<noteq> [] \<and> list_all is_digit s then Some (digits_val 0 s) else None)"

text \<open>\<open>strconv.Atoi\<close>: an optional sign, then decimal digits, with the value in the range of \<open>int\<close>.\<close>

definition Atoi :: "string \<Rightarrow> int option" where
  "Atoi s =
     (let (neg, body) = (case s of
            [] \<Rightarrow> (False, [])
          | c # cs \<Rightarrow> if c = CHR ''-'' then (True, cs) else if c = CHR ''+'' then (False, cs) else (False, s))
      in case parse_digits body of
           None \<Rightarrow> None
         | Some n \<Rightarrow> (let v = (if neg then - n else n)
                     in if min_i64 \<le> v \<and> v \<le> max_i64 then Some v else None))"

lemma Atoi_range: "Atoi s = Some v \<Longrightarrow> min_i64 \<le> v \<and> v \<le> max_i64"
  by (auto simp: Atoi_def Let_def split: list.splits if_splits option.splits prod.splits)

lemma digits_val_nonneg: "list_all is_digit s \<Longrightarrow> 0 \<le> acc \<Longrightarrow> 0 \<le> digits_val acc s"
  by (induction s arbitrary: acc) (auto simp: is_digit_def digit_val_def)

end
