(* ===== verification/CronParse.thy ===== *)
theory CronParse
  imports GoStrings
begin

unbundle bit_operations_syntax

text \<open>
  The crontab parser of \<open>distributed/schedule\<close> (\<open>parser.go\<close>, \<open>option.go\<close>, \<open>constantdelay.go\<close>): the
  field syntax, descriptors, optional fields, the time-zone prefix and the bit sets a parsed
  schedule is made of. A function that loops returns an \<open>option\<close>, whose \<open>None\<close> is a loop that does
  not end; a panic is \<open>Panic\<close>. \<open>time.LoadLocation\<close> and \<open>time.ParseDuration\<close> are arguments.
\<close>

section \<open>Intervals and bounds\<close>

type_synonym Interval = i64

definition Second :: Interval where "Second = 1"
definition SecondOptional :: Interval where "SecondOptional = 2"
definition Minute :: Interval where "Minute = 4"
definition Hour :: Interval where "Hour = 8"
definition Dom :: Interval where "Dom = 16"
definition Month :: Interval where "Month = 32"
definition Dow :: Interval where "Dow = 64"
definition DowOptional :: Interval where "DowOptional = 128"
definition Descriptor :: Interval where "Descriptor = 256"

lemmas interval_defs = Second_def SecondOptional_def Minute_def Hour_def Dom_def Month_def Dow_def
  DowOptional_def Descriptor_def

definition places :: "Interval list" where
  "places = [Second, Minute, Hour, Dom, Month, Dow]"

definition defaults :: "string list" where
  "defaults = [''0'', ''0'', ''0'', ''*'', ''*'', ''*'']"

definition has :: "Interval \<Rightarrow> Interval \<Rightarrow> bool" where
  "has interval place \<longleftrightarrow> 0 <s interval AND place"

record bounds =
  bmin :: u64
  bmax :: u64
  names :: "(string \<rightharpoonup> u64) option"

definition seconds :: bounds where
  "seconds = \<lparr>bmin = 0, bmax = 59, names = None\<rparr>"

definition minutes :: bounds where
  "minutes = \<lparr>bmin = 0, bmax = 59, names = None\<rparr>"

definition hours :: bounds where
  "hours = \<lparr>bmin = 0, bmax = 23, names = None\<rparr>"

definition dom_bounds :: bounds where
  "dom_bounds = \<lparr>bmin = 1, bmax = 31, names = None\<rparr>"

definition months :: bounds where
  "months = \<lparr>bmin = 1, bmax = 12, names = Some
     [''jan'' \<mapsto> 1, ''feb'' \<mapsto> 2, ''mar'' \<mapsto> 3, ''apr'' \<mapsto> 4, ''may'' \<mapsto> 5, ''jun'' \<mapsto> 6,
      ''jul'' \<mapsto> 7, ''aug'' \<mapsto> 8, ''sep'' \<mapsto> 9, ''oct'' \<mapsto> 10, ''nov'' \<mapsto> 11, ''dec'' \<mapsto> 12]\<rparr>"

definition dow :: bounds where
  "dow = \<lparr>bmin = 0, bmax = 6, names = Some
     [''sun'' \<mapsto> 0, ''mon'' \<mapsto> 1, ''tue'' \<mapsto> 2, ''wed'' \<mapsto> 3, ''thu'' \<mapsto> 4, ''fri'' \<mapsto> 5, ''sat'' \<mapsto> 6]\<rparr>"

lemmas bounds_defs = seconds_def minutes_def hours_def dom_bounds_def months_def dow_def

section \<open>Errors\<close>

datatype sched_err =
    EmptySpec
  | BadLocation string
  | NoDescriptors string
  | BadDuration string
  | UnrecognizedDescriptor string
  | MultipleOptionals
  | FieldCount nat nat nat
  | UnknownOptional
  | TooManyHyphens string
  | TooManySlashes string
  | BelowMinimum u64 u64 string
  | AboveMaximum u64 u64 string
  | BeyondEnd u64 u64 string
  | ZeroStep string
  | BadInt string
  | NegativeInt int string

section \<open>Bit sets\<close>

definition starBit :: u64 where
  "starBit = push_bit 63 1"

text \<open>\<open>x << n\<close> for a \<open>uint64\<close>: a count of 64 or more gives zero.\<close>

definition shl :: "u64 \<Rightarrow> u64 \<Rightarrow> u64" where
  "shl x n = push_bit (unat n) x"

partial_function (option) getBits_loop :: "u64 \<Rightarrow> u64 \<Rightarrow> u64 \<Rightarrow> u64 \<Rightarrow> u64 option" where
  "getBits_loop hi step i bits =
     (if i \<le> hi then getBits_loop hi step (i + step) (bits OR shl 1 i) else Some bits)"

definition getBits :: "u64 \<Rightarrow> u64 \<Rightarrow> u64 \<Rightarrow> u64 option" where
  "getBits lo hi step =
     (if step = 1 then Some (NOT (shl (- 1) (hi + 1)) AND shl (- 1) lo)
      else getBits_loop hi step lo 0)"

text \<open>\<open>getBits\<close> with step 1 does not loop, so \<open>all\<close> is written with its first branch.\<close>

definition all_bits :: "bounds \<Rightarrow> u64" where
  "all_bits r = (NOT (shl (- 1) (bmax r + 1)) AND shl (- 1) (bmin r)) OR starBit"

section \<open>Fields\<close>

definition mustParseInt :: "string \<Rightarrow> (sched_err, u64) go" where
  "mustParseInt expr =
     (case Atoi expr of
        None \<Rightarrow> Err (BadInt expr)
      | Some num \<Rightarrow> if num < 0 then Err (NegativeInt num expr) else Ok (word_of_int num))"

definition parseIntOrName :: "string \<Rightarrow> (string \<rightharpoonup> u64) option \<Rightarrow> (sched_err, u64) go" where
  "parseIntOrName expr nms =
     (case nms of
        None \<Rightarrow> mustParseInt expr
      | Some m \<Rightarrow> (case m (ToLower expr) of Some n \<Rightarrow> Ok n | None \<Rightarrow> mustParseInt expr))"

text \<open>The first part of \<open>getRange\<close>: start, end and the star bit of the part before the slash.\<close>

definition range_ends :: "string \<Rightarrow> string list \<Rightarrow> bounds \<Rightarrow> (sched_err, u64 \<times> u64 \<times> u64) go" where
  "range_ends expr lowAndHigh r =
     (if lowAndHigh ! 0 = ''*'' \<or> lowAndHigh ! 0 = ''?'' then Ok (bmin r, bmax r, starBit)
      else go_bind (parseIntOrName (lowAndHigh ! 0) (names r)) (\<lambda>start.
        if length lowAndHigh = 1 then Ok (start, start, 0)
        else if length lowAndHigh = 2 then
          go_bind (parseIntOrName (lowAndHigh ! 1) (names r)) (\<lambda>end. Ok (start, end, 0))
        else Err (TooManyHyphens expr)))"

text \<open>The second part: the step, which may stretch the end and clear the star bit.\<close>

definition range_step ::
  "string \<Rightarrow> string list \<Rightarrow> bool \<Rightarrow> bounds \<Rightarrow> u64 \<times> u64 \<times> u64 \<Rightarrow> (sched_err, u64 \<times> u64 \<times> u64 \<times> u64) go" where
  "range_step expr rangeAndStep singleDigit r = (\<lambda>(start, end, extra).
     if length rangeAndStep = 1 then Ok (start, end, 1, extra)
     else if length rangeAndStep = 2 then go_bind (mustParseInt (rangeAndStep ! 1)) (\<lambda>step.
       Ok (start, if singleDigit then bmax r else end, step, if 1 < step then 0 else extra))
     else Err (TooManySlashes expr))"

definition getRange :: "string \<Rightarrow> bounds \<Rightarrow> (sched_err, u64) go option" where
  "getRange expr r =
     (let rangeAndStep = Split expr (CHR ''/'');
          lowAndHigh = Split (rangeAndStep ! 0) (CHR ''-'');
          singleDigit = (length lowAndHigh = 1)
      in case go_bind (range_ends expr lowAndHigh r) (range_step expr rangeAndStep singleDigit r) of
           Err e \<Rightarrow> Some (Err e)
         | Panic \<Rightarrow> Some Panic
         | Ok (start, end, step, extra) \<Rightarrow>
             if start < bmin r then Some (Err (BelowMinimum start (bmin r) expr))
             else if bmax r < end then Some (Err (AboveMaximum end (bmax r) expr))
             else if end < start then Some (Err (BeyondEnd start end expr))
             else if step = 0 then Some (Err (ZeroStep expr))
             else map_option (\<lambda>b. Ok (b OR extra)) (getBits start end step))"

fun getField_loop :: "string list \<Rightarrow> bounds \<Rightarrow> u64 \<Rightarrow> (sched_err, u64) go option" where
  "getField_loop [] r bits = Some (Ok bits)"
| "getField_loop (expr # ranges) r bits =
     (case getRange expr r of
        None \<Rightarrow> None
      | Some (Err e) \<Rightarrow> Some (Err e)
      | Some Panic \<Rightarrow> Some Panic
      | Some (Ok b) \<Rightarrow> getField_loop ranges r (bits OR b))"

definition getField :: "string \<Rightarrow> bounds \<Rightarrow> (sched_err, u64) go option" where
  "getField field r = getField_loop (FieldsFunc field (\<lambda>c. c = CHR '','')) r 0"

text \<open>The last loop of \<open>normalizeFields\<close>: each place takes the next field or its default.\<close>

fun expand :: "Interval \<Rightarrow> Interval list \<Rightarrow> string list \<Rightarrow> string list \<Rightarrow> (sched_err, string list) go" where
  "expand interval (p # ps) (d # ds) fs =
     (if has interval p then
        (case fs of
           [] \<Rightarrow> Panic
         | f # fs' \<Rightarrow> go_bind (expand interval ps ds fs') (\<lambda>r. Ok (f # r)))
      else go_bind (expand interval ps ds fs) (\<lambda>r. Ok (d # r)))"
| "expand interval ps ds fs = Ok []"

text \<open>The optional field is filled in with its default when it was left out.\<close>

definition fill_optional :: "Interval \<Rightarrow> nat \<Rightarrow> nat \<Rightarrow> string list \<Rightarrow> (sched_err, string list) go" where
  "fill_optional interval lo hi flds =
     (if lo < hi \<and> length flds = lo then
        (if has interval DowOptional then Ok (flds @ [defaults ! 5])
         else if has interval SecondOptional then Ok (defaults ! 0 # flds)
         else Err UnknownOptional)
      else Ok flds)"

definition normalizeFields :: "string list \<Rightarrow> Interval \<Rightarrow> (sched_err, string list) go" where
  "normalizeFields flds interval0 =
     (let secOpt = has interval0 SecondOptional;
          interval1 = (if secOpt then interval0 OR Second else interval0);
          dowOpt = has interval1 DowOptional;
          interval = (if dowOpt then interval1 OR Dow else interval1);
          optionals = (if secOpt then 1 else 0) + (if dowOpt then 1 else 0)
      in if 1 < optionals then Err MultipleOptionals
         else
           let hi = length (filter (has interval) places);
               lo = hi - optionals;
               count = length flds
           in if count < lo \<or> hi < count then Err (FieldCount lo hi count)
              else go_bind (fill_optional interval lo hi flds) (expand interval places defaults))"

section \<open>Schedules\<close>

record 'l SpecSchedule =
  sSecond :: u64
  sMinute :: u64
  sHour :: u64
  sDom :: u64
  sMonth :: u64
  sDow :: u64
  Location :: 'l

datatype 'l schedule = SpecSched "'l SpecSchedule" | ConstantDelay duration

definition time_Second :: duration where
  "time_Second = 1000000000"

definition Every :: "duration \<Rightarrow> 'l schedule" where
  "Every d0 =
     (let d = (if d0 <s time_Second then time_Second else d0)
      in ConstantDelay (d - word_of_int (go_mod (sint d) (sint time_Second))))"

text \<open>\<open>ConstantDelaySchedule.Next\<close>; the instants are exact nanosecond counts.\<close>

definition ConstantDelay_Next :: "duration \<Rightarrow> gotime \<Rightarrow> gotime" where
  "ConstantDelay_Next delay t = TimeAdd t (delay - word_of_int (t mod 1000000000))"

definition parseDescriptor ::
  "(string \<Rightarrow> duration option) \<Rightarrow> string \<Rightarrow> 'l \<Rightarrow> (sched_err, 'l schedule) go" where
  "parseDescriptor parseDuration descriptor loc =
     (if descriptor = ''@yearly'' \<or> descriptor = ''@annually'' then
        Ok (SpecSched \<lparr>sSecond = shl 1 (bmin seconds), sMinute = shl 1 (bmin minutes),
          sHour = shl 1 (bmin hours), sDom = shl 1 (bmin dom_bounds), sMonth = shl 1 (bmin months),
          sDow = all_bits dow, Location = loc\<rparr>)
      else if descriptor = ''@monthly'' then
        Ok (SpecSched \<lparr>sSecond = shl 1 (bmin seconds), sMinute = shl 1 (bmin minutes),
          sHour = shl 1 (bmin hours), sDom = shl 1 (bmin dom_bounds), sMonth = all_bits months,
          sDow = all_bits dow, Location = loc\<rparr>)
      else if descriptor = ''@weekly'' then
        Ok (SpecSched \<lparr>sSecond = shl 1 (bmin seconds), sMinute = shl 1 (bmin minutes),
          sHour = shl 1 (bmin hours), sDom = all_bits dom_bounds, sMonth = all_bits months,
          sDow = shl 1 (bmin dow), Location = loc\<rparr>)
      else if descriptor = ''@daily'' \<or> descriptor = ''@midnight'' then
        Ok (SpecSched \<lparr>sSecond = shl 1 (bmin seconds), sMinute = shl 1 (bmin minutes),
          sHour = shl 1 (bmin hours), sDom = all_bits dom_bounds, sMonth = all_bits months,
          sDow = all_bits dow, Location = loc\<rparr>)
      else if descriptor = ''@hourly'' then
        Ok (SpecSched \<lparr>sSecond = shl 1 (bmin seconds), sMinute = shl 1 (bmin minutes),
          sHour = all_bits hours, sDom = all_bits dom_bounds, sMonth = all_bits months,
          sDow = all_bits dow, Location = loc\<rparr>)
      else if HasPrefix descriptor ''@every '' then
        (case parseDuration (drop (length ''@every '') descriptor) of
           None \<Rightarrow> Err (BadDuration descriptor)
         | Some d \<Rightarrow> Ok (Every d))
      else Err (UnrecognizedDescriptor descriptor))"

text \<open>The slice expression \<open>s[a:b]\<close>, which panics when the bounds are out of range.\<close>

definition slice :: "string \<Rightarrow> int \<Rightarrow> int \<Rightarrow> ('e, string) go" where
  "slice s a b = (if 0 \<le> a \<and> a \<le> b \<and> b \<le> int (length s)
     then Ok (take (nat b - nat a) (drop (nat a) s)) else Panic)"

text \<open>The time-zone prefix of \<open>Parse\<close>: the location and what is left of the specification.\<close>

definition parse_tz ::
  "(string \<Rightarrow> 'l option) \<Rightarrow> 'l \<Rightarrow> string \<Rightarrow> (sched_err, 'l \<times> string) go" where
  "parse_tz loadLocation local spec =
     (if HasPrefix spec ''TZ='' \<or> HasPrefix spec ''CRON_TZ='' then
        (let i = IndexByte spec (CHR '' ''); eq = IndexByte spec (CHR ''='')
         in go_bind (slice spec (eq + 1) i) (\<lambda>name.
              case loadLocation name of
                None \<Rightarrow> Err (BadLocation name)
              | Some loc \<Rightarrow> go_bind (slice spec i (int (length spec))) (\<lambda>rest.
                  Ok (loc, TrimSpace rest))))
      else Ok (local, spec))"

text \<open>The closure \<open>field\<close>, applied to the fields in order: after the first error it does no more.\<close>

fun parse_fields :: "string list \<Rightarrow> bounds list \<Rightarrow> (sched_err, u64 list) go option" where
  "parse_fields fs [] = Some (Ok [])"
| "parse_fields [] (r # rs) = Some Panic"
| "parse_fields (f # fs) (r # rs) =
     (case getField f r of
        None \<Rightarrow> None
      | Some (Err e) \<Rightarrow> Some (Err e)
      | Some Panic \<Rightarrow> Some Panic
      | Some (Ok b) \<Rightarrow> map_option (\<lambda>m. go_bind m (\<lambda>bs. Ok (b # bs))) (parse_fields fs rs))"

definition Parse ::
  "(string \<Rightarrow> 'l option) \<Rightarrow> (string \<Rightarrow> duration option) \<Rightarrow> 'l \<Rightarrow> Interval \<Rightarrow> string \<Rightarrow>
     (sched_err, 'l schedule) go option" where
  "Parse loadLocation parseDuration local interval spec0 =
     (if length spec0 = 0 then Some (Err EmptySpec)
      else case parse_tz loadLocation local spec0 of
        Err e \<Rightarrow> Some (Err e)
      | Panic \<Rightarrow> Some Panic
      | Ok (loc, spec) \<Rightarrow>
          if HasPrefix spec ''@'' then
            (if interval AND Descriptor = 0 then Some (Err (NoDescriptors spec))
             else Some (parseDescriptor parseDuration spec loc))
          else case normalizeFields (Fields spec) interval of
            Err e \<Rightarrow> Some (Err e)
          | Panic \<Rightarrow> Some Panic
          | Ok flds \<Rightarrow>
              map_option (\<lambda>m. go_bind m (\<lambda>bs.
                  Ok (SpecSched \<lparr>sSecond = bs ! 0, sMinute = bs ! 1, sHour = bs ! 2, sDom = bs ! 3,
                        sMonth = bs ! 4, sDow = bs ! 5, Location = loc\<rparr>)))
                (parse_fields flds [seconds, minutes, hours, dom_bounds, months, dow]))"

section \<open>Options and the ready-made parsers\<close>

definition WithInterval :: "Interval \<Rightarrow> Interval \<Rightarrow> (sched_err, Interval) go" where
  "WithInterval opts config =
     (if has opts DowOptional \<and> has opts SecondOptional then Panic else Ok opts)"

text \<open>\<open>NewParse\<close> applies the options to an empty configuration, whose only field is the interval.\<close>

definition NewParse :: "(Interval \<Rightarrow> (sched_err, Interval) go) list \<Rightarrow> (sched_err, Interval) go" where
  "NewParse ops = fold (\<lambda>op m. go_bind m op) ops (Ok 0)"

definition standardParser :: Interval where
  "standardParser = Minute OR Hour OR Dom OR Month OR Dow OR Descriptor"

definition secondParser :: Interval where
  "secondParser = Second OR Minute OR Hour OR Dom OR Month OR DowOptional OR Descriptor"

definition NewParseWithStandard ::
  "(string \<Rightarrow> 'l option) \<Rightarrow> (string \<Rightarrow> duration option) \<Rightarrow> 'l \<Rightarrow> string \<Rightarrow> (sched_err, 'l schedule) go option" where
  "NewParseWithStandard loadLocation parseDuration local = Parse loadLocation parseDuration local standardParser"

definition NewParseWithSecondParser ::
  "(string \<Rightarrow> 'l option) \<Rightarrow> (string \<Rightarrow> duration option) \<Rightarrow> 'l \<Rightarrow> string \<Rightarrow> (sched_err, 'l schedule) go option" where
  "NewParseWithSecondParser loadLocation parseDuration local = Parse loadLocation parseDuration local secondParser"

declare getBits_loop.simps [code]

section \<open>Lemmas on bit sets\<close>

lemma bit_shl_1: "bit (shl 1 i) n \<longleftrightarrow> n = unat i \<and> n < 64"
  by (auto simp: shl_def bit_simps)

lemma bit_shl_minus_1: "bit (shl (- 1) i) n \<longleftrightarrow> unat i \<le> n \<and> n < 64"
  by (auto simp: shl_def bit_simps)

lemma bit_starBit [simp]: "bit starBit n \<longleftrightarrow> n = 63"
  unfolding starBit_def bit_push_bit_iff by (auto simp: bit_1_iff)

lemma step_dvd_shift:
  fixes n i s hi :: nat
  assumes "0 < s" and "i \<le> hi"
  shows "n = i \<or> (i + s \<le> n \<and> n \<le> hi \<and> s dvd (n - (i + s))) \<longleftrightarrow> i \<le> n \<and> n \<le> hi \<and> s dvd (n - i)"
proof -
  have shift: "s dvd (n - i) \<longleftrightarrow> s dvd (n - (i + s))" if "i + s \<le> n"
  proof -
    have "n - i = (n - (i + s)) + s" using that by simp
    then show ?thesis by simp
  qed
  have "i + s \<le> n" if "i < n" "s dvd (n - i)"
    using that dvd_imp_le [of s "n - i"] by simp
  with shift assms show ?thesis by auto
qed

text \<open>The loop ends, and adds every \<open>step\<close>-th bit from \<open>i\<close> up to \<open>hi\<close>.\<close>

lemma getBits_loop_spec:
  assumes "0 < unat step" and "unat hi + unat step < 2 ^ 64"
  shows "\<exists>b. getBits_loop hi step i bits = Some b \<and>
    (\<forall>n. bit b n \<longleftrightarrow> bit bits n \<or> n < 64 \<and> unat i \<le> n \<and> n \<le> unat hi \<and> unat step dvd (n - unat i))"
proof (induction "Suc (unat hi) - unat i" arbitrary: i bits rule: less_induct)
  case less
  show ?case
  proof (cases "i \<le> hi")
    case True
    then have le: "unat i \<le> unat hi" by (simp add: word_le_nat_alt)
    then have nxt: "unat (i + step) = unat i + unat step"
      using assms(2) by (simp add: unat_word_ariths)
    have "Suc (unat hi) - unat (i + step) < Suc (unat hi) - unat i"
      using le assms(1) nxt by simp
    from less [OF this, of "bits OR shl 1 i"] obtain b where
      b: "getBits_loop hi step (i + step) (bits OR shl 1 i) = Some b"
      and bits: "bit b n \<longleftrightarrow> bit (bits OR shl 1 i) n \<or>
        n < 64 \<and> unat (i + step) \<le> n \<and> n \<le> unat hi \<and> unat step dvd (n - unat (i + step))" for n
      by blast
    have "bit b n \<longleftrightarrow> bit bits n \<or> n < 64 \<and> unat i \<le> n \<and> n \<le> unat hi \<and> unat step dvd (n - unat i)" for n
      using step_dvd_shift [OF assms(1) le, of n] by (auto simp: bits nxt bit_or_iff bit_shl_1)
    moreover have "getBits_loop hi step i bits = Some b"
      using True b by (simp add: getBits_loop.simps [of hi step i])
    ultimately show ?thesis by blast
  next
    case False
    then have "unat hi < unat i" by (simp add: word_le_nat_alt)
    then show ?thesis
      using False by (auto simp: getBits_loop.simps [of hi step i])
  qed
qed

lemma getBits_spec:
  assumes "0 < unat step" and "unat hi + unat step < 2 ^ 64"
  shows "\<exists>b. getBits lo hi step = Some b \<and>
    (\<forall>n. bit b n \<longleftrightarrow> n < 64 \<and> unat lo \<le> n \<and> n \<le> unat hi \<and> unat step dvd (n - unat lo))"
proof (cases "step = 1")
  case True
  then have "unat (hi + 1) = unat hi + 1"
    using assms(2) by (simp add: unat_word_ariths)
  then show ?thesis
    using True by (auto simp: getBits_def bit_and_iff bit_not_iff bit_shl_minus_1)
next
  case False
  then show ?thesis
    using getBits_loop_spec [OF assms, of lo 0] by (simp add: getBits_def)
qed


section \<open>Lemmas on fields\<close>

text \<open>A bit set within the bounds of a field, up to the star bit.\<close>

definition bits_within :: "bounds \<Rightarrow> u64 \<Rightarrow> bool" where
  "bits_within r b \<longleftrightarrow> (\<forall>n. bit b n \<longrightarrow> n = 63 \<or> unat (bmin r) \<le> n \<and> n \<le> unat (bmax r))"

lemma within_or: "bits_within r a \<Longrightarrow> bits_within r b \<Longrightarrow> bits_within r (a OR b)"
  by (auto simp: bits_within_def bit_or_iff)

lemma within_0 [simp]: "bits_within r 0"
  by (simp add: bits_within_def)

lemma mustParseInt_bound: "mustParseInt e = Ok n \<Longrightarrow> unat n < 2 ^ 63"
  using Atoi_range [of e]
  by (auto simp: mustParseInt_def unat_of_int64 nat_less_iff split: option.splits if_splits)

lemma mustParseInt_no_panic: "mustParseInt e \<noteq> Panic"
  by (simp add: mustParseInt_def split: option.splits)

lemma parseIntOrName_no_panic: "parseIntOrName e nms \<noteq> Panic"
  by (simp add: parseIntOrName_def mustParseInt_no_panic split: option.splits)

lemma range_ends_cases:
  "range_ends e lh r = Ok (st, en, ex) \<Longrightarrow> ex = 0 \<or> st = bmin r \<and> en = bmax r \<and> ex = starBit"
  by (auto simp: range_ends_def go_bind_Ok split: if_splits)

lemma range_ends_no_panic: "range_ends e lh r \<noteq> Panic"
  by (cases "parseIntOrName (lh ! 0) (names r)"; cases "parseIntOrName (lh ! 1) (names r)")
    (auto simp: range_ends_def parseIntOrName_no_panic)

lemma range_step_cases:
  assumes "range_step e rs sd r (st, en, ex) = Ok (st', en', step, ex')"
  shows "st' = st \<and> (en' = en \<or> en' = bmax r) \<and> unat step < 2 ^ 63 \<and> (ex' = 0 \<or> ex' = ex)"
  using assms mustParseInt_bound [of "rs ! 1"]
  by (auto simp: range_step_def go_bind_Ok split: if_splits)

lemma range_step_no_panic: "range_step e rs sd r x \<noteq> Panic"
  by (cases x; cases "mustParseInt (rs ! 1)")
    (auto simp: range_step_def mustParseInt_no_panic)

text \<open>
  What \<open>getRange\<close> returns: it always returns, never panics, and a successful result is a non-empty
  set of every \<open>step\<close>-th value within the bounds, perhaps with the star bit.
\<close>

lemma getRange_result:
  assumes "unat (bmax r) < 63"
  shows "(\<exists>err. getRange e r = Some (Err err)) \<or>
    (\<exists>b. getRange e r = Some (Ok b) \<and> bits_within r b \<and> (\<exists>n<63. bit b n))"
proof -
  let ?rs = "Split e (CHR ''/'')"
  let ?lh = "Split (?rs ! 0) (CHR ''-'')"
  let ?m = "go_bind (range_ends e ?lh r) (range_step e ?rs (length ?lh = 1) r)"
  show ?thesis
  proof (cases ?m)
    case (Ok x)
    obtain st en step ex where x: "x = (st, en, step, ex)" by (cases x)
    from Ok obtain st0 en0 ex0 where
      ends: "range_ends e ?lh r = Ok (st0, en0, ex0)"
      and step: "range_step e ?rs (length ?lh = 1) r (st0, en0, ex0) = Ok (st, en, step, ex)"
      unfolding x go_bind_Ok by auto
    have ex: "ex = 0 \<or> ex = starBit" and stp: "unat step < 2 ^ 63"
      using range_ends_cases [OF ends] range_step_cases [OF step] by auto
    show ?thesis
    proof (cases "st < bmin r \<or> bmax r < en \<or> en < st \<or> step = 0")
      case True
      then show ?thesis
        using Ok unfolding x by (auto simp: getRange_def Let_def)
    next
      case False
      then have bnd: "unat (bmin r) \<le> unat st" "unat st \<le> unat en" "unat en \<le> unat (bmax r)"
        "0 < unat step"
        by (auto simp: word_less_nat_alt unat_gt_0 not_less word_le_nat_alt)
      then obtain b where b: "getBits st en step = Some b"
        "\<And>n. bit b n \<longleftrightarrow> n < 64 \<and> unat st \<le> n \<and> n \<le> unat en \<and> unat step dvd (n - unat st)"
        using getBits_spec [of step en st] stp assms by auto
      have "getRange e r = Some (Ok (b OR ex))"
        using Ok False b(1) unfolding x by (simp add: getRange_def Let_def)
      moreover have "bits_within r (b OR ex)"
        using ex bnd by (auto simp: bits_within_def bit_or_iff b(2))
      moreover have "bit (b OR ex) (unat st)"
        using bnd assms by (simp add: bit_or_iff b(2))
      ultimately show ?thesis
        using bnd assms by (meson le_less_trans)
    qed
  next
    case (Err err)
    then show ?thesis by (simp add: getRange_def Let_def)
  next
    case Panic
    then show ?thesis
      using range_ends_no_panic range_step_no_panic
      by (cases "range_ends e ?lh r") auto
  qed
qed

lemma getField_loop_result:
  assumes "unat (bmax r) < 63"
  shows "bits_within r bits \<Longrightarrow> (\<exists>err. getField_loop es r bits = Some (Err err)) \<or>
    (\<exists>b. getField_loop es r bits = Some (Ok b) \<and> bits_within r b)"
proof (induction es arbitrary: bits)
  case (Cons e es)
  from getRange_result [OF assms, of e] show ?case
    using Cons within_or by fastforce
qed simp

lemma getField_result:
  assumes "unat (bmax r) < 63"
  shows "(\<exists>err. getField f r = Some (Err err)) \<or> (\<exists>b. getField f r = Some (Ok b) \<and> bits_within r b)"
  unfolding getField_def by (rule getField_loop_result [OF assms]) simp

lemma parse_fields_result:
  assumes "list_all (\<lambda>r. unat (bmax r) < 63) rs" and "length fs = length rs"
  shows "(\<exists>err. parse_fields fs rs = Some (Err err)) \<or>
    (\<exists>bs. parse_fields fs rs = Some (Ok bs) \<and> list_all2 bits_within rs bs)"
  using assms(2,1)
proof (induction fs rs rule: list_induct2)
  case (Cons f fs r rs)
  then show ?case
    using getField_result [of r f] by fastforce
qed simp

lemma expand_result:
  assumes "length ps = length ds" and "length fs = length (filter (has i) ps)"
  shows "\<exists>r. expand i ps ds fs = Ok r \<and> length r = length ps"
  using assms
proof (induction ps ds arbitrary: fs rule: list_induct2)
  case (Cons p ps d ds)
  show ?case
  proof (cases "has i p")
    case True
    then obtain f fs' where "fs = f # fs'" "length fs' = length (filter (has i) ps)"
      using Cons.prems by (cases fs) auto
    then show ?thesis using True Cons.IH [of fs'] by auto
  next
    case False
    then show ?thesis using Cons.IH [of fs] Cons.prems by auto
  qed
qed simp

lemma fill_optional_result:
  assumes "lo \<le> length fs" and "length fs \<le> hi" and "hi \<le> Suc lo"
  shows "(\<exists>err. fill_optional i lo hi fs = Err err) \<or> (\<exists>r. fill_optional i lo hi fs = Ok r \<and> length r = hi)"
  using assms by (auto simp: fill_optional_def)

lemma normalizeFields_result:
  "(\<exists>err. normalizeFields fs i = Err err) \<or> (\<exists>r. normalizeFields fs i = Ok r \<and> length r = 6)"
proof -
  have fill: "(\<exists>err. go_bind (fill_optional j lo hi fs) (expand j places defaults) = Err err) \<or>
      (\<exists>r. go_bind (fill_optional j lo hi fs) (expand j places defaults) = Ok r \<and> length r = 6)"
    if "lo \<le> length fs" "length fs \<le> hi" "hi \<le> Suc lo" "hi = length (filter (has j) places)" for j lo hi
    using fill_optional_result [OF that(1-3), of j] expand_result [of places defaults _ j] that(4)
    by (fastforce simp: places_def defaults_def)
  show ?thesis
  proof (cases "has i SecondOptional \<and> has (i OR Second) DowOptional")
    case True
    then show ?thesis by (simp add: normalizeFields_def Let_def)
  next
    case False
    then show ?thesis
      unfolding normalizeFields_def Let_def
      by (cases "has i SecondOptional"; cases "has i DowOptional")
        (simp_all del: One_nat_def add: not_less fill)
  qed
qed

section \<open>Lemmas on the time-zone prefix and descriptors\<close>

lemma index_from_eq:
  "index_from i s c = (if c \<in> set s then i + int (length (takeWhile (\<lambda>x. x \<noteq> c) s)) else - 1)"
  by (induction s arbitrary: i) auto

lemma IndexByte_eq:
  "IndexByte s c = (if c \<in> set s then int (length (takeWhile (\<lambda>x. x \<noteq> c) s)) else - 1)"
  by (simp add: IndexByte_def index_from_eq)

lemma HasPrefixD: "HasPrefix s pre \<Longrightarrow> \<exists>rest. s = pre @ rest"
  by (metis HasPrefix_def append_take_drop_id)

text \<open>The zone prefix panics exactly when no space follows it.\<close>

lemma parse_tz_Panic:
  "parse_tz ll local spec = Panic \<longleftrightarrow>
     (HasPrefix spec ''TZ='' \<or> HasPrefix spec ''CRON_TZ='') \<and> CHR '' '' \<notin> set spec"
proof (cases "HasPrefix spec ''TZ='' \<or> HasPrefix spec ''CRON_TZ=''")
  case True
  then obtain pre rest where pre: "pre = ''TZ='' \<or> pre = ''CRON_TZ=''" and spec: "spec = pre @ rest"
    using HasPrefixD by blast
  let ?eq = "IndexByte spec (CHR ''='')" and ?i = "IndexByte spec (CHR '' '')"
  have eq: "?eq = int (length pre) - 1"
    using pre spec by (auto simp: IndexByte_eq)
  show ?thesis
  proof (cases "CHR '' '' \<in> set spec")
    case sp: True
    then have i: "?i = int (length pre) + int (length (takeWhile (\<lambda>x. x \<noteq> CHR '' '') rest))"
      using pre spec by (auto simp: IndexByte_eq)
    have "length (takeWhile (\<lambda>x. x \<noteq> CHR '' '') rest) \<le> length rest"
      by (rule length_takeWhile_le)
    then have s1: "slice spec (?eq + 1) ?i \<noteq> Panic" "slice spec ?i (int (length spec)) \<noteq> Panic"
      using eq i spec by (auto simp: slice_def)
    have "slice spec a b \<noteq> Err e" for a b and e :: sched_err
      by (simp add: slice_def)
    then have "parse_tz ll local spec \<noteq> Panic"
      using s1 True unfolding parse_tz_def Let_def
      by (cases "slice spec (?eq + 1) ?i :: (sched_err, string) go";
          cases "slice spec ?i (int (length spec)) :: (sched_err, string) go")
        (auto split: option.splits)
    then show ?thesis using sp by simp
  next
    case False
    then have "?i = - 1" by (simp add: IndexByte_eq)
    then have "slice spec (?eq + 1) ?i = (Panic :: (sched_err, string) go)"
      using eq by (simp add: slice_def)
    then show ?thesis using True False by (simp add: parse_tz_def Let_def)
  qed
next
  case False
  then show ?thesis by (simp add: parse_tz_def)
qed

lemma all_bits_within:
  assumes "unat (bmax r) < 63"
  shows "bits_within r (all_bits r)"
proof -
  have "unat (bmax r + 1) = unat (bmax r) + 1"
    using assms by (simp add: unat_word_ariths)
  then show ?thesis
    by (auto simp: bits_within_def all_bits_def bit_or_iff bit_and_iff bit_not_iff bit_shl_minus_1)
qed

lemma shl_bmin_within: "bmin r \<le> bmax r \<Longrightarrow> bits_within r (shl 1 (bmin r))"
  by (auto simp: bits_within_def bit_shl_1 word_le_nat_alt)

lemma bounds_small: "list_all (\<lambda>r. unat (bmax r) < 63) [seconds, minutes, hours, dom_bounds, months, dow]"
  by (simp add: bounds_defs)

text \<open>Every field of a schedule is a set of values its bounds allow.\<close>

definition schedule_ok :: "'l schedule \<Rightarrow> bool" where
  "schedule_ok sch = (case sch of
     ConstantDelay d \<Rightarrow> 1000000000 \<le> sint d \<and> 1000000000 dvd sint d
   | SpecSched s \<Rightarrow> bits_within seconds (sSecond s) \<and> bits_within minutes (sMinute s) \<and>
       bits_within hours (sHour s) \<and> bits_within dom_bounds (sDom s) \<and>
       bits_within months (sMonth s) \<and> bits_within dow (sDow s))"

lemma Every_delay:
  "\<exists>d. Every d0 = ConstantDelay d \<and> 1000000000 \<le> sint d \<and> 1000000000 dvd sint d
     \<and> sint d \<le> max 1000000000 (sint d0) \<and> sint d0 < sint d + 1000000000"
proof -
  define d where "d = (if d0 <s time_Second then time_Second else d0)"
  have sec: "sint time_Second = 1000000000"
    by (simp add: time_Second_def)
  have d: "1000000000 \<le> sint d" "sint d \<le> max 1000000000 (sint d0)" "sint d0 \<le> sint d"
    using sec by (auto simp: d_def word_sless_alt)
  let ?r = "sint d mod 1000000000"
  have "d - word_of_int ?r = word_of_int (sint d - ?r)"
    by simp
  moreover have "0 \<le> ?r" "?r < 1000000000" "sint d - ?r = 1000000000 * (sint d div 1000000000)"
    by (simp_all add: minus_mod_eq_mult_div)
  moreover have "sint (word_of_int (sint d - ?r) :: i64) = sint d - ?r"
    using d sint64_bounds [of d] by (intro sint_of_int64) (auto intro: order_trans [OF _ d(1)])
  moreover have "1000000000 * 1 \<le> 1000000000 * (sint d div 1000000000)"
    using d(1) by (intro mult_left_mono) (simp_all add: pos_imp_zdiv_pos_iff)
  ultimately show ?thesis
    using d by (auto simp: Every_def d_def [symmetric] sec Let_def intro!: exI [of _ "word_of_int (sint d - ?r)"])
qed

lemma schedule_ok_Spec:
  "schedule_ok (SpecSched s) \<longleftrightarrow> bits_within seconds (sSecond s) \<and> bits_within minutes (sMinute s) \<and>
     bits_within hours (sHour s) \<and> bits_within dom_bounds (sDom s) \<and>
     bits_within months (sMonth s) \<and> bits_within dow (sDow s)"
  by (simp add: schedule_ok_def)

lemma schedule_ok_Every: "schedule_ok (Every d :: 'l schedule)"
proof -
  obtain d' where "(Every d :: 'l schedule) = ConstantDelay d'" "1000000000 \<le> sint d'" "1000000000 dvd sint d'"
    using Every_delay by blast
  then show ?thesis by (simp add: schedule_ok_def)
qed

lemma parseDescriptor_ok:
  "parseDescriptor pd descr loc \<noteq> Panic \<and> (\<forall>sch. parseDescriptor pd descr loc = Ok sch \<longrightarrow> schedule_ok sch)"
proof -
  have ab: "bits_within r (all_bits r)" "bits_within r (shl 1 (bmin r))"
    if "r \<in> {seconds, minutes, hours, dom_bounds, months, dow}" for r
    using that by (auto intro!: all_bits_within shl_bmin_within simp: bounds_defs)
  show ?thesis
    by (auto simp: parseDescriptor_def schedule_ok_Every schedule_ok_Spec ab split: option.splits)
qed

text \<open>Whatever \<open>Parse\<close> is given, it returns; and what it accepts is a well-formed schedule.\<close>

lemma Parse_result:
  "\<exists>m. Parse ll pd local interval spec = Some m \<and>
     (m = Panic \<longleftrightarrow> (HasPrefix spec ''TZ='' \<or> HasPrefix spec ''CRON_TZ='') \<and> CHR '' '' \<notin> set spec) \<and>
     (\<forall>sch. m = Ok sch \<longrightarrow> schedule_ok sch)"
proof (cases "spec = []")
  case True
  then show ?thesis by (simp add: Parse_def HasPrefix_def)
next
  case False
  show ?thesis
  proof (cases "parse_tz ll local spec")
    case (Ok x)
    obtain loc rest where x: "x = (loc, rest)" by (cases x)
    have np: "\<not> ((HasPrefix spec ''TZ='' \<or> HasPrefix spec ''CRON_TZ='') \<and> CHR '' '' \<notin> set spec)"
      using parse_tz_Panic [of ll local spec] Ok by auto
    have "\<exists>m. Parse ll pd local interval spec = Some m \<and> m \<noteq> Panic \<and> (\<forall>sch. m = Ok sch \<longrightarrow> schedule_ok sch)"
    proof (cases "HasPrefix rest ''@''")
      case True
      then show ?thesis
        using Ok x False parseDescriptor_ok [of pd rest loc] by (simp add: Parse_def)
    next
      case nodesc: False
      consider err where "normalizeFields (Fields rest) interval = Err err"
        | fs where "normalizeFields (Fields rest) interval = Ok fs" "length fs = 6"
        using normalizeFields_result by blast
      then show ?thesis
      proof cases
        case 1
        then show ?thesis using Ok x False nodesc by (simp add: Parse_def)
      next
        case 2
        have "length fs = length [seconds, minutes, hours, dom_bounds, months, dow]"
          using 2(2) by simp
        from parse_fields_result [OF bounds_small this]
        show ?thesis
          using 2(1) Ok x False nodesc
          by (auto simp: Parse_def schedule_ok_def list_all2_Cons1)
      qed
    qed
    then show ?thesis using np by blast
  next
    case (Err e)
    then show ?thesis
      using False parse_tz_Panic [of ll local spec] by (simp add: Parse_def)
  next
    case Panic
    then show ?thesis
      using False parse_tz_Panic [of ll local spec] by (simp add: Parse_def)
  qed
qed

section \<open>Properties\<close>

text \<open>
  \<open>getBits\<close> ends and sets exactly every \<open>step\<close>-th bit from \<open>min\<close> to \<open>max\<close>, on the shift path and
  on the loop alike, for every positive step that cannot overflow the loop counter.
\<close>

theorem getBits_exact:
  assumes "0 < unat step" and "unat hi + unat step < 2 ^ 64"
  shows "\<exists>b. getBits lo hi step = Some b \<and>
    (\<forall>n. bit b n \<longleftrightarrow> n < 64 \<and> unat lo \<le> n \<and> n \<le> unat hi \<and> unat step dvd (n - unat lo))"
  by (rule getBits_spec [OF assms])

theorem getBits_exact_witness:
  "getBits 5 59 15 = Some 1125934267629600 \<and>
   (\<exists>b. getBits 5 59 15 = Some b \<and> (\<forall>n. bit b n \<longleftrightarrow> n < 64 \<and> 5 \<le> n \<and> n \<le> 59 \<and> 15 dvd (n - 5)))"
proof
  show "getBits 5 59 15 = Some 1125934267629600"
    by (simp add: getBits_def getBits_loop.simps shl_def)
  show "\<exists>b. getBits 5 59 15 = Some b \<and> (\<forall>n. bit b n \<longleftrightarrow> n < 64 \<and> 5 \<le> n \<and> n \<le> 59 \<and> 15 dvd (n - 5))"
    using getBits_exact [of 15 59 5] by simp
qed

text \<open>
  C31: The parser returns on every input. It panics on exactly the specifications that begin with a
  time-zone prefix and have no space, and every schedule it accepts sets only values that the
  bounds of its fields allow (a delay is a positive whole number of seconds).
\<close>

theorem Parse_total:
  "\<exists>m. Parse ll pd local interval spec = Some m \<and>
     (m = Panic \<longleftrightarrow> (HasPrefix spec ''TZ='' \<or> HasPrefix spec ''CRON_TZ='') \<and> CHR '' '' \<notin> set spec) \<and>
     (\<forall>sch. m = Ok sch \<longrightarrow> schedule_ok sch)"
  by (rule Parse_result)

theorem Parse_total_witness:
  "(\<exists>m. NewParseWithStandard (\<lambda>_. None) (\<lambda>_. None) () ''TZ=UTC'' = Some m \<and> m = Panic) \<and>
   (\<exists>sch. NewParseWithStandard (\<lambda>_. None) (\<lambda>_. None) () ''@daily'' = Some (Ok sch) \<and> schedule_ok sch)"
proof
  show "\<exists>m. NewParseWithStandard (\<lambda>_. None) (\<lambda>_. None) () ''TZ=UTC'' = Some m \<and> m = Panic"
    using Parse_total [of "\<lambda>_. None" "\<lambda>_. None" "()" standardParser "''TZ=UTC''"]
    by (auto simp: NewParseWithStandard_def HasPrefix_def)
  obtain sch where sch: "NewParseWithStandard (\<lambda>_. None) (\<lambda>_. None) () ''@daily'' = Some (Ok sch)"
    by (simp add: NewParseWithStandard_def Parse_def parse_tz_def HasPrefix_def parseDescriptor_def
        standardParser_def interval_defs)
  then show "\<exists>sch. NewParseWithStandard (\<lambda>_. None) (\<lambda>_. None) () ''@daily'' = Some (Ok sch) \<and> schedule_ok sch"
    using Parse_total [of "\<lambda>_. None" "\<lambda>_. None" "()" standardParser "''@daily''"]
    by (simp add: NewParseWithStandard_def)
qed

text \<open>
  \<open>Every\<close> rounds a delay down to whole seconds and up to at least one second, and the next
  activation of a constant-delay schedule lies on a whole second, later than the given instant and
  at most the delay away, whatever fraction of a second the instant has.
\<close>

theorem ConstantDelay_Next_on_second:
  assumes "Every d0 = (ConstantDelay d :: unit schedule)"
  shows "1000000000 dvd ConstantDelay_Next d t \<and> t < ConstantDelay_Next d t \<and>
    ConstantDelay_Next d t \<le> t + max 1000000000 (sint d0)"
proof -
  obtain e where "(Every d0 :: unit schedule) = ConstantDelay e" "1000000000 \<le> sint e" "1000000000 dvd sint e"
    "sint e \<le> max 1000000000 (sint d0)"
    using Every_delay by blast
  then have e: "1000000000 \<le> sint d" "1000000000 dvd sint d" "sint d \<le> max 1000000000 (sint d0)"
    using assms by simp_all
  let ?r = "t mod 1000000000"
  have r: "0 \<le> ?r" "?r < 1000000000" by simp_all
  have "d - word_of_int ?r = word_of_int (sint d - ?r)"
    by simp
  moreover have "sint (word_of_int (sint d - ?r) :: i64) = sint d - ?r"
    using e r sint64_bounds [of d] by (intro sint_of_int64) linarith+
  ultimately have nxt: "ConstantDelay_Next d t = sint d + (t - ?r)"
    by (simp add: ConstantDelay_Next_def TimeAdd_def)
  have "1000000000 dvd (t - ?r)"
    by (simp add: minus_mod_eq_mult_div)
  then show ?thesis
    unfolding nxt using e r by (intro conjI dvd_add) linarith+
qed

theorem ConstantDelay_Next_on_second_witness:
  "Every 2500000000 = (ConstantDelay 2000000000 :: unit schedule) \<and>
   ConstantDelay_Next 2000000000 1234567890123 = 1236000000000 \<and>
   1000000000 dvd ConstantDelay_Next 2000000000 1234567890123"
proof -
  have ev: "Every 2500000000 = (ConstantDelay 2000000000 :: unit schedule)"
    by (simp add: Every_def time_Second_def word_sless_alt)
  then show ?thesis
    using ConstantDelay_Next_on_second [OF ev, of 1234567890123]
    by (simp add: ConstantDelay_Next_def TimeAdd_def)
qed

end
