(* ===== verification/GoTime.thy ===== *)
theory GoTime
  imports Prelude
begin

text \<open>
  The civil calendar of Go's \<open>time\<close> package: the proleptic Gregorian date of a day number, clock
  fields, \<open>time.Date\<close> with its zone adjustment, \<open>AddDate\<close> and \<open>Truncate\<close>. Days are counted from
  1 January of year 1. A location is the function \<open>lookup\<close> of the zone database: the offset in
  force at a Unix second, with the start and end of its validity.
\<close>

section \<open>Years and months\<close>

definition leap_year :: "int \<Rightarrow> bool" where
  "leap_year y \<longleftrightarrow> 4 dvd y \<and> (\<not> 100 dvd y \<or> 400 dvd y)"

definition days_before_year :: "int \<Rightarrow> int" where
  "days_before_year y = 365 * (y - 1) + (y - 1) div 4 - (y - 1) div 100 + (y - 1) div 400"

definition year_of :: "int \<Rightarrow> int" where
  "year_of n =
     (let y = 400 * n div 146097 + 1
      in if n < days_before_year y then y - 1
         else if days_before_year (y + 1) \<le> n then y + 1 else y)"

text \<open>Days of the year before the month after the first \<open>m\<close> months.\<close>

definition days_before_month :: "bool \<Rightarrow> int \<Rightarrow> int" where
  "days_before_month lp m =
     [0, 31, 59, 90, 120, 151, 181, 212, 243, 273, 304, 334, 365] ! nat m
     + (if lp \<and> 2 \<le> m then 1 else 0)"

definition month_of_yday :: "bool \<Rightarrow> int \<Rightarrow> int" where
  "month_of_yday lp yd = 1 + int (length (filter (\<lambda>m. days_before_month lp m \<le> yd) [1, 2, 3, 4, 5, 6, 7, 8, 9, 10, 11]))"

definition yday_of :: "int \<Rightarrow> int" where
  "yday_of n = n - days_before_year (year_of n)"

definition month_of :: "int \<Rightarrow> int" where
  "month_of n = month_of_yday (leap_year (year_of n)) (yday_of n)"

definition day_of :: "int \<Rightarrow> int" where
  "day_of n = yday_of n - days_before_month (leap_year (year_of n)) (month_of n - 1) + 1"

definition weekday_of :: "int \<Rightarrow> int" where
  "weekday_of n = (n + 1) mod 7"

section \<open>Instants in a location\<close>

type_synonym zone = "int \<Rightarrow> int \<times> int \<times> int"

definition unix_to_internal :: int where
  "unix_to_internal = 62135596800"

definition unix_sec :: "gotime \<Rightarrow> int" where
  "unix_sec t = t div 1000000000"

text \<open>Local seconds since 1 January of year 1.\<close>

definition local_sec :: "zone \<Rightarrow> gotime \<Rightarrow> int" where
  "local_sec lk t = unix_sec t + fst (lk (unix_sec t)) + unix_to_internal"

definition time_Nanosecond :: "gotime \<Rightarrow> int" where
  "time_Nanosecond t = t mod 1000000000"

definition time_Year :: "zone \<Rightarrow> gotime \<Rightarrow> int" where
  "time_Year lk t = year_of (local_sec lk t div 86400)"

definition time_Month :: "zone \<Rightarrow> gotime \<Rightarrow> int" where
  "time_Month lk t = month_of (local_sec lk t div 86400)"

definition time_Day :: "zone \<Rightarrow> gotime \<Rightarrow> int" where
  "time_Day lk t = day_of (local_sec lk t div 86400)"

definition time_Weekday :: "zone \<Rightarrow> gotime \<Rightarrow> int" where
  "time_Weekday lk t = weekday_of (local_sec lk t div 86400)"

definition time_Hour :: "zone \<Rightarrow> gotime \<Rightarrow> int" where
  "time_Hour lk t = local_sec lk t div 3600 mod 24"

definition time_Minute :: "zone \<Rightarrow> gotime \<Rightarrow> int" where
  "time_Minute lk t = local_sec lk t div 60 mod 60"

definition time_Sec :: "zone \<Rightarrow> gotime \<Rightarrow> int" where
  "time_Sec lk t = local_sec lk t mod 60"

text \<open>
  \<open>time.Date\<close>: months out of range carry into the year, the other fields add up; then the offset of
  the zone is found with one look-up, or a second one near a transition.
\<close>

definition time_Date :: "zone \<Rightarrow> int \<Rightarrow> int \<Rightarrow> int \<Rightarrow> int \<Rightarrow> int \<Rightarrow> int \<Rightarrow> int \<Rightarrow> gotime" where
  "time_Date lk y m d h mi s ns =
     (let y' = y + (m - 1) div 12;
          m' = (m - 1) mod 12;
          days = days_before_year y' + days_before_month (leap_year y') m' + (d - 1);
          unix = days * 86400 + h * 3600 + mi * 60 + s - unix_to_internal;
          (offset, start, end) = lk unix;
          utc = unix - offset;
          offset' = (if offset \<noteq> 0 \<and> (utc < start \<or> end \<le> utc) then fst (lk utc) else offset)
      in (unix - offset') * 1000000000 + ns)"

definition AddDate :: "zone \<Rightarrow> int \<Rightarrow> int \<Rightarrow> int \<Rightarrow> gotime \<Rightarrow> gotime" where
  "AddDate lk years months days t =
     time_Date lk (time_Year lk t + years) (time_Month lk t + months) (time_Day lk t + days)
       (time_Hour lk t) (time_Minute lk t) (time_Sec lk t) (time_Nanosecond t)"

text \<open>\<open>Truncate\<close> rounds down to a multiple of \<open>d\<close> nanoseconds since the zero time, in absolute time.\<close>

definition Truncate :: "int \<Rightarrow> gotime \<Rightarrow> gotime" where
  "Truncate d t = t - (t + unix_to_internal * 1000000000) mod d"

text \<open>UTC, the location whose offset is zero for ever, and the zero value of \<open>time.Time\<close>.\<close>

definition utc :: zone where
  "utc u = (0, min_i64, max_i64)"

definition zero_time :: gotime where
  "zero_time = - unix_to_internal * 1000000000"

section \<open>Calendar lemmas\<close>

lemma int_div_bounds: "0 < (k::int) \<Longrightarrow> k * (n div k) \<le> n \<and> n < k * (n div k) + k"
  using mult_div_mod_eq [of k n] pos_mod_bound [of k n] pos_mod_sign [of k n] by linarith

lemma leap_year_div:
  "y div 4 - y div 100 + y div 400 - ((y - 1) div 4 - (y - 1) div 100 + (y - 1) div 400) =
     (if leap_year y then 1 else (0::int))"
proof -
  have step: "y div k - (y - 1) div k = (if k dvd y then 1 else 0)" if "0 < k" for k :: int
  proof (cases "k dvd y")
    case True
    then obtain q where q: "y = k * q" by (elim dvdE)
    have "(y - 1) div k = q - 1"
      using that by (intro int_div_pos_eq [of _ _ _ "k - 1"]) (auto simp: q algebra_simps)
    then show ?thesis using True q that by simp
  next
    case False
    have "y div k = (y - 1) div k"
    proof -
      have r: "0 < y mod k" "y mod k < k"
        using False that pos_mod_sign [of k y] by (auto simp: dvd_eq_mod_eq_0 order.order_iff_strict)
      have "(y - 1) div k = y div k"
        using r mult_div_mod_eq [of k y] by (intro int_div_pos_eq [of _ _ _ "y mod k - 1"]) auto
      then show ?thesis by simp
    qed
    then show ?thesis using False by simp
  qed
  have dvd: "100 dvd y \<Longrightarrow> 4 dvd y" "400 dvd y \<Longrightarrow> 100 dvd y"
    using dvd_trans [of 4 100 y] dvd_trans [of 100 400 y] by simp_all
  have "a - b + c - (a' - b' + c') = (if leap_year y then 1 else 0)"
    if "a - a' = (if 4 dvd y then 1 else 0)" "b - b' = (if 100 dvd y then 1 else 0)"
      "c - c' = (if 400 dvd y then 1 else 0)" for a b c a' b' c' :: int
    using that dvd by (simp add: leap_year_def split: if_splits)
  from this [OF step step step] show ?thesis by simp
qed

lemma days_before_year_Suc:
  "days_before_year (y + 1) = days_before_year y + (if leap_year y then 366 else 365)"
  using leap_year_div [of y] by (simp add: days_before_year_def algebra_simps split: if_splits)

lemma days_before_year_less: "y < z \<Longrightarrow> days_before_year y < days_before_year z"
proof (induction z rule: int_gr_induct)
  case (step z)
  then show ?case using days_before_year_Suc [of z] by simp
qed (simp add: days_before_year_Suc)

lemma days_before_year_mono: "y \<le> z \<Longrightarrow> days_before_year y \<le> days_before_year z"
  using days_before_year_less [of y z] by (cases "y = z") auto

text \<open>The approximation is off by at most one year.\<close>

lemma days_before_year_approx:
  "400 * days_before_year y \<le> 146097 * (y - 1) + 396"
  "146097 * (y - 1) - 699 \<le> 400 * days_before_year y"
  using int_div_bounds [of 4 "y - 1"] int_div_bounds [of 100 "y - 1"] int_div_bounds [of 400 "y - 1"]
  unfolding days_before_year_def by (simp_all add: algebra_simps)

lemma year_of_bounds: "days_before_year (year_of n) \<le> n \<and> n < days_before_year (year_of n + 1)"
proof -
  define y where "y = 400 * n div 146097 + 1"
  have q: "146097 * (y - 1) \<le> 400 * n" "400 * n < 146097 * y"
    using int_div_bounds [of 146097 "400 * n"] by (simp_all add: y_def)
  have lo: "days_before_year (y - 1) \<le> n"
    using q(1) days_before_year_approx(1) [of "y - 1"] by (simp add: algebra_simps)
  have hi: "n < days_before_year (y + 2)"
    using q(2) days_before_year_approx(2) [of "y + 2"] by (simp add: algebra_simps)
  show ?thesis
    unfolding year_of_def Let_def y_def [symmetric] using lo hi by (auto simp: add.commute)
qed

lemma year_of_unique:
  assumes "days_before_year y \<le> n" and "n < days_before_year (y + 1)"
  shows "year_of n = y"
  using assms year_of_bounds [of n] days_before_year_mono [of "year_of n + 1" y]
    days_before_year_mono [of "y + 1" "year_of n"]
  by linarith

lemma year_of_mono: "m \<le> n \<Longrightarrow> year_of m \<le> year_of n"
  using year_of_bounds [of m] year_of_bounds [of n] days_before_year_mono [of "year_of n + 1" "year_of m"]
  by linarith

lemma month_cases:
  assumes "1 \<le> m" and "m \<le> (12::int)"
  obtains "m = 1" | "m = 2" | "m = 3" | "m = 4" | "m = 5" | "m = 6" | "m = 7" | "m = 8" | "m = 9"
    | "m = 10" | "m = 11" | "m = 12"
proof -
  have "m = 1 \<or> m = 2 \<or> m = 3 \<or> m = 4 \<or> m = 5 \<or> m = 6 \<or> m = 7 \<or> m = 8 \<or> m = 9
    \<or> m = 10 \<or> m = 11 \<or> m = 12"
    using assms by presburger
  then show thesis using that by blast
qed

lemma days_before_month_eval [simp]:
  "days_before_month lp 0 = 0" "days_before_month lp 1 = 31"
  "days_before_month lp 2 = (if lp then 60 else 59)" "days_before_month lp 3 = (if lp then 91 else 90)"
  "days_before_month lp 4 = (if lp then 121 else 120)" "days_before_month lp 5 = (if lp then 152 else 151)"
  "days_before_month lp 6 = (if lp then 182 else 181)" "days_before_month lp 7 = (if lp then 213 else 212)"
  "days_before_month lp 8 = (if lp then 244 else 243)" "days_before_month lp 9 = (if lp then 274 else 273)"
  "days_before_month lp 10 = (if lp then 305 else 304)" "days_before_month lp 11 = (if lp then 335 else 334)"
  "days_before_month lp 12 = (if lp then 366 else 365)"
  by (simp_all add: days_before_month_def)

lemma month_of_yday_unique:
  assumes "1 \<le> m" and "m \<le> 12" and "days_before_month lp (m - 1) \<le> yd" and "yd < days_before_month lp m"
  shows "month_of_yday lp yd = m"
  using assms(1,2) by (cases rule: month_cases)
    (use assms(3,4) in \<open>cases lp; simp add: month_of_yday_def\<close>)+

lemma month_of_yday_bounds:
  assumes "0 \<le> yd" and "yd < days_before_month lp 12"
  shows "1 \<le> month_of_yday lp yd \<and> month_of_yday lp yd \<le> 12 \<and>
    days_before_month lp (month_of_yday lp yd - 1) \<le> yd \<and> yd < days_before_month lp (month_of_yday lp yd)"
proof -
  have "\<exists>m. 1 \<le> m \<and> m \<le> 12 \<and> days_before_month lp (m - 1) \<le> yd \<and> yd < days_before_month lp m"
  proof (rule ccontr)
    assume no: "\<not> ?thesis"
    have up: "days_before_month lp (m - 1) \<le> yd \<Longrightarrow> 1 \<le> m \<Longrightarrow> m \<le> 12 \<Longrightarrow> days_before_month lp m \<le> yd" for m
      using no by (meson not_less)
    have "days_before_month lp 12 \<le> yd"
      using assms(1) up [of 1] up [of 2] up [of 3] up [of 4] up [of 5] up [of 6] up [of 7] up [of 8]
        up [of 9] up [of 10] up [of 11] up [of 12] by (simp del: days_before_month_eval(2-13))
    with assms(2) show False by simp
  qed
  then show ?thesis using month_of_yday_unique by metis
qed

lemma yday_of_bounds: "0 \<le> yday_of n \<and> yday_of n < days_before_month (leap_year (year_of n)) 12"
  using year_of_bounds [of n] days_before_year_Suc [of "year_of n"] by (auto simp: yday_of_def)

text \<open>The first day of the month of a day, and of the next month.\<close>

definition month_start :: "int \<Rightarrow> int" where
  "month_start n = days_before_year (year_of n) + days_before_month (leap_year (year_of n)) (month_of n - 1)"

definition next_month_start :: "int \<Rightarrow> int" where
  "next_month_start n = days_before_year (year_of n) + days_before_month (leap_year (year_of n)) (month_of n)"

lemma month_of_range: "1 \<le> month_of n \<and> month_of n \<le> 12"
  using month_of_yday_bounds [of "yday_of n"] yday_of_bounds [of n] by (simp add: month_of_def)

lemma month_start_bounds: "month_start n \<le> n \<and> n < next_month_start n"
  using month_of_yday_bounds [OF conjunct1 [OF yday_of_bounds] conjunct2 [OF yday_of_bounds], of n]
  unfolding month_start_def next_month_start_def month_of_def yday_of_def by linarith

lemma next_month_start_year: "next_month_start n \<le> days_before_year (year_of n + 1)"
proof -
  have "days_before_month lp m \<le> days_before_month lp 12" if "1 \<le> m" "m \<le> 12" for lp m
    using that by (cases rule: month_cases) simp_all
  from this [of "month_of n" "leap_year (year_of n)"] show ?thesis
    using month_of_range [of n] days_before_year_Suc [of "year_of n"] by (auto simp: next_month_start_def)
qed

lemma month_start_year: "days_before_year (year_of n) \<le> month_start n"
proof -
  have "0 \<le> days_before_month lp (m - 1)" if "1 \<le> m" "m \<le> 12" for lp m
    using that by (cases rule: month_cases) simp_all
  then show ?thesis using month_of_range [of n] by (simp add: month_start_def)
qed

lemma same_month:
  assumes "month_start n \<le> k" and "k < next_month_start n"
  shows "year_of k = year_of n" "month_of k = month_of n" "month_start k = month_start n"
    "day_of k = k - month_start n + 1"
proof -
  show y: "year_of k = year_of n"
    using assms month_start_year [of n] next_month_start_year [of n] by (intro year_of_unique) linarith+
  show m: "month_of k = month_of n"
    unfolding month_of_def [of k] y yday_of_def [of k]
    using assms month_of_range [of n] by (intro month_of_yday_unique) (auto simp: month_start_def next_month_start_def)
  show "month_start k = month_start n"
    by (simp add: month_start_def y m)
  show "day_of k = k - month_start n + 1"
    by (simp add: day_of_def yday_of_def month_start_def y m)
qed

lemma day_of_eq: "day_of n = n - month_start n + 1"
  using same_month(4) [of n n] month_start_bounds [of n] by simp

lemma day_of_1: "day_of n = 1 \<longleftrightarrow> n = month_start n"
  by (auto simp: day_of_eq)

text \<open>The next month's first day is a month start, in the next year after December.\<close>

lemma next_month_first: "month_start (next_month_start n) = next_month_start n"
  "month_of (next_month_start n) = (if month_of n = 12 then 1 else month_of n + 1)"
  "year_of (next_month_start n) = (if month_of n = 12 then year_of n + 1 else year_of n)"
proof -
  let ?y = "year_of n" and ?m = "month_of n" and ?s = "next_month_start n"
  have r: "1 \<le> ?m" "?m \<le> 12" using month_of_range by auto
  have "month_start ?s = ?s \<and> month_of ?s = (if ?m = 12 then 1 else ?m + 1)
    \<and> year_of ?s = (if ?m = 12 then ?y + 1 else ?y)"
  proof (cases "?m = 12")
    case True
    then have s: "?s = days_before_year (?y + 1)"
      using days_before_year_Suc [of ?y] by (simp add: next_month_start_def)
    have y: "year_of ?s = ?y + 1"
      unfolding s using days_before_year_less [of "?y + 1" "?y + 1 + 1"] by (intro year_of_unique) auto
    have m: "month_of ?s = 1"
      unfolding month_of_def yday_of_def y by (simp add: s month_of_yday_def)
    show ?thesis using True y m s by (simp add: month_start_def)
  next
    case False
    have lt: "days_before_month lp m < days_before_month lp (m + 1)" if "1 \<le> m" "m \<le> 12" "m \<noteq> 12" for lp m
      using that(1,2) by (cases rule: month_cases) (use that in simp_all)
    have le: "days_before_month lp m \<le> days_before_month lp 12" "0 \<le> days_before_month lp m" if "1 \<le> m" "m \<le> 12" for lp m
      using that by (cases rule: month_cases, simp_all)+
    have y: "year_of ?s = ?y"
      using lt [OF r False, of "leap_year ?y"] le [of "?m + 1" "leap_year ?y"] le(2) [of ?m "leap_year ?y"] r False
        days_before_year_Suc [of ?y]
      by (intro year_of_unique) (auto simp: next_month_start_def split: if_splits)
    have m: "month_of ?s = ?m + 1"
      unfolding month_of_def [of ?s] yday_of_def [of ?s] y
      using lt [OF r False, of "leap_year ?y"] r False
      by (intro month_of_yday_unique) (auto simp: next_month_start_def)
    show ?thesis using False y m by (simp add: month_start_def next_month_start_def)
  qed
  then show "month_start ?s = ?s" "month_of ?s = (if ?m = 12 then 1 else ?m + 1)"
    "year_of ?s = (if ?m = 12 then ?y + 1 else ?y)"
    by blast+
qed

lemma year_start: "year_of (days_before_year y) = y" "month_of (days_before_year y) = 1"
  "month_start (days_before_year y) = days_before_year y" "day_of (days_before_year y) = 1"
proof -
  show y: "year_of (days_before_year y) = y"
    using days_before_year_less [of y "y + 1"] by (intro year_of_unique) auto
  show m: "month_of (days_before_year y) = 1"
    by (simp add: month_of_def yday_of_def y month_of_yday_def)
  show s: "month_start (days_before_year y) = days_before_year y"
    by (simp add: month_start_def y m)
  show "day_of (days_before_year y) = 1"
    by (simp add: day_of_1 s)
qed

lemma month_start_idem: "month_start (month_start n) = month_start n"
  "next_month_start (month_start n) = next_month_start n"
proof -
  have b: "month_start n \<le> month_start n" "month_start n < next_month_start n"
    using month_start_bounds [of n] by auto
  show "month_start (month_start n) = month_start n"
    by (rule same_month(3) [OF b])
  show "next_month_start (month_start n) = next_month_start n"
    by (simp add: next_month_start_def [of "month_start n"] same_month(1,2) [OF b] next_month_start_def [symmetric])
qed

end
