(* ===== verification/CronSpec.thy ===== *)
theory CronSpec
  imports CronParse GoTime
begin

unbundle bit_operations_syntax

text \<open>
  The next activation of a crontab schedule (\<open>spec.go\<close>). The function is a set of loops joined by
  \<open>goto WRAP\<close>: one step of the model is one test of a loop, with the label it is at, the instant
  reached and the flag \<open>added\<close>. For a location whose offset never changes, \<open>Next\<close> ends and returns the
  earliest matching second within five years.
\<close>

section \<open>Model\<close>

text \<open>\<open>1<<uint(n)&b\<close> is not zero.\<close>

definition bit_set :: "u64 \<Rightarrow> int \<Rightarrow> bool" where
  "bit_set b n \<longleftrightarrow> shl 1 (word_of_int n) AND b \<noteq> 0"

definition dayMatches :: "zone \<Rightarrow> 'l SpecSchedule \<Rightarrow> gotime \<Rightarrow> bool" where
  "dayMatches lk s t =
     (let domMatch = bit_set (sDom s) (time_Day lk t);
          dowMatch = bit_set (sDow s) (time_Weekday lk t)
      in if sDom s AND starBit \<noteq> 0 \<or> sDow s AND starBit \<noteq> 0 then domMatch \<and> dowMatch
         else domMatch \<or> dowMatch)"

datatype label = WRAP | MonthLoop | DayLoop | HourLoop | MinuteLoop | SecondLoop

datatype next_out = Continue label gotime bool | Return "gotime option"

definition nsec :: int where
  "nsec = 1000000000"

text \<open>The correction after a midnight that does not exist or comes twice.\<close>

definition fix_midnight :: "zone \<Rightarrow> gotime \<Rightarrow> gotime" where
  "fix_midnight lk t =
     (if time_Hour lk t \<noteq> 0 then
        (if 12 < time_Hour lk t then t + (24 - time_Hour lk t) * (3600 * nsec)
         else t + - time_Hour lk t * (3600 * nsec))
      else t)"

fun next_step :: "zone \<Rightarrow> 'l SpecSchedule \<Rightarrow> int \<Rightarrow> label \<Rightarrow> gotime \<Rightarrow> bool \<Rightarrow> next_out" where
  "next_step lk s yearLimit WRAP t added =
     (if yearLimit < time_Year lk t then Return None else Continue MonthLoop t added)"
| "next_step lk s yearLimit MonthLoop t added =
     (if \<not> bit_set (sMonth s) (time_Month lk t) then
        (let t1 = (if \<not> added then time_Date lk (time_Year lk t) (time_Month lk t) 1 0 0 0 0 else t);
             t2 = AddDate lk 0 1 0 t1
         in Continue (if time_Month lk t2 = 1 then WRAP else MonthLoop) t2 True)
      else Continue DayLoop t added)"
| "next_step lk s yearLimit DayLoop t added =
     (if \<not> dayMatches lk s t then
        (let t1 = (if \<not> added then time_Date lk (time_Year lk t) (time_Month lk t) (time_Day lk t) 0 0 0 0 else t);
             t2 = fix_midnight lk (AddDate lk 0 0 1 t1)
         in Continue (if time_Day lk t2 = 1 then WRAP else DayLoop) t2 True)
      else Continue HourLoop t added)"
| "next_step lk s yearLimit HourLoop t added =
     (if \<not> bit_set (sHour s) (time_Hour lk t) then
        (let t1 = (if \<not> added
                   then time_Date lk (time_Year lk t) (time_Month lk t) (time_Day lk t) (time_Hour lk t) 0 0 0
                   else t);
             t2 = t1 + 3600 * nsec
         in Continue (if time_Hour lk t2 = 0 then WRAP else HourLoop) t2 True)
      else Continue MinuteLoop t added)"
| "next_step lk s yearLimit MinuteLoop t added =
     (if \<not> bit_set (sMinute s) (time_Minute lk t) then
        (let t1 = (if \<not> added then Truncate (60 * nsec) t else t);
             t2 = t1 + 60 * nsec
         in Continue (if time_Minute lk t2 = 0 then WRAP else MinuteLoop) t2 True)
      else Continue SecondLoop t added)"
| "next_step lk s yearLimit SecondLoop t added =
     (if \<not> bit_set (sSecond s) (time_Sec lk t) then
        (let t1 = (if \<not> added then Truncate nsec t else t);
             t2 = t1 + nsec
         in Continue (if time_Sec lk t2 = 0 then WRAP else SecondLoop) t2 True)
      else Return (Some t))"

partial_function (option) next_loop ::
  "zone \<Rightarrow> 'l SpecSchedule \<Rightarrow> int \<Rightarrow> label \<Rightarrow> gotime \<Rightarrow> bool \<Rightarrow> gotime option option" where
  "next_loop lk s yearLimit pc t added =
     (case next_step lk s yearLimit pc t added of
        Return r \<Rightarrow> Some r
      | Continue pc' t' added' \<Rightarrow> next_loop lk s yearLimit pc' t' added')"

declare next_loop.simps [code]

text \<open>
  \<open>Next\<close> on an instant in the location \<open>tloc\<close>. The outer \<open>None\<close> is a loop that does not end, the
  inner \<open>None\<close> is the zero time; a found instant is given back in the caller's location.
\<close>

definition Spec_Next ::
  "('l \<Rightarrow> zone) \<Rightarrow> 'l \<Rightarrow> 'l SpecSchedule \<Rightarrow> gotime \<times> 'l \<Rightarrow> (gotime \<times> 'l) option option" where
  "Spec_Next lookup local s tt =
     (case tt of (t, origLocation) \<Rightarrow>
        let loc = (if Location s = local then origLocation else Location s);
            lk = lookup loc;
            t1 = t + (nsec - time_Nanosecond t);
            yearLimit = time_Year lk t1 + 5
        in map_option (map_option (\<lambda>r. (r, origLocation))) (next_loop lk s yearLimit WRAP t1 False))"

definition Schedule_Next ::
  "('l \<Rightarrow> zone) \<Rightarrow> 'l \<Rightarrow> 'l schedule \<Rightarrow> gotime \<times> 'l \<Rightarrow> (gotime \<times> 'l) option option" where
  "Schedule_Next lookup local sch tt =
     (case sch of
        SpecSched s \<Rightarrow> Spec_Next lookup local s tt
      | ConstantDelay d \<Rightarrow> Some (Some (ConstantDelay_Next d (fst tt), snd tt)))"

section \<open>What it means for a schedule to fire\<close>

text \<open>A schedule fires at an instant on a whole second whose local fields are all in its bit sets.\<close>

definition fires :: "zone \<Rightarrow> 'l SpecSchedule \<Rightarrow> gotime \<Rightarrow> bool" where
  "fires lk s t \<longleftrightarrow> time_Nanosecond t = 0 \<and> bit_set (sMonth s) (time_Month lk t) \<and> dayMatches lk s t \<and>
     bit_set (sHour s) (time_Hour lk t) \<and> bit_set (sMinute s) (time_Minute lk t) \<and>
     bit_set (sSecond s) (time_Sec lk t)"

section \<open>Units of time\<close>

lemma Suc_div_cases:
  fixes q k :: int
  assumes "0 < k"
  shows "(q + 1) div k = q div k \<or> q + 1 = k * (q div k + 1)"
proof (cases "q + 1 < k * (q div k) + k")
  case True
  then have "(q + 1) div k = q div k"
    using int_div_bounds [OF assms, of q] assms
    by (intro int_div_pos_eq [of _ _ _ "q + 1 - k * (q div k)"]) auto
  then show ?thesis by simp
next
  case False
  then show ?thesis
    using int_div_bounds [OF assms, of q] by (simp add: algebra_simps)
qed

text \<open>Stepping to the start of the next fine unit leaves the coarse unit, or starts the next one.\<close>

lemma unit_step:
  fixes u k x :: int
  assumes "0 < u" and "0 < k"
  shows "(u * (x div u + 1)) div (u * k) = x div (u * k) \<or>
    u * (x div u + 1) = u * k * (x div (u * k) + 1)"
proof -
  have "x div (u * k) = x div u div k"
    using assms by (simp add: zdiv_zmult2_eq)
  moreover have "(u * (x div u + 1)) div (u * k) = (x div u + 1) div k"
    using assms by (simp add: zdiv_zmult2_eq)
  moreover have "u * (x div u + 1) = u * k * (x div u div k + 1)"
    if "x div u + 1 = k * (x div u div k + 1)"
    using arg_cong [OF that, of "(*) u"] by (simp only: mult.assoc)
  ultimately show ?thesis
    using Suc_div_cases [OF assms(2), of "x div u"] by metis
qed

lemma same_unit:
  fixes u x y :: int
  assumes "0 < u" and "x \<le> y" and "y < u * (x div u + 1)"
  shows "y div u = x div u"
  using assms int_div_bounds [OF assms(1), of x]
  by (intro int_div_pos_eq [of _ _ _ "y - u * (x div u)"]) (auto simp: algebra_simps)

lemma next_unit_greater: "0 < (u::int) \<Longrightarrow> x < u * (x div u + 1)"
  using int_div_bounds [of u x] by (simp add: algebra_simps)

section \<open>A location with a fixed offset\<close>

text \<open>
  What the loops rely on: the zone has one offset, a whole number of minutes. In such a location an
  instant on a whole second is \<open>inst x\<close> for its local second \<open>x\<close>, and every time function is an
  arithmetic function of \<open>x\<close>.
\<close>

locale fixed_zone =
  fixes lk :: zone and off :: int
  assumes offset: "fst (lk u) = off"
    and whole_minutes: "60 dvd off"
begin

definition inst :: "int \<Rightarrow> gotime" where
  "inst x = (x - off - unix_to_internal) * nsec"

lemma inst_less [simp]: "inst x < inst y \<longleftrightarrow> x < y"
  by (simp add: inst_def nsec_def)

lemma local_sec_inst [simp]: "local_sec lk (inst x) = x"
  by (simp add: local_sec_def unix_sec_def inst_def offset nsec_def)

lemma inst_nanosecond [simp]: "time_Nanosecond (inst x) = 0"
  by (simp add: time_Nanosecond_def inst_def nsec_def)

lemma whole_second_inst: "time_Nanosecond t = 0 \<Longrightarrow> t = inst (local_sec lk t)"
  by (simp add: time_Nanosecond_def inst_def local_sec_def unix_sec_def offset nsec_def
      dvd_eq_mod_eq_0 [symmetric])

lemma fields_inst:
  "time_Year lk (inst x) = year_of (x div 86400)" "time_Month lk (inst x) = month_of (x div 86400)"
  "time_Day lk (inst x) = day_of (x div 86400)" "time_Weekday lk (inst x) = weekday_of (x div 86400)"
  "time_Hour lk (inst x) = x div 3600 mod 24" "time_Minute lk (inst x) = x div 60 mod 60"
  "time_Sec lk (inst x) = x mod 60"
  by (simp_all add: time_Year_def time_Month_def time_Day_def time_Weekday_def time_Hour_def
      time_Minute_def time_Sec_def)

lemma Date_fixed:
  "time_Date lk y m d h mi sec 0 =
     inst ((days_before_year (y + (m - 1) div 12) +
        days_before_month (leap_year (y + (m - 1) div 12)) ((m - 1) mod 12) + (d - 1)) * 86400
        + h * 3600 + mi * 60 + sec)"
proof -
  have key: "(case lk u of (offset, start, end) \<Rightarrow>
      (u - (if offset \<noteq> 0 \<and> (u - offset < start \<or> end \<le> u - offset) then fst (lk (u - offset)) else offset)) * 1000000000 + 0)
      = (u - off) * nsec" for u
  proof -
    obtain a b where "lk u = (off, a, b)"
      using offset [of u] by (cases "lk u") auto
    then show ?thesis by (simp add: offset nsec_def)
  qed
  show ?thesis
    unfolding time_Date_def Let_def key inst_def by simp
qed

lemma Date_day_start:
  "time_Date lk (year_of n) (month_of n) (day_of n) h mi sec 0 = inst (n * 86400 + h * 3600 + mi * 60 + sec)"
proof -
  have "(month_of n - 1) div 12 = 0" "(month_of n - 1) mod 12 = month_of n - 1"
    using month_of_range [of n] by simp_all
  then show ?thesis
    by (simp add: Date_fixed day_of_eq month_start_def algebra_simps)
qed

lemma Date_month_start:
  "time_Date lk (year_of n) (month_of n) 1 0 0 0 0 = inst (86400 * month_start n)"
proof -
  have "(month_of n - 1) div 12 = 0" "(month_of n - 1) mod 12 = month_of n - 1"
    using month_of_range [of n] by simp_all
  then show ?thesis
    by (simp add: Date_fixed month_start_def algebra_simps)
qed

lemma AddDate_month:
  assumes "month_start n = n"
  shows "AddDate lk 0 1 0 (inst (86400 * n)) = inst (86400 * next_month_start n)"
proof (cases "month_of n = 12")
  case True
  then show ?thesis
    using days_before_year_Suc [of "year_of n"] day_of_1 [of n] assms
    by (simp add: AddDate_def fields_inst Date_fixed next_month_start_def algebra_simps)
next
  case False
  then have "month_of n div 12 = 0" "month_of n mod 12 = month_of n"
    using month_of_range [of n] by simp_all
  then show ?thesis
    using day_of_1 [of n] assms
    by (simp add: AddDate_def fields_inst Date_fixed next_month_start_def algebra_simps)
qed

lemma AddDate_day: "AddDate lk 0 0 1 (inst (86400 * n)) = inst (86400 * (n + 1))"
proof -
  have "(month_of n - 1) div 12 = 0" "(month_of n - 1) mod 12 = month_of n - 1"
    using month_of_range [of n] by simp_all
  then show ?thesis
    by (simp add: AddDate_def fields_inst Date_fixed day_of_eq month_start_def algebra_simps)
qed

lemma fix_midnight_id: "fix_midnight lk (inst (86400 * n)) = inst (86400 * n)"
proof -
  have "86400 * n div 3600 = 24 * n" by simp
  then show ?thesis by (simp add: fix_midnight_def fields_inst)
qed

lemma Truncate_inst:
  assumes "k dvd 60"
  shows "Truncate (k * nsec) (inst x) = inst (k * (x div k))"
proof -
  have ku: "k dvd off" "k dvd unix_to_internal"
    using assms whole_minutes dvd_trans [of k 60] by (auto simp: unix_to_internal_def)
  have "inst x + unix_to_internal * 1000000000 = (x - off) * nsec"
    by (simp add: inst_def nsec_def algebra_simps)
  then have "(inst x + unix_to_internal * 1000000000) mod (k * nsec) = (x - off) mod k * nsec"
    by (simp only: mod_mult_mult2)
  also have "(x - off) mod k = x mod k"
    using ku(1) by (metis diff_zero dvd_imp_mod_0 mod_diff_right_eq)
  finally have "Truncate (k * nsec) (inst x) = inst x - x mod k * nsec"
    by (simp only: Truncate_def)
  also have "\<dots> = inst (x - x mod k)"
    by (simp add: inst_def algebra_simps)
  finally show ?thesis by (simp only: minus_mod_eq_mult_div)
qed

lemma inst_add: "inst x + k * nsec = inst (x + k)"
  by (simp add: inst_def algebra_simps)

text \<open>The tests of the loops as functions of the local second.\<close>

definition Mok :: "'l SpecSchedule \<Rightarrow> int \<Rightarrow> bool" where
  "Mok s x = bit_set (sMonth s) (month_of (x div 86400))"

definition Dok :: "'l SpecSchedule \<Rightarrow> int \<Rightarrow> bool" where
  "Dok s x = dayMatches lk s (inst x)"

definition Hok :: "'l SpecSchedule \<Rightarrow> int \<Rightarrow> bool" where
  "Hok s x = bit_set (sHour s) (x div 3600 mod 24)"

definition Miok :: "'l SpecSchedule \<Rightarrow> int \<Rightarrow> bool" where
  "Miok s x = bit_set (sMinute s) (x div 60 mod 60)"

definition Sok :: "'l SpecSchedule \<Rightarrow> int \<Rightarrow> bool" where
  "Sok s x = bit_set (sSecond s) (x mod 60)"

lemmas ok_defs = Mok_def Dok_def Hok_def Miok_def Sok_def

lemma fires_inst: "fires lk s (inst x) \<longleftrightarrow> Mok s x \<and> Dok s x \<and> Hok s x \<and> Miok s x \<and> Sok s x"
  by (simp add: fires_def ok_defs fields_inst)

lemma Dok_same: "y div 86400 = x div 86400 \<Longrightarrow> Dok s y = Dok s x"
  by (simp add: Dok_def dayMatches_def fields_inst)

lemma Mok_same: "y div 86400 = x div 86400 \<Longrightarrow> Mok s y = Mok s x"
  by (simp add: Mok_def)

lemma Mok_same_month:
  "month_start n \<le> y div 86400 \<Longrightarrow> y div 86400 < next_month_start n \<Longrightarrow> x div 86400 = n \<Longrightarrow> Mok s y = Mok s x"
  using same_month(2) [of n "y div 86400"] by (simp add: Mok_def)

text \<open>
  Where the loops stand when a field was already incremented: the first field that does not match is
  at its beginning.
\<close>

definition aligned :: "'l SpecSchedule \<Rightarrow> int \<Rightarrow> bool" where
  "aligned s x \<longleftrightarrow>
     (\<not> Mok s x \<longrightarrow> 86400 dvd x \<and> month_start (x div 86400) = x div 86400) \<and>
     (Mok s x \<and> \<not> Dok s x \<longrightarrow> 86400 dvd x) \<and>
     (Mok s x \<and> Dok s x \<and> \<not> Hok s x \<longrightarrow> 3600 dvd x) \<and>
     (Mok s x \<and> Dok s x \<and> Hok s x \<and> \<not> Miok s x \<longrightarrow> 60 dvd x)"

text \<open>The fields before the loop at a label match.\<close>

fun before_ok :: "'l SpecSchedule \<Rightarrow> label \<Rightarrow> int \<Rightarrow> bool" where
  "before_ok s WRAP x = True"
| "before_ok s MonthLoop x = True"
| "before_ok s DayLoop x = Mok s x"
| "before_ok s HourLoop x = (Mok s x \<and> Dok s x)"
| "before_ok s MinuteLoop x = (Mok s x \<and> Dok s x \<and> Hok s x)"
| "before_ok s SecondLoop x = (Mok s x \<and> Dok s x \<and> Hok s x \<and> Miok s x)"

text \<open>
  Stepping from \<open>x\<close> to the next day, hour, minute or second, when everything coarser matches at \<open>x\<close>,
  reaches an aligned instant; the coarser fields still match unless the coarser unit is over.
\<close>

lemma day_change_aligned:
  assumes "Mok s x" and "\<not> Mok s y" and "y = 86400 * (x div 86400 + 1)"
  shows "month_start (y div 86400) = y div 86400"
proof -
  let ?n = "x div 86400"
  have y: "y div 86400 = ?n + 1" using assms(3) by simp
  have "\<not> ?n + 1 < next_month_start ?n"
  proof
    assume "?n + 1 < next_month_start ?n"
    then have "Mok s y = Mok s x"
      using month_start_bounds [of ?n] y by (intro Mok_same_month [of ?n]) auto
    with assms(1,2) show False by simp
  qed
  then have "?n + 1 = next_month_start ?n"
    using month_start_bounds [of ?n] by linarith
  then show ?thesis using next_month_first(1) [of ?n] y by simp
qed

lemma step_day_cases:
  fixes u x y :: int
  assumes "u dvd 86400" and "0 < u" and "y = u * (x div u + 1)"
  shows "y div 86400 = x div 86400 \<or> y = 86400 * (x div 86400 + 1)"
proof -
  obtain k where k: "86400 = u * k" using assms(1) by (elim dvdE)
  have "0 < u * k" by (simp add: k [symmetric])
  then have "0 < k" using assms(2) by (rule zero_less_mult_pos)
  from unit_step [OF assms(2) this, of x] show ?thesis
    unfolding k [symmetric] assms(3) .
qed

lemma aligned_step:
  assumes u: "u \<in> {86400, 3600, 60, 1}" and y: "y = u * (x div u + 1)" and M: "Mok s x"
    and D: "u \<noteq> 86400 \<Longrightarrow> Dok s x" and H: "u = 60 \<or> u = 1 \<Longrightarrow> Hok s x" and Mi: "u = 1 \<Longrightarrow> Miok s x"
  shows "aligned s y"
proof -
  have u86: "u dvd 86400" "0 < u" using u by auto
  have day: "y div 86400 = x div 86400 \<or> y = 86400 * (x div 86400 + 1)"
    by (rule step_day_cases [OF u86 y])
  have "86400 dvd y \<and> month_start (y div 86400) = y div 86400" if "\<not> Mok s y"
  proof -
    have "y = 86400 * (x div 86400 + 1)"
      using day M that by (auto dest: Mok_same [where s = s])
    then show ?thesis using day_change_aligned [OF M that] by simp
  qed
  moreover have "86400 dvd y" if "\<not> Dok s y"
  proof (cases "u = 86400")
    case True
    then show ?thesis using y by simp
  next
    case False
    then have "y = 86400 * (x div 86400 + 1)"
      using day D that by (auto dest: Dok_same [where s = s])
    then show ?thesis by simp
  qed
  moreover have "3600 dvd y" if "\<not> Hok s y"
  proof (cases "u = 60 \<or> u = 1")
    case True
    define k where "k = 3600 div u"
    have k: "3600 = u * k" "0 < k"
      using True by (auto simp: k_def)
    from unit_step [OF u86(2) k(2), of x] have "y div 3600 = x div 3600 \<or> y = 3600 * (x div 3600 + 1)"
      unfolding k(1) [symmetric] y .
    then show ?thesis using that H [OF True] by (auto simp: Hok_def)
  next
    case False
    then show ?thesis using u y by auto
  qed
  moreover have "60 dvd y" if "\<not> Miok s y"
  proof (cases "u = 1")
    case True
    have "y div 60 = x div 60 \<or> y = 60 * (x div 60 + 1)"
      using unit_step [of 1 60 x] y True by simp
    then show ?thesis using that Mi [OF True] by (auto simp: Miok_def)
  next
    case False
    then show ?thesis using u y by auto
  qed
  ultimately show ?thesis by (auto simp: aligned_def)
qed

text \<open>The invariant of the loops, at local second \<open>x\<close>, when they were entered at \<open>x0\<close>.\<close>

definition limit_sec :: "int \<Rightarrow> int" where
  "limit_sec yl = 86400 * days_before_year (yl + 1)"

definition Inv :: "'l SpecSchedule \<Rightarrow> int \<Rightarrow> int \<Rightarrow> label \<Rightarrow> int \<Rightarrow> bool \<Rightarrow> bool" where
  "Inv s yl x0 pc x added \<longleftrightarrow>
     x0 \<le> x \<and> (\<forall>z. x0 \<le> z \<and> z < x \<longrightarrow> \<not> fires lk s (inst z)) \<and> (added \<longrightarrow> aligned s x) \<and>
     before_ok s pc x \<and> x \<le> limit_sec yl \<and> (pc \<noteq> WRAP \<longrightarrow> x < limit_sec yl)"

lemma Inv_advance:
  assumes "Inv s yl x0 pc x added" and "x < y" and "\<And>z. x \<le> z \<Longrightarrow> z < y \<Longrightarrow> \<not> fires lk s (inst z)"
    and "aligned s y" and "y \<le> limit_sec yl"
    and "pc' \<noteq> WRAP \<Longrightarrow> y < limit_sec yl \<and> before_ok s pc' y"
  shows "Inv s yl x0 pc' y True"
proof -
  have "\<not> fires lk s (inst z)" if "x0 \<le> z" "z < y" for z
    using assms(1,3) that by (cases "z < x") (auto simp: Inv_def)
  then show ?thesis
    using assms(1,2,4-6) by (cases "pc' = WRAP") (auto simp: Inv_def)
qed

lemma below_limit: "x < limit_sec yl \<Longrightarrow> 86400 * (x div 86400 + 1) \<le> limit_sec yl"
proof -
  assume "x < limit_sec yl"
  then have "86400 * (x div 86400) < 86400 * days_before_year (yl + 1)"
    using int_div_bounds [of 86400 x] by (simp only: limit_sec_def)
  then show ?thesis by (simp add: limit_sec_def)
qed

lemma step_le_next_day:
  fixes u x y :: int
  assumes "u dvd 86400" and "0 < u" and "y = u * (x div u + 1)"
  shows "y \<le> 86400 * (x div 86400 + 1)"
  using step_day_cases [OF assms] int_div_bounds [of 86400 y] by auto

lemma limit_fields:
  "month_of (limit_sec yl div 86400) = 1" "day_of (limit_sec yl div 86400) = 1"
  "limit_sec yl div 3600 mod 24 = 0" "limit_sec yl div 60 mod 60 = 0" "limit_sec yl mod 60 = 0"
proof -
  have "limit_sec yl div 3600 = 24 * days_before_year (yl + 1)"
    "limit_sec yl div 60 = 60 * (24 * days_before_year (yl + 1))"
    "limit_sec yl = 60 * (1440 * days_before_year (yl + 1))"
    by (simp_all add: limit_sec_def)
  then show "limit_sec yl div 3600 mod 24 = 0" "limit_sec yl div 60 mod 60 = 0" "limit_sec yl mod 60 = 0"
    by simp_all
qed (simp_all add: limit_sec_def year_start)

lemma month_step:
  assumes inv: "Inv s yl x0 MonthLoop x added" and no: "\<not> Mok s x"
  defines "y \<equiv> 86400 * next_month_start (x div 86400)"
  shows "\<exists>pc'. next_step lk s yl MonthLoop (inst x) added = Continue pc' (inst y) True
    \<and> Inv s yl x0 pc' y True \<and> x < y"
proof -
  let ?n = "x div 86400"
  have start: "(if \<not> added then time_Date lk (time_Year lk (inst x)) (time_Month lk (inst x)) 1 0 0 0 0 else inst x)
      = inst (86400 * month_start ?n)"
    using inv no by (auto simp: Inv_def aligned_def fields_inst Date_month_start)
  have t2: "AddDate lk 0 1 0 (inst (86400 * month_start ?n)) = inst y"
    by (simp add: AddDate_month month_start_idem y_def)
  let ?pc = "if month_of (y div 86400) = 1 then WRAP else MonthLoop"
  have step: "next_step lk s yl MonthLoop (inst x) added = Continue ?pc (inst y) True"
    using no by (simp only: next_step.simps start Let_def t2) (simp add: Mok_def fields_inst)
  have xy: "x < y"
    using month_start_bounds [of ?n] int_div_bounds [of 86400 x] by (simp add: y_def)
  have "Inv s yl x0 ?pc y True"
  proof (rule Inv_advance [OF inv xy])
    show "\<not> fires lk s (inst z)" if "x \<le> z" "z < y" for z
    proof -
      have "?n \<le> z div 86400" "z div 86400 < next_month_start ?n"
        using that int_div_bounds [of 86400 z] zdiv_mono1 [of x z 86400] by (auto simp: y_def)
      then have "Mok s z = Mok s x"
        using month_start_bounds [of ?n] by (intro Mok_same_month [of ?n]) auto
      then show ?thesis using no by (simp add: fires_inst)
    qed
    show "aligned s y"
      by (auto simp: aligned_def y_def next_month_first intro: dvd_trans [of 3600 86400] dvd_trans [of 60 86400])
    have "year_of ?n \<le> yl"
    proof -
      have "?n < days_before_year (yl + 1)"
        using inv int_div_bounds [of 86400 x] by (simp add: Inv_def limit_sec_def)
      then have "\<not> yl + 1 \<le> year_of ?n"
        using days_before_year_mono [of "yl + 1" "year_of ?n"] year_of_bounds [of ?n] by linarith
      then show ?thesis by simp
    qed
    then have "next_month_start ?n \<le> days_before_year (yl + 1)"
      using next_month_start_year [of ?n] days_before_year_mono [of "year_of ?n + 1" "yl + 1"] by linarith
    then show le: "y \<le> limit_sec yl" by (simp add: y_def limit_sec_def)
    show "y < limit_sec yl \<and> before_ok s ?pc y" if "?pc \<noteq> WRAP"
      using that le limit_fields(1) [of yl] by (auto simp: order_less_le split: if_splits)
  qed
  then show ?thesis using step xy by blast
qed

lemma day_step:
  assumes inv: "Inv s yl x0 DayLoop x added" and no: "\<not> Dok s x"
  defines "y \<equiv> 86400 * (x div 86400 + 1)"
  shows "\<exists>pc'. next_step lk s yl DayLoop (inst x) added = Continue pc' (inst y) True
    \<and> Inv s yl x0 pc' y True \<and> x < y"
proof -
  let ?n = "x div 86400"
  have M: "Mok s x" and lt: "x < limit_sec yl" using inv by (auto simp: Inv_def)
  have start: "(if \<not> added then time_Date lk (time_Year lk (inst x)) (time_Month lk (inst x))
      (time_Day lk (inst x)) 0 0 0 0 else inst x) = inst (86400 * ?n)"
    using inv no by (auto simp: Inv_def aligned_def fields_inst Date_day_start mult.commute)
  let ?pc = "if day_of (?n + 1) = 1 then WRAP else DayLoop"
  have step: "next_step lk s yl DayLoop (inst x) added = Continue ?pc (inst y) True"
    using no by (simp only: next_step.simps start Let_def AddDate_day fix_midnight_id)
      (simp add: Dok_def fields_inst y_def)
  have xy: "x < y" unfolding y_def by (rule next_unit_greater) simp
  have "Inv s yl x0 ?pc y True"
  proof (rule Inv_advance [OF inv xy])
    show "\<not> fires lk s (inst z)" if "x \<le> z" "z < y" for z
      using no that same_unit [of 86400 x z] Dok_same [of z x s] by (simp add: fires_inst y_def)
    show "aligned s y"
      by (rule aligned_step [of 86400]) (use M in \<open>simp_all add: y_def\<close>)
    show le: "y \<le> limit_sec yl" unfolding y_def by (rule below_limit [OF lt])
    show "y < limit_sec yl \<and> before_ok s ?pc y" if "?pc \<noteq> WRAP"
    proof
      have d: "day_of (?n + 1) \<noteq> 1" using that by auto
      have "y div 86400 = ?n + 1" by (simp add: y_def)
      then have "y \<noteq> limit_sec yl" using d limit_fields(2) [of yl] by metis
      with le show "y < limit_sec yl" by simp
      have "?n + 1 \<noteq> next_month_start ?n"
        using d day_of_1 [of "?n + 1"] next_month_first(1) [of ?n] by auto
      then have "Mok s y = Mok s x"
        using month_start_bounds [of ?n] by (intro Mok_same_month [of ?n]) (auto simp: y_def)
      then show "before_ok s ?pc y" using M d by simp
    qed
  qed
  then show ?thesis using step xy by blast
qed

text \<open>The hour, minute and second loops share their argument: the unit \<open>u\<close> divides the day.\<close>

lemma unit_advance:
  fixes u :: int
  assumes inv: "Inv s yl x0 pc x added" and u: "u \<in> {3600, 60, 1}" and pc: "pc \<noteq> WRAP"
    and M: "Mok s x" and D: "Dok s x" and H: "u = 60 \<or> u = 1 \<Longrightarrow> Hok s x" and Mi: "u = 1 \<Longrightarrow> Miok s x"
    and nofire: "\<And>z. z div u = x div u \<Longrightarrow> \<not> fires lk s (inst z)"
    and nowrap: "pc' \<noteq> WRAP \<Longrightarrow> u * (x div u + 1) \<noteq> limit_sec yl \<and> before_ok s pc' (u * (x div u + 1))"
  shows "Inv s yl x0 pc' (u * (x div u + 1)) True \<and> x < u * (x div u + 1)"
proof -
  have u86: "u dvd 86400" "0 < u" using u by auto
  have lt: "x < limit_sec yl" using inv pc by (simp add: Inv_def)
  have xy: "x < u * (x div u + 1)" by (rule next_unit_greater [OF u86(2)])
  have le: "u * (x div u + 1) \<le> limit_sec yl"
    using step_le_next_day [OF u86 refl, of x] below_limit [OF lt] by linarith
  have "Inv s yl x0 pc' (u * (x div u + 1)) True"
  proof (rule Inv_advance [OF inv xy _ _ le])
    show "\<not> fires lk s (inst z)" if "x \<le> z" "z < u * (x div u + 1)" for z
      using nofire same_unit [OF u86(2) that] by blast
    show "aligned s (u * (x div u + 1))"
      by (rule aligned_step [of u]) (use u M D H Mi in auto)
    show "u * (x div u + 1) < limit_sec yl \<and> before_ok s pc' (u * (x div u + 1))" if "pc' \<noteq> WRAP"
      using nowrap [OF that] le by simp
  qed
  with xy show ?thesis by blast
qed

lemma hour_step:
  assumes inv: "Inv s yl x0 HourLoop x added" and no: "\<not> Hok s x"
  shows "\<exists>pc' y. next_step lk s yl HourLoop (inst x) added = Continue pc' (inst y) True
    \<and> Inv s yl x0 pc' y True \<and> x < y"
proof -
  define y where "y = 3600 * (x div 3600 + 1)"
  have MD: "Mok s x" "Dok s x" using inv by (auto simp: Inv_def)
  have day: "x div 86400 = x div 3600 div 24"
    using zdiv_zmult2_eq [of 24 x 3600] by simp
  have "x div 86400 * 86400 + x div 3600 mod 24 * 3600 = 3600 * (x div 3600)"
    using mult_div_mod_eq [of 24 "x div 3600"] unfolding day by linarith
  then have start: "(if \<not> added then time_Date lk (time_Year lk (inst x)) (time_Month lk (inst x))
      (time_Day lk (inst x)) (time_Hour lk (inst x)) 0 0 0 else inst x) = inst (3600 * (x div 3600))"
    using inv no by (auto simp: Inv_def aligned_def fields_inst Date_day_start)
  have t2: "inst (3600 * (x div 3600)) + 3600 * nsec = inst y"
    by (simp only: inst_add y_def distrib_left mult_1_right)
  let ?pc = "if y div 3600 mod 24 = 0 then WRAP else HourLoop"
  have step: "next_step lk s yl HourLoop (inst x) added = Continue ?pc (inst y) True"
    using no by (simp only: next_step.simps start Let_def t2) (simp add: Hok_def fields_inst)
  have "Inv s yl x0 ?pc (3600 * (x div 3600 + 1)) True \<and> x < 3600 * (x div 3600 + 1)"
  proof (rule unit_advance [OF inv])
    show "\<not> fires lk s (inst z)" if "z div 3600 = x div 3600" for z
      using no that by (simp add: fires_inst Hok_def)
    assume "?pc \<noteq> WRAP"
    then have h: "y div 3600 mod 24 \<noteq> 0" by auto
    then have "y \<noteq> limit_sec yl" using limit_fields(3) [of yl] by auto
    moreover have "y \<noteq> 86400 * (x div 86400 + 1)"
      using h by auto
    then have "y div 86400 = x div 86400"
      using step_day_cases [of 3600 y x] by (simp add: y_def)
    ultimately show "3600 * (x div 3600 + 1) \<noteq> limit_sec yl \<and> before_ok s ?pc (3600 * (x div 3600 + 1))"
      unfolding y_def [symmetric] using h MD Mok_same [of y x s] Dok_same [of y x s] by simp
  qed (use MD in simp_all)
  then show ?thesis using step unfolding y_def by blast
qed

lemma minute_step:
  assumes inv: "Inv s yl x0 MinuteLoop x added" and no: "\<not> Miok s x"
  shows "\<exists>pc' y. next_step lk s yl MinuteLoop (inst x) added = Continue pc' (inst y) True
    \<and> Inv s yl x0 pc' y True \<and> x < y"
proof -
  define y where "y = 60 * (x div 60 + 1)"
  have MDH: "Mok s x" "Dok s x" "Hok s x" using inv by (auto simp: Inv_def)
  have start: "(if \<not> added then Truncate (60 * nsec) (inst x) else inst x) = inst (60 * (x div 60))"
    using inv no by (auto simp: Inv_def aligned_def Truncate_inst)
  have t2: "inst (60 * (x div 60)) + 60 * nsec = inst y"
    by (simp only: inst_add y_def distrib_left mult_1_right)
  let ?pc = "if y div 60 mod 60 = 0 then WRAP else MinuteLoop"
  have step: "next_step lk s yl MinuteLoop (inst x) added = Continue ?pc (inst y) True"
    using no by (simp only: next_step.simps start Let_def t2) (simp add: Miok_def fields_inst)
  have "Inv s yl x0 ?pc (60 * (x div 60 + 1)) True \<and> x < 60 * (x div 60 + 1)"
  proof (rule unit_advance [OF inv])
    show "\<not> fires lk s (inst z)" if "z div 60 = x div 60" for z
      using no that by (simp add: fires_inst Miok_def)
    assume "?pc \<noteq> WRAP"
    then have m: "y div 60 mod 60 \<noteq> 0" by auto
    then have "y \<noteq> limit_sec yl" using limit_fields(4) [of yl] by auto
    moreover have "y \<noteq> 86400 * (x div 86400 + 1)" "y \<noteq> 3600 * (x div 3600 + 1)"
      using m by auto
    then have "y div 86400 = x div 86400" "y div 3600 = x div 3600"
      using step_day_cases [of 60 y x] unit_step [of 60 60 x] by (simp_all add: y_def)
    ultimately show "60 * (x div 60 + 1) \<noteq> limit_sec yl \<and> before_ok s ?pc (60 * (x div 60 + 1))"
      unfolding y_def [symmetric] using m MDH Mok_same [of y x s] Dok_same [of y x s] by (simp add: Hok_def)
  qed (use MDH in simp_all)
  then show ?thesis using step unfolding y_def by blast
qed

lemma second_step:
  assumes inv: "Inv s yl x0 SecondLoop x added" and no: "\<not> Sok s x"
  shows "\<exists>pc' y. next_step lk s yl SecondLoop (inst x) added = Continue pc' (inst y) True
    \<and> Inv s yl x0 pc' y True \<and> x < y"
proof -
  define y where "y = x + 1"
  have all: "Mok s x" "Dok s x" "Hok s x" "Miok s x" using inv by (auto simp: Inv_def)
  have start: "(if \<not> added then Truncate nsec (inst x) else inst x) = inst x"
    using Truncate_inst [of 1 x] by simp
  have t2: "inst x + nsec = inst y"
    using inst_add [of x 1] by (simp add: y_def)
  let ?pc = "if y mod 60 = 0 then WRAP else SecondLoop"
  have step: "next_step lk s yl SecondLoop (inst x) added = Continue ?pc (inst y) True"
    using no by (simp only: next_step.simps start Let_def t2) (simp add: Sok_def fields_inst)
  have "Inv s yl x0 ?pc (1 * (x div 1 + 1)) True \<and> x < 1 * (x div 1 + 1)"
  proof (rule unit_advance [OF inv])
    show "\<not> fires lk s (inst z)" if "z div 1 = x div 1" for z
      using no that by (simp add: fires_inst Sok_def)
    assume "?pc \<noteq> WRAP"
    then have m: "y mod 60 \<noteq> 0" by auto
    then have "y \<noteq> limit_sec yl" using limit_fields(5) [of yl] by auto
    moreover have "y \<noteq> 86400 * (x div 86400 + 1)" "y \<noteq> 3600 * (x div 3600 + 1)" "y \<noteq> 60 * (x div 60 + 1)"
      using m by auto
    then have same: "y div 86400 = x div 86400" "y div 3600 = x div 3600" "y div 60 = x div 60"
      using step_day_cases [of 1 y x] unit_step [of 1 3600 x] unit_step [of 1 60 x] by (simp_all add: y_def)
    have "Mok s y" "Dok s y" "Hok s y" "Miok s y"
      using all Mok_same [OF same(1), of s] Dok_same [OF same(1), of s] by (simp_all only: Hok_def Miok_def same(2,3))
    moreover have e: "1 * (x div 1 + 1) = y" by (simp add: y_def)
    ultimately show "1 * (x div 1 + 1) \<noteq> limit_sec yl \<and> before_ok s ?pc (1 * (x div 1 + 1))"
      unfolding e using \<open>?pc \<noteq> WRAP\<close> by (simp only: before_ok.simps if_False simp_thms split: if_splits)
  qed (use all in simp_all)
  then show ?thesis using step unfolding y_def by auto
qed

text \<open>Every step keeps the invariant and makes progress; the loops end with the right answer.\<close>

fun rank :: "label \<Rightarrow> nat" where
  "rank WRAP = 6"
| "rank MonthLoop = 5"
| "rank DayLoop = 4"
| "rank HourLoop = 3"
| "rank MinuteLoop = 2"
| "rank SecondLoop = 1"

lemma next_step_progress:
  assumes inv: "Inv s yl x0 pc x added"
  shows "(next_step lk s yl pc (inst x) added = Return None \<and> x = limit_sec yl) \<or>
    (next_step lk s yl pc (inst x) added = Return (Some (inst x)) \<and> fires lk s (inst x) \<and> x < limit_sec yl) \<or>
    (\<exists>pc' y added'. next_step lk s yl pc (inst x) added = Continue pc' (inst y) added' \<and>
       Inv s yl x0 pc' y added' \<and> (x < y \<or> x = y \<and> rank pc' < rank pc))"
proof (cases pc)
  case WRAP
  have y: "yl < year_of (x div 86400) \<longleftrightarrow> x = limit_sec yl"
  proof
    assume "yl < year_of (x div 86400)"
    then have "days_before_year (yl + 1) \<le> x div 86400"
      using days_before_year_mono [of "yl + 1" "year_of (x div 86400)"] year_of_bounds [of "x div 86400"] by linarith
    then have "limit_sec yl \<le> x"
      using int_div_bounds [of 86400 x] by (simp add: limit_sec_def)
    then show "x = limit_sec yl" using inv by (simp add: Inv_def)
  qed (simp add: limit_sec_def year_start)
  show ?thesis
  proof (cases "x = limit_sec yl")
    case True
    then show ?thesis using WRAP y by (simp add: fields_inst)
  next
    case False
    then have "Inv s yl x0 MonthLoop x added" using inv WRAP by (simp add: Inv_def)
    then show ?thesis using False WRAP y by (auto simp: fields_inst)
  qed
next
  case MonthLoop
  show ?thesis
  proof (cases "Mok s x")
    case True
    then show ?thesis using inv MonthLoop by (auto simp: Inv_def Mok_def fields_inst)
  next
    case False
    then show ?thesis using month_step inv MonthLoop by blast
  qed
next
  case DayLoop
  show ?thesis
  proof (cases "Dok s x")
    case True
    then show ?thesis using inv DayLoop by (auto simp: Inv_def Dok_def)
  next
    case False
    then show ?thesis using day_step inv DayLoop by blast
  qed
next
  case HourLoop
  show ?thesis
  proof (cases "Hok s x")
    case True
    then show ?thesis using inv HourLoop by (auto simp: Inv_def Hok_def fields_inst)
  next
    case False
    then show ?thesis using hour_step inv HourLoop by blast
  qed
next
  case MinuteLoop
  show ?thesis
  proof (cases "Miok s x")
    case True
    then show ?thesis using inv MinuteLoop by (auto simp: Inv_def Miok_def fields_inst)
  next
    case False
    then show ?thesis using minute_step inv MinuteLoop by blast
  qed
next
  case SecondLoop
  show ?thesis
  proof (cases "Sok s x")
    case True
    then show ?thesis using inv SecondLoop by (auto simp: Inv_def Sok_def fields_inst fires_inst)
  next
    case False
    then show ?thesis using second_step inv SecondLoop by blast
  qed
qed

lemma next_loop_result:
  assumes "Inv s yl x0 pc x added"
  shows "(next_loop lk s yl pc (inst x) added = Some None \<and>
      (\<forall>z. x0 \<le> z \<and> z < limit_sec yl \<longrightarrow> \<not> fires lk s (inst z))) \<or>
    (\<exists>y. next_loop lk s yl pc (inst x) added = Some (Some (inst y)) \<and> x0 \<le> y \<and> y < limit_sec yl \<and>
      fires lk s (inst y) \<and> (\<forall>z. x0 \<le> z \<and> z < y \<longrightarrow> \<not> fires lk s (inst z)))"
  using assms
proof (induction "7 * nat (limit_sec yl - x) + rank pc" arbitrary: pc x added rule: less_induct)
  case less
  consider "next_step lk s yl pc (inst x) added = Return None" "x = limit_sec yl"
    | "next_step lk s yl pc (inst x) added = Return (Some (inst x))" "fires lk s (inst x)" "x < limit_sec yl"
    | pc' y added' where "next_step lk s yl pc (inst x) added = Continue pc' (inst y) added'"
      "Inv s yl x0 pc' y added'" "x < y \<or> x = y \<and> rank pc' < rank pc"
    using next_step_progress [OF less.prems] by blast
  then show ?case
  proof cases
    case 1
    have "next_loop lk s yl pc (inst x) added = Some None"
      by (subst next_loop.simps) (simp add: 1(1))
    then show ?thesis using less.prems 1(2) by (simp add: Inv_def)
  next
    case 2
    have "next_loop lk s yl pc (inst x) added = Some (Some (inst x))"
      by (subst next_loop.simps) (simp add: 2(1))
    then show ?thesis using less.prems 2(2,3) by (auto simp: Inv_def)
  next
    case 3
    have rk: "rank p \<le> 6" for p by (cases p) simp_all
    have "y \<le> limit_sec yl" using 3(2) by (simp add: Inv_def)
    then have dec: "7 * nat (limit_sec yl - y) + rank pc' < 7 * nat (limit_sec yl - x) + rank pc"
      using 3(3) rk [of pc'] by auto
    have "next_loop lk s yl pc (inst x) added = next_loop lk s yl pc' (inst y) added'"
      by (subst next_loop.simps) (simp add: 3(1))
    then show ?thesis using less.hyps [OF dec 3(2)] by simp
  qed
qed

lemma year_below_limit: "time_Year lk (inst z) \<le> yl \<longleftrightarrow> z < limit_sec yl"
proof
  assume "time_Year lk (inst z) \<le> yl"
  then have "days_before_year (year_of (z div 86400) + 1) \<le> days_before_year (yl + 1)"
    by (intro days_before_year_mono) (simp add: fields_inst)
  then have "z div 86400 + 1 \<le> days_before_year (yl + 1)"
    using year_of_bounds [of "z div 86400"] by linarith
  then show "z < limit_sec yl"
    using int_div_bounds [of 86400 z] unfolding limit_sec_def by linarith
next
  assume "z < limit_sec yl"
  then have "86400 * (z div 86400) < 86400 * days_before_year (yl + 1)"
    using int_div_bounds [of 86400 z] by (simp only: limit_sec_def)
  then have "z div 86400 < days_before_year (yl + 1)" by simp
  then have "\<not> yl + 1 \<le> year_of (z div 86400)"
    using year_of_bounds [of "z div 86400"] days_before_year_mono [of "yl + 1" "year_of (z div 86400)"] by linarith
  then show "time_Year lk (inst z) \<le> yl" by (simp add: fields_inst)
qed

text \<open>From the upcoming second on, the loops find the earliest firing within the limit, or none.\<close>

lemma next_loop_earliest:
  fixes t :: int
  defines "t1 \<equiv> t + (nsec - time_Nanosecond t)"
  shows "(\<exists>r. next_loop lk s (time_Year lk t1 + 5) WRAP t1 False = Some (Some r) \<and> t < r \<and> fires lk s r
      \<and> (\<forall>t'. t < t' \<and> t' < r \<longrightarrow> \<not> fires lk s t')) \<or>
    (next_loop lk s (time_Year lk t1 + 5) WRAP t1 False = Some None
      \<and> (\<forall>t'. t < t' \<and> time_Year lk t' \<le> time_Year lk t1 + 5 \<longrightarrow> \<not> fires lk s t'))"
proof -
  define x0 where "x0 = local_sec lk t1"
  let ?yl = "time_Year lk t1 + 5"
  have "t1 = nsec * (t div nsec + 1)"
    using mult_div_mod_eq [of nsec t] by (simp add: t1_def time_Nanosecond_def nsec_def algebra_simps)
  then have "time_Nanosecond t1 = 0" by (simp add: time_Nanosecond_def nsec_def)
  then have t1: "t1 = inst x0" unfolding x0_def by (rule whole_second_inst)
  have t_t1: "t < t1" by (simp add: t1_def time_Nanosecond_def nsec_def)
  have upcoming: "\<exists>z. t' = inst z \<and> x0 \<le> z" if "t < t'" "fires lk s t'" for t'
  proof -
    have ns: "time_Nanosecond t' = 0" using that(2) by (simp add: fires_def)
    then have z: "t' = inst (local_sec lk t')" by (rule whole_second_inst)
    obtain q where q: "t' = nsec * q"
      using ns by (auto simp: time_Nanosecond_def nsec_def elim: dvdE dest: mod_0_imp_dvd)
    have "t div nsec < q"
      using that(1) q int_div_bounds [of nsec t] by (simp add: nsec_def)
    then have "t1 \<le> t'"
      using q \<open>t1 = nsec * (t div nsec + 1)\<close> by (simp add: nsec_def)
    then have "\<not> inst (local_sec lk t') < inst x0" using z t1 by linarith
    then show ?thesis using z inst_less [of "local_sec lk t'" x0] not_less by metis
  qed
  have "x0 < limit_sec ?yl"
    using year_below_limit [of x0 ?yl] t1 by simp
  then have "Inv s ?yl x0 WRAP x0 False" by (auto simp: Inv_def)
  from next_loop_result [OF this] show ?thesis
  proof (elim disjE exE conjE)
    assume "next_loop lk s ?yl WRAP (inst x0) False = Some None"
      and "\<forall>z. x0 \<le> z \<and> z < limit_sec ?yl \<longrightarrow> \<not> fires lk s (inst z)"
    then show ?thesis
      using t1 upcoming year_below_limit [of _ ?yl] by metis
  next
    fix y
    assume "next_loop lk s ?yl WRAP (inst x0) False = Some (Some (inst y))" and "x0 \<le> y"
      and "fires lk s (inst y)" and "\<forall>z. x0 \<le> z \<and> z < y \<longrightarrow> \<not> fires lk s (inst z)"
    moreover have "t < inst y"
      using t_t1 t1 \<open>x0 \<le> y\<close> inst_less [of y x0] by linarith
    ultimately show ?thesis
      using t1 upcoming inst_less by metis
  qed
qed

end

interpretation utc_zone: fixed_zone utc 0
  by unfold_locales (simp_all add: utc_def)

section \<open>Properties\<close>

text \<open>
  C8: In a location with a fixed offset of whole minutes, \<open>Next\<close> ends. It returns the earliest
  instant after the given one at which the schedule fires, in the caller's location, or the zero
  time when the schedule fires at no instant up to the end of the fifth year after the upcoming
  second.
\<close>

theorem Next_earliest:
  assumes "\<And>u. fst (lookup (if Location s = local then tloc else Location s) u) = off" and "60 dvd off"
  defines "lk \<equiv> lookup (if Location s = local then tloc else Location s)"
  shows "(\<exists>r. Spec_Next lookup local s (t, tloc) = Some (Some (r, tloc)) \<and> t < r \<and> fires lk s r
      \<and> (\<forall>t'. t < t' \<and> t' < r \<longrightarrow> \<not> fires lk s t')) \<or>
    (Spec_Next lookup local s (t, tloc) = Some None
      \<and> (\<forall>t'. t < t' \<and> time_Year lk t' \<le> time_Year lk (t + (nsec - time_Nanosecond t)) + 5 \<longrightarrow> \<not> fires lk s t'))"
proof -
  have "fixed_zone lk off"
    using assms(1,2) by unfold_locales (simp_all add: lk_def)
  from fixed_zone.next_loop_earliest [OF this, of s t] show ?thesis
    by (auto simp: Spec_Next_def Let_def lk_def [symmetric])
qed

text \<open>New Year's Eve 1999, one nanosecond before midnight: the yearly schedule fires at midnight.\<close>

definition yearly :: "unit SpecSchedule" where
  "yearly = \<lparr>sSecond = 1, sMinute = 1, sHour = 1, sDom = 2, sMonth = 2, sDow = all_bits dow, Location = ()\<rparr>"

theorem Next_earliest_witness:
  "(\<exists>r. Spec_Next (\<lambda>_. utc) () yearly (946684799999999999, ()) = Some (Some (r, ())) \<and> 946684799999999999 < r
      \<and> fires utc yearly r \<and> (\<forall>t'. 946684799999999999 < t' \<and> t' < r \<longrightarrow> \<not> fires utc yearly t')) \<or>
    (Spec_Next (\<lambda>_. utc) () yearly (946684799999999999, ()) = Some None
      \<and> (\<forall>t'. 946684799999999999 < t' \<and> time_Year utc t' \<le>
          time_Year utc (946684799999999999 + (nsec - time_Nanosecond 946684799999999999)) + 5
          \<longrightarrow> \<not> fires utc yearly t'))"
  using Next_earliest [of "\<lambda>_. utc" yearly "()" "()" 0 946684799999999999] by (simp add: utc_def)

text \<open>
  A field that holds only commas is accepted by the parser as the empty set of values, without
  an error; a schedule with such a field never fires, and \<open>Next\<close> gives the zero time for every
  instant.
\<close>

theorem comma_field_never_fires:
  "getField '','' r = Some (Ok 0) \<and>
   (\<exists>s. NewParseWithStandard ll pd loc ''* * * , *'' = Some (Ok (SpecSched s)) \<and>
     (\<forall>t tloc. Spec_Next (\<lambda>_. utc) loc s (t, tloc) = Some None))"
proof -
  have empty: "getField '','' r = Some (Ok 0)" for r
    by (simp add: getField_def FieldsFunc_def)
  have star: "\<exists>b. getField ''*'' r = Some (Ok b)" if "unat (bmax r) < 63" "bmin r \<le> bmax r" for r
    using that getBits_spec [of 1 "bmax r" "bmin r"]
    by (auto simp: getField_def FieldsFunc_def getRange_def Split_def range_ends_def range_step_def not_less)
  have zero: "\<exists>b. getField ''0'' seconds = Some (Ok b)"
    using getBits_spec [of 1 0 0]
    by (auto simp: getField_def FieldsFunc_def getRange_def Split_def range_ends_def range_step_def seconds_def
        parseIntOrName_def mustParseInt_def Atoi_def parse_digits_def is_digit_def digit_val_def)
  obtain b0 b1 b2 b3 b5 where b: "getField ''0'' seconds = Some (Ok b0)" "getField ''*'' minutes = Some (Ok b1)"
    "getField ''*'' hours = Some (Ok b2)" "getField ''*'' dom_bounds = Some (Ok b3)" "getField ''*'' dow = Some (Ok b5)"
    using zero star [of minutes] star [of hours] star [of dom_bounds] star [of dow] by (auto simp: bounds_defs)
  have fields: "normalizeFields (Fields ''* * * , *'') standardParser =
      Ok [''0'', ''*'', ''*'', ''*'', '','', ''*'']"
    by code_simp
  let ?s = "\<lparr>sSecond = b0, sMinute = b1, sHour = b2, sDom = b3, sMonth = 0, sDow = b5, Location = loc\<rparr>"
  have parse: "NewParseWithStandard ll pd loc ''* * * , *'' = Some (Ok (SpecSched ?s))"
    unfolding NewParseWithStandard_def Parse_def
    by (simp add: parse_tz_def HasPrefix_def fields b empty)
  have "\<not> fires lk ?s t" for lk t
    by (simp add: fires_def bit_set_def)
  then have "Spec_Next (\<lambda>_. utc) loc ?s (t, tloc) = Some None" for t tloc
    using utc_zone.next_loop_earliest [of ?s t] by (simp add: Spec_Next_def Let_def)
  with empty parse show ?thesis by blast
qed

end
