(* ===== verification/Snowflake.thy ===== *)
theory Snowflake
  imports Prelude GoTime
begin

unbundle bit_operations_syntax

text \<open>
  The distributed number generator (\<open>generator/snowflake.go\<close>): 39 bits of time in units of ten
  milliseconds, 8 bits of sequence number and 16 bits of node number. The wall clock is read twice
  in a call of \<open>NextID\<close>, once for the elapsed time and once for the length of the sleep; both
  readings are arguments, and nothing is assumed of them, so the clock may jump in either direction.
\<close>

section \<open>Model\<close>

definition TimeBit :: nat where "TimeBit = 39"
definition NodeBit :: nat where "NodeBit = 16"
definition SequenceBit :: nat where "SequenceBit = 8"

lemmas snowflake_bits = TimeBit_def NodeBit_def SequenceBit_def

record Snowflake =
  startTime :: i64
  elapsedTime :: i64
  sequence :: u16
  node :: u16

datatype 'e gen_err = OverTimeLimit | InvalidIPv4 | StartTimeInFuture | NoPrivateIP | NetErr 'e

definition timeUnit :: int where
  "timeUnit = 10000000"

definition toSnowflakeTime :: "gotime \<Rightarrow> i64" where
  "toSnowflakeTime t = word_of_int (go_div (sint (UnixNano t)) timeUnit)"

definition currentElapsedTime :: "i64 \<Rightarrow> gotime \<Rightarrow> i64" where
  "currentElapsedTime start now = toSnowflakeTime now - start"

definition sleepTime :: "i64 \<Rightarrow> gotime \<Rightarrow> duration" where
  "sleepTime overtime now =
     overtime * 10 * 1000000 - word_of_int (go_mod (sint (UnixNano now)) timeUnit)"

definition toID :: "Snowflake \<Rightarrow> ('e gen_err, u64) go" where
  "toID s =
     (if push_bit TimeBit 1 \<le>s elapsedTime s then Err OverTimeLimit
      else Ok (push_bit (SequenceBit + NodeBit) (elapsedTime s) OR
               push_bit NodeBit (ucast (sequence s)) OR ucast (node s)))"

text \<open>The new state, the sleep when the sequence numbers of a unit are used up, and the number.\<close>

definition NextID ::
  "gotime \<Rightarrow> gotime \<Rightarrow> Snowflake \<Rightarrow> Snowflake \<times> duration option \<times> ('e gen_err, u64) go" where
  "NextID now now_sleep s =
     (let maskSequence = push_bit SequenceBit 1 - 1;
          current = currentElapsedTime (startTime s) now
      in if elapsedTime s <s current then
           (let s1 = s\<lparr>elapsedTime := current, sequence := 0\<rparr> in (s1, None, toID s1))
         else
           (let s1 = s\<lparr>sequence := (sequence s + 1) AND maskSequence\<rparr>
            in if sequence s1 = 0 then
                 (let s2 = s1\<lparr>elapsedTime := elapsedTime s1 + 1\<rparr>;
                      overtime = elapsedTime s2 - current
                  in (s2, Some (sleepTime overtime now_sleep), toID s2))
               else (s1, None, toID s1)))"

record decomposed =
  d_id :: u64
  d_msb :: u64
  d_time :: u64
  d_sequence :: u64
  d_node :: u64

definition Decompose :: "u64 \<Rightarrow> decomposed" where
  "Decompose i =
     (let maskSequence = push_bit NodeBit (push_bit SequenceBit 1 - 1);
          maskMachineID = push_bit NodeBit 1 - 1
      in \<lparr>d_id = i, d_msb = drop_bit 63 i, d_time = drop_bit (SequenceBit + NodeBit) i,
          d_sequence = drop_bit NodeBit (i AND maskSequence), d_node = i AND maskMachineID\<rparr>)"

text \<open>An address is a list of bytes, of length 4 or 16 when it is valid.\<close>

type_synonym IP = "u8 list"

definition To4 :: "IP \<Rightarrow> IP option" where
  "To4 ip =
     (if length ip = 4 then Some ip
      else if length ip = 16 \<and> take 10 ip = replicate 10 0 \<and> ip ! 10 = 255 \<and> ip ! 11 = 255
      then Some (drop 12 ip) else None)"

definition IsLoopback :: "IP \<Rightarrow> bool" where
  "IsLoopback ip = (case To4 ip of Some v \<Rightarrow> v ! 0 = 127 | None \<Rightarrow> ip = replicate 15 0 @ [1])"

definition isPrivateIPv4 :: "IP option \<Rightarrow> bool" where
  "isPrivateIPv4 ip =
     (case ip of None \<Rightarrow> False
      | Some v \<Rightarrow> v ! 0 = 10 \<or> v ! 0 = 172 \<and> (16 \<le> v ! 1 \<and> v ! 1 < 32) \<or> v ! 0 = 192 \<and> v ! 1 = 168)"

text \<open>An interface address: an \<open>*net.IPNet\<close> or something else.\<close>

datatype addr = IPNet IP | OtherAddr

fun local_loop :: "addr list \<Rightarrow> ('e gen_err, IP) go" where
  "local_loop [] = Err NoPrivateIP"
| "local_loop (OtherAddr # as) = local_loop as"
| "local_loop (IPNet ip # as) =
     (if IsLoopback ip then local_loop as
      else case To4 ip of
        Some v \<Rightarrow> if isPrivateIPv4 (Some v) then Ok v else local_loop as
      | None \<Rightarrow> local_loop as)"

definition localIPv4 :: "('e, addr list) go \<Rightarrow> ('e gen_err, IP) go" where
  "localIPv4 interfaceAddrs =
     (case interfaceAddrs of Ok as \<Rightarrow> local_loop as | Err e \<Rightarrow> Err (NetErr e) | Panic \<Rightarrow> Panic)"

definition IpToUint16 :: "IP \<Rightarrow> ('e gen_err, u16) go" where
  "IpToUint16 ip =
     (case To4 ip of None \<Rightarrow> Err InvalidIPv4
      | Some v \<Rightarrow> Ok (push_bit 8 (ucast (v ! 2)) + ucast (v ! 3)))"

definition LocalIpToUint16 :: "('e, addr list) go \<Rightarrow> ('e gen_err, u16) go" where
  "LocalIpToUint16 interfaceAddrs = go_bind (localIPv4 interfaceAddrs) IpToUint16"

definition NewSnowflakeE :: "gotime \<Rightarrow> u16 \<Rightarrow> gotime \<Rightarrow> ('e gen_err, Snowflake) go" where
  "NewSnowflakeE start nodeID now =
     (if now < start then Err StartTimeInFuture
      else Ok \<lparr>startTime = (if start = zero_time then toSnowflakeTime (time_Date utc 2014 9 1 0 0 0 0)
                            else toSnowflakeTime start),
               elapsedTime = 0, sequence = push_bit SequenceBit 1 - 1, node = nodeID\<rparr>)"

definition NewSnowflake :: "gotime \<Rightarrow> u16 \<Rightarrow> gotime \<Rightarrow> Snowflake option" where
  "NewSnowflake start nodeID now =
     (case NewSnowflakeE start nodeID now :: (unit gen_err, Snowflake) go of Ok sf \<Rightarrow> Some sf | _ \<Rightarrow> None)"

section \<open>Calls in a row\<close>

text \<open>The numbers that a row of calls hands out, with the two clock readings of each call.\<close>

fun issue :: "(gotime \<times> gotime) list \<Rightarrow> Snowflake \<Rightarrow> u64 list" where
  "issue [] s = []"
| "issue ((now, now_sleep) # cs) s =
     (case NextID now now_sleep s :: Snowflake \<times> duration option \<times> (unit gen_err, u64) go of
        (s', _, Ok i) \<Rightarrow> i # issue cs s'
      | (s', _, _) \<Rightarrow> issue cs s')"

text \<open>The position of a state in the order of the numbers.\<close>

definition key :: "Snowflake \<Rightarrow> int" where
  "key s = sint (elapsedTime s) * 256 + uint (sequence s)"

definition sf_ok :: "int \<Rightarrow> Snowflake \<Rightarrow> bool" where
  "sf_ok b s \<longleftrightarrow> 0 \<le> sint (elapsedTime s) \<and> sint (elapsedTime s) \<le> b \<and> uint (sequence s) < 256
     \<and> \<bar>sint (startTime s)\<bar> \<le> 2 ^ 40"

lemma toSnowflakeTime_bound: "\<bar>sint (toSnowflakeTime t)\<bar> \<le> 2 ^ 40"
proof -
  let ?n = "sint (UnixNano t)"
  have "\<bar>?n\<bar> \<le> 2 ^ 63" using sint64_bounds [of "UnixNano t"] by simp
  then have "\<bar>?n\<bar> div 10000000 \<le> 2 ^ 63 div 10000000" by (intro zdiv_mono1) simp_all
  then have "\<bar>?n\<bar> div 10000000 \<le> 2 ^ 40" by simp
  moreover have "0 \<le> \<bar>?n\<bar> div 10000000" by (simp add: pos_imp_zdiv_nonneg_iff)
  ultimately have "\<bar>go_div ?n timeUnit\<bar> \<le> 2 ^ 40"
    by (simp add: go_div_def timeUnit_def abs_mult abs_sgn_eq)
  then show ?thesis
    unfolding toSnowflakeTime_def by (subst sint_of_int64) (simp_all add: abs_le_iff)
qed

lemma sint_current:
  assumes "sf_ok b s"
  shows "sint (currentElapsedTime (startTime s) now) = sint (toSnowflakeTime now) - sint (startTime s)"
    and "\<bar>sint (currentElapsedTime (startTime s) now)\<bar> \<le> 2 ^ 41"
proof -
  have "\<bar>sint (toSnowflakeTime now)\<bar> \<le> 1099511627776" "\<bar>sint (startTime s)\<bar> \<le> 1099511627776"
    using assms toSnowflakeTime_bound [of now] by (simp_all add: sf_ok_def)
  moreover from this show "sint (currentElapsedTime (startTime s) now) = sint (toSnowflakeTime now) - sint (startTime s)"
    unfolding currentElapsedTime_def by (intro sint_diff64; linarith)
  ultimately show "\<bar>sint (currentElapsedTime (startTime s) now)\<bar> \<le> 2 ^ 41"
    by simp
qed

lemma uint_shr: "uint (drop_bit n (w :: u64)) = uint w div 2 ^ n"
  by (subst unsigned_drop_bit_eq) (simp add: drop_bit_eq_div take_bit_int_eq_self uint_lt2p [of w, simplified])

lemma uint_low: "uint (take_bit n (w :: u64)) = uint w mod 2 ^ n"
  by (subst unsigned_take_bit_eq) (simp add: take_bit_eq_mod)

text \<open>The fields of a number do not overlap.\<close>

lemma toID_value:
  assumes "0 \<le> sint (elapsedTime s)" and "uint (sequence s) < 256" and "toID s = Ok i"
  shows "uint i = (sint (elapsedTime s) * 256 + uint (sequence s)) * 65536 + uint (node s)"
    and "sint (elapsedTime s) < 2 ^ 39"
proof -
  show lim: "sint (elapsedTime s) < 2 ^ 39"
    using assms(3) by (simp add: toID_def snowflake_bits word_sle_eq push_bit_eq_mult split: if_splits)
  let ?e = "uint (elapsedTime s)" and ?q = "uint (sequence s)" and ?n = "uint (node s)"
  have e: "?e = sint (elapsedTime s)" using assms(1) by (rule uint_sint_nonneg)
  have n: "?n < 65536" using uint_bounded [of "node s"] by simp
  have q: "uint (ucast (sequence s) :: u64) = ?q" "uint (ucast (node s) :: u64) = ?n"
    by (rule uint_up_ucast, simp add: is_up)+
  have i: "i = push_bit 24 (elapsedTime s) OR (push_bit 16 (ucast (sequence s)) OR ucast (node s))"
    using assms(3) by (simp add: toID_def snowflake_bits ac_simps split: if_splits)
  have low: "uint (push_bit 16 (ucast (sequence s)) :: u64) = push_bit 16 ?q"
    using uint_shl [of "ucast (sequence s) :: u64" 16] assms(2) q by (simp add: push_bit_eq_mult)
  have high: "uint (push_bit 24 (elapsedTime s)) = push_bit 24 ?e"
    using uint_shl [of "elapsedTime s" 24] lim e by (simp add: push_bit_eq_mult)
  have "uint i = push_bit 24 ?e OR (push_bit 16 ?q OR ?n)"
    by (simp only: i uint_or low high q)
  also have "\<dots> = ?e * 2 ^ 24 + (?q * 2 ^ 16 + ?n)"
    using n assms(2) int_or_shift [of ?n 16 ?q] int_or_shift [of "?q * 2 ^ 16 + ?n" 24 ?e] by simp
  finally show "uint i = (sint (elapsedTime s) * 256 + ?q) * 65536 + ?n" by (simp add: e)
qed

lemma mask_sequence: "uint (2 ^ SequenceBit - 1 :: u16) = mask 8"
  by (simp add: snowflake_bits mask_eq_exp_minus_1)

lemma uint_next_sequence:
  assumes "uint (q :: u16) < 256"
  shows "uint ((q + 1) AND (push_bit SequenceBit 1 - 1)) = (uint q + 1) mod 256"
proof -
  have "uint (q + 1) = uint q + 1"
    using assms by (subst uint_plus_if') simp
  then show ?thesis
    by (simp add: uint_and mask_sequence flip: take_bit_eq_mask) (simp add: take_bit_eq_mod)
qed

text \<open>One call moves the state forward in the order of the numbers, whatever the clock says.\<close>

lemma NextID_forward:
  assumes ok: "sf_ok b s" and b: "2 ^ 41 \<le> b" "b < max_i64" and n: "NextID now now' s = (s', d, r)"
  shows "sf_ok (b + 1) s'" and "key s < key s'" and "node s' = node s" and "startTime s' = startTime s"
    and "r = toID s'"
proof -
  let ?c = "currentElapsedTime (startTime s) now"
  let ?q = "(sequence s + 1) AND (push_bit SequenceBit 1 - 1)"
  have c: "\<bar>sint ?c\<bar> \<le> 2 ^ 41" using ok by (rule sint_current)
  have e: "0 \<le> sint (elapsedTime s)" "sint (elapsedTime s) \<le> b" "uint (sequence s) < 256"
    "\<bar>sint (startTime s)\<bar> \<le> 2 ^ 40" "0 \<le> uint (sequence s)"
    using ok by (simp_all add: sf_ok_def)
  have q: "uint ?q = (uint (sequence s) + 1) mod 256"
    using e(3) by (rule uint_next_sequence)
  consider (new) "sint (elapsedTime s) < sint ?c" | (next_unit) "sint ?c \<le> sint (elapsedTime s)" "?q = 0"
    | (same_unit) "sint ?c \<le> sint (elapsedTime s)" "?q \<noteq> 0"
    by linarith
  then have "sf_ok (b + 1) s' \<and> key s < key s' \<and> node s' = node s \<and> startTime s' = startTime s \<and> r = toID s'"
  proof cases
    case new
    then have "elapsedTime s <s ?c" by (simp add: word_sless_alt)
    then have "s' = s\<lparr>elapsedTime := ?c, sequence := 0\<rparr>" "r = toID s'"
      using n by (auto simp: NextID_def Let_def)
    then show ?thesis
      using new e c b by (simp add: sf_ok_def key_def abs_le_iff)
  next
    case next_unit
    then have "\<not> elapsedTime s <s ?c" by (simp add: word_sless_alt)
    then have s': "s' = s\<lparr>sequence := 0, elapsedTime := elapsedTime s + 1\<rparr>" "r = toID s'"
      using n next_unit(2) by (auto simp: NextID_def Let_def)
    moreover have "sint (elapsedTime s + 1) = sint (elapsedTime s) + 1"
      using e b by (intro sint_Suc64) simp
    ultimately show ?thesis
      using e b by (simp add: sf_ok_def key_def)
  next
    case same_unit
    then have "\<not> elapsedTime s <s ?c" by (simp add: word_sless_alt)
    then have s': "s' = s\<lparr>sequence := ?q\<rparr>" "r = toID s'"
      using n same_unit(2) by (auto simp: NextID_def Let_def)
    moreover have "uint ?q = uint (sequence s) + 1"
    proof -
      have "uint ?q \<noteq> 0" using same_unit(2) by (simp add: uint_0_iff)
      then have "(uint (sequence s) + 1) mod 256 \<noteq> 0" by (simp only: q not_False_eq_True)
      then have "uint (sequence s) + 1 \<noteq> 256" by auto
      then show ?thesis using e q by simp
    qed
    moreover have "uint ?q < 256" using q by simp
    ultimately show ?thesis
      using e by (simp add: sf_ok_def key_def)
  qed
  then show "sf_ok (b + 1) s'" "key s < key s'" "node s' = node s" "startTime s' = startTime s" "r = toID s'"
    by simp_all
qed

lemma NewSnowflakeE_ok:
  assumes "NewSnowflakeE start nd now = Ok sf"
  shows "sf_ok (2 ^ 41) sf" and "node sf = nd"
proof -
  have "uint (push_bit SequenceBit 1 - 1 :: u16) = 255"
    by (simp add: mask_sequence mask_eq_exp_minus_1)
  then show "sf_ok (2 ^ 41) sf"
    using assms toSnowflakeTime_bound by (auto simp: NewSnowflakeE_def sf_ok_def split: if_splits)
  show "node sf = nd"
    using assms by (auto simp: NewSnowflakeE_def split: if_splits)
qed

lemma issue_above:
  assumes "sf_ok b s" and "2 ^ 41 \<le> b" and "b + int (length cs) < max_i64"
  shows "sorted_wrt (<) (issue cs s) \<and>
    (\<forall>i \<in> set (issue cs s). (key s + 1) * 65536 \<le> uint i \<and> uint i mod 65536 = uint (node s))"
  using assms
proof (induction cs arbitrary: s b)
  case (Cons c cs)
  obtain now now' where c: "c = (now, now')" by force
  obtain s' d r where n: "NextID now now' s = (s', d, r :: (unit gen_err, u64) go)"
    by (metis prod_cases3)
  have b: "b < max_i64" using Cons.prems(3) by simp
  note fwd = NextID_forward [OF Cons.prems(1,2) b n]
  have IH: "sorted_wrt (<) (issue cs s')"
    "\<forall>i \<in> set (issue cs s'). (key s' + 1) * 65536 \<le> uint i \<and> uint i mod 65536 = uint (node s')"
    using Cons.IH [OF fwd(1)] Cons.prems(2,3) by simp_all
  have later: "(key s + 1) * 65536 \<le> uint i \<and> uint i mod 65536 = uint (node s)" if "i \<in> set (issue cs s')" for i
    using IH(2) that fwd(2,3) by fastforce
  show ?case
  proof (cases r)
    case (Ok i)
    have *: "0 \<le> sint (elapsedTime s')" "uint (sequence s') < 256" "toID s' = (Ok i :: (unit gen_err, u64) go)"
      using fwd(1) fwd(5) [symmetric] Ok by (simp_all add: sf_ok_def)
    have i: "uint i = key s' * 65536 + uint (node s)"
      using toID_value(1) [OF *] fwd(3) by (simp add: key_def)
    have nd: "0 \<le> uint (node s)" "uint (node s) < 65536" using uint_bounded [of "node s"] by simp_all
    have "i < j" if "j \<in> set (issue cs s')" for j
    proof -
      have "(key s' + 1) * 65536 \<le> uint j" using IH(2) that by blast
      then show ?thesis using i nd by (simp add: word_less_def)
    qed
    moreover have "(key s + 1) * 65536 \<le> key s' * 65536"
      using fwd(2) by (intro mult_right_mono) simp_all
    then have "(key s + 1) * 65536 \<le> uint i" using i nd(1) by linarith
    moreover have "uint i mod 65536 = uint (node s)" using i nd by simp
    ultimately show ?thesis
      using later IH(1) by (simp add: c n Ok)
  next
    case (Err e)
    then show ?thesis using later IH(1) by (simp add: c n)
  next
    case Panic
    then show ?thesis using later IH(1) by (simp add: c n)
  qed
qed simp

section \<open>Properties\<close>

text \<open>
  C14: The numbers that a generator hands out grow strictly, however the wall clock moves, for every
  row of fewer than \<open>2 ^ 62\<close> calls; and generators with different node numbers never hand out the
  same number.
\<close>

theorem NextID_unique:
  assumes "NewSnowflakeE start nd now = Ok sf" and "NewSnowflakeE start' nd' now' = Ok sf'"
    and "length cs < 2 ^ 62" and "length cs' < 2 ^ 62"
  shows "sorted_wrt (<) (issue cs sf) \<and> (nd \<noteq> nd' \<longrightarrow> set (issue cs sf) \<inter> set (issue cs' sf') = {})"
proof -
  have "sorted_wrt (<) (issue cs sf)"
    and "\<forall>i \<in> set (issue cs sf). uint i mod 65536 = uint nd"
    using issue_above [OF NewSnowflakeE_ok(1) [OF assms(1)], of cs] assms(3) NewSnowflakeE_ok(2) [OF assms(1)]
    by simp_all
  moreover have "\<forall>i \<in> set (issue cs' sf'). uint i mod 65536 = uint nd'"
    using issue_above [OF NewSnowflakeE_ok(1) [OF assms(2)], of cs'] assms(4) NewSnowflakeE_ok(2) [OF assms(2)]
    by simp
  moreover have "uint nd \<noteq> uint nd'" if "nd \<noteq> nd'" using that by (metis word_uint_eqI)
  ultimately show ?thesis by (metis disjoint_iff)
qed

text \<open>A generator started at the beginning of 2020, and the clock of its first three calls.\<close>

theorem NextID_unique_witness:
  "NewSnowflakeE 1577836800000000000 7 1577836800000000001 =
     (Ok \<lparr>startTime = 157783680000, elapsedTime = 0, sequence = 255, node = 7\<rparr> :: (unit gen_err, Snowflake) go) \<and>
   sorted_wrt (<) (issue [(1577836800000000001, 1577836800000000002), (1577836700000000000, 0), (1577836900000000000, 0)]
     \<lparr>startTime = 157783680000, elapsedTime = 0, sequence = 255, node = 7\<rparr>)"
proof -
  have sf: "NewSnowflakeE 1577836800000000000 nd 1577836800000000001 =
     (Ok \<lparr>startTime = 157783680000, elapsedTime = 0, sequence = 255, node = nd\<rparr> :: (unit gen_err, Snowflake) go)" for nd
    by (simp add: NewSnowflakeE_def zero_time_def unix_to_internal_def toSnowflakeTime_def UnixNano_def
        timeUnit_def snowflake_bits sint_of_int64)
  show ?thesis
    using NextID_unique [OF sf sf, of "[(1577836800000000001, 1577836800000000002), (1577836700000000000, 0),
      (1577836900000000000, 0)]" "[]" 7 8] sf by (simp del: issue.simps)
qed

text \<open>
  C38: \<open>Decompose\<close> gives back the time, the sequence number and the node number that a number was made
  of, and its top bit is zero.
\<close>

theorem Decompose_toID:
  assumes "0 \<le> sint (elapsedTime s)" and "uint (sequence s) < 256" and "toID s = Ok i"
  shows "Decompose i = \<lparr>d_id = i, d_msb = 0, d_time = elapsedTime s, d_sequence = ucast (sequence s),
    d_node = ucast (node s)\<rparr>"
proof -
  let ?e = "uint (elapsedTime s)" and ?q = "uint (sequence s)" and ?n = "uint (node s)"
  have e: "?e = sint (elapsedTime s)" using assms(1) by (rule uint_sint_nonneg)
  have n: "0 \<le> ?n" "?n < 65536" using uint_bounded [of "node s"] by simp_all
  have i: "uint i = (?e * 256 + ?q) * 65536 + ?n" and lim: "?e < 2 ^ 39"
    using toID_value [OF assms] e by simp_all
  have q: "uint (ucast (sequence s) :: u64) = ?q" "uint (ucast (node s) :: u64) = ?n"
    by (rule uint_up_ucast, simp add: is_up)+
  have "uint i div 2 ^ 63 = 0" "uint i div 2 ^ 24 = ?e" "uint i div 2 ^ 16 = ?e * 256 + ?q"
    using i lim n assms(2) int_div_pos_eq [of "uint i" "2 ^ 63" 0 "uint i"]
      int_div_pos_eq [of "uint i" "2 ^ 24" ?e "?q * 65536 + ?n"] int_div_pos_eq [of "uint i" "2 ^ 16" "?e * 256 + ?q" ?n]
    by (simp_all add: algebra_simps)
  then have parts: "drop_bit 63 i = 0" "drop_bit 24 i = elapsedTime s" "uint (drop_bit 16 i) = ?e * 256 + ?q"
    by (auto intro!: word_uint_eqI simp: uint_shr simp del: unsigned_drop_bit_eq)
  have "drop_bit 16 (i AND push_bit 16 255) = ucast (sequence s)"
  proof -
    have "drop_bit 16 (i AND push_bit 16 255) = drop_bit 16 i AND 255"
      by (rule bit_eqI) (auto simp: bit_simps)
    also have "\<dots> = take_bit 8 (drop_bit 16 i)"
      by (simp add: take_bit_eq_mask mask_eq_exp_minus_1)
    also have "\<dots> = ucast (sequence s)"
      using parts(3) n assms(2) q by (intro word_uint_eqI) (simp add: uint_low)
    finally show ?thesis .
  qed
  moreover have "i AND 65535 = ucast (node s)"
  proof -
    have "i AND 65535 = take_bit 16 i" by (simp add: take_bit_eq_mask mask_eq_exp_minus_1)
    also have "\<dots> = ucast (node s)"
      using i n q by (intro word_uint_eqI) (simp add: uint_low mod_add_left_eq [symmetric])
    finally show ?thesis .
  qed
  ultimately show ?thesis using parts(1,2) by (simp add: Decompose_def snowflake_bits Let_def)
qed

theorem Decompose_toID_witness:
  "Decompose (16777216 * 5 + 65536 * 3 + 9) =
     \<lparr>d_id = 16777216 * 5 + 65536 * 3 + 9, d_msb = 0, d_time = 5, d_sequence = 3, d_node = 9\<rparr>"
proof -
  let ?s = "\<lparr>startTime = 0, elapsedTime = 5, sequence = 3, node = 9\<rparr>"
  have "(toID ?s :: (unit gen_err, u64) go) = Ok (16777216 * 5 + 65536 * 3 + 9)"
    by (simp add: toID_def snowflake_bits)
  then show ?thesis using Decompose_toID [of ?s] by simp
qed

text \<open>
  When the sequence numbers of a unit of time are used up, the call sleeps exactly until the unit of
  time that its number belongs to begins, if the clock is still in the unit that it was first read in
  and that instant is within the range of the 64-bit clock.
\<close>

theorem NextID_sleep_exact:
  assumes "sf_ok b s" and "2 ^ 41 \<le> b" and "b < max_i64"
    and "NextID now now_sleep s = (s', Some d, r)"
    and "0 \<le> now" and "now \<le> max_i64" and "now_sleep \<le> max_i64" and "now_sleep div timeUnit = now div timeUnit"
    and "(sint (elapsedTime s') + sint (startTime s)) * timeUnit \<le> max_i64"
  shows "0 < sint d \<and> now_sleep + sint d = (sint (elapsedTime s') + sint (startTime s)) * timeUnit
    \<and> currentElapsedTime (startTime s) (TimeAdd now_sleep d) = elapsedTime s'"
proof -
  let ?c = "currentElapsedTime (startTime s) now"
  let ?T = "sint (elapsedTime s') + sint (startTime s)"
  have e: "0 \<le> sint (elapsedTime s)" "sint (elapsedTime s) \<le> b" "\<bar>sint (startTime s)\<bar> \<le> 2 ^ 40"
    using assms(1) by (simp_all add: sf_ok_def)
  have unit: "now_sleep = timeUnit * (now div timeUnit) + now_sleep mod timeUnit"
    by (metis mult_div_mod_eq assms(8))
  have rem: "0 \<le> now div timeUnit" "0 \<le> now_sleep mod timeUnit" "now_sleep mod timeUnit < timeUnit"
    using assms(5) by (simp_all add: timeUnit_def pos_imp_zdiv_nonneg_iff)
  have ns: "0 \<le> now_sleep" using unit rem by (simp add: timeUnit_def)
  have snow: "sint (toSnowflakeTime t) = t div timeUnit" if "0 \<le> t" "t \<le> max_i64" for t
  proof -
    have "0 \<le> t div timeUnit" "t div timeUnit \<le> t"
      using that zdiv_mono2 [of t 1 timeUnit] by (simp_all add: timeUnit_def pos_imp_zdiv_nonneg_iff)
    then show ?thesis
      using that unfolding toSnowflakeTime_def
      by (subst sint_of_int64) (simp_all add: sint_UnixNano timeUnit_def)
  qed
  have c: "sint ?c = now div timeUnit - sint (startTime s)"
    using sint_current(1) [OF assms(1)] snow assms(5,6) by simp
  have cond: "\<not> elapsedTime s <s ?c" and s': "elapsedTime s' = elapsedTime s + 1"
    and d: "d = sleepTime (elapsedTime s' - ?c) now_sleep"
    using assms(4) by (auto simp: NextID_def Let_def split: if_splits)
  have e': "sint (elapsedTime s') = sint (elapsedTime s) + 1"
    unfolding s' using e assms(3) by (intro sint_Suc64) simp
  have over: "1 \<le> ?T - now div timeUnit"
    using cond e' c by (simp add: word_sless_alt)
  let ?d = "(?T - now div timeUnit) * timeUnit - now_sleep mod timeUnit"
  have "elapsedTime s' - ?c = word_of_int (sint (elapsedTime s') - sint ?c)" by simp
  also have "sint (elapsedTime s') - sint ?c = ?T - now div timeUnit" using c by simp
  finally have "elapsedTime s' - ?c = word_of_int (?T - now div timeUnit)" .
  moreover have "go_mod (sint (UnixNano now_sleep)) timeUnit = now_sleep mod timeUnit"
    using ns assms(7) by (simp add: timeUnit_def sint_UnixNano)
  ultimately have "d = word_of_int (?T - now div timeUnit) * 10 * 1000000 - word_of_int (now_sleep mod timeUnit)"
    by (simp only: d sleepTime_def)
  then have dw: "d = word_of_int ?d" by (simp add: timeUnit_def algebra_simps)
  have d_eq: "?d = ?T * timeUnit - now_sleep" using unit by (simp add: algebra_simps)
  have d_pos: "0 < ?d" using over rem(3) mult_right_mono [OF over, of timeUnit] by (simp add: timeUnit_def)
  have "sint d = ?d"
    unfolding dw using assms(9) ns d_eq d_pos by (intro sint_of_int64; linarith)
  then have sd: "sint d = ?T * timeUnit - now_sleep" "0 < sint d"
    using d_eq d_pos by simp_all
  then have t: "TimeAdd now_sleep d = ?T * timeUnit" by (simp add: TimeAdd_def)
  have "0 \<le> ?T * timeUnit" using sd ns by simp
  then have "sint (toSnowflakeTime (TimeAdd now_sleep d)) = ?T"
    using snow [of "?T * timeUnit"] assms(9) t by (simp add: timeUnit_def)
  then have "sint (currentElapsedTime (startTime s) (TimeAdd now_sleep d)) = sint (elapsedTime s')"
    using sint_current(1) [OF assms(1)] by simp
  then show ?thesis using sd by (simp add: signed_word_eqI)
qed

theorem NextID_sleep_exact_witness:
  "let s = \<lparr>startTime = 157783680000, elapsedTime = 0, sequence = 255, node = 7\<rparr>;
       now = 1577836800000000001; now_sleep = 1577836800000000002
   in \<exists>s' d r. NextID now now_sleep s = (s', Some d, r :: (unit gen_err, u64) go) \<and>
        now_sleep + sint d = (sint (elapsedTime s') + sint (startTime s)) * timeUnit"
proof -
  let ?s = "\<lparr>startTime = 157783680000, elapsedTime = 0, sequence = 255, node = 7\<rparr>"
  let ?s' = "\<lparr>startTime = 157783680000, elapsedTime = 1, sequence = 0, node = 7\<rparr>"
  have "toSnowflakeTime 1577836800000000001 = 157783680000"
    by (simp add: toSnowflakeTime_def UnixNano_def sint_of_int64 timeUnit_def)
  then obtain d r where n: "NextID 1577836800000000001 1577836800000000002 ?s = (?s', Some d, r :: (unit gen_err, u64) go)"
    by (simp add: NextID_def Let_def currentElapsedTime_def snowflake_bits)
  show ?thesis
    using NextID_sleep_exact [OF _ _ _ n, of "2 ^ 41"] n by (simp add: sf_ok_def timeUnit_def Let_def)
qed

end
