(* ===== verification/GoUtf8.thy ===== *)
theory GoUtf8
  imports Prelude
begin

unbundle bit_operations_syntax

text \<open>
  UTF-8 as Go's package \<open>unicode/utf8\<close> reads and writes it. A string is a list of bytes; a byte
  sequence that is not the encoding of a rune counts as the rune \<open>RuneError\<close> of width one.
\<close>

section \<open>Definitions\<close>

definition byte :: "char \<Rightarrow> nat" where
  "byte c = of_char c"

definition RuneError :: nat where "RuneError = 65533"
definition MaxRune :: nat where "MaxRune = 1114111"

definition cont :: "nat \<Rightarrow> nat \<Rightarrow> char \<Rightarrow> bool" where
  "cont lo hi c \<longleftrightarrow> lo \<le> byte c \<and> byte c \<le> hi"

definition DecodeRune :: "string \<Rightarrow> nat \<times> nat" where
  "DecodeRune s =
     (case s of [] \<Rightarrow> (RuneError, 0)
      | c0 # s1 \<Rightarrow>
        let b0 = byte c0; bad = (RuneError, 1) in
        if b0 < 128 then (b0, 1)
        else if b0 < 194 then bad
        else if b0 < 224 then
          (case s1 of c1 # _ \<Rightarrow> if cont 128 191 c1 then ((b0 - 192) * 64 + (byte c1 - 128), 2) else bad
           | _ \<Rightarrow> bad)
        else if b0 < 240 then
          (case s1 of c1 # c2 # _ \<Rightarrow>
             if cont (if b0 = 224 then 160 else 128) (if b0 = 237 then 159 else 191) c1 \<and> cont 128 191 c2
             then ((b0 - 224) * 4096 + (byte c1 - 128) * 64 + (byte c2 - 128), 3) else bad
           | _ \<Rightarrow> bad)
        else if b0 < 245 then
          (case s1 of c1 # c2 # c3 # _ \<Rightarrow>
             if cont (if b0 = 240 then 144 else 128) (if b0 = 244 then 143 else 191) c1
                \<and> cont 128 191 c2 \<and> cont 128 191 c3
             then ((b0 - 240) * 262144 + (byte c1 - 128) * 4096 + (byte c2 - 128) * 64 + (byte c3 - 128), 4)
             else bad
           | _ \<Rightarrow> bad)
        else bad)"

definition EncodeRune :: "nat \<Rightarrow> string" where
  "EncodeRune r0 =
     (let r = (if MaxRune < r0 \<or> (55296 \<le> r0 \<and> r0 \<le> 57343) then RuneError else r0)
      in map char_of
        (if r < 128 then [r]
         else if r < 2048 then [192 + r div 64, 128 + r mod 64]
         else if r < 65536 then [224 + r div 4096, 128 + r div 64 mod 64, 128 + r mod 64]
         else [240 + r div 262144, 128 + r div 4096 mod 64, 128 + r div 64 mod 64, 128 + r mod 64]))"

text \<open>A byte that can begin the encoding of a rune.\<close>

definition RuneStart :: "char \<Rightarrow> bool" where
  "RuneStart c \<longleftrightarrow> \<not> (128 \<le> byte c \<and> byte c < 192)"

text \<open>The backward search goes over at most three bytes before the last one.\<close>

definition last_start :: "string \<Rightarrow> nat" where
  "last_start s =
     (let n = length s in
      case find (\<lambda>k. k \<le> n \<and> RuneStart (s ! (n - k))) [2, 3, 4] of
        Some k \<Rightarrow> n - k
      | None \<Rightarrow> n - 5)"

definition DecodeLastRune :: "string \<Rightarrow> nat \<times> nat" where
  "DecodeLastRune s =
     (if s = [] then (RuneError, 0)
      else if byte (last s) < 128 then (byte (last s), 1)
      else case DecodeRune (drop (last_start s) s) of
        (r, n) \<Rightarrow> if last_start s + n \<noteq> length s then (RuneError, 1) else (r, n))"

text \<open>The runes of a string, as a \<open>range\<close> loop yields them.\<close>

lemma DecodeRune_size: "s \<noteq> [] \<Longrightarrow> 0 < snd (DecodeRune s)"
  by (auto simp: DecodeRune_def Let_def split: list.splits)

function runes :: "string \<Rightarrow> nat list" where
  "runes s = (if s = [] then [] else case DecodeRune s of (r, n) \<Rightarrow> r # runes (drop n s))"
  by pat_completeness auto
termination
  by (relation "measure length", simp) (simp, metis DecodeRune_size diff_less length_greater_0_conv snd_conv)

declare runes.simps [simp del]

lemma runes_Nil [simp]: "runes [] = []"
  by (simp add: runes.simps)

lemma runes_eq_Nil [simp]: "runes s = [] \<longleftrightarrow> s = []"
  by (subst runes.simps) (auto split: prod.splits)

lemma DecodeRune_ascii: "byte c < 128 \<Longrightarrow> DecodeRune (c # s) = (byte c, 1)"
  by (simp add: DecodeRune_def)

lemma runes_ascii [simp]: "byte c < 128 \<Longrightarrow> runes (c # s) = byte c # runes s"
  by (subst runes.simps) (simp add: DecodeRune_ascii)

lemma runes_step: "s \<noteq> [] \<Longrightarrow> runes s = fst (DecodeRune s) # runes (drop (snd (DecodeRune s)) s)"
  by (subst runes.simps) (simp add: split_beta)

lemma byte_eq_iff [simp]: "byte c = byte d \<longleftrightarrow> c = d"
  by (simp add: byte_def)

lemma byte_less_256: "byte c < 256"
  by (simp add: byte_def)

text \<open>A rune read from a byte outside ASCII is outside ASCII too.\<close>

lemma DecodeRune_not_ascii:
  assumes "128 \<le> byte c"
  shows "128 \<le> fst (DecodeRune (c # s))"
proof -
  have a: "128 \<le> (x - 192) * 64 + y" if "194 \<le> x" for x y :: nat
  proof -
    have "2 * 64 \<le> (x - 192) * 64" using that by (intro mult_right_mono) simp_all
    then show ?thesis by simp
  qed
  have b: "128 \<le> (x - 224) * 4096 + (y - 128) * 64 + z" if "224 \<le> x" "x \<noteq> 224 \<or> 160 \<le> y" for x y z :: nat
  proof (cases "x = 224")
    case True
    then have "32 * 64 \<le> (y - 128) * 64" using that by (intro mult_right_mono) simp_all
    then show ?thesis by simp
  next
    case False
    then have "1 * 4096 \<le> (x - 224) * 4096" using that by (intro mult_right_mono) simp_all
    then show ?thesis by simp
  qed
  have d: "128 \<le> (x - 240) * 262144 + (y - 128) * 4096 + w + z" if "240 \<le> x" "x \<noteq> 240 \<or> 144 \<le> y" for x y z w :: nat
  proof (cases "x = 240")
    case True
    then have "16 * 4096 \<le> (y - 128) * 4096" using that by (intro mult_right_mono) simp_all
    then show ?thesis by simp
  next
    case False
    then have "1 * 262144 \<le> (x - 240) * 262144" using that by (intro mult_right_mono) simp_all
    then show ?thesis by simp
  qed
  consider "byte c < 194" | "194 \<le> byte c" "byte c < 224" | "224 \<le> byte c" "byte c < 240"
    | "240 \<le> byte c" "byte c < 245" | "245 \<le> byte c"
    by linarith
  then show ?thesis
  proof cases
    case 1
    then show ?thesis using assms by (simp add: DecodeRune_def RuneError_def)
  next
    case 2
    then show ?thesis using a [of "byte c"]
      by (simp add: DecodeRune_def RuneError_def Let_def split: list.split)
  next
    case 3
    have "128 \<le> fst (DecodeRune (c # x # y # s2))" for x y s2
      using 3 b [of "byte c" "byte x" "byte y - 128"]
      by (auto simp: DecodeRune_def RuneError_def Let_def cont_def simp del: Nat.add_diff_assoc Nat.add_diff_assoc2)
    moreover have "128 \<le> fst (DecodeRune [c, x])" "128 \<le> fst (DecodeRune [c])" for x
      using 3 by (simp_all add: DecodeRune_def RuneError_def Let_def)
    ultimately show ?thesis by (metis neq_Nil_conv)
  next
    case 4
    have "128 \<le> fst (DecodeRune (c # x # y # z # s2))" for x y z s2
      using 4 d [of "byte c" "byte x" "(byte y - 128) * 64" "byte z - 128"]
      by (auto simp: DecodeRune_def RuneError_def Let_def cont_def simp del: Nat.add_diff_assoc Nat.add_diff_assoc2)
    moreover have "128 \<le> fst (DecodeRune [c, x, y])" "128 \<le> fst (DecodeRune [c, x])" "128 \<le> fst (DecodeRune [c])" for x y
      using 4 by (simp_all add: DecodeRune_def RuneError_def Let_def)
    ultimately show ?thesis by (metis neq_Nil_conv)
  next
    case 5
    then show ?thesis by (simp add: DecodeRune_def RuneError_def)
  qed
qed

end
