(* ===== verification/Match.thy ===== *)
theory Match
  imports GoUtf8 "HOL-Library.List_Lexorder" "HOL-Library.Char_ord"
begin

text \<open>
  The glob matcher of \<open>tools/match/match.go\<close>. The byte level matcher switches to runes at the first byte
  outside ASCII; both are recursive at a star. Together they decide the usual meaning of a pattern
  on the runes of the string.
\<close>

section \<open>Model\<close>

text \<open>The loop that leaves one star of a run of stars at the front.\<close>

fun collapse :: "string \<Rightarrow> string" where
  "collapse (a # b # p) = (if a = CHR ''*'' \<and> b = CHR ''*'' then collapse (b # p) else a # b # p)"
| "collapse p = p"

lemma collapse_length: "length (collapse p) \<le> length p"
  by (induction p rule: collapse.induct) auto

text \<open>One rune and its width, zero at the end of the string.\<close>

definition read_rune :: "string \<Rightarrow> nat \<times> nat" where
  "read_rune s =
     (if s = [] then (RuneError, 0)
      else if 127 < byte (hd s) then DecodeRune s else (byte (hd s), 1))"

lemma read_rune_DecodeRune [simp]: "read_rune s = DecodeRune s"
  by (cases s) (auto simp: read_rune_def DecodeRune_ascii not_less, simp add: DecodeRune_def)

lemma DecodeRune_width: "snd (DecodeRune s) \<noteq> 0 \<longleftrightarrow> s \<noteq> []"
  using DecodeRune_size by (auto simp: DecodeRune_def)

lemma DecodeRune_shorter:
  assumes "(r, n) = DecodeRune s" and "0 < n"
  shows "length s - n < length s"
  using DecodeRune_width [of s] assms by (metis diff_less length_greater_0_conv less_numeral_extra(3) snd_conv)

text \<open>
  The flag says whether the call is at the entry of the function, where the pattern of one star and
  the runs of stars are treated, or at the head of its loop.
\<close>

function deepMatchRune :: "bool \<Rightarrow> string \<Rightarrow> string \<Rightarrow> bool" where
  "deepMatchRune True str pattern =
     (if pattern = ''*'' then True else deepMatchRune False str (collapse pattern))"
| "deepMatchRune False str pattern =
     (case (read_rune str, read_rune pattern) of ((sr, srsz), (pr, prsz)) \<Rightarrow>
        if prsz = 0 then srsz = 0
        else if pr = byte CHR ''*'' then
          deepMatchRune True str (drop prsz pattern)
          \<or> (if 0 < srsz then deepMatchRune True (drop srsz str) pattern else False)
        else if srsz = 0 then False
        else if pr \<noteq> byte CHR ''?'' \<and> sr \<noteq> pr then False
        else deepMatchRune False (drop srsz str) (drop prsz pattern))"
  by pat_completeness auto
termination
proof (relation "measure (\<lambda>(e, str, p). 2 * (length str + length p) + (if e then 1 else 0))", goal_cases)
  case (2 str pattern)
  then show ?case using collapse_length [of pattern] by (simp add: less_Suc_eq_le)
next
  case (3 str pattern x y sr srsz pr prsz)
  then have "length pattern - prsz < length pattern" by (intro DecodeRune_shorter [of pr]) simp_all
  then show ?case by simp
next
  case (4 str pattern x y sr srsz pr prsz)
  then have "length str - srsz < length str" by (intro DecodeRune_shorter [of sr]) simp_all
  then show ?case by simp
next
  case (5 str pattern x y sr srsz pr prsz)
  then have "length pattern - prsz < length pattern" by (intro DecodeRune_shorter [of pr]) simp_all
  then show ?case by simp
qed simp

declare deepMatchRune.simps [simp del]

function deepMatch :: "bool \<Rightarrow> string \<Rightarrow> string \<Rightarrow> bool" where
  "deepMatch True str pattern =
     (if pattern = ''*'' then True else deepMatch False str (collapse pattern))"
| "deepMatch False str [] = (str = [])"
| "deepMatch False str (p # pattern) =
     (if 127 < byte p then deepMatchRune True str (p # pattern)
      else if str \<noteq> [] \<and> 127 < byte (hd str) then deepMatchRune True str (p # pattern)
      else if p = CHR ''*'' then
        deepMatch True str pattern \<or> (if str \<noteq> [] then deepMatch True (tl str) (p # pattern) else False)
      else if str = [] then False
      else if p \<noteq> CHR ''?'' \<and> hd str \<noteq> p then False
      else deepMatch False (tl str) pattern)"
  by pat_completeness auto
termination
proof (relation "measure (\<lambda>(e, str, p). 2 * (length str + length p) + (if e then 1 else 0))", goal_cases)
  case (2 str pattern)
  then show ?case using collapse_length [of pattern] by (auto simp: less_Suc_eq_le)
next
  case (4 str p pattern)
  then show ?case by (cases str) auto
next
  case (5 str p pattern)
  then show ?case by (cases str) auto
qed auto

declare deepMatch.simps [simp del]

definition Match :: "string \<Rightarrow> string \<Rightarrow> bool" where
  "Match str pattern = deepMatch True str pattern"

definition maxRuneBytes :: string where
  "maxRuneBytes = EncodeRune MaxRune"

text \<open>The bounds collected up to the first star, and whether there is one.\<close>

fun allow_loop :: "string \<Rightarrow> string \<Rightarrow> string \<Rightarrow> string \<times> string \<times> bool" where
  "allow_loop [] minB maxB = (minB, maxB, False)"
| "allow_loop (c # cs) minB maxB =
     (if c = CHR ''*'' then (minB, maxB, True)
      else if c = CHR ''?'' then allow_loop cs (minB @ [CHR 0x00]) (maxB @ maxRuneBytes)
      else allow_loop cs (minB @ [c]) (maxB @ [c]))"

definition bump_last :: "string \<Rightarrow> string" where
  "bump_last maxB =
     (case DecodeLastRune maxB of (r, n) \<Rightarrow>
        if r \<noteq> RuneError \<and> r < MaxRune then
          take (length maxB - n) maxB @ (if 127 < r + 1 then EncodeRune (r + 1) else [char_of (r + 1)])
        else maxB)"

definition Allowable :: "string \<Rightarrow> string \<times> string" where
  "Allowable pattern =
     (if pattern = [] \<or> hd pattern = CHR ''*'' then ([], [])
      else case allow_loop pattern [] [] of
        (minB, maxB, wild) \<Rightarrow> (minB, if wild then bump_last maxB else maxB))"

definition IsPattern :: "string \<Rightarrow> bool" where
  "IsPattern str = list_ex (\<lambda>c. c = CHR ''*'' \<or> c = CHR ''?'') str"

section \<open>The meaning of a pattern\<close>

text \<open>
  On runes: a star stands for any runes, a question mark for one rune, every other rune for itself.
\<close>

fun glob :: "nat list \<Rightarrow> nat list \<Rightarrow> bool" where
  "glob s [] = (s = [])"
| "glob [] (p # ps) = (p = byte CHR ''*'' \<and> glob [] ps)"
| "glob (c # s) (p # ps) =
     (if p = byte CHR ''*'' then glob (c # s) ps \<or> glob s (p # ps)
      else (p = byte CHR ''?'' \<or> p = c) \<and> glob s ps)"

lemma glob_star [simp]: "glob s [byte CHR ''*'']"
  by (induction s) simp_all

lemma glob_star_skip: "glob s ps \<Longrightarrow> glob s (byte CHR ''*'' # ps)"
  by (cases s) simp_all

lemma glob_star_star: "glob s (byte CHR ''*'' # byte CHR ''*'' # ps) \<longleftrightarrow> glob s (byte CHR ''*'' # ps)"
  by (induction s) (auto intro: glob_star_skip)

lemma star_ascii [simp]: "byte CHR ''*'' < 128"
  by (simp add: byte_def)

lemma glob_collapse: "glob s (runes (collapse p)) = glob s (runes p)"
proof (induction p rule: collapse.induct)
  case (1 a b p)
  then show ?case
    by (cases "a = CHR ''*'' \<and> b = CHR ''*''") (auto simp: glob_star_star)
qed simp_all

lemma glob_step:
  "glob (runes str) (runes pattern) =
     (if pattern = [] then str = []
      else let pr = fst (DecodeRune pattern); ps = runes (drop (snd (DecodeRune pattern)) pattern) in
        if pr = byte CHR ''*'' then
          glob (runes str) ps \<or> (str \<noteq> [] \<and> glob (runes (drop (snd (DecodeRune str)) str)) (runes pattern))
        else str \<noteq> [] \<and> (pr = byte CHR ''?'' \<or> fst (DecodeRune str) = pr)
          \<and> glob (runes (drop (snd (DecodeRune str)) str)) ps)"
proof (cases "pattern = []")
  case False
  note p = runes_step [OF False]
  show ?thesis
  proof (cases "str = []")
    case True
    then show ?thesis using False by (simp add: p Let_def)
  next
    case nonempty: False
    show ?thesis using False nonempty by (simp add: p runes_step [OF nonempty] Let_def) metis
  qed
qed simp

lemma deepMatchRune_glob: "deepMatchRune e str pattern = glob (runes str) (runes pattern)"
proof (induction e str pattern rule: deepMatchRune.induct)
  case (1 str pattern)
  then show ?case
    by (cases "pattern = ''*''") (simp_all add: deepMatchRune.simps glob_collapse)
next
  case (2 str pattern)
  obtain sr srsz pr prsz where r: "DecodeRune str = (sr, srsz)" "DecodeRune pattern = (pr, prsz)"
    by fastforce
  have sz: "srsz = 0 \<longleftrightarrow> str = []" "prsz = 0 \<longleftrightarrow> pattern = []"
    using DecodeRune_width [of str] DecodeRune_width [of pattern] r by auto
  show ?case
    using 2 [of "(sr, srsz)" "(pr, prsz)" sr srsz pr prsz] r sz
    by (subst glob_step) (auto simp: deepMatchRune.simps(2) [of str pattern] Let_def)
qed

lemma deepMatch_glob: "deepMatch e str pattern = glob (runes str) (runes pattern)"
proof (induction e str pattern rule: deepMatch.induct)
  case (1 str pattern)
  then show ?case
    by (cases "pattern = ''*''") (simp_all add: deepMatch.simps glob_collapse)
next
  case (3 str p pattern)
  show ?case
  proof (cases "127 < byte p \<or> (str \<noteq> [] \<and> 127 < byte (hd str))")
    case True
    then show ?thesis by (auto simp: deepMatch.simps(3) deepMatchRune_glob)
  next
    case False
    then have p: "byte p < 128" and s: "str = [] \<or> (\<exists>c s. str = c # s \<and> byte c < 128)"
      by (simp, cases str) (auto simp: not_less)
    note IH = 3
    show ?thesis
    proof (cases "p = CHR ''*''")
      case True
      then show ?thesis using False p s IH(1,2) by (subst deepMatch.simps(3)) auto
    next
      case noStar: False
      show ?thesis
      proof (cases "str = []")
        case True
        then show ?thesis using p noStar by (subst deepMatch.simps(3)) simp
      next
        case nonempty: False
        then obtain c s1 where "str = c # s1" "byte c < 128" using s by auto
        then show ?thesis
          using False p noStar IH(3) by (subst deepMatch.simps(3)) auto
      qed
    qed
  qed
qed (simp add: deepMatch.simps)

section \<open>The range of the strings that a prefix pattern accepts\<close>

definition literal :: "char \<Rightarrow> bool" where
  "literal c \<longleftrightarrow> byte c < 128 \<and> c \<noteq> CHR ''*'' \<and> c \<noteq> CHR ''?''"

lemma allow_loop_literal:
  "list_all literal l \<Longrightarrow> allow_loop (l @ CHR ''*'' # rest) minB maxB = (minB @ l, maxB @ l, True)"
  by (induction l arbitrary: minB maxB) (auto simp: literal_def)

text \<open>A rune of ASCII comes from a byte of ASCII.\<close>

lemma glob_literal_prefix:
  assumes "list_all literal l" and "glob (runes s) (map byte l @ ps)"
  shows "\<exists>r. s = l @ r"
  using assms
proof (induction l arbitrary: s)
  case (Cons c l)
  then have c: "byte c < 128" "byte c \<noteq> byte CHR ''*''" "byte c \<noteq> byte CHR ''?''"
    by (simp_all add: literal_def)
  obtain d s1 where s: "s = d # s1" using Cons.prems(2) c by (cases s) auto
  have "byte d < 128"
  proof (rule ccontr)
    assume "\<not> byte d < 128"
    then have "128 \<le> fst (DecodeRune (d # s1))" by (intro DecodeRune_not_ascii) simp
    then show False using Cons.prems(2) c s by (auto simp: runes_step [of "d # s1"])
  qed
  then have "d = c" "glob (runes s1) (map byte l @ ps)"
    using Cons.prems(2) c s by auto
  then show ?case using Cons.IH [of s1] Cons.prems(1) s by auto
qed simp

lemma runes_literal: "list_all literal l \<Longrightarrow> runes (l @ s) = map byte l @ runes s"
  by (induction l) (simp_all add: literal_def)

lemma bump_last_literal:
  assumes "list_all literal l" and "l \<noteq> []"
  shows "\<exists>c r. bump_last l = butlast l @ c # r \<and> last l < c"
proof -
  let ?b = "byte (last l)"
  have b: "?b < 128" using assms by (simp add: literal_def list_all_iff)
  then have "DecodeLastRune l = (?b, 1)" using assms by (simp add: DecodeLastRune_def)
  then have "bump_last l = butlast l @ (if 127 < ?b + 1 then EncodeRune (?b + 1) else [char_of (?b + 1)])"
    using b by (simp add: bump_last_def RuneError_def MaxRune_def butlast_conv_take)
  moreover have "\<exists>c r. EncodeRune 128 = c # r \<and> last l < c"
    using b by (simp add: EncodeRune_def MaxRune_def less_char_def byte_def)
  moreover have "last l < char_of (?b + 1)" if "?b + 1 < 128"
    using that by (simp add: less_char_def byte_def)
  moreover have "?b + 1 = 128" if "127 < ?b + 1" using b that by simp
  ultimately show ?thesis by (cases "127 < ?b + 1") auto
qed

section \<open>Properties\<close>

text \<open>
  C16: \<open>Match\<close> decides the meaning of a pattern on runes, whether the string or the pattern is ASCII,
  other UTF-8 or not UTF-8 at all.
\<close>

theorem Match_glob: "Match str pattern = glob (runes str) (runes pattern)"
  by (simp add: Match_def deepMatch_glob)

text \<open>
  For a pattern that begins with ordinary ASCII characters up to its first star, every string that
  matches lies at or above the smaller bound of \<open>Allowable\<close> and below the larger one.
\<close>

theorem Allowable_range:
  assumes "list_all literal l" and "l \<noteq> []" and "Match str (l @ CHR ''*'' # rest)"
    and "Allowable (l @ CHR ''*'' # rest) = (lo, hi)"
  shows "lo \<le> str \<and> str < hi"
proof -
  have lo: "lo = l" and hi: "hi = bump_last l"
    using assms(1,2,4) by (cases l; auto simp: Allowable_def allow_loop_literal literal_def)+
  have "glob (runes str) (map byte l @ runes (CHR ''*'' # rest))"
    using assms(1,3) by (simp add: Match_def deepMatch_glob runes_literal)
  then obtain r where r: "str = l @ r" using glob_literal_prefix [OF assms(1)] by blast
  have l: "l = butlast l @ [last l]" using assms(2) by simp
  obtain c t where c: "bump_last l = butlast l @ c # t" "last l < c"
    using bump_last_literal [OF assms(1,2)] by blast
  have "l \<le> l @ r" by (induction l) simp_all
  moreover have "l @ r < butlast l @ c # t"
  proof -
    have "xs @ last l # r < xs @ c # t" for xs
      using c(2) by (induction xs) auto
    from this [of "butlast l"] have "(butlast l @ [last l]) @ r < butlast l @ c # t" by simp
    then show ?thesis using l by simp
  qed
  ultimately show ?thesis using lo hi r c by simp
qed

theorem Allowable_range_witness:
  "Allowable ''ab*c'' = (''ab'', ''ac'') \<and> ''ab'' \<le> ''abxyc'' \<and> ''abxyc'' < ''ac''"
proof -
  have "char_of (99 :: nat) = CHR ''c''" by code_simp
  then have "Allowable (''ab'' @ CHR ''*'' # ''c'') = (''ab'', ''ac'')"
    by (simp add: Allowable_def bump_last_def DecodeLastRune_def byte_def RuneError_def MaxRune_def)
  moreover have "Match ''abxyc'' (''ab'' @ CHR ''*'' # ''c'')"
    by (simp add: Match_def deepMatch_glob byte_def)
  ultimately show ?thesis
    using Allowable_range [of "''ab''" "''abxyc''" "''c''" "''ab''" "''ac''"] by (simp add: literal_def byte_def)
qed

text \<open>
  After a question mark the larger bound is too small: the pattern \<open>a?*\<close> matches the letter
  \<open>a\<close> followed by the largest rune and \<open>b\<close>, which lies above the bound of \<open>Allowable\<close>.
\<close>

theorem Allowable_misses_match:
  "Match (''a'' @ EncodeRune MaxRune @ ''b'') ''a?*'' \<and>
   snd (Allowable ''a?*'') < ''a'' @ EncodeRune MaxRune @ ''b''"
proof -
  have m: "EncodeRune MaxRune = [CHR 0xF4, CHR 0x8F, CHR 0xBF, CHR 0xBF]"
    by (simp add: EncodeRune_def MaxRune_def) code_simp
  have d: "DecodeRune (CHR 0xF4 # CHR 0x8F # CHR 0xBF # CHR 0xBF # s) = (MaxRune, 4)" for s
    by (simp add: DecodeRune_def byte_def cont_def MaxRune_def Let_def)
  have "Match (''a'' @ EncodeRune MaxRune @ ''b'') ''a?*''"
    by (simp add: Match_def deepMatch_glob m byte_def runes_step [of "CHR 0xF4 # _"] d)
  moreover have "snd (Allowable ''a?*'') = ''a'' @ EncodeRune MaxRune"
    by (simp add: Allowable_def maxRuneBytes_def m bump_last_def DecodeLastRune_def last_start_def RuneStart_def
        byte_def d Let_def)
  ultimately show ?thesis by (simp add: m)
qed

end
