(* ===== verification/ZSkip.thy ===== *)
theory ZSkip
  imports GoFloat "HOL-Library.Monad_Syntax" "HOL-Library.List_Lexorder" "HOL-Library.Char_ord"
begin

text \<open>
  The skip list of the sorted set (\<open>structure/zset/skiplist.go\<close> and \<open>oparry.go\<close>). Nodes live in an
  explicit heap; a node has the four forward pointers of its base array and, when its level is above
  four, the twenty-eight of the extra array. A load or store beyond the arrays, a nil node and a
  loop that does not end are the value \<open>None\<close>, so a theorem that gives \<open>Some\<close> excludes all three.
  Spans and lengths are integers: they are bounded by the number of nodes in memory.
\<close>

section \<open>Nodes and their optional arrays\<close>

type_synonym addr = nat
type_synonym listLevel = "addr option \<times> int"

definition maxLevel :: nat where "maxLevel = 32"
definition op1 :: nat where "op1 = 4"
definition op2 :: nat where "op2 = maxLevel - op1"

lemmas level_defs = maxLevel_def op1_def op2_def

record float64ListNode =
  score :: gofloat
  nvalue :: string
  prev :: "addr option"
  level :: nat
  base :: "listLevel list"
  extra :: "listLevel list option"

definition newFloat64ListNode :: "gofloat \<Rightarrow> string \<Rightarrow> nat \<Rightarrow> float64ListNode" where
  "newFloat64ListNode sc v lv =
     \<lparr>score = sc, nvalue = v, prev = None, level = lv, base = replicate op1 (None, 0),
      extra = (if op1 < lv then Some (replicate op2 (None, 0)) else None)\<rparr>"

text \<open>Entry \<open>i\<close> of the optional array.\<close>

definition slot :: "float64ListNode \<Rightarrow> nat \<Rightarrow> listLevel option" where
  "slot n i =
     (if i < op1 then (if i < length (base n) then Some (base n ! i) else None)
      else case extra n of None \<Rightarrow> None
      | Some e \<Rightarrow> if i - op1 < length e then Some (e ! (i - op1)) else None)"

definition put_slot :: "float64ListNode \<Rightarrow> nat \<Rightarrow> listLevel \<Rightarrow> float64ListNode" where
  "put_slot n i x =
     (if i < op1 then n\<lparr>base := (base n)[i := x]\<rparr>
      else n\<lparr>extra := map_option (\<lambda>e. e[i - op1 := x]) (extra n)\<rparr>)"

definition lessThan :: "float64ListNode \<Rightarrow> gofloat \<Rightarrow> string \<Rightarrow> bool" where
  "lessThan n sc v = (if flt (score n) sc then True else if feq (score n) sc then nvalue n < v else False)"

definition lessEqual :: "float64ListNode \<Rightarrow> gofloat \<Rightarrow> string \<Rightarrow> bool" where
  "lessEqual n sc v = (if flt (score n) sc then True else if feq (score n) sc then nvalue n \<le> v else False)"

definition equal_node :: "float64ListNode \<Rightarrow> gofloat \<Rightarrow> string \<Rightarrow> bool" where
  "equal_node n sc v \<longleftrightarrow> nvalue n = v \<and> feq (score n) sc"

section \<open>The list and its heap\<close>

record float64List =
  nodes :: "addr \<Rightarrow> float64ListNode"
  fresh :: addr
  header :: addr
  tail :: "addr option"
  len :: int
  highestLevel :: nat

definition loadNext :: "float64List \<Rightarrow> addr \<Rightarrow> nat \<Rightarrow> addr option option" where
  "loadNext l a i = map_option fst (slot (nodes l a) i)"

definition loadSpan :: "float64List \<Rightarrow> addr \<Rightarrow> nat \<Rightarrow> int option" where
  "loadSpan l a i = map_option snd (slot (nodes l a) i)"

definition storeNext :: "addr \<Rightarrow> nat \<Rightarrow> addr option \<Rightarrow> float64List \<Rightarrow> float64List option" where
  "storeNext a i p l =
     map_option (\<lambda>x. l\<lparr>nodes := (nodes l)(a := put_slot (nodes l a) i (p, snd x))\<rparr>) (slot (nodes l a) i)"

definition storeSpan :: "addr \<Rightarrow> nat \<Rightarrow> int \<Rightarrow> float64List \<Rightarrow> float64List option" where
  "storeSpan a i s l =
     map_option (\<lambda>x. l\<lparr>nodes := (nodes l)(a := put_slot (nodes l a) i (fst x, s))\<rparr>) (slot (nodes l a) i)"

definition set_prev :: "addr \<Rightarrow> addr option \<Rightarrow> float64List \<Rightarrow> float64List" where
  "set_prev a p l = l\<lparr>nodes := (nodes l)(a := (nodes l a)\<lparr>prev := p\<rparr>)\<rparr>"

definition header_score :: gofloat where
  "header_score = FNum (- ((2 - 1 / 2 ^ 52) * 2 ^ 1023))"

definition newFloat64List :: float64List where
  "newFloat64List =
     \<lparr>nodes = (\<lambda>_. newFloat64ListNode header_score ''__HEADER'' maxLevel), fresh = 1, header = 0,
      tail = None, len = 0, highestLevel = 1\<rparr>"

section \<open>Searching\<close>

text \<open>
  The inner loop of a search on one level: move on while there is a next node and the condition on its
  position and contents holds.
\<close>

partial_function (option) walk ::
  "(int \<Rightarrow> float64ListNode \<Rightarrow> bool) \<Rightarrow> float64List \<Rightarrow> nat \<Rightarrow> addr \<Rightarrow> int \<Rightarrow> (addr \<times> int) option" where
  "walk go l i x rank =
     do {
       (next, span) \<leftarrow> slot (nodes l x) i;
       case next of
         None \<Rightarrow> Some (x, rank)
       | Some y \<Rightarrow> if go (rank + span) (nodes l y) then walk go l i y (rank + span) else Some (x, rank)
     }"

declare walk.simps [code]

text \<open>
  The outer loop over the levels from the highest down to 0. Entry \<open>i\<close> of the result is the node that
  the search left level \<open>i\<close> at, and its position.
\<close>

fun descend ::
  "(int \<Rightarrow> float64ListNode \<Rightarrow> bool) \<Rightarrow> float64List \<Rightarrow> nat \<Rightarrow> addr \<Rightarrow> int \<Rightarrow> (addr \<times> int) list option" where
  "descend go l 0 x rank = Some []"
| "descend go l (Suc i) x rank =
     do {
       (x', rank') \<leftarrow> walk go l i x rank;
       rest \<leftarrow> descend go l i x' rank';
       Some (rest @ [(x', rank')])
     }"

definition search :: "(int \<Rightarrow> float64ListNode \<Rightarrow> bool) \<Rightarrow> float64List \<Rightarrow> (addr \<times> int) list option" where
  "search go l = descend go l (highestLevel l) (header l) 0"

section \<open>Insertion\<close>

text \<open>The draws of the random source: as many zeroes as the node has levels above the first.\<close>

fun randomLevel_loop :: "nat list \<Rightarrow> nat \<Rightarrow> nat option" where
  "randomLevel_loop [] lv = None"
| "randomLevel_loop (d # ds) lv = (if d = 0 then randomLevel_loop ds (lv + 1) else Some lv)"

definition randomLevel :: "nat list \<Rightarrow> nat option" where
  "randomLevel draws =
     map_option (\<lambda>lv. if maxLevel < lv then maxLevel else lv) (randomLevel_loop draws 1)"

fun raise_levels :: "nat list \<Rightarrow> (addr \<times> int) list \<Rightarrow> float64List \<Rightarrow> ((addr \<times> int) list \<times> float64List) option" where
  "raise_levels [] upd l = Some (upd, l)"
| "raise_levels (i # is) upd l =
     do {
       l' \<leftarrow> storeSpan (header l) i (len l) l;
       raise_levels is (upd @ [(header l, 0)]) l'
     }"

fun insert_links :: "nat list \<Rightarrow> (addr \<times> int) list \<Rightarrow> addr \<Rightarrow> float64List \<Rightarrow> float64List option" where
  "insert_links [] upd x l = Some l"
| "insert_links (i # is) upd x l =
     (case upd ! i of (u, r) \<Rightarrow>
        do {
          p \<leftarrow> loadNext l u i;
          l1 \<leftarrow> storeNext x i p l;
          l2 \<leftarrow> storeNext u i (Some x) l1;
          s \<leftarrow> loadSpan l2 u i;
          l3 \<leftarrow> storeSpan x i (s - (snd (upd ! 0) - r)) l2;
          l4 \<leftarrow> storeSpan u i (snd (upd ! 0) - r + 1) l3;
          insert_links is upd x l4
        })"

fun bump_spans :: "nat list \<Rightarrow> (addr \<times> int) list \<Rightarrow> float64List \<Rightarrow> float64List option" where
  "bump_spans [] upd l = Some l"
| "bump_spans (i # is) upd l =
     do {
       s \<leftarrow> loadSpan l (fst (upd ! i)) i;
       l' \<leftarrow> storeSpan (fst (upd ! i)) i (s + 1) l;
       bump_spans is upd l'
     }"

definition Insert ::
  "nat list \<Rightarrow> gofloat \<Rightarrow> string \<Rightarrow> float64List \<Rightarrow> (addr \<times> float64List) option" where
  "Insert draws sc v l =
     do {
       upd0 \<leftarrow> search (\<lambda>_ n. lessThan n sc v) l;
       lv \<leftarrow> randomLevel draws;
       (upd, l1) \<leftarrow> (if highestLevel l < lv
                    then map_option (\<lambda>(u, l'). (u, l'\<lparr>highestLevel := lv\<rparr>))
                           (raise_levels [highestLevel l..<lv] upd0 l)
                    else Some (upd0, l));
       let x = fresh l1;
           l2 = l1\<lparr>nodes := (nodes l1)(x := newFloat64ListNode sc v lv), fresh := x + 1\<rparr>
       in do {
         l3 \<leftarrow> insert_links [0..<lv] upd x l2;
         l4 \<leftarrow> bump_spans [lv..<highestLevel l3] upd l3;
         let l5 = (if fst (upd ! 0) \<noteq> header l4 then set_prev x (Some (fst (upd ! 0))) l4 else l4)
         in do {
           nx \<leftarrow> loadNext l5 x 0;
           let l6 = (case nx of Some y \<Rightarrow> set_prev y (Some x) l5 | None \<Rightarrow> l5\<lparr>tail := Some x\<rparr>)
           in Some (x, l6\<lparr>len := len l6 + 1\<rparr>)
         }
       }
     }"

section \<open>Deletion\<close>

fun unlink :: "nat list \<Rightarrow> addr \<Rightarrow> (addr \<times> int) list \<Rightarrow> float64List \<Rightarrow> float64List option" where
  "unlink [] x upd l = Some l"
| "unlink (i # is) x upd l =
     do {
       p \<leftarrow> loadNext l (fst (upd ! i)) i;
       s \<leftarrow> loadSpan l (fst (upd ! i)) i;
       l' \<leftarrow> (if p = Some x then
                do {
                  (next, span) \<leftarrow> slot (nodes l x) i;
                  l1 \<leftarrow> storeNext (fst (upd ! i)) i next l;
                  storeSpan (fst (upd ! i)) i (span + (s - 1)) l1
                }
              else storeSpan (fst (upd ! i)) i (s - 1) l);
       unlink is x upd l'
     }"

text \<open>The loop that drops the empty levels at the top.\<close>

fun lower_levels :: "nat \<Rightarrow> float64List \<Rightarrow> float64List option" where
  "lower_levels 0 l = Some l"
| "lower_levels (Suc h) l =
     (if 0 < h then
        do {
          p \<leftarrow> loadNext l (header l) h;
          if p = None then
            do {
              l1 \<leftarrow> storeNext (header l) h None l;
              l2 \<leftarrow> storeSpan (header l) h 0 l1;
              lower_levels h (l2\<lparr>highestLevel := h\<rparr>)
            }
          else Some l
        }
      else Some l)"

definition deleteNode :: "addr \<Rightarrow> (addr \<times> int) list \<Rightarrow> float64List \<Rightarrow> float64List option" where
  "deleteNode x upd l =
     do {
       l1 \<leftarrow> unlink [0..<highestLevel l] x upd l;
       nx \<leftarrow> loadNext l1 x 0;
       let l2 = (case nx of Some y \<Rightarrow> set_prev y (prev (nodes l1 x)) l1 | None \<Rightarrow> l1\<lparr>tail := prev (nodes l1 x)\<rparr>)
       in do {
         l3 \<leftarrow> lower_levels (highestLevel l2) l2;
         Some (l3\<lparr>len := len l3 - 1\<rparr>)
       }
     }"

definition Delete :: "gofloat \<Rightarrow> string \<Rightarrow> float64List \<Rightarrow> (addr option \<times> float64List) option" where
  "Delete sc v l =
     do {
       upd \<leftarrow> search (\<lambda>_ n. lessThan n sc v) l;
       nx \<leftarrow> loadNext l (fst (upd ! 0)) 0;
       case nx of
         None \<Rightarrow> Some (None, l)
       | Some x \<Rightarrow>
           if equal_node (nodes l x) sc v then do { l' \<leftarrow> deleteNode x upd l; Some (Some x, l') }
           else Some (None, l)
     }"

definition UpdateScore ::
  "nat list \<Rightarrow> gofloat \<Rightarrow> string \<Rightarrow> gofloat \<Rightarrow> float64List \<Rightarrow> (addr \<times> float64List) option" where
  "UpdateScore draws oldScore v newScore l =
     do {
       upd \<leftarrow> search (\<lambda>_ n. lessThan n oldScore v) l;
       nx \<leftarrow> loadNext l (fst (upd ! 0)) 0;
       case nx of
         None \<Rightarrow> None
       | Some x \<Rightarrow>
           do {
             next \<leftarrow> loadNext l x 0;
             if (case prev (nodes l x) of None \<Rightarrow> True | Some p \<Rightarrow> flt (score (nodes l p)) newScore)
                \<and> (case next of None \<Rightarrow> True | Some y \<Rightarrow> flt newScore (score (nodes l y)))
             then Some (x, l\<lparr>nodes := (nodes l)(x := (nodes l x)\<lparr>score := newScore\<rparr>)\<rparr>)
             else do { l' \<leftarrow> deleteNode x upd l; Insert draws newScore (nvalue (nodes l x)) l' }
           }
     }"

section \<open>Ranges and ranks\<close>

record RangeOpt =
  ExcludeMin :: bool
  ExcludeMax :: bool

definition greaterThanMin :: "gofloat \<Rightarrow> gofloat \<Rightarrow> bool \<Rightarrow> bool" where
  "greaterThanMin v mn ex = (if ex then flt mn v else fle mn v)"

definition lessThanMax :: "gofloat \<Rightarrow> gofloat \<Rightarrow> bool \<Rightarrow> bool" where
  "lessThanMax v mx ex = (if ex then flt v mx else fle v mx)"

type_synonym Float64Node = "string \<times> gofloat"

text \<open>The loop that deletes nodes from a position on, with the nodes that it removed.\<close>

partial_function (option) delete_loop ::
  "(int \<Rightarrow> float64ListNode \<Rightarrow> bool) \<Rightarrow> (addr \<times> int) list \<Rightarrow> addr option \<Rightarrow> int \<Rightarrow> float64List \<Rightarrow>
   (string \<rightharpoonup> gofloat) \<Rightarrow> Float64Node list \<Rightarrow> (float64List \<times> (string \<rightharpoonup> gofloat) \<times> Float64Node list) option" where
  "delete_loop go upd x traversed l dict removed =
     (case x of
        None \<Rightarrow> Some (l, dict, removed)
      | Some a \<Rightarrow>
          if go traversed (nodes l a) then
            do {
              next \<leftarrow> loadNext l a 0;
              l' \<leftarrow> deleteNode a upd l;
              delete_loop go upd next (traversed + 1) l' (dict(nvalue (nodes l' a) := None))
                (removed @ [(nvalue (nodes l' a), score (nodes l' a))])
            }
          else Some (l, dict, removed))"

declare delete_loop.simps [code]

definition DeleteRangeByScore ::
  "gofloat \<Rightarrow> gofloat \<Rightarrow> RangeOpt \<Rightarrow> (string \<rightharpoonup> gofloat) \<Rightarrow> float64List \<Rightarrow>
   (float64List \<times> (string \<rightharpoonup> gofloat) \<times> Float64Node list) option" where
  "DeleteRangeByScore mn mx opt dict l =
     do {
       upd \<leftarrow> search (\<lambda>_ n. \<not> greaterThanMin (score n) mn (ExcludeMin opt)) l;
       x \<leftarrow> loadNext l (fst (upd ! 0)) 0;
       delete_loop (\<lambda>_ n. lessThanMax (score n) mx (ExcludeMax opt)) upd x 0 l dict []
     }"

definition DeleteRangeByRank ::
  "int \<Rightarrow> int \<Rightarrow> (string \<rightharpoonup> gofloat) \<Rightarrow> float64List \<Rightarrow>
   (float64List \<times> (string \<rightharpoonup> gofloat) \<times> Float64Node list) option" where
  "DeleteRangeByRank start stop dict l =
     do {
       upd \<leftarrow> search (\<lambda>r _. r < start) l;
       x \<leftarrow> loadNext l (fst (upd ! 0)) 0;
       delete_loop (\<lambda>r _. r \<le> stop) upd x (snd (upd ! 0) + 1) l dict []
     }"

fun rank_loop :: "gofloat \<Rightarrow> string \<Rightarrow> float64List \<Rightarrow> nat \<Rightarrow> addr \<Rightarrow> int \<Rightarrow> int option" where
  "rank_loop sc v l 0 x rank = Some 0"
| "rank_loop sc v l (Suc i) x rank =
     do {
       (x', rank') \<leftarrow> walk (\<lambda>_ n. lessEqual n sc v) l i x rank;
       if equal_node (nodes l x') sc v then Some rank' else rank_loop sc v l i x' rank'
     }"

definition list_Rank :: "gofloat \<Rightarrow> string \<Rightarrow> float64List \<Rightarrow> int option" where
  "list_Rank sc v l = rank_loop sc v l (highestLevel l) (header l) 0"

fun by_rank_loop :: "int \<Rightarrow> float64List \<Rightarrow> nat \<Rightarrow> addr \<Rightarrow> int \<Rightarrow> addr option option" where
  "by_rank_loop rank l 0 x traversed = Some None"
| "by_rank_loop rank l (Suc i) x traversed =
     do {
       (x', t') \<leftarrow> walk (\<lambda>r _. r \<le> rank) l i x traversed;
       if t' = rank then Some (Some x') else by_rank_loop rank l i x' t'
     }"

definition GetNodeByRank :: "int \<Rightarrow> float64List \<Rightarrow> addr option option" where
  "GetNodeByRank rank l =
     (if rank \<le> 0 then Some None else by_rank_loop rank l (highestLevel l) (header l) 0)"

definition IsInRange :: "gofloat \<Rightarrow> gofloat \<Rightarrow> RangeOpt \<Rightarrow> float64List \<Rightarrow> bool option" where
  "IsInRange mn mx opt l =
     (if flt mx mn \<or> (feq mn mx \<and> (ExcludeMin opt \<or> ExcludeMax opt)) then Some False
      else if (case tail l of None \<Rightarrow> True | Some a \<Rightarrow> \<not> greaterThanMin (score (nodes l a)) mn (ExcludeMin opt))
      then Some False
      else do {
        nx \<leftarrow> loadNext l (header l) 0;
        Some (case nx of None \<Rightarrow> False | Some a \<Rightarrow> lessThanMax (score (nodes l a)) mx (ExcludeMax opt))
      })"

definition FirstInRange :: "gofloat \<Rightarrow> gofloat \<Rightarrow> RangeOpt \<Rightarrow> float64List \<Rightarrow> addr option option" where
  "FirstInRange mn mx opt l =
     do {
       inr \<leftarrow> IsInRange mn mx opt l;
       if \<not> inr then Some None
       else do {
         upd \<leftarrow> search (\<lambda>_ n. \<not> greaterThanMin (score n) mn (ExcludeMin opt)) l;
         nx \<leftarrow> loadNext l (fst (upd ! 0)) 0;
         case nx of
           None \<Rightarrow> None
         | Some x \<Rightarrow> Some (if \<not> lessThanMax (score (nodes l x)) mx (ExcludeMax opt) then None else Some x)
       }
     }"

definition LastInRange :: "gofloat \<Rightarrow> gofloat \<Rightarrow> RangeOpt \<Rightarrow> float64List \<Rightarrow> addr option option" where
  "LastInRange mn mx opt l =
     do {
       inr \<leftarrow> IsInRange mn mx opt l;
       if \<not> inr then Some None
       else do {
         upd \<leftarrow> search (\<lambda>_ n. lessThanMax (score n) mx (ExcludeMax opt)) l;
         let x = fst (upd ! 0)
         in Some (if \<not> greaterThanMin (score (nodes l x)) mn (ExcludeMin opt) then None else Some x)
       }
     }"

end
