(* ===== verification/ZSet.thy ===== *)
theory ZSet
  imports ZSkip
begin

text \<open>
  The sorted set (\<open>structure/zset/zset.go\<close>): a dictionary from values to scores beside the skip list.
  Every method runs under the set's lock, so it is one step. The random draws of an insertion and the
  order in which a map is ranged over are arguments.
\<close>

record Float64Set =
  dict :: "string \<rightharpoonup> gofloat"
  zlist :: float64List

definition NewFloat64 :: Float64Set where
  "NewFloat64 = \<lparr>dict = Map.empty, zlist = newFloat64List\<rparr>"

definition Len :: "Float64Set \<Rightarrow> int" where
  "Len z = len (zlist z)"

definition Add :: "nat list \<Rightarrow> gofloat \<Rightarrow> string \<Rightarrow> Float64Set \<Rightarrow> (bool \<times> Float64Set) option" where
  "Add draws sc v z =
     (if is_nan sc then Some (False, z)
      else case dict z v of
        Some oldScore \<Rightarrow>
          if \<not> feq sc oldScore then
            do {
              (_, l) \<leftarrow> UpdateScore draws oldScore v sc (zlist z);
              Some (False, z\<lparr>dict := (dict z)(v \<mapsto> sc), zlist := l\<rparr>)
            }
          else Some (False, z)
      | None \<Rightarrow>
          do {
            (_, l) \<leftarrow> Insert draws sc v (zlist z);
            Some (True, z\<lparr>dict := (dict z)(v \<mapsto> sc), zlist := l\<rparr>)
          })"

definition Remove :: "string \<Rightarrow> Float64Set \<Rightarrow> ((gofloat \<times> bool) \<times> Float64Set) option" where
  "Remove v z =
     (case dict z v of
        None \<Rightarrow> Some ((FNum 0, False), z)
      | Some sc \<Rightarrow>
          do {
            (_, l) \<leftarrow> Delete sc v (zlist z);
            Some ((sc, True), z\<lparr>dict := (dict z)(v := None), zlist := l\<rparr>)
          })"

definition IncrBy :: "nat list \<Rightarrow> gofloat \<Rightarrow> string \<Rightarrow> Float64Set \<Rightarrow> ((gofloat \<times> bool) \<times> Float64Set) option" where
  "IncrBy draws incr v z =
     (if is_nan incr then
        (case dict z v of Some oldScore \<Rightarrow> Some ((oldScore, True), z) | None \<Rightarrow> Some ((FNum 0, False), z))
      else case dict z v of
        None \<Rightarrow>
          do {
            (_, l) \<leftarrow> Insert draws incr v (zlist z);
            Some ((incr, False), z\<lparr>dict := (dict z)(v \<mapsto> incr), zlist := l\<rparr>)
          }
      | Some oldScore \<Rightarrow>
          let newScore = fadd float64_fmt oldScore incr in
          if is_nan newScore then Some ((oldScore, True), z)
          else do {
            (_, l) \<leftarrow> UpdateScore draws oldScore v newScore (zlist z);
            Some ((newScore, True), z\<lparr>dict := (dict z)(v \<mapsto> newScore), zlist := l\<rparr>)
          })"

definition Score :: "string \<Rightarrow> Float64Set \<Rightarrow> gofloat \<times> bool" where
  "Score v z = (case dict z v of Some sc \<Rightarrow> (sc, True) | None \<Rightarrow> (FNum 0, False))"

definition Contains :: "string \<Rightarrow> Float64Set \<Rightarrow> bool" where
  "Contains v z = snd (Score v z)"

definition Rank :: "string \<Rightarrow> Float64Set \<Rightarrow> int option" where
  "Rank v z =
     (case dict z v of
        None \<Rightarrow> Some (- 1)
      | Some sc \<Rightarrow> do { r \<leftarrow> list_Rank sc v (zlist z); Some (r - 1) })"

definition RevRank :: "string \<Rightarrow> Float64Set \<Rightarrow> int option" where
  "RevRank v z =
     (case dict z v of
        None \<Rightarrow> Some (- 1)
      | Some sc \<Rightarrow> do { r \<leftarrow> list_Rank sc v (zlist z); Some (len (zlist z) - r) })"

definition CountWithOpt :: "gofloat \<Rightarrow> gofloat \<Rightarrow> RangeOpt \<Rightarrow> Float64Set \<Rightarrow> int option" where
  "CountWithOpt mn mx opt z =
     (let l = zlist z in
      do {
        first \<leftarrow> FirstInRange mn mx opt l;
        case first of
          None \<Rightarrow> Some 0
        | Some f \<Rightarrow>
            do {
              fr \<leftarrow> list_Rank (score (nodes l f)) (nvalue (nodes l f)) l;
              lst \<leftarrow> LastInRange mn mx opt l;
              case lst of
                None \<Rightarrow> Some (len l - (fr - 1))
              | Some t \<Rightarrow>
                  do {
                    lr \<leftarrow> list_Rank (score (nodes l t)) (nvalue (nodes l t)) l;
                    Some ((lr - 1) - (fr - 1) + 1)
                  }
            }
      })"

definition closed_range :: RangeOpt where
  "closed_range = \<lparr>ExcludeMin = False, ExcludeMax = False\<rparr>"

definition Count :: "gofloat \<Rightarrow> gofloat \<Rightarrow> Float64Set \<Rightarrow> int option" where
  "Count mn mx z = CountWithOpt mn mx closed_range z"

definition node_of :: "float64List \<Rightarrow> addr \<Rightarrow> Float64Node" where
  "node_of l a = (nvalue (nodes l a), score (nodes l a))"

definition normalizeRankRange :: "int \<Rightarrow> int \<Rightarrow> int \<Rightarrow> (int \<times> int) option" where
  "normalizeRankRange n start stop =
     (if n = 0 then None
      else
        let start1 = (if start < 0 then start + n else start);
            stop1 = (if stop < 0 then stop + n else stop);
            start2 = (if start1 < 0 then 0 else start1)
        in if n \<le> start2 \<or> stop1 < start2 then None
           else Some (start2, if n \<le> stop1 then n - 1 else stop1))"

partial_function (option) range_loop ::
  "float64List \<Rightarrow> addr option \<Rightarrow> int \<Rightarrow> int \<Rightarrow> Float64Node list \<Rightarrow> Float64Node list option" where
  "range_loop l x start stop res =
     (case x of
        None \<Rightarrow> Some res
      | Some a \<Rightarrow>
          if start \<le> stop then
            do { nx \<leftarrow> loadNext l a 0; range_loop l nx (start + 1) stop (res @ [node_of l a]) }
          else Some res)"

declare range_loop.simps [code]

definition Range :: "int \<Rightarrow> int \<Rightarrow> Float64Set \<Rightarrow> Float64Node list option" where
  "Range start stop z =
     (case normalizeRankRange (len (zlist z)) start stop of
        None \<Rightarrow> Some []
      | Some (start', stop') \<Rightarrow>
          do { x \<leftarrow> GetNodeByRank (start' + 1) (zlist z); range_loop (zlist z) x start' stop' [] })"

partial_function (option) score_loop ::
  "gofloat \<Rightarrow> RangeOpt \<Rightarrow> float64List \<Rightarrow> addr option \<Rightarrow> Float64Node list \<Rightarrow> Float64Node list option" where
  "score_loop mx opt l x res =
     (case x of
        None \<Rightarrow> Some res
      | Some a \<Rightarrow>
          if flt (score (nodes l a)) mx \<or> (\<not> ExcludeMax opt \<and> feq (score (nodes l a)) mx) then
            do { nx \<leftarrow> loadNext l a 0; score_loop mx opt l nx (res @ [node_of l a]) }
          else Some res)"

declare score_loop.simps [code]

definition RangeByScoreWithOpt :: "gofloat \<Rightarrow> gofloat \<Rightarrow> RangeOpt \<Rightarrow> Float64Set \<Rightarrow> Float64Node list option" where
  "RangeByScoreWithOpt mn mx opt z =
     do { x \<leftarrow> FirstInRange mn mx opt (zlist z); score_loop mx opt (zlist z) x [] }"

definition RangeByScore :: "gofloat \<Rightarrow> gofloat \<Rightarrow> Float64Set \<Rightarrow> Float64Node list option" where
  "RangeByScore mn mx z = RangeByScoreWithOpt mn mx closed_range z"

partial_function (option) rev_range_loop ::
  "float64List \<Rightarrow> addr option \<Rightarrow> int \<Rightarrow> int \<Rightarrow> Float64Node list \<Rightarrow> Float64Node list option" where
  "rev_range_loop l x start stop res =
     (case x of
        None \<Rightarrow> Some res
      | Some a \<Rightarrow>
          if start \<le> stop then rev_range_loop l (prev (nodes l a)) (start + 1) stop (res @ [node_of l a])
          else Some res)"

declare rev_range_loop.simps [code]

definition RevRange :: "int \<Rightarrow> int \<Rightarrow> Float64Set \<Rightarrow> Float64Node list option" where
  "RevRange start stop z =
     (case normalizeRankRange (len (zlist z)) start stop of
        None \<Rightarrow> Some []
      | Some (start', stop') \<Rightarrow>
          do {
            x \<leftarrow> GetNodeByRank (len (zlist z) - start') (zlist z);
            rev_range_loop (zlist z) x start' stop' []
          })"

partial_function (option) rev_score_loop ::
  "gofloat \<Rightarrow> RangeOpt \<Rightarrow> float64List \<Rightarrow> addr option \<Rightarrow> Float64Node list \<Rightarrow> Float64Node list option" where
  "rev_score_loop mn opt l x res =
     (case x of
        None \<Rightarrow> Some res
      | Some a \<Rightarrow>
          if flt mn (score (nodes l a)) \<or> (\<not> ExcludeMin opt \<and> feq (score (nodes l a)) mn) then
            rev_score_loop mn opt l (prev (nodes l a)) (res @ [node_of l a])
          else Some res)"

declare rev_score_loop.simps [code]

definition RevRangeByScoreWithOpt :: "gofloat \<Rightarrow> gofloat \<Rightarrow> RangeOpt \<Rightarrow> Float64Set \<Rightarrow> Float64Node list option" where
  "RevRangeByScoreWithOpt mx mn opt z =
     do { x \<leftarrow> LastInRange mn mx opt (zlist z); rev_score_loop mn opt (zlist z) x [] }"

definition RevRangeByScore :: "gofloat \<Rightarrow> gofloat \<Rightarrow> Float64Set \<Rightarrow> Float64Node list option" where
  "RevRangeByScore mx mn z = RevRangeByScoreWithOpt mx mn closed_range z"

text \<open>The increments of \<open>RemoveRangeByRank\<close> wrap around at the width of an \<open>int\<close>.\<close>

definition int_succ :: "int \<Rightarrow> int" where
  "int_succ k = sint (word_of_int (k + 1) :: i64)"

definition RemoveRangeByRank :: "int \<Rightarrow> int \<Rightarrow> Float64Set \<Rightarrow> (Float64Node list \<times> Float64Set) option" where
  "RemoveRangeByRank start stop z =
     (let n = len (zlist z);
          start1 = (if start < 0 then n + start else start);
          stop1 = (if stop < 0 then n + stop else stop)
      in do {
           (l, d, removed) \<leftarrow> DeleteRangeByRank (int_succ start1) (int_succ stop1) (dict z) (zlist z);
           Some (removed, z\<lparr>dict := d, zlist := l\<rparr>)
         })"

definition RemoveRangeByScoreWithOpt ::
  "gofloat \<Rightarrow> gofloat \<Rightarrow> RangeOpt \<Rightarrow> Float64Set \<Rightarrow> (Float64Node list \<times> Float64Set) option" where
  "RemoveRangeByScoreWithOpt mn mx opt z =
     do {
       (l, d, removed) \<leftarrow> DeleteRangeByScore mn mx opt (dict z) (zlist z);
       Some (removed, z\<lparr>dict := d, zlist := l\<rparr>)
     }"

definition RemoveRangeByScore :: "gofloat \<Rightarrow> gofloat \<Rightarrow> Float64Set \<Rightarrow> (Float64Node list \<times> Float64Set) option" where
  "RemoveRangeByScore mn mx z = RemoveRangeByScoreWithOpt mn mx closed_range z"

text \<open>
  The set operations add to a new set with the given \<open>add\<close>; the draws are a list for each added value.
  The sums of a union are collected in a map first, whose values are then added in the given order.
\<close>

type_synonym 's adder = "nat list \<Rightarrow> gofloat \<Rightarrow> string \<Rightarrow> 's \<Rightarrow> (bool \<times> 's) option"

fun add_all :: "'s adder \<Rightarrow> (nat list \<times> Float64Node) list \<Rightarrow> 's \<Rightarrow> 's option" where
  "add_all add [] z = Some z"
| "add_all add ((ds, v, sc) # xs) z = do { (_, z') \<leftarrow> add ds sc v z; add_all add xs z' }"

fun union_scores :: "Float64Node list \<Rightarrow> (string \<rightharpoonup> gofloat) \<Rightarrow> (string \<rightharpoonup> gofloat)" where
  "union_scores [] m = m"
| "union_scores ((v, sc) # ns) m =
     union_scores ns (m(v \<mapsto> (case m v of Some previous \<Rightarrow> fadd float64_fmt sc previous | None \<Rightarrow> sc)))"

fun union_sets :: "Float64Set list \<Rightarrow> (string \<rightharpoonup> gofloat) \<Rightarrow> (string \<rightharpoonup> gofloat) option" where
  "union_sets [] m = Some m"
| "union_sets (z # zs) m = do { ns \<leftarrow> Range 0 (- 1) z; union_sets zs (union_scores ns m) }"

definition entries :: "(string \<rightharpoonup> gofloat) \<Rightarrow> (nat list \<times> string) list \<Rightarrow> (nat list \<times> Float64Node) list" where
  "entries m order = concat (map (\<lambda>(ds, v). case m v of Some sc \<Rightarrow> [(ds, v, sc)] | None \<Rightarrow> []) order)"

definition UnionFloat64 :: "(nat list \<times> string) list \<Rightarrow> Float64Set list \<Rightarrow> Float64Set option" where
  "UnionFloat64 order zs =
     do { scores \<leftarrow> union_sets zs Map.empty; add_all Add (entries scores order) NewFloat64 }"

fun inter_score :: "string \<Rightarrow> Float64Set list \<Rightarrow> gofloat \<Rightarrow> gofloat option" where
  "inter_score v [] sc = Some sc"
| "inter_score v (z # zs) sc =
     (case Score v z of (other, exists) \<Rightarrow>
        if \<not> exists then None else inter_score v zs (fadd float64_fmt sc other))"

fun inter_loop :: "'s adder \<Rightarrow> (nat list \<times> Float64Node) list \<Rightarrow> Float64Set list \<Rightarrow> 's \<Rightarrow> 's option" where
  "inter_loop add [] zs z = Some z"
| "inter_loop add ((ds, v, sc) # ns) zs z =
     (case inter_score v zs sc of
        Some s \<Rightarrow> do { (_, z') \<leftarrow> add ds s v z; inter_loop add ns zs z' }
      | None \<Rightarrow> inter_loop add ns zs z)"

text \<open>\<open>draws v\<close> are the draws for an insertion of \<open>v\<close>.\<close>

definition InterFloat64 :: "(string \<Rightarrow> nat list) \<Rightarrow> Float64Set list \<Rightarrow> Float64Set option" where
  "InterFloat64 draws zs =
     (case zs of
        [] \<Rightarrow> Some NewFloat64
      | z # zs' \<Rightarrow>
          do { ns \<leftarrow> Range 0 (- 1) z; inter_loop Add (map (\<lambda>n. (draws (fst n), n)) ns) zs' NewFloat64 })"

end
