(* ===== verification/ZSkipInv.thy ===== *)
theory ZSkipInv
  imports ZSkip
begin

text \<open>
  The invariant of the skip list and the correctness of its searches and updates. A list is described
  by the addresses of its nodes in order. On every level the forward pointer of a node leads to the
  next node that is high enough, and its span counts the nodes on the way.
\<close>

section \<open>Slots\<close>

definition shaped :: "float64ListNode \<Rightarrow> bool" where
  "shaped n \<longleftrightarrow> length (base n) = op1 \<and> 1 \<le> level n \<and> level n \<le> maxLevel \<and>
     (case extra n of None \<Rightarrow> level n \<le> op1 | Some e \<Rightarrow> length e = op2)"

lemma slot_defined: "shaped n \<Longrightarrow> i < level n \<Longrightarrow> \<exists>x. slot n i = Some x"
  by (auto simp: shaped_def slot_def level_defs split: option.splits)

lemma slot_put_slot:
  "slot n i = Some y \<Longrightarrow> slot (put_slot n i x) j = (if j = i then Some x else slot n j)"
  by (auto simp: slot_def put_slot_def split: option.splits if_splits)

lemma shaped_put_slot [simp]: "shaped (put_slot n i x) = shaped n"
  by (auto simp: shaped_def put_slot_def split: option.splits)

lemma put_slot_fields [simp]:
  "score (put_slot n i x) = score n" "nvalue (put_slot n i x) = nvalue n"
  "prev (put_slot n i x) = prev n" "level (put_slot n i x) = level n"
  by (simp_all add: put_slot_def)

lemma newNode_shaped: "1 \<le> lv \<Longrightarrow> lv \<le> maxLevel \<Longrightarrow> shaped (newFloat64ListNode sc v lv)"
  by (auto simp: shaped_def newFloat64ListNode_def level_defs)

lemma newNode_fields [simp]:
  "score (newFloat64ListNode sc v lv) = sc" "nvalue (newFloat64ListNode sc v lv) = v"
  "prev (newFloat64ListNode sc v lv) = None" "level (newFloat64ListNode sc v lv) = lv"
  by (simp_all add: newFloat64ListNode_def)

text \<open>Two lists that differ in the slots of their nodes only.\<close>

definition data :: "float64ListNode \<Rightarrow> gofloat \<times> string \<times> addr option \<times> nat \<times> bool" where
  "data n = (score n, nvalue n, prev n, level n, shaped n)"

definition frame :: "float64List \<Rightarrow> float64List \<Rightarrow> bool" where
  "frame l l' \<longleftrightarrow> (\<forall>a. data (nodes l' a) = data (nodes l a)) \<and>
     header l' = header l \<and> tail l' = tail l \<and> len l' = len l \<and> highestLevel l' = highestLevel l \<and> fresh l' = fresh l"

lemma frame_refl [simp]: "frame l l"
  by (simp add: frame_def)

lemma frame_trans: "frame l l' \<Longrightarrow> frame l' l'' \<Longrightarrow> frame l l''"
  by (simp add: frame_def)

lemma frameD:
  assumes "frame l l'"
  shows "score (nodes l' a) = score (nodes l a)" "nvalue (nodes l' a) = nvalue (nodes l a)"
    "prev (nodes l' a) = prev (nodes l a)" "level (nodes l' a) = level (nodes l a)"
    "shaped (nodes l' a) = shaped (nodes l a)" "header l' = header l" "tail l' = tail l" "len l' = len l"
    "highestLevel l' = highestLevel l" "fresh l' = fresh l"
  using assms by (auto simp: frame_def data_def)

abbreviation sl :: "float64List \<Rightarrow> addr \<Rightarrow> nat \<Rightarrow> listLevel option" where
  "sl l a i \<equiv> slot (nodes l a) i"

definition set_sl :: "float64List \<Rightarrow> addr \<Rightarrow> nat \<Rightarrow> listLevel \<Rightarrow> addr \<Rightarrow> nat \<Rightarrow> listLevel option" where
  "set_sl l a i x = (\<lambda>b j. if b = a \<and> j = i then Some x else sl l b j)"

lemma storeNext_sl:
  assumes "sl l a i = Some (q, t)"
  obtains l' where "storeNext a i p l = Some l'" and "frame l l'" and "\<forall>b j. sl l' b j = set_sl l a i (p, t) b j"
  using assms by (auto simp: storeNext_def frame_def data_def set_sl_def slot_put_slot)

lemma storeSpan_sl:
  assumes "sl l a i = Some (q, t)"
  obtains l' where "storeSpan a i s l = Some l'" and "frame l l'" and "\<forall>b j. sl l' b j = set_sl l a i (q, s) b j"
  using assms by (auto simp: storeSpan_def frame_def data_def set_sl_def slot_put_slot)

section \<open>Links\<close>

text \<open>The first node of a list that is on level \<open>i\<close>, and the number of steps to it or to the end.\<close>

fun link :: "(addr \<Rightarrow> nat) \<Rightarrow> nat \<Rightarrow> addr list \<Rightarrow> listLevel" where
  "link lv i [] = (None, 0)"
| "link lv i (b # bs) = (if i < lv b then (Some b, 1) else (case link lv i bs of (p, s) \<Rightarrow> (p, s + 1)))"

abbreviation lvl :: "float64List \<Rightarrow> addr \<Rightarrow> nat" where
  "lvl l a \<equiv> level (nodes l a)"

fun links :: "float64List \<Rightarrow> addr list \<Rightarrow> bool" where
  "links l [] = True"
| "links l (a # post) =
     ((\<forall>i. i < lvl l a \<and> i < highestLevel l \<longrightarrow> sl l a i = Some (link (lvl l) i post)) \<and> links l post)"

lemma links_split:
  "links l (pre @ a # post) \<Longrightarrow> i < lvl l a \<Longrightarrow> i < highestLevel l \<Longrightarrow> sl l a i = Some (link (lvl l) i post)"
  by (induction pre) auto

lemma link_append_low:
  "\<forall>c \<in> set C. lv c \<le> i \<Longrightarrow> link lv i (C @ Q) = (fst (link lv i Q), snd (link lv i Q) + int (length C))"
  by (induction C) (auto simp: not_less split: prod.split)

lemma link_append_high:
  "\<exists>c \<in> set C. i < lv c \<Longrightarrow> link lv i (C @ Q) = link lv i (C @ Q')"
proof (induction C)
  case (Cons a C)
  then show ?case by (cases "i < lv a") auto
qed simp

lemma link_Some:
  "link lv i bs = (Some b, s) \<Longrightarrow> \<exists>C D. bs = C @ b # D \<and> (\<forall>c \<in> set C. lv c \<le> i) \<and> i < lv b \<and> s = int (length C) + 1"
proof (induction bs arbitrary: s)
  case (Cons a bs)
  show ?case
  proof (cases "i < lv a")
    case True
    then have "b = a" "s = 1" using Cons.prems by auto
    then have "a # bs = [] @ b # bs \<and> (\<forall>c \<in> set []. lv c \<le> i) \<and> i < lv b \<and> s = int (length ([] :: nat list)) + 1"
      using True by simp
    then show ?thesis by blast
  next
    case False
    then obtain s' where "link lv i bs = (Some b, s')" "s = s' + 1"
      using Cons.prems by (auto split: prod.splits)
    then obtain C D where "bs = C @ b # D" "\<forall>c \<in> set C. lv c \<le> i" "i < lv b" "s' = int (length C) + 1"
      using Cons.IH by blast
    then have "a # bs = (a # C) @ b # D \<and> (\<forall>c \<in> set (a # C). lv c \<le> i) \<and> i < lv b \<and> s = int (length (a # C)) + 1"
      using False \<open>s = s' + 1\<close> by simp
    then show ?thesis by blast
  qed
qed simp

lemma link_None: "link lv i bs = (None, s) \<longleftrightarrow> (\<forall>b \<in> set bs. lv b \<le> i) \<and> s = int (length bs)"
proof (induction bs arbitrary: s)
  case (Cons a bs)
  show ?case
  proof (cases "i < lv a")
    case False
    then show ?thesis using Cons.IH [of "s - 1"] by (cases "link lv i bs") auto
  qed simp
qed auto

lemma link_cong: "(\<And>b. b \<in> set bs \<Longrightarrow> lv b = lv' b) \<Longrightarrow> link lv i bs = link lv' i bs"
  by (induction bs) auto

section \<open>Searches\<close>

text \<open>The place a search leaves level \<open>i\<close> at: the last node of the prefix \<open>P\<close> that is on the level.\<close>

definition at_level :: "float64List \<Rightarrow> addr list \<Rightarrow> nat \<Rightarrow> addr \<times> int \<Rightarrow> bool" where
  "at_level l P i u \<longleftrightarrow> (\<exists>B C. P = B @ fst u # C \<and> snd u = int (length B) \<and> i < lvl l (fst u)
     \<and> (\<forall>c \<in> set C. lvl l c \<le> i))"

text \<open>A condition that holds on the nodes of a prefix, the header apart, and on no node behind it.\<close>

definition cuts :: "(int \<Rightarrow> float64ListNode \<Rightarrow> bool) \<Rightarrow> float64List \<Rightarrow> addr list \<Rightarrow> addr list \<Rightarrow> bool" where
  "cuts go l P Q \<longleftrightarrow>
     (\<forall>B b C. P = B @ b # C \<and> B \<noteq> [] \<longrightarrow> go (int (length B)) (nodes l b)) \<and>
     (\<forall>B b C. Q = B @ b # C \<longrightarrow> \<not> go (int (length P + length B)) (nodes l b))"

lemma walk_at_level:
  assumes "links l (P @ Q)" and "cuts go l P Q" and "P = A @ x # A'" and "i < lvl l x" and "i < highestLevel l"
  shows "\<exists>u. walk go l i x (int (length A)) = Some u \<and> at_level l P i u \<and> length A \<le> nat (snd u)"
  using assms(3,4)
proof (induction "length A'" arbitrary: A x A' rule: less_induct)
  case less
  have s: "sl l x i = Some (link (lvl l) i (A' @ Q))"
    using links_split [of l A x "A' @ Q" i] assms(1,5) less.prems by simp
  have stop: ?case if "\<forall>c \<in> set A'. lvl l c \<le> i" "walk go l i x (int (length A)) = Some (x, int (length A))"
  proof -
    have "at_level l P i (x, int (length A))"
      unfolding at_level_def using less.prems that(1) by (intro exI [of _ A] exI [of _ A']) simp
    then show ?thesis using that(2) by (intro exI [of _ "(x, int (length A))"]) simp
  qed
  show ?case
  proof (cases "\<exists>c \<in> set A'. i < lvl l c")
    case True
    obtain b s' where b: "link (lvl l) i A' = (Some b, s')"
      using True link_None [of "lvl l" i A'] by (cases "link (lvl l) i A'"; cases "fst (link (lvl l) i A')") (auto simp: not_le [symmetric])
    then obtain C D where A': "A' = C @ b # D" and low: "\<forall>c \<in> set C. lvl l c \<le> i" and hb: "i < lvl l b"
      and s': "s' = int (length C) + 1"
      using link_Some by blast
    have lk: "link (lvl l) i (A' @ Q) = (Some b, s')"
      using link_append_high [OF True, of Q "[]"] b by simp
    have P: "P = (A @ x # C) @ b # D" using less.prems A' by simp
    have "go (int (length (A @ x # C))) (nodes l b)"
      using assms(2) P unfolding cuts_def by blast
    moreover have "int (length A) + s' = int (length (A @ x # C))" using s' by simp
    moreover have "walk go l i x (int (length A)) =
        (if go (int (length A) + s') (nodes l b) then walk go l i b (int (length A) + s') else Some (x, int (length A)))"
      using s lk by (subst walk.simps) simp
    ultimately have "walk go l i x (int (length A)) = walk go l i b (int (length (A @ x # C)))"
      by metis
    moreover have "\<exists>u. walk go l i b (int (length (A @ x # C))) = Some u \<and> at_level l P i u \<and> length (A @ x # C) \<le> nat (snd u)"
      using less.hyps [of D "A @ x # C" b] A' P hb by simp
    ultimately show ?thesis by auto
  next
    case False
    then have low: "\<forall>c \<in> set A'. lvl l c \<le> i" by (auto simp: not_less)
    have lk: "link (lvl l) i (A' @ Q) = (fst (link (lvl l) i Q), snd (link (lvl l) i Q) + int (length A'))"
      using low by (rule link_append_low)
    show ?thesis
    proof (cases "fst (link (lvl l) i Q)")
      case None
      then show ?thesis using s lk by (intro stop low) (subst walk.simps, simp)
    next
      case (Some q)
      then obtain s' where q: "link (lvl l) i Q = (Some q, s')" by (metis prod.collapse)
      then obtain C D where Q: "Q = C @ q # D" "s' = int (length C) + 1"
        using link_Some by blast
      then have "\<not> go (int (length P + length C)) (nodes l q)"
        using assms(2) unfolding cuts_def by blast
      moreover have "int (length P + length C) = int (length A) + (s' + int (length A'))"
        using Q less.prems by simp
      ultimately show ?thesis
        using s lk q by (intro stop low) (subst walk.simps, simp)
    qed
  qed
qed

lemma descend_at_level:
  assumes "links l (P @ Q)" and "cuts go l P Q" and "P = A @ x # A'" and "n \<le> highestLevel l"
    and "n \<le> lvl l x" and "\<forall>a \<in> set P. 0 < lvl l a"
  shows "\<exists>us. descend go l n x (int (length A)) = Some us \<and> length us = n \<and> (\<forall>i < n. at_level l P i (us ! i))"
  using assms(3-5)
proof (induction n arbitrary: A x A')
  case (Suc n)
  obtain u where u: "walk go l n x (int (length A)) = Some u" "at_level l P n u"
    using walk_at_level [OF assms(1,2) Suc.prems(1), of n] Suc.prems by auto
  then obtain B C where B: "P = B @ fst u # C" "snd u = int (length B)" "n < lvl l (fst u)"
    by (auto simp: at_level_def)
  then obtain us where us: "descend go l n (fst u) (snd u) = Some us" "length us = n" "\<forall>i < n. at_level l P i (us ! i)"
    using Suc.IH [OF B(1)] Suc.prems by auto
  have "descend go l (Suc n) x (int (length A)) = Some (us @ [u])"
    using u us by (cases u) simp
  moreover have "at_level l P i ((us @ [u]) ! i)" if "i < Suc n" for i
    using that us u by (cases "i = n") (simp_all add: nth_append)
  ultimately show ?case using us(2) by auto
qed simp

section \<open>The invariant\<close>

fun prevs :: "float64List \<Rightarrow> addr option \<Rightarrow> addr list \<Rightarrow> bool" where
  "prevs l p [] = True"
| "prevs l p (a # as) = (prev (nodes l a) = p \<and> prevs l (Some a) as)"

definition skl :: "float64List \<Rightarrow> addr list \<Rightarrow> bool" where
  "skl l ns \<longleftrightarrow>
     distinct (header l # ns) \<and> (\<forall>a \<in> set (header l # ns). a < fresh l \<and> shaped (nodes l a)) \<and>
     lvl l (header l) = maxLevel \<and> 1 \<le> highestLevel l \<and> highestLevel l \<le> maxLevel \<and>
     (\<forall>a \<in> set ns. lvl l a \<le> highestLevel l) \<and>
     links l (header l # ns) \<and>
     (\<forall>i. highestLevel l \<le> i \<and> i < maxLevel \<longrightarrow> (\<exists>s. sl l (header l) i = Some (None, s))) \<and>
     prevs l None ns \<and> tail l = (if ns = [] then None else Some (last ns)) \<and> len l = int (length ns)"

lemma sklD:
  assumes "skl l ns"
  shows "distinct (header l # ns)" "\<And>a. a \<in> set (header l # ns) \<Longrightarrow> a < fresh l"
    "\<And>a. a \<in> set (header l # ns) \<Longrightarrow> shaped (nodes l a)" "lvl l (header l) = maxLevel"
    "1 \<le> highestLevel l" "highestLevel l \<le> maxLevel" "\<And>a. a \<in> set ns \<Longrightarrow> lvl l a \<le> highestLevel l"
    "links l (header l # ns)" "prevs l None ns" "tail l = (if ns = [] then None else Some (last ns))"
    "len l = int (length ns)"
    "\<And>i. highestLevel l \<le> i \<Longrightarrow> i < maxLevel \<Longrightarrow> \<exists>s. sl l (header l) i = Some (None, s)"
  using assms unfolding skl_def by blast+

lemma skl_level: "skl l ns \<Longrightarrow> a \<in> set (header l # ns) \<Longrightarrow> 0 < lvl l a \<and> lvl l a \<le> maxLevel"
  using sklD(3) [of l ns a] by (simp add: shaped_def)

lemma search_at_level:
  assumes "skl l ns" and "header l # ns = P @ Q" and "cuts go l P Q" and "P \<noteq> []"
  shows "\<exists>us. search go l = Some us \<and> length us = highestLevel l \<and> (\<forall>i < highestLevel l. at_level l P i (us ! i))"
proof -
  obtain A' where P: "P = [] @ header l # A'"
    using assms(2,4) by (cases P) auto
  have "\<forall>a \<in> set P. 0 < lvl l a"
    using skl_level [OF assms(1)] assms(2) by (metis Un_iff set_append)
  then show ?thesis
    using descend_at_level [OF _ assms(3) P, of "highestLevel l"] sklD [OF assms(1)] assms(2)
    by (simp add: search_def)
qed

text \<open>On the lowest level, where every node is, the search ends at the end of the prefix.\<close>

lemma at_level_0:
  assumes "at_level l P 0 u" and "\<forall>a \<in> set P. 0 < lvl l a"
  shows "P = butlast P @ [fst u]" and "snd u = int (length P) - 1"
proof -
  obtain B C where B: "P = B @ fst u # C" "snd u = int (length B)" "\<forall>c \<in> set C. lvl l c \<le> 0"
    using assms(1) by (auto simp: at_level_def)
  have "C = []"
  proof (rule ccontr)
    assume "C \<noteq> []"
    then have "hd C \<in> set C" by simp
    moreover from this have "hd C \<in> set P" using B(1) by simp
    ultimately show False using B(3) assms(2) by fastforce
  qed
  then show "P = butlast P @ [fst u]" "snd u = int (length P) - 1" using B by auto
qed

lemma loadNext_0:
  assumes "skl l ns" and "header l # ns = P @ Q" and "P \<noteq> []"
  shows "sl l (last P) 0 = Some (case Q of [] \<Rightarrow> (None, 0) | q # _ \<Rightarrow> (Some q, 1))"
proof -
  have "last P \<in> set (header l # ns)" using assms(2,3) by (metis Un_iff last_in_set set_append)
  then have "0 < lvl l (last P)" using skl_level [OF assms(1)] by blast
  moreover have "links l (butlast P @ last P # Q)"
    using sklD(8) [OF assms(1)] assms(2) append_butlast_last_id [OF assms(3)]
    by (metis append.assoc append_Cons append_Nil)
  ultimately have "sl l (last P) 0 = Some (link (lvl l) 0 Q)"
    using links_split [of l "butlast P" "last P" Q 0] sklD(5) [OF assms(1)] by simp
  moreover have "link (lvl l) 0 Q = (case Q of [] \<Rightarrow> (None, 0) | q # _ \<Rightarrow> (Some q, 1))"
  proof (cases Q)
    case (Cons q qs)
    then have "0 < lvl l q" using skl_level [OF assms(1), of q] assms(2) by (metis in_set_conv_decomp)
    then show ?thesis using Cons by simp
  qed simp
  ultimately show ?thesis by simp
qed

section \<open>The loops that relink\<close>

abbreviation up :: "(addr \<times> int) list \<Rightarrow> nat \<Rightarrow> addr" where
  "up us i \<equiv> fst (us ! i)"

lemma raise_levels_effect:
  assumes "distinct is" and "\<forall>i \<in> set is. sl l (header l) i \<noteq> None"
  shows "\<exists>l'. raise_levels is us l = Some (us @ map (\<lambda>_. (header l, 0)) is, l') \<and> frame l l' \<and>
    (\<forall>a j. sl l' a j = (if a = header l \<and> j \<in> set is then Some (fst (the (sl l a j)), len l) else sl l a j))"
  using assms
proof (induction "is" arbitrary: us l)
  case (Cons i "is")
  obtain q t where x: "sl l (header l) i = Some (q, t)" using Cons.prems(2) by force
  obtain l1 where l1: "storeSpan (header l) i (len l) l = Some l1" "frame l l1" "\<forall>b j. sl l1 b j = set_sl l (header l) i (q, len l) b j"
    by (rule storeSpan_sl [OF x])
  note fr = frameD [OF l1(2)]
  have "\<forall>i \<in> set is. sl l1 (header l1) i \<noteq> None"
    using Cons.prems(2) l1(3) fr by (auto simp: set_sl_def fun_eq_iff)
  then obtain l' where l': "raise_levels is (us @ [(header l, 0)]) l1 = Some ((us @ [(header l, 0)]) @ map (\<lambda>_. (header l1, 0)) is, l')"
    "frame l1 l'" "\<forall>a j. sl l' a j = (if a = header l1 \<and> j \<in> set is then Some (fst (the (sl l1 a j)), len l1) else sl l1 a j)"
    using Cons.IH [of l1 "us @ [(header l, 0)]"] Cons.prems(1) by auto
  have "\<forall>a j. sl l' a j = (if a = header l \<and> j \<in> set (i # is) then Some (fst (the (sl l a j)), len l) else sl l a j)"
    using x Cons.prems(1) by (auto simp: l'(3) l1(3) set_sl_def fr)
  then show ?case using l1(1,2) l'(1,2) fr frame_trans by auto
qed simp

lemma insert_links_effect:
  assumes "distinct is" and "\<forall>i \<in> set is. sl l x i \<noteq> None \<and> sl l (up us i) i \<noteq> None \<and> up us i \<noteq> x"
  shows "\<exists>l'. insert_links is us x l = Some l' \<and> frame l l' \<and>
    (\<forall>a j. sl l' a j = (if j \<in> set is \<and> a = x then
               Some (fst (the (sl l (up us j) j)), snd (the (sl l (up us j) j)) - (snd (us ! 0) - snd (us ! j)))
             else if j \<in> set is \<and> a = up us j then Some (Some x, snd (us ! 0) - snd (us ! j) + 1)
             else sl l a j))"
  using assms
proof (induction "is" arbitrary: l)
  case (Cons i "is")
  let ?r = "snd (us ! 0) - snd (us ! i)"
  obtain u r where ui: "us ! i = (u, r)" by force
  have ne: "u \<noteq> x" using Cons.prems(2) ui by force
  obtain p s where ps: "sl l u i = Some (p, s)" using Cons.prems(2) ui by force
  obtain q t where q: "sl l x i = Some (q, t)" using Cons.prems(2) by force
  obtain l1 where l1: "storeNext x i p l = Some l1" "frame l l1" "\<forall>b j. sl l1 b j = set_sl l x i (p, t) b j"
    by (rule storeNext_sl [OF q])
  have s1: "sl l1 u i = Some (p, s)" using ne ps by (simp add: l1(3) set_sl_def)
  obtain l2 where l2: "storeNext u i (Some x) l1 = Some l2" "frame l1 l2" "\<forall>b j. sl l2 b j = set_sl l1 u i (Some x, s) b j"
    by (rule storeNext_sl [OF s1])
  have s2: "sl l2 x i = Some (p, t)" using ne by (simp add: l2(3) l1(3) set_sl_def)
  obtain l3 where l3: "storeSpan x i (s - ?r) l2 = Some l3" "frame l2 l3" "\<forall>b j. sl l3 b j = set_sl l2 x i (p, s - ?r) b j"
    by (rule storeSpan_sl [OF s2])
  have s3: "sl l3 u i = Some (Some x, s)" using ne by (simp add: l3(3) l2(3) set_sl_def)
  obtain l4 where l4: "storeSpan u i (?r + 1) l3 = Some l4" "frame l3 l4" "\<forall>b j. sl l4 b j = set_sl l3 u i (Some x, ?r + 1) b j"
    by (rule storeSpan_sl [OF s3])
  have sl4: "\<forall>a j. sl l4 a j = (if j = i \<and> a = x then Some (p, s - ?r) else if j = i \<and> a = u then Some (Some x, ?r + 1) else sl l a j)"
  proof (intro allI)
    fix a j
    show "sl l4 a j = (if j = i \<and> a = x then Some (p, s - ?r) else if j = i \<and> a = u then Some (Some x, ?r + 1) else sl l a j)"
      using ne by (cases "j = i"; cases "a = x"; cases "a = u") (simp_all add: l4(3) l3(3) l2(3) l1(3) set_sl_def)
  qed
  have fr: "frame l l4" by (rule frame_trans [OF frame_trans [OF frame_trans [OF l1(2) l2(2)] l3(2)] l4(2)])
  have step: "insert_links (i # is) us x l = insert_links is us x l4"
    using l1(1) l2(1) l3(1) l4(1) by (simp add: ps ui loadNext_def loadSpan_def l2(3) set_sl_def)
  have "\<forall>i \<in> set is. sl l4 x i \<noteq> None \<and> sl l4 (up us i) i \<noteq> None \<and> up us i \<noteq> x"
    using Cons.prems by (auto simp: sl4)
  then obtain l' where l': "insert_links is us x l4 = Some l'" "frame l4 l'"
    "\<forall>a j. sl l' a j = (if j \<in> set is \<and> a = x then
               Some (fst (the (sl l4 (up us j) j)), snd (the (sl l4 (up us j) j)) - (snd (us ! 0) - snd (us ! j)))
             else if j \<in> set is \<and> a = up us j then Some (Some x, snd (us ! 0) - snd (us ! j) + 1)
             else sl l4 a j)"
    using Cons.IH [of l4] Cons.prems(1) by auto
  have "\<forall>a j. sl l' a j = (if j \<in> set (i # is) \<and> a = x then
               Some (fst (the (sl l (up us j) j)), snd (the (sl l (up us j) j)) - (snd (us ! 0) - snd (us ! j)))
             else if j \<in> set (i # is) \<and> a = up us j then Some (Some x, snd (us ! 0) - snd (us ! j) + 1)
             else sl l a j)"
    using Cons.prems(1) ps ui ne by (auto simp: l'(3) sl4)
  then show ?case using step l'(1) frame_trans [OF fr l'(2)] by metis
qed simp

lemma bump_spans_effect:
  assumes "distinct is" and "\<forall>i \<in> set is. sl l (up us i) i \<noteq> None"
  shows "\<exists>l'. bump_spans is us l = Some l' \<and> frame l l' \<and>
    (\<forall>a j. sl l' a j = (if j \<in> set is \<and> a = up us j
             then Some (fst (the (sl l a j)), snd (the (sl l a j)) + 1) else sl l a j))"
  using assms
proof (induction "is" arbitrary: l)
  case (Cons i "is")
  obtain p s where ps: "sl l (up us i) i = Some (p, s)" using Cons.prems(2) by force
  obtain l1 where l1: "storeSpan (up us i) i (s + 1) l = Some l1" "frame l l1" "\<forall>b j. sl l1 b j = set_sl l (up us i) i (p, s + 1) b j"
    by (rule storeSpan_sl [OF ps])
  have step: "bump_spans (i # is) us l = bump_spans is us l1"
    using ps l1(1) by (simp add: loadSpan_def)
  have "\<forall>i \<in> set is. sl l1 (up us i) i \<noteq> None"
    using Cons.prems by (auto simp: l1(3) set_sl_def)
  then obtain l' where l': "bump_spans is us l1 = Some l'" "frame l1 l'"
    "\<forall>a j. sl l' a j = (if j \<in> set is \<and> a = up us j
             then Some (fst (the (sl l1 a j)), snd (the (sl l1 a j)) + 1) else sl l1 a j)"
    using Cons.IH [of l1] Cons.prems(1) by auto
  have "\<forall>a j. sl l' a j = (if j \<in> set (i # is) \<and> a = up us j
             then Some (fst (the (sl l a j)), snd (the (sl l a j)) + 1) else sl l a j)"
    using Cons.prems(1) ps by (auto simp: l'(3) l1(3) set_sl_def)
  then show ?case using step l'(1) frame_trans [OF l1(2) l'(2)] by metis
qed simp

end
