(* ===== verification/ZSkipUpd.thy ===== *)
theory ZSkipUpd
  imports ZSkipInv
begin

text \<open>
  Insertion and deletion keep the invariant of the skip list and change the list of nodes in one place.
\<close>

section \<open>Relinking\<close>

lemma links_iff:
  "links l xs \<longleftrightarrow> (\<forall>pre a post i. xs = pre @ a # post \<and> i < lvl l a \<and> i < highestLevel l
     \<longrightarrow> sl l a i = Some (link (lvl l) i post))"
proof (induction xs)
  case (Cons x xs)
  show ?case
  proof
    assume "links l (x # xs)"
    then show "\<forall>pre a post i. x # xs = pre @ a # post \<and> i < lvl l a \<and> i < highestLevel l
        \<longrightarrow> sl l a i = Some (link (lvl l) i post)"
      using links_split by metis
  next
    assume *: "\<forall>pre a post i. x # xs = pre @ a # post \<and> i < lvl l a \<and> i < highestLevel l
        \<longrightarrow> sl l a i = Some (link (lvl l) i post)"
    then have "\<forall>i. i < lvl l x \<and> i < highestLevel l \<longrightarrow> sl l x i = Some (link (lvl l) i xs)"
      by (metis append_Nil)
    moreover have "links l xs"
      unfolding Cons.IH using * by (metis append_Cons)
    ultimately show "links l (x # xs)" by simp
  qed
qed simp

lemma split_insert:
  assumes "P @ x # Q = pre @ a # post"
  shows "(\<exists>C. P = pre @ a # C \<and> post = C @ x # Q) \<or> (pre = P \<and> a = x \<and> post = Q) \<or>
    (\<exists>D. pre = P @ x # D \<and> Q = D @ a # post)"
  using assms by (auto simp: append_eq_append_conv2 Cons_eq_append_conv append_eq_Cons_conv)

lemma distinct_split:
  assumes "distinct (A @ x # B)" and "A @ x # B = C @ x # D"
  shows "A = C \<and> B = D"
  using assms by (auto simp: append_eq_append_conv2 Cons_eq_append_conv append_eq_Cons_conv)

text \<open>Of the nodes of a prefix on level \<open>i\<close>, only the last one has no other behind it.\<close>

lemma at_level_other:
  assumes "at_level l P i u" and "P = pre @ a # C" and "i < lvl l a" and "a \<noteq> fst u"
  shows "\<exists>c \<in> set C. i < lvl l c"
proof -
  obtain B D where B: "P = B @ fst u # D" "i < lvl l (fst u)" "\<forall>c \<in> set D. lvl l c \<le> i"
    using assms(1) by (auto simp: at_level_def)
  have "a \<notin> set D" using B(3) assms(3) by (auto simp: not_less [symmetric])
  then have "fst u \<in> set C"
    using B(1) assms(2,4) by (auto simp: append_eq_append_conv2 Cons_eq_append_conv append_eq_Cons_conv)
  then show ?thesis using B(2) by blast
qed

lemma at_level_same:
  assumes "at_level l P i u" and "P = pre @ fst u # C" and "distinct P"
  shows "snd u = int (length pre)" and "\<forall>c \<in> set C. lvl l c \<le> i"
proof -
  obtain B D where B: "P = B @ fst u # D" "snd u = int (length B)" "\<forall>c \<in> set D. lvl l c \<le> i"
    using assms(1) by (auto simp: at_level_def)
  then have "B = pre \<and> D = C" by (metis distinct_split assms(2,3))
  then show "snd u = int (length pre)" "\<forall>c \<in> set C. lvl l c \<le> i" using B by simp_all
qed

lemma at_level_mem: "at_level l P i u \<Longrightarrow> fst u \<in> set P \<and> i < lvl l (fst u)"
  by (auto simp: at_level_def)

lemma links_insert:
  assumes old: "links l (P @ Q)" and dist: "distinct (P @ Q)" and x: "x \<notin> set (P @ Q)"
    and at: "\<And>i. i < highestLevel l \<Longrightarrow> at_level l P i (us ! i)"
    and lv': "\<And>a. a \<in> set (P @ Q) \<Longrightarrow> lvl l' a = lvl l a" "lvl l' x \<le> highestLevel l"
    and H: "highestLevel l' = highestLevel l" and r0: "snd (us ! 0) = int (length P) - 1"
    and slx: "\<And>i. i < lvl l' x \<Longrightarrow> sl l' x i = Some (fst (the (sl l (up us i) i)),
        snd (the (sl l (up us i) i)) - (snd (us ! 0) - snd (us ! i)))"
    and slu: "\<And>i. i < lvl l' x \<Longrightarrow> sl l' (up us i) i = Some (Some x, snd (us ! 0) - snd (us ! i) + 1)"
    and slb: "\<And>i. lvl l' x \<le> i \<Longrightarrow> i < highestLevel l \<Longrightarrow>
        sl l' (up us i) i = Some (fst (the (sl l (up us i) i)), snd (the (sl l (up us i) i)) + 1)"
    and slo: "\<And>a i. a \<in> set (P @ Q) \<Longrightarrow> i < highestLevel l \<Longrightarrow> a \<noteq> up us i \<Longrightarrow> sl l' a i = sl l a i"
  shows "links l' (P @ x # Q)"
  unfolding links_iff
proof (intro allI impI, elim conjE)
  fix pre a post i
  assume split: "P @ x # Q = pre @ a # post" and ia: "i < lvl l' a" and ih: "i < highestLevel l'"
  have ih: "i < highestLevel l" using ih H by simp
  have cong: "link (lvl l') i R = link (lvl l) i R" if "set R \<subseteq> set (P @ Q)" for R
    using that lv'(1) by (intro link_cong) blast
  obtain B C' where u: "P = B @ up us i # C'" "snd (us ! i) = int (length B)" "i < lvl l (up us i)"
    "\<forall>c \<in> set C'. lvl l c \<le> i"
    using at [OF ih] by (auto simp: at_level_def)
  have old_u: "sl l (up us i) i = Some (link (lvl l) i (C' @ Q))"
    using links_split [of l B "up us i" "C' @ Q" i] old u ih by simp
  have low: "link (lvl l) i (C' @ Q) = (fst (link (lvl l) i Q), snd (link (lvl l) i Q) + int (length C'))"
    using u(4) by (rule link_append_low)
  have r: "snd (us ! 0) - snd (us ! i) = int (length C')" using r0 u(1,2) by (simp add: u(1))
  consider (before) C where "P = pre @ a # C" "post = C @ x # Q" | (new) "pre = P" "a = x" "post = Q"
    | (behind) D where "pre = P @ x # D" "Q = D @ a # post"
    using split_insert [OF split] by blast
  then show "sl l' a i = Some (link (lvl l') i post)"
  proof cases
    case before
    have a: "a \<in> set (P @ Q)" "i < lvl l a" using before ia lv'(1) [of a] by auto
    have sub: "set C \<subseteq> set (P @ Q)" using before by auto
    show ?thesis
    proof (cases "a = up us i")
      case True
      then have "C = C'" by (metis distinct_split before(1) u(1) dist distinct_append)
      then have low': "\<forall>c \<in> set C. lvl l' c \<le> i" using u(4) lv'(1) sub by auto
      have "link (lvl l') i post = (fst (link (lvl l') i (x # Q)), snd (link (lvl l') i (x # Q)) + int (length C))"
        unfolding before by (rule link_append_low [OF low'])
      then show ?thesis
        using True slu [of i] slb [of i] ih old_u low r \<open>C = C'\<close> cong [of Q]
        by (cases "i < lvl l' x") (simp_all add: split_beta)
    next
      case False
      then obtain c where c: "c \<in> set C" "i < lvl l c" using at_level_other [OF at [OF ih] before(1) a(2)] by blast
      have "lvl l' c = lvl l c" using c(1) sub by (intro lv'(1)) blast
      then have hi: "\<exists>c \<in> set C. i < lvl l' c" using c by (intro bexI [of _ c]) simp_all
      have "link (lvl l') i post = link (lvl l') i (C @ Q)"
        unfolding before(2) by (rule link_append_high [of C i "lvl l'", OF hi])
      moreover have "link (lvl l') i (C @ Q) = link (lvl l) i (C @ Q)"
        using before(1) by (intro cong) auto
      moreover have "sl l a i = Some (link (lvl l) i (C @ Q))"
        using links_split [of l pre a "C @ Q" i] old before(1) a ih by simp
      ultimately show ?thesis using slo [OF a(1) ih False] by simp
    qed
  next
    case new
    have "i < lvl l' x" using ia new by simp
    from slx [OF this] have "sl l' a i = Some (fst (link (lvl l) i Q), snd (link (lvl l) i Q))"
      unfolding old_u low r new(2) by simp
    then show ?thesis using new cong [of Q] by simp
  next
    case behind
    then have a: "a \<in> set (P @ Q)" "i < lvl l a" "a \<noteq> up us i"
      using ia lv'(1) [of a] dist u(1) by auto
    moreover have "sl l a i = Some (link (lvl l) i post)"
      using links_split [of l "P @ D" a post i] old behind a ih by simp
    moreover have "link (lvl l') i post = link (lvl l) i post" using behind(2) by (intro cong) auto
    ultimately show ?thesis using slo [OF a(1) ih a(3)] by simp
  qed
qed

end
