(* ===== verification/ZSkipIns.thy ===== *)
theory ZSkipIns
  imports ZSkipUpd
begin

text \<open>Insertion keeps the invariant of the skip list.\<close>

section \<open>Insertion\<close>

lemma randomLevel_range: "randomLevel draws = Some lv \<Longrightarrow> 1 \<le> lv \<and> lv \<le> maxLevel"
proof -
  have "randomLevel_loop ds k = Some m \<Longrightarrow> k \<le> m" for ds k m
    by (induction ds k rule: randomLevel_loop.induct) (fastforce split: if_splits)+
  then show "randomLevel draws = Some lv \<Longrightarrow> 1 \<le> lv \<and> lv \<le> maxLevel"
    by (auto simp: randomLevel_def maxLevel_def split: if_splits)
qed

lemma prevs_append:
  "prevs l p (A @ B) \<longleftrightarrow> prevs l p A \<and> prevs l (if A = [] then p else Some (last A)) B"
  by (induction A arbitrary: p) auto

lemma prevs_cong: "(\<And>a. a \<in> set A \<Longrightarrow> prev (nodes l a) = prev (nodes l' a)) \<Longrightarrow> prevs l p A = prevs l' p A"
  by (induction A arbitrary: p) auto

lemma set_prev_simps [simp]:
  "sl (set_prev a p l) b i = sl l b i" "lvl (set_prev a p l) b = lvl l b"
  "score (nodes (set_prev a p l) b) = score (nodes l b)" "nvalue (nodes (set_prev a p l) b) = nvalue (nodes l b)"
  "shaped (nodes (set_prev a p l) b) = shaped (nodes l b)"
  "prev (nodes (set_prev a p l) b) = (if b = a then p else prev (nodes l b))"
  "header (set_prev a p l) = header l" "tail (set_prev a p l) = tail l" "len (set_prev a p l) = len l"
  "highestLevel (set_prev a p l) = highestLevel l" "fresh (set_prev a p l) = fresh l"
  by (simp_all add: set_prev_def slot_def shaped_def split: option.split)

lemma links_cong:
  assumes "\<And>a i. a \<in> set xs \<Longrightarrow> i < lvl l a \<Longrightarrow> i < highestLevel l \<Longrightarrow> sl l' a i = sl l a i"
    and "\<And>a. a \<in> set xs \<Longrightarrow> lvl l' a = lvl l a" and "highestLevel l' = highestLevel l" and "links l xs"
  shows "links l' xs"
  unfolding links_iff
proof (intro allI impI, elim conjE)
  fix pre a post i
  assume xs: "xs = pre @ a # post" and i: "i < lvl l' a" "i < highestLevel l'"
  then have "i < lvl l a" "i < highestLevel l" using assms(2) [of a] assms(3) by simp_all
  moreover from this have "sl l a i = Some (link (lvl l) i post)"
    using assms(4) xs by (auto intro: links_split)
  moreover have "link (lvl l') i post = link (lvl l) i post"
    using assms(2) xs by (intro link_cong) simp
  ultimately show "sl l' a i = Some (link (lvl l') i post)" using assms(1) [of a i] xs by simp
qed

text \<open>Raising the number of levels for a high node.\<close>

definition raised :: "nat \<Rightarrow> (addr \<times> int) list \<Rightarrow> float64List \<Rightarrow> ((addr \<times> int) list \<times> float64List) option" where
  "raised lv us l =
     (if highestLevel l < lv
      then map_option (\<lambda>(u, l'). (u, l'\<lparr>highestLevel := lv\<rparr>)) (raise_levels [highestLevel l..<lv] us l)
      else Some (us, l))"

lemma raise_skl:
  assumes inv: "skl l ns" and us: "length us = highestLevel l" "\<And>i. i < highestLevel l \<Longrightarrow> at_level l P i (us ! i)"
    and P: "header l # ns = P @ Q" "P \<noteq> []" and lv: "1 \<le> lv" "lv \<le> maxLevel"
  shows "\<exists>us1 l1. raised lv us l = Some (us1, l1) \<and> skl l1 ns \<and> lv \<le> highestLevel l1 \<and> us1 ! 0 = us ! 0 \<and>
    (\<forall>i < highestLevel l1. at_level l1 P i (us1 ! i)) \<and> header l1 = header l \<and> fresh l1 = fresh l \<and>
    (\<forall>a. data (nodes l1 a) = data (nodes l a))"
proof (cases "highestLevel l < lv")
  case False
  then show ?thesis using inv us lv by (auto simp: raised_def)
next
  case True
  note D = sklD [OF inv]
  let ?h = "highestLevel l"
  have "\<forall>i \<in> set [?h..<lv]. sl l (header l) i \<noteq> None"
    using D(12) lv by fastforce
  from raise_levels_effect [OF distinct_upt this, of us]
  obtain l' where l': "raise_levels [?h..<lv] us l = Some (us @ map (\<lambda>_. (header l, 0)) [?h..<lv], l')" "frame l l'"
    "\<forall>a j. sl l' a j = (if a = header l \<and> j \<in> set [?h..<lv] then Some (fst (the (sl l a j)), len l) else sl l a j)"
    by blast
  define l1 where "l1 = l'\<lparr>highestLevel := lv\<rparr>"
  let ?us = "us @ map (\<lambda>_. (header l, 0)) [?h..<lv]"
  note fr = frameD [OF l'(2)]
  have n1: "nodes l1 = nodes l'" and h1: "highestLevel l1 = lv" by (simp_all add: l1_def)
  have lvl1: "lvl l1 a = lvl l a" for a by (simp add: n1 fr)
  have sl1: "sl l1 a j = (if a = header l \<and> ?h \<le> j \<and> j < lv then Some (None, len l) else sl l a j)" for a j
  proof -
    have "fst (the (sl l (header l) j)) = None" if j: "?h \<le> j" "j < lv"
    proof -
      have "j < maxLevel" using j lv by simp
      then obtain s where "sl l (header l) j = Some (None, s)" using D(12) [OF j(1)] by blast
      then show ?thesis by simp
    qed
    then show ?thesis using l'(3) by (auto simp: n1)
  qed
  have "links l1 (header l # ns)"
    unfolding links_iff
  proof (intro allI impI, elim conjE)
    fix pre a post i
    assume s: "header l # ns = pre @ a # post" and i: "i < lvl l1 a" "i < highestLevel l1"
    show "sl l1 a i = Some (link (lvl l1) i post)"
    proof (cases "i < ?h")
      case True
      then have "sl l a i = Some (link (lvl l) i post)"
        using D(8) s i by (auto simp: lvl1 intro: links_split)
      then show ?thesis using True by (simp add: sl1 lvl1)
    next
      case False
      have low: "\<forall>b \<in> set ns. lvl l b \<le> i" using D(7) False by fastforce
      then have "a \<notin> set ns" using i(1) by (auto simp: lvl1 not_less [symmetric])
      then have "a = header l" "post = ns"
        using s by (auto simp: Cons_eq_append_conv)
      then show ?thesis
        using low False i D(11) link_None [of "lvl l" i ns "int (length ns)"] by (simp add: sl1 lvl1 h1)
    qed
  qed
  moreover have "prevs l1 None ns" using D(9) by (subst prevs_cong [of ns l1 l]) (simp_all add: n1 fr)
  moreover have "\<exists>s. sl l1 (header l) i = Some (None, s)" if "lv \<le> i" "i < maxLevel" for i
    using D(12) [of i] that True by (simp add: sl1)
  moreover have "\<forall>a \<in> set ns. lvl l a \<le> lv" using D(7) True by fastforce
  ultimately have inv1: "skl l1 ns"
    using D(1-5,10,11) lv unfolding skl_def by (auto simp: l1_def fr n1)
  have at: "at_level l1 P i (?us ! i)" if "i < lv" for i
  proof (cases "i < ?h")
    case True
    then show ?thesis using us by (simp add: nth_append at_level_def lvl1)
  next
    case False
    then have i: "?us ! i = (header l, 0)" using that us(1) by (simp add: nth_append)
    obtain A where A: "P = [] @ header l # A" "set A \<subseteq> set ns" using P by (cases P) auto
    have "\<forall>c \<in> set A. lvl l1 c \<le> i" using D(7) A(2) False by (force simp: lvl1)
    then show ?thesis
      unfolding at_level_def i using A(1) D(4) that lv by (intro exI [of _ "[]"] exI [of _ A]) (simp add: lvl1)
  qed
  have r: "raised lv us l = Some (?us, l1)" using True l'(1) by (simp add: raised_def l1_def)
  have u0: "?us ! 0 = us ! 0" using us(1) D(5) by (simp add: nth_append)
  have d: "\<forall>a. data (nodes l1 a) = data (nodes l a)" using l'(2) by (simp add: frame_def n1)
  show ?thesis
    using r u0 d inv1 at by (intro exI [of _ ?us] exI [of _ l1]) (simp add: l1_def fr)
qed

text \<open>The new node linked in and the spans adjusted, before the back pointers.\<close>

lemma link_new_node:
  assumes inv: "skl l ns" and ns: "ns = A @ B" and at: "\<And>i. i < highestLevel l \<Longrightarrow> at_level l (header l # A) i (us ! i)"
    and lv: "1 \<le> lv" "lv \<le> highestLevel l" and x: "x = fresh l"
    and l2: "l2 = l\<lparr>nodes := (nodes l)(x := newFloat64ListNode sc v lv), fresh := x + 1\<rparr>"
  shows "\<exists>l3 l4. insert_links [0..<lv] us x l2 = Some l3 \<and> bump_spans [lv..<highestLevel l3] us l3 = Some l4 \<and>
    frame l2 l4 \<and> links l4 (header l # A @ x # B) \<and>
    (\<forall>i. highestLevel l \<le> i \<and> i < maxLevel \<longrightarrow> (\<exists>s. sl l4 (header l) i = Some (None, s)))"
proof -
  note D = sklD [OF inv]
  let ?P = "header l # A"
  let ?H = "highestLevel l"
  have max: "lv \<le> maxLevel" using lv(2) D(6) by simp
  have xn: "x \<notin> set (?P @ B)" using D(2) x ns by fastforce
  have u: "up us i \<in> set ?P" "i < lvl l (up us i)" "up us i \<noteq> x" if "i < ?H" for i
    using at_level_mem [OF at [OF that]] xn by auto
  have def: "\<exists>y. sl l (up us i) i = Some y" if "i < ?H" for i
    using slot_defined [OF D(3) u(2) [OF that]] u(1) [OF that] ns by auto
  have sl2: "sl l2 a i = sl l a i" if "a \<noteq> x" for a i using that by (simp add: l2)
  have sx2: "\<exists>y. sl l2 x i = Some y" if "i < lv" for i
    using slot_defined [OF newNode_shaped [OF lv(1) max], of i] that by (simp add: l2)
  have "\<forall>i \<in> set [0..<lv]. sl l2 x i \<noteq> None \<and> sl l2 (up us i) i \<noteq> None \<and> up us i \<noteq> x"
  proof
    fix i assume "i \<in> set [0..<lv]"
    then have i: "i < lv" "i < ?H" using lv(2) by simp_all
    show "sl l2 x i \<noteq> None \<and> sl l2 (up us i) i \<noteq> None \<and> up us i \<noteq> x"
      using sx2 [OF i(1)] def [OF i(2)] u(3) [OF i(2)] by (auto simp: sl2)
  qed
  from insert_links_effect [OF distinct_upt this]
  obtain l3 where l3: "insert_links [0..<lv] us x l2 = Some l3" "frame l2 l3"
    "\<forall>a j. sl l3 a j = (if j \<in> set [0..<lv] \<and> a = x then
               Some (fst (the (sl l2 (up us j) j)), snd (the (sl l2 (up us j) j)) - (snd (us ! 0) - snd (us ! j)))
             else if j \<in> set [0..<lv] \<and> a = up us j then Some (Some x, snd (us ! 0) - snd (us ! j) + 1)
             else sl l2 a j)"
    by blast
  have h3: "highestLevel l3 = ?H" using frameD(9) [OF l3(2)] l2 by simp
  have "\<forall>i \<in> set [lv..<?H]. sl l3 (up us i) i \<noteq> None"
    using def u(3) by (auto simp: l3(3) sl2)
  from bump_spans_effect [OF distinct_upt this]
  obtain l4 where l4: "bump_spans [lv..<?H] us l3 = Some l4" "frame l3 l4"
    "\<forall>a j. sl l4 a j = (if j \<in> set [lv..<?H] \<and> a = up us j
             then Some (fst (the (sl l3 a j)), snd (the (sl l3 a j)) + 1) else sl l3 a j)"
    by blast
  have fr: "frame l2 l4" by (rule frame_trans [OF l3(2) l4(2)])
  note F = frameD [OF fr]
  have "links l4 (?P @ x # B)"
  proof (rule links_insert [of l ?P B x us])
    show "links l (?P @ B)" "distinct (?P @ B)" using D(1,8) ns by simp_all
    show "x \<notin> set (?P @ B)" by (fact xn)
    show "at_level l ?P i (us ! i)" if "i < ?H" for i using at that by simp
    show "lvl l4 a = lvl l a" if "a \<in> set (?P @ B)" for a
      using that xn F(4) [of a] by (auto simp: l2)
    show "lvl l4 x \<le> ?H" "highestLevel l4 = ?H" using lv(2) F(4) [of x] F(9) by (simp_all add: l2)
    have "0 < ?H" using D(5) by simp
    then show "snd (us ! 0) = int (length ?P) - 1"
      using skl_level [OF inv] ns by (intro at_level_0 [OF at]) auto
    have lx: "lvl l4 x = lv" using F(4) [of x] by (simp add: l2)
    show "sl l4 x i = Some (fst (the (sl l (up us i) i)), snd (the (sl l (up us i) i)) - (snd (us ! 0) - snd (us ! i)))"
      if "i < lvl l4 x" for i
      using that lx lv(2) u(3) [of i] by (simp add: l4(3) l3(3) sl2)
    show "sl l4 (up us i) i = Some (Some x, snd (us ! 0) - snd (us ! i) + 1)" if "i < lvl l4 x" for i
      using that lx lv(2) u(3) [of i] by (simp add: l4(3) l3(3))
    show "sl l4 (up us i) i = Some (fst (the (sl l (up us i) i)), snd (the (sl l (up us i) i)) + 1)"
      if "lvl l4 x \<le> i" "i < ?H" for i
      using that lx u(3) [of i] by (simp add: l4(3) l3(3) sl2)
    show "sl l4 a i = sl l a i" if "a \<in> set (?P @ B)" "i < ?H" "a \<noteq> up us i" for a i
    proof -
      have "a \<noteq> x" using that(1) xn by blast
      then show ?thesis using that(2,3) by (simp add: l4(3) l3(3) sl2)
    qed
  qed
  moreover have "\<exists>s. sl l4 (header l) i = Some (None, s)" if "?H \<le> i" "i < maxLevel" for i
    using D(12) [OF that] that lv(2) xn by (auto simp: l4(3) l3(3) sl2)
  ultimately show ?thesis using l3(1) l4(1) h3 fr by auto
qed

lemma Insert_skl:
  assumes inv: "skl l ns" and ns: "ns = A @ B" and cuts: "cuts (\<lambda>_ n. lessThan n sc v) l (header l # A) B"
    and lv: "randomLevel draws = Some lv"
  shows "\<exists>l'. Insert draws sc v l = Some (fresh l, l') \<and> skl l' (A @ fresh l # B) \<and> header l' = header l \<and>
    score (nodes l' (fresh l)) = sc \<and> nvalue (nodes l' (fresh l)) = v \<and>
    (\<forall>a. a \<noteq> fresh l \<longrightarrow> score (nodes l' a) = score (nodes l a) \<and> nvalue (nodes l' a) = nvalue (nodes l a))"
proof -
  let ?P = "header l # A"
  have P: "header l # ns = ?P @ B" "?P \<noteq> []" using ns by simp_all
  obtain us0 where us0: "search (\<lambda>_ n. lessThan n sc v) l = Some us0" "length us0 = highestLevel l"
    "\<And>i. i < highestLevel l \<Longrightarrow> at_level l ?P i (us0 ! i)"
    using search_at_level [OF inv P(1) cuts P(2)] by blast
  have lvr: "1 \<le> lv" "lv \<le> maxLevel" using randomLevel_range [OF lv] by simp_all
  obtain us l1 where l1: "raised lv us0 l = Some (us, l1)" "skl l1 ns" "lv \<le> highestLevel l1" "us ! 0 = us0 ! 0"
    "\<And>i. i < highestLevel l1 \<Longrightarrow> at_level l1 ?P i (us ! i)" "header l1 = header l" "fresh l1 = fresh l"
    "\<And>a. data (nodes l1 a) = data (nodes l a)"
    using raise_skl [OF inv us0(2,3) P lvr] by blast
  define x where "x = fresh l1"
  define l2 where "l2 = l1\<lparr>nodes := (nodes l1)(x := newFloat64ListNode sc v lv), fresh := x + 1\<rparr>"
  obtain l3 l4 where l4: "insert_links [0..<lv] us x l2 = Some l3" "bump_spans [lv..<highestLevel l3] us l3 = Some l4"
    "frame l2 l4" "links l4 (header l # A @ x # B)"
    "\<And>i. highestLevel l1 \<le> i \<Longrightarrow> i < maxLevel \<Longrightarrow> \<exists>s. sl l4 (header l) i = Some (None, s)"
    using link_new_node [OF l1(2) ns l1(5) [folded l1(6)] lvr(1) l1(3) x_def l2_def] l1(6) by auto
  note D = sklD [OF l1(2)] and F = frameD [OF l4(3)]
  have xn: "x \<notin> set (?P @ B)" using D(2) x_def ns l1(6) by fastforce
  have lvl4: "lvl l4 a = (if a = x then lv else lvl l1 a)" for a by (simp add: F l2_def)
  have u0: "fst (us ! 0) = last ?P"
  proof -
    have "?P = butlast ?P @ [fst (us ! 0)]"
      using D(5) skl_level [OF l1(2)] ns l1(6) by (intro at_level_0(1) [OF l1(5) [of 0]]) auto
    then show ?thesis by (metis last_snoc)
  qed
  define l5 where "l5 = (if fst (us ! 0) \<noteq> header l4 then set_prev x (Some (fst (us ! 0))) l4 else l4)"
  define l6 where "l6 = (case B of b # _ \<Rightarrow> set_prev b (Some x) l5 | [] \<Rightarrow> l5\<lparr>tail := Some x\<rparr>)"
  have hd4: "header l4 = header l" "header l2 = header l" using l1(6) by (simp_all add: F l2_def)
  have last_P: "last ?P = header l \<longleftrightarrow> A = []"
  proof -
    have "header l \<notin> set A" using D(1) ns l1(6) by simp
    then show ?thesis by (metis last.simps last_in_set)
  qed
  have sl5: "sl l5 a i = sl l4 a i" "lvl l5 a = lvl l4 a" "shaped (nodes l5 a) = shaped (nodes l4 a)"
    "score (nodes l5 a) = score (nodes l4 a)" "nvalue (nodes l5 a) = nvalue (nodes l4 a)" 
    "prev (nodes l5 a) = (if a = x \<and> A \<noteq> [] then Some (last A) else prev (nodes l4 a))" for a i
    using last_P by (simp_all add: l5_def u0 hd4)
  have sl6: "sl l6 a i = sl l4 a i" "lvl l6 a = lvl l4 a" "shaped (nodes l6 a) = shaped (nodes l4 a)"
    "score (nodes l6 a) = score (nodes l4 a)" "nvalue (nodes l6 a) = nvalue (nodes l4 a)" 
    "prev (nodes l6 a) = (if B \<noteq> [] \<and> a = hd B then Some x else prev (nodes l5 a))" for a i
    by (cases B; simp add: l6_def sl5(1-5))+
  have f6: "header l6 = header l" "fresh l6 = fresh l + 1" "len l6 = int (length ns)" "highestLevel l6 = highestLevel l1"
    "tail l6 = (if B = [] then Some x else tail l1)"
    using D(11) by (cases B; simp add: l6_def l5_def hd4 F l2_def l1(6,7) x_def)+
  have "sl l4 x 0 = Some (link (lvl l4) 0 B)"
    using links_split [of l4 "header l # A" x B 0] l4(4) lvr(1) D(5) by (simp add: lvl4 F l2_def)
  moreover have "fst (link (lvl l4) 0 B) = (case B of [] \<Rightarrow> None | b # _ \<Rightarrow> Some b)"
  proof (cases B)
    case (Cons b B')
    then have "0 < lvl l4 b" using skl_level [OF l1(2), of b] ns xn by (simp add: lvl4)
    then show ?thesis using Cons by simp
  qed simp
  ultimately have nx: "loadNext l5 x 0 = Some (case B of [] \<Rightarrow> None | b # _ \<Rightarrow> Some b)"
    by (simp add: loadNext_def sl5)
  have ins: "Insert draws sc v l = Some (x, l6\<lparr>len := len l6 + 1\<rparr>)"
  proof -
    have "(if highestLevel l < lv
           then map_option (\<lambda>(u, l'). (u, l'\<lparr>highestLevel := lv\<rparr>)) (raise_levels [highestLevel l..<lv] us0 l)
           else Some (us0, l)) = Some (us, l1)"
      using l1(1) by (simp add: raised_def)
    moreover have "insert_links [0..<lv] us (fresh l1)
        (l1\<lparr>nodes := (nodes l1)(fresh l1 := newFloat64ListNode sc v lv), fresh := Suc (fresh l1)\<rparr>) = Some l3"
      using l4(1) by (simp add: l2_def x_def)
    moreover have "loadNext (if fst (us ! 0) \<noteq> header l4 then set_prev (fresh l1) (Some (fst (us ! 0))) l4 else l4)
        (fresh l1) 0 = Some (case B of [] \<Rightarrow> None | b # _ \<Rightarrow> Some b)"
      using nx by (simp only: l5_def x_def)
    ultimately show ?thesis
      unfolding Insert_def us0(1) lv x_def l6_def l5_def
      using l4(2) by (cases B) (simp_all add: Let_def)
  qed
  let ?l' = "l6\<lparr>len := len l6 + 1\<rparr>"
  have "prevs l6 None (A @ x # B)"
  proof -
    have px: "prev (nodes l6 x) = (if A = [] then None else Some (last A))"
      using xn hd_in_set [of B] by (auto simp: sl6 sl5 F l2_def)
    have pa: "prev (nodes l6 a) = prev (nodes l1 a)" if "a \<noteq> x" "B = [] \<or> a \<noteq> hd B" for a
      using that by (auto simp: sl6 sl5 F l2_def)
    have D9: "prevs l1 None A" "prevs l1 (if A = [] then None else Some (last A)) B"
      using D(9) by (simp_all add: ns prevs_append)
    have "prevs l6 None A"
      using D9(1) xn D(1) ns by (subst prevs_cong [of A l6 l1]) (auto intro!: pa)
    moreover have "prevs l6 (Some x) B"
    proof (cases B)
      case (Cons b B')
      have "prevs l6 (Some b) B'"
        using D9(2) Cons xn D(1) ns by (subst prevs_cong [of B' l6 l1]) (auto intro!: pa)
      then show ?thesis using Cons by (simp add: sl6)
    qed simp
    ultimately show ?thesis using px by (simp add: prevs_append)
  qed
  then have pv: "prevs ?l' None (A @ x # B)" by (subst prevs_cong [of _ _ l6]) simp_all
  have lk: "links ?l' (header l # A @ x # B)"
  proof (rule links_cong [of "header l # A @ x # B" l4 ?l', OF _ _ _ l4(4)])
    show "highestLevel ?l' = highestLevel l4" by (simp add: f6 F l2_def)
  qed (simp_all add: sl6)
  have shp: "shaped (nodes l4 a)" if "a \<in> set (header l # A @ x # B)" for a
    using that D(3) [of a] newNode_shaped [OF lvr] l1(6) ns by (auto simp: F l2_def)
  have frs: "a < fresh l + 1" if "a \<in> set (header l # A @ x # B)" for a
    using that D(2) [of a] l1(6,7) ns x_def by auto
  have "skl ?l' (A @ x # B)"
    unfolding skl_def
  proof (intro conjI)
    show "distinct (header ?l' # A @ x # B)" using D(1) xn ns l1(6) by (auto simp: f6)
    show "\<forall>a \<in> set (header ?l' # A @ x # B). a < fresh ?l' \<and> shaped (nodes ?l' a)"
      using shp frs by (auto simp: f6 sl6)
    show "lvl ?l' (header ?l') = maxLevel" using D(4) xn l1(6) by (simp add: f6 sl6 lvl4)
    show "1 \<le> highestLevel ?l'" "highestLevel ?l' \<le> maxLevel" using D(5,6) by (simp_all add: f6)
    show "\<forall>a \<in> set (A @ x # B). lvl ?l' a \<le> highestLevel ?l'"
      using D(7) l1(3) ns by (auto simp: f6 sl6 lvl4)
    show "links ?l' (header ?l' # A @ x # B)" using lk by (simp add: f6)
    show "\<forall>i. highestLevel ?l' \<le> i \<and> i < maxLevel \<longrightarrow> (\<exists>s. sl ?l' (header ?l') i = Some (None, s))"
      using l4(5) by (simp add: f6 sl6)
    show "prevs ?l' None (A @ x # B)" by (fact pv)
    show "tail ?l' = (if A @ x # B = [] then None else Some (last (A @ x # B)))"
      using D(10) ns by (simp add: f6)
    show "len ?l' = int (length (A @ x # B))" by (simp add: f6 ns)
  qed
  then show ?thesis
    using ins l1(6,7) l1(8) [unfolded data_def] x_def by (auto simp: f6 sl6 F l2_def)
qed

end
