(* ===== verification/ZSkipDel.thy ===== *)
theory ZSkipDel
  imports ZSkipIns
begin

text \<open>Deletion keeps the invariant of the skip list.\<close>

lemma unlink_effect:
  assumes "distinct is" and "\<forall>i \<in> set is. sl l (up us i) i \<noteq> None \<and> up us i \<noteq> x \<and>
      (fst (the (sl l (up us i) i)) = Some x \<longrightarrow> sl l x i \<noteq> None)"
  shows "\<exists>l'. unlink is x us l = Some l' \<and> frame l l' \<and>
    (\<forall>a j. sl l' a j = (if j \<in> set is \<and> a = up us j then
       (if fst (the (sl l a j)) = Some x
        then Some (fst (the (sl l x j)), snd (the (sl l x j)) + (snd (the (sl l a j)) - 1))
        else Some (fst (the (sl l a j)), snd (the (sl l a j)) - 1))
      else sl l a j))"
  using assms
proof (induction "is" arbitrary: l)
  case (Cons i "is")
  let ?u = "up us i"
  have ne: "?u \<noteq> x" using Cons.prems(2) by simp
  obtain p s where ps: "sl l ?u i = Some (p, s)" using Cons.prems(2) by force
  have "\<exists>l1. (if p = Some x then
                do {
                  (next, span) \<leftarrow> slot (nodes l x) i;
                  l1 \<leftarrow> storeNext ?u i next l;
                  storeSpan ?u i (span + (s - 1)) l1
                }
              else storeSpan ?u i (s - 1) l) = Some l1 \<and> frame l l1 \<and>
     (\<forall>b j. sl l1 b j = set_sl l ?u i (if p = Some x then (fst (the (sl l x i)), snd (the (sl l x i)) + (s - 1)) else (p, s - 1)) b j)"
  proof (cases "p = Some x")
    case True
    obtain q t where q: "sl l x i = Some (q, t)" using Cons.prems(2) ps True by force
    obtain m where m: "storeNext ?u i q l = Some m" "frame l m" "\<forall>b j. sl m b j = set_sl l ?u i (q, s) b j"
      by (rule storeNext_sl [OF ps])
    have "sl m ?u i = Some (q, s)" by (simp add: m(3) set_sl_def)
    then obtain l1 where l1: "storeSpan ?u i (t + (s - 1)) m = Some l1" "frame m l1"
      "\<forall>b j. sl l1 b j = set_sl m ?u i (q, t + (s - 1)) b j"
      by (rule storeSpan_sl)
    show ?thesis
      using True q m(1) l1(1) frame_trans [OF m(2) l1(2)]
      by (intro exI [of _ l1]) (simp add: l1(3) m(3) set_sl_def)
  next
    case False
    obtain l1 where l1: "storeSpan ?u i (s - 1) l = Some l1" "frame l l1" "\<forall>b j. sl l1 b j = set_sl l ?u i (p, s - 1) b j"
      by (rule storeSpan_sl [OF ps])
    then show ?thesis using False by auto
  qed
  then obtain l1 where l1: "(if p = Some x then
                do {
                  (next, span) \<leftarrow> slot (nodes l x) i;
                  l1 \<leftarrow> storeNext ?u i next l;
                  storeSpan ?u i (span + (s - 1)) l1
                }
              else storeSpan ?u i (s - 1) l) = Some l1" "frame l l1"
    and sl1: "\<And>b j. sl l1 b j = set_sl l ?u i (if p = Some x then (fst (the (sl l x i)), snd (the (sl l x i)) + (s - 1)) else (p, s - 1)) b j"
    by blast
  have step: "unlink (i # is) x us l = unlink is x us l1"
    using l1(1) by (simp add: loadNext_def loadSpan_def ps)
  have other: "sl l1 b j = sl l b j" if "j \<noteq> i \<or> b \<noteq> ?u" for b j
    using that by (auto simp: sl1 set_sl_def)
  have ok: "\<forall>j \<in> set is. sl l1 (up us j) j \<noteq> None \<and> up us j \<noteq> x \<and>
      (fst (the (sl l1 (up us j) j)) = Some x \<longrightarrow> sl l1 x j \<noteq> None)"
  proof
    fix j assume "j \<in> set is"
    moreover from this have "j \<noteq> i" using Cons.prems(1) by auto
    ultimately show "sl l1 (up us j) j \<noteq> None \<and> up us j \<noteq> x \<and>
      (fst (the (sl l1 (up us j) j)) = Some x \<longrightarrow> sl l1 x j \<noteq> None)"
      using Cons.prems(2) by (simp add: other)
  qed
  obtain l' where l': "unlink is x us l1 = Some l'" "frame l1 l'"
    and sl': "\<And>a j. sl l' a j = (if j \<in> set is \<and> a = up us j then
       (if fst (the (sl l1 a j)) = Some x
        then Some (fst (the (sl l1 x j)), snd (the (sl l1 x j)) + (snd (the (sl l1 a j)) - 1))
        else Some (fst (the (sl l1 a j)), snd (the (sl l1 a j)) - 1))
      else sl l1 a j)"
    using Cons.IH [OF _ ok] Cons.prems(1) by auto
  have "sl l' a j = (if j \<in> set (i # is) \<and> a = up us j then
       (if fst (the (sl l a j)) = Some x
        then Some (fst (the (sl l x j)), snd (the (sl l x j)) + (snd (the (sl l a j)) - 1))
        else Some (fst (the (sl l a j)), snd (the (sl l a j)) - 1))
      else sl l a j)" for a j
  proof (cases "j = i")
    case True
    then have "j \<notin> set is" using Cons.prems(1) by simp
    then show ?thesis using True ps by (cases "a = ?u") (simp_all add: sl' sl1 set_sl_def)
  next
    case False
    then show ?thesis by (simp add: sl' other)
  qed
  then show ?case
    unfolding step using l'(1) frame_trans [OF l1(2) l'(2)] by (intro exI [of _ l']) simp
qed simp

lemma links_delete:
  assumes old: "links l (P @ x # Q)" and dist: "distinct (P @ x # Q)"
    and at: "\<And>i. i < highestLevel l \<Longrightarrow> at_level l P i (us ! i)"
    and lv': "\<And>a. a \<in> set (P @ Q) \<Longrightarrow> lvl l' a = lvl l a" and H: "highestLevel l' = highestLevel l"
    and sl': "\<And>a i. a \<in> set (P @ Q) \<Longrightarrow> i < highestLevel l \<Longrightarrow> sl l' a i =
      (if a = up us i then
        (if fst (the (sl l a i)) = Some x
         then Some (fst (the (sl l x i)), snd (the (sl l x i)) + (snd (the (sl l a i)) - 1))
         else Some (fst (the (sl l a i)), snd (the (sl l a i)) - 1))
       else sl l a i)"
  shows "links l' (P @ Q)"
  unfolding links_iff
proof (intro allI impI, elim conjE)
  fix pre a post i
  assume split: "P @ Q = pre @ a # post" and ia: "i < lvl l' a" and ih': "i < highestLevel l'"
  have ih: "i < highestLevel l" using ih' H by simp
  have aPQ: "a \<in> set (P @ Q)" unfolding split by simp
  have a: "i < lvl l a" using ia lv' [OF aPQ] by simp
  have cong: "link (lvl l') i R = link (lvl l) i R" if "set R \<subseteq> set (P @ Q)" for R
    using that lv' by (intro link_cong) blast
  consider (before) C where "P = pre @ a # C" "post = C @ Q" | (behind) D where "pre = P @ D" "Q = D @ a # post"
    using split by (auto simp: append_eq_append_conv2 Cons_eq_append_conv append_eq_Cons_conv)
  then show "sl l' a i = Some (link (lvl l') i post)"
  proof cases
    case before
    have sub: "set post \<subseteq> set (P @ Q)" using before by auto
    have old_a: "sl l a i = Some (link (lvl l) i (C @ x # Q))"
      using links_split [of l pre a "C @ x # Q" i] old before(1) a ih by simp
    show ?thesis
    proof (cases "a = up us i")
      case True
      have dP: "distinct P" using dist by simp
      have low: "\<forall>c \<in> set C. lvl l c \<le> i"
        using at_level_same(2) [OF at [OF ih] _ dP, of pre C] before(1) True by blast
      have new: "link (lvl l) i post = (fst (link (lvl l) i Q), snd (link (lvl l) i Q) + int (length C))"
        unfolding before(2) by (rule link_append_low [OF low])
      have was: "link (lvl l) i (C @ x # Q) = (fst (link (lvl l) i (x # Q)), snd (link (lvl l) i (x # Q)) + int (length C))"
        by (rule link_append_low [OF low])
      show ?thesis
      proof (cases "i < lvl l x")
        case high: True
        have "sl l x i = Some (link (lvl l) i Q)"
          using links_split [of l P x Q i] old high ih by simp
        then show ?thesis
          using sl' [OF aPQ ih] True old_a was high new cong [OF sub] by simp
      next
        case lowx: False
        have "fst (link (lvl l) i Q) \<noteq> Some x"
        proof
          assume "fst (link (lvl l) i Q) = Some x"
          then obtain s where "link (lvl l) i Q = (Some x, s)" by (metis prod.collapse)
          then have "x \<in> set Q" using link_Some [of "lvl l" i Q x s] by auto
          then show False using dist by simp
        qed
        then show ?thesis
          using sl' [OF aPQ ih] True old_a was lowx new cong [OF sub] by (simp add: split_beta)
      qed
    next
      case False
      then have "\<exists>c \<in> set C. i < lvl l c" using at_level_other [OF at [OF ih] before(1) a] by blast
      then have "link (lvl l) i (C @ x # Q) = link (lvl l) i post"
        unfolding before(2) by (rule link_append_high [of C i "lvl l"])
      then show ?thesis using sl' [OF aPQ ih] False old_a cong [OF sub] by simp
    qed
  next
    case behind
    have "a \<noteq> up us i" using at_level_mem [OF at [OF ih]] dist behind(2) by auto
    moreover have "sl l a i = Some (link (lvl l) i post)"
      using links_split [of l "P @ x # D" a post i] old behind a ih by simp
    moreover have "link (lvl l') i post = link (lvl l) i post" using behind(2) by (intro cong) auto
    ultimately show ?thesis using sl' [OF aPQ ih] by simp
  qed
qed

section \<open>Dropping empty levels\<close>

lemma len_commute:
  "l\<lparr>len := k, nodes := N\<rparr> = l\<lparr>nodes := N, len := k\<rparr>"
  "l\<lparr>len := k, highestLevel := n\<rparr> = l\<lparr>highestLevel := n, len := k\<rparr>"
  by (cases l; simp)+

lemma store_len [simp]:
  "storeNext a i p (l\<lparr>len := k\<rparr>) = map_option (\<lambda>l'. l'\<lparr>len := k\<rparr>) (storeNext a i p l)"
  "storeSpan a i s (l\<lparr>len := k\<rparr>) = map_option (\<lambda>l'. l'\<lparr>len := k\<rparr>) (storeSpan a i s l)"
  "loadNext (l\<lparr>len := k\<rparr>) a i = loadNext l a i"
  by (auto simp: storeNext_def storeSpan_def loadNext_def option.map_comp comp_def len_commute)

lemma lower_levels_len:
  "lower_levels n (l\<lparr>len := k\<rparr>) = map_option (\<lambda>l'. l'\<lparr>len := k\<rparr>) (lower_levels n l)"
proof (induction n arbitrary: l)
  case (Suc n)
  have *: "lower_levels n (m\<lparr>len := k, highestLevel := n\<rparr>) =
      map_option (\<lambda>l'. l'\<lparr>len := k\<rparr>) (lower_levels n (m\<lparr>highestLevel := n\<rparr>))" for m
    using Suc.IH [of "m\<lparr>highestLevel := n\<rparr>"] by (simp only: len_commute)
  show ?case
    by (cases "loadNext l (header l) n"; cases "storeNext (header l) n None l")
      (auto simp: * bind_eq_Some_conv split: bind_splits)
qed simp

lemma lower_skl:
  assumes "skl l ns"
  shows "\<exists>l'. lower_levels (highestLevel l) l = Some l' \<and> skl l' ns \<and> highestLevel l' \<le> highestLevel l \<and>
    header l' = header l \<and> fresh l' = fresh l \<and> len l' = len l \<and> (\<forall>a. data (nodes l' a) = data (nodes l a))"
  using assms
proof (induction "highestLevel l" arbitrary: l rule: less_induct)
  case less
  note D = sklD [OF less.prems]
  obtain h where h: "highestLevel l = Suc h" using D(5) by (cases "highestLevel l") auto
  have hm: "h < maxLevel" using D(6) h by simp
  have hd: "sl l (header l) h = Some (link (lvl l) h ns)"
    using links_split [of l "[]" "header l" ns h] D(4,8) h hm by simp
  show ?case
  proof (cases "0 < h \<and> fst (link (lvl l) h ns) = None")
    case False
    then show ?thesis
      using less.prems hd by (auto simp: h loadNext_def)
  next
    case True
    then obtain s where none: "link (lvl l) h ns = (None, s)" by (metis prod.collapse)
    then have low: "\<forall>a \<in> set ns. lvl l a \<le> h" using link_None [of "lvl l" h ns s] by simp
    have hd': "sl l (header l) h = Some (None, s)" using hd none by simp
    obtain l1 where l1: "storeNext (header l) h None l = Some l1" "frame l l1" "\<forall>b j. sl l1 b j = set_sl l (header l) h (None, s) b j"
      by (rule storeNext_sl [OF hd'])
    have "sl l1 (header l) h = Some (None, s)" by (simp add: l1(3) set_sl_def)
    then obtain l2 where l2: "storeSpan (header l) h 0 l1 = Some l2" "frame l1 l2" "\<forall>b j. sl l2 b j = set_sl l1 (header l) h (None, 0) b j"
      by (rule storeSpan_sl)
    define m where "m = l2\<lparr>highestLevel := h\<rparr>"
    note F = frameD [OF frame_trans [OF l1(2) l2(2)]]
    have nm: "nodes m = nodes l2" "highestLevel m = h" by (simp_all add: m_def)
    have slm: "sl m a i = (if a = header l \<and> i = h then Some (None, 0) else sl l a i)" for a i
      by (simp add: nm l2(3) l1(3) set_sl_def)
    have lvm: "lvl m a = lvl l a" for a by (simp add: nm F)
    have "links m (header l # ns)"
      unfolding links_iff
    proof (intro allI impI, elim conjE)
      fix pre a post i
      assume s: "header l # ns = pre @ a # post" and i: "i < lvl m a" "i < highestLevel m"
      have "sl l a i = Some (link (lvl l) i post)"
        using links_split [of l pre a post i] D(8) s i h lvm [of a] nm(2) by simp
      then show "sl m a i = Some (link (lvl m) i post)" using i(2) nm(2) by (simp add: slm lvm)
    qed
    moreover have "prevs m None ns" using D(9) by (subst prevs_cong [of ns m l]) (simp_all add: nm F)
    moreover have "\<exists>s. sl m (header l) i = Some (None, s)" if "h \<le> i" "i < maxLevel" for i
      using D(12) [of i] that h by (cases "i = h") (simp_all add: slm)
    moreover have "tail m = tail l" "len m = len l" "header m = header l" "fresh m = fresh l"
      by (simp_all add: m_def F)
    ultimately have inv: "skl m ns"
      using D(1-4,10,11) low True hm unfolding skl_def by (simp add: nm F)
    have step: "lower_levels (highestLevel l) l = lower_levels (highestLevel m) m"
      using True hd' l1(1) l2(1) by (simp add: h loadNext_def nm m_def)
    obtain l' where "lower_levels (highestLevel m) m = Some l'" "skl l' ns" "highestLevel l' \<le> highestLevel m"
      "header l' = header m" "fresh l' = fresh m" "len l' = len m" "\<forall>a. data (nodes l' a) = data (nodes m a)"
      using less.hyps [of m] inv h nm(2) by auto
    moreover have "data (nodes m a) = data (nodes l a)" for a
      using frame_trans [OF l1(2) l2(2)] by (simp add: frame_def nm)
    ultimately show ?thesis
      unfolding step using h by (intro exI [of _ l']) (simp add: m_def F)
  qed
qed

section \<open>Deleting a node\<close>

lemma deleteNode_skl:
  assumes inv: "skl l ns" and ns: "ns = A @ x # B" and at: "\<And>i. i < highestLevel l \<Longrightarrow> at_level l (header l # A) i (us ! i)"
  shows "\<exists>l'. deleteNode x us l = Some l' \<and> skl l' (A @ B) \<and> header l' = header l \<and> fresh l' = fresh l \<and>
    highestLevel l' \<le> highestLevel l \<and>
    (\<forall>a. score (nodes l' a) = score (nodes l a) \<and> nvalue (nodes l' a) = nvalue (nodes l a) \<and> lvl l' a = lvl l a)"
proof -
  note D = sklD [OF inv]
  let ?P = "header l # A" and ?H = "highestLevel l"
  have dist: "distinct (?P @ x # B)" using D(1) ns by simp
  have u: "up us i \<in> set ?P" "i < lvl l (up us i)" "up us i \<noteq> x" if "i < ?H" for i
    using at_level_mem [OF at [OF that]] dist by auto
  have def: "\<exists>y. sl l (up us i) i = Some y" if "i < ?H" for i
    using slot_defined [OF D(3) u(2) [OF that]] u(1) [OF that] ns by auto
  have nextx: "sl l x i \<noteq> None" if i: "i < ?H" and p: "fst (the (sl l (up us i) i)) = Some x" for i
  proof -
    obtain B' C where B': "?P = B' @ up us i # C" using at [OF i] by (auto simp: at_level_def)
    have "links l (B' @ up us i # C @ x # B)"
      using D(8) ns B' by (metis append.assoc append_Cons)
    then have "sl l (up us i) i = Some (link (lvl l) i (C @ x # B))"
      using u(2) [OF i] i by (rule links_split)
    then obtain s where "link (lvl l) i (C @ x # B) = (Some x, s)" using p by (metis option.sel prod.collapse)
    then have "i < lvl l x" using link_Some by blast
    then show ?thesis using slot_defined [OF D(3) [of x]] ns by fastforce
  qed
  have pre: "\<forall>i \<in> set [0..<?H]. sl l (up us i) i \<noteq> None \<and> up us i \<noteq> x \<and>
      (fst (the (sl l (up us i) i)) = Some x \<longrightarrow> sl l x i \<noteq> None)"
    using def u(3) nextx by force
  obtain l1 where l1: "unlink [0..<?H] x us l = Some l1" "frame l l1"
    and sl1: "\<And>a j. sl l1 a j = (if j \<in> set [0..<?H] \<and> a = up us j then
       (if fst (the (sl l a j)) = Some x
        then Some (fst (the (sl l x j)), snd (the (sl l x j)) + (snd (the (sl l a j)) - 1))
        else Some (fst (the (sl l a j)), snd (the (sl l a j)) - 1))
      else sl l a j)"
    using unlink_effect [OF distinct_upt pre] by blast
  note F = frameD [OF l1(2)]
  have lk1: "links l1 (?P @ B)"
    by (rule links_delete [of l ?P x B us]) (use D(8) ns dist at in \<open>simp_all add: F sl1\<close>)
  have px: "prev (nodes l x) = (if A = [] then None else Some (last A))"
    using D(9) by (simp add: ns prevs_append)
  have slx: "sl l1 x 0 = Some (case B of [] \<Rightarrow> (None, 0) | b # _ \<Rightarrow> (Some b, 1))"
  proof -
    have "header l # ns = (?P @ [x]) @ B" using ns by simp
    from loadNext_0 [OF inv this] have "sl l x 0 = Some (case B of [] \<Rightarrow> (None, 0) | b # _ \<Rightarrow> (Some b, 1))" by simp
    then show ?thesis using u(3) [of 0] D(5) by (simp add: sl1)
  qed
  define l2 where "l2 = (case B of b # _ \<Rightarrow> set_prev b (prev (nodes l1 x)) l1 | [] \<Rightarrow> l1\<lparr>tail := prev (nodes l1 x)\<rparr>)"
  have n2: "sl l2 a i = sl l1 a i" "lvl l2 a = lvl l1 a" "shaped (nodes l2 a) = shaped (nodes l1 a)"
    "score (nodes l2 a) = score (nodes l1 a)" "nvalue (nodes l2 a) = nvalue (nodes l1 a)" 
    "prev (nodes l2 a) = (if B \<noteq> [] \<and> a = hd B then prev (nodes l x) else prev (nodes l a))" for a i
    by (cases B; simp add: l2_def F)+
  have f2: "header l2 = header l" "fresh l2 = fresh l" "highestLevel l2 = ?H" "len l2 = len l"
    "tail l2 = (if B = [] then prev (nodes l x) else tail l)"
    by (cases B; simp add: l2_def F)+
  let ?m = "l2\<lparr>len := len l2 - 1\<rparr>"
  have pv: "prevs l2 None (A @ B)"
  proof -
    have D9: "prevs l None A" "prevs l (Some x) B" using D(9) by (simp_all add: ns prevs_append)
    have "prevs l2 None A"
      using D9(1) dist by (subst prevs_cong [of A l2 l]) (auto simp: n2 neq_Nil_conv)
    moreover have "prevs l2 (prev (nodes l x)) B"
    proof (cases B)
      case (Cons b B')
      have "prevs l2 (Some b) B'"
        using D9(2) dist Cons by (subst prevs_cong [of B' l2 l]) (auto simp: n2)
      then show ?thesis using Cons by (simp add: n2)
    qed simp
    ultimately show ?thesis using px by (simp add: prevs_append)
  qed
  have "skl ?m (A @ B)"
    unfolding skl_def
  proof (intro conjI)
    show "distinct (header ?m # A @ B)" using dist by (simp add: f2)
    show "\<forall>a \<in> set (header ?m # A @ B). a < fresh ?m \<and> shaped (nodes ?m a)"
      using D(2,3) ns by (auto simp: f2 n2 F)
    show "lvl ?m (header ?m) = maxLevel" using D(4) by (simp add: f2 n2 F)
    show "1 \<le> highestLevel ?m" "highestLevel ?m \<le> maxLevel" using D(5,6) by (simp_all add: f2)
    show "\<forall>a \<in> set (A @ B). lvl ?m a \<le> highestLevel ?m" using D(7) ns by (auto simp: f2 n2 F)
    show "links ?m (header ?m # A @ B)"
    proof (rule links_cong [of _ l1])
      show "links l1 (header ?m # A @ B)" using lk1 by (simp add: f2)
      show "highestLevel ?m = highestLevel l1" by (simp add: f2 F)
    qed (simp_all add: n2)
    show "\<forall>i. highestLevel ?m \<le> i \<and> i < maxLevel \<longrightarrow> (\<exists>s. sl ?m (header ?m) i = Some (None, s))"
      using D(12) by (simp add: f2 n2 sl1)
    show "prevs ?m None (A @ B)" using pv by (subst prevs_cong [of _ _ l2]) simp_all
    show "tail ?m = (if A @ B = [] then None else Some (last (A @ B)))" using D(10) ns px by (simp add: f2)
    show "len ?m = int (length (A @ B))" using D(11) ns by (simp add: f2)
  qed
  from lower_skl [OF this] obtain m' where m': "lower_levels ?H ?m = Some m'" "skl m' (A @ B)" "highestLevel m' \<le> ?H"
    "header m' = header l" "fresh m' = fresh l" "len m' = len l2 - 1" "\<forall>a. data (nodes m' a) = data (nodes ?m a)"
    by (auto simp: f2)
  then obtain l3 where l3: "lower_levels ?H l2 = Some l3" "m' = l3\<lparr>len := len l2 - 1\<rparr>"
    by (auto simp: lower_levels_len)
  have "lower_levels ?H l2 = map_option (\<lambda>l'. l'\<lparr>len := len l2\<rparr>) (lower_levels ?H l2)"
    using lower_levels_len [where n = ?H and l = l2 and k = "len l2"] by simp
  then have "l3 = l3\<lparr>len := len l2\<rparr>" using l3(1) by simp
  then have "len l3 = len (l3\<lparr>len := len l2\<rparr>)" by (rule arg_cong)
  then have "len l3 = len l2" by simp
  then have "deleteNode x us l = Some m'"
  proof (cases B)
    case Nil
    then have "l1\<lparr>tail := prev (nodes l x)\<rparr> = l2" by (simp add: l2_def F)
    then show ?thesis using Nil l1(1) slx l3 \<open>len l3 = len l2\<close> by (simp add: deleteNode_def loadNext_def Let_def F f2)
  next
    case (Cons b B')
    then have "set_prev b (prev (nodes l x)) l1 = l2" by (simp add: l2_def F)
    then show ?thesis using Cons l1(1) slx l3 \<open>len l3 = len l2\<close> by (simp add: deleteNode_def loadNext_def Let_def F f2)
  qed
  moreover have "score (nodes m' a) = score (nodes l a) \<and> nvalue (nodes m' a) = nvalue (nodes l a) \<and> lvl m' a = lvl l a" for a
    using m'(7) by (simp add: data_def n2 F)
  ultimately show ?thesis using m'(2-5) by blast
qed

section \<open>Delete and UpdateScore\<close>

lemma Delete_skl:
  assumes inv: "skl l ns" and ns: "ns = A @ x # B" and cuts: "cuts (\<lambda>_ n. lessThan n sc v) l (header l # A) (x # B)"
    and eq: "equal_node (nodes l x) sc v"
  shows "\<exists>l'. Delete sc v l = Some (Some x, l') \<and> skl l' (A @ B) \<and> header l' = header l \<and>
    (\<forall>a. score (nodes l' a) = score (nodes l a) \<and> nvalue (nodes l' a) = nvalue (nodes l a))"
proof -
  have P: "header l # ns = (header l # A) @ x # B" "header l # A \<noteq> []" using ns by simp_all
  obtain us where us: "search (\<lambda>_ n. lessThan n sc v) l = Some us" 
    "\<And>i. i < highestLevel l \<Longrightarrow> at_level l (header l # A) i (us ! i)"
    using search_at_level [OF inv P(1) cuts P(2)] by blast
  have "fst (us ! 0) = last (header l # A)"
  proof -
    have "header l # A = butlast (header l # A) @ [fst (us ! 0)]"
      using sklD(5) [OF inv] skl_level [OF inv] ns by (intro at_level_0(1) [OF us(2) [of 0]]) auto
    then show ?thesis by (metis last_snoc)
  qed
  then have "loadNext l (fst (us ! 0)) 0 = Some (Some x)"
    using loadNext_0 [OF inv P] by (simp add: loadNext_def)
  then show ?thesis
    using deleteNode_skl [OF inv ns us(2)] us(1) eq by (auto simp: Delete_def)
qed

end
