(* ===== verification/ZSetSpec.thy ===== *)
theory ZSetSpec
  imports ZSet ZSkipDel
begin

text \<open>
  The sorted set refines a list of scored values that is sorted by score and then by value. The relation
  \<open>zs_ok\<close> ties a set to its list: the skip list holds its elements in order and the dictionary maps each
  value to its score.
\<close>

section \<open>The order of the elements\<close>

type_synonym elem = "gofloat \<times> string"

definition zlt :: "elem \<Rightarrow> elem \<Rightarrow> bool" where
  "zlt a b \<longleftrightarrow> flt (fst a) (fst b) \<or> (feq (fst a) (fst b) \<and> snd a < snd b)"

lemma zlt_trans: "zlt a b \<Longrightarrow> zlt b c \<Longrightarrow> zlt a c"
  by (auto simp: zlt_def intro: flt_trans flt_feq_trans feq_trans)

lemma zlt_irrefl [simp]: "\<not> zlt a a"
  by (simp add: zlt_def)

lemma zlt_asym: "zlt a b \<Longrightarrow> \<not> zlt b a"
  by (metis zlt_trans zlt_irrefl)

lemma zlt_linear:
  "\<not> is_nan (fst a) \<Longrightarrow> \<not> is_nan (fst b) \<Longrightarrow> snd a \<noteq> snd b \<Longrightarrow> zlt a b \<or> zlt b a"
  using flt_linear [of "fst a" "fst b"] by (auto simp: zlt_def dest: feq_sym)

definition ins :: "elem \<Rightarrow> elem list \<Rightarrow> elem list" where
  "ins e es = takeWhile (\<lambda>x. zlt x e) es @ e # dropWhile (\<lambda>x. zlt x e) es"

definition without :: "string \<Rightarrow> elem list \<Rightarrow> elem list" where
  "without v es = filter (\<lambda>e. snd e \<noteq> v) es"

text \<open>The well-formed lists of elements.\<close>

definition es_ok :: "elem list \<Rightarrow> bool" where
  "es_ok es \<longleftrightarrow> sorted_wrt zlt es \<and> (\<forall>e \<in> set es. \<not> is_nan (fst e)) \<and> distinct (map snd es)"

lemma sorted_dropWhile:
  assumes "sorted_wrt R es" and "\<And>a b. R a b \<Longrightarrow> p b \<Longrightarrow> p a" and "b \<in> set (dropWhile p es)"
  shows "\<not> p b"
  using assms by (induction es) (auto split: if_splits)

lemma ins_ok:
  assumes "es_ok es" and "\<not> is_nan sc" and "v \<notin> snd ` set es"
  shows "es_ok (ins (sc, v) es)"
proof -
  define A where "A = takeWhile (\<lambda>x. zlt x (sc, v)) es"
  define B where "B = dropWhile (\<lambda>x. zlt x (sc, v)) es"
  have es: "es = A @ B" by (simp add: A_def B_def)
  have a: "zlt a (sc, v)" if "a \<in> set A" for a
    using that unfolding A_def by (rule set_takeWhileD [THEN conjunct2])
  have b: "zlt (sc, v) b" if "b \<in> set B" for b
  proof -
    have "\<not> zlt b (sc, v)"
      using assms(1)
      by (intro sorted_dropWhile [where R = zlt and p = "\<lambda>x. zlt x (sc, v)", OF _ _ that [unfolded B_def]])
        (auto simp: es_ok_def intro: zlt_trans)
    moreover have "b \<in> set es" using that es by simp
    ultimately show ?thesis
      using assms zlt_linear [of b "(sc, v)"] by (force simp: es_ok_def)
  qed
  have "ins (sc, v) es = A @ (sc, v) # B" by (simp add: ins_def A_def B_def)
  then show ?thesis
    using assms a b unfolding es es_ok_def by (auto simp: sorted_wrt_append)
qed

lemma without_ok: "es_ok es \<Longrightarrow> es_ok (without v es)"
  by (auto simp: es_ok_def without_def sorted_wrt_filter distinct_map_filter)

lemma without_split:
  assumes "es_ok (E1 @ (s, v) # E2)"
  shows "without v (E1 @ (s, v) # E2) = E1 @ E2"
proof -
  have "v \<notin> snd ` set E1" "v \<notin> snd ` set E2" using assms by (auto simp: es_ok_def)
  then have "filter (\<lambda>e. snd e \<noteq> v) E1 = E1" "filter (\<lambda>e. snd e \<noteq> v) E2 = E2"
    by (metis (mono_tags, lifting) filter_True image_eqI)+
  then show ?thesis by (simp add: without_def)
qed

lemma es_ok_append: "es_ok (E1 @ E2) \<Longrightarrow> es_ok E1 \<and> es_ok E2"
  by (auto simp: es_ok_def sorted_wrt_append)

section \<open>Sets and their lists\<close>

definition elem_of :: "float64List \<Rightarrow> addr \<Rightarrow> elem" where
  "elem_of l a = (score (nodes l a), nvalue (nodes l a))"

definition elems :: "float64List \<Rightarrow> addr list \<Rightarrow> elem list" where
  "elems l ns = map (elem_of l) ns"

definition head_elem :: "float64List \<Rightarrow> elem" where
  "head_elem l = elem_of l (header l)"

definition zs_ok :: "Float64Set \<Rightarrow> elem list \<Rightarrow> bool" where
  "zs_ok z es \<longleftrightarrow> es_ok es \<and> dict z = map_of (map prod.swap es) \<and> (\<exists>ns. skl (zlist z) ns \<and> es = elems (zlist z) ns) \<and>
     head_elem (zlist z) = (header_score, ''__HEADER'')"

lemma lessThan_zlt: "lessThan (nodes l a) sc v \<longleftrightarrow> zlt (elem_of l a) (sc, v)"
  by (simp add: lessThan_def zlt_def elem_of_def)

lemma cuts_nodes:
  assumes "\<And>a. a \<in> set A \<Longrightarrow> p (nodes l a)" and "\<And>b. b \<in> set B \<Longrightarrow> \<not> p (nodes l b)"
  shows "cuts (\<lambda>_. p) l (h # A) B"
  using assms by (auto simp: cuts_def Cons_eq_append_conv)

lemma cuts_rank:
  assumes "int (length A) < k" and "B = [] \<or> k \<le> int (length A) + 1"
  shows "cuts (\<lambda>r _. r < k) l (h # A) B"
  using assms by (auto simp: cuts_def Cons_eq_append_conv)

lemma dict_iff:
  assumes "es_ok es"
  shows "map_of (map prod.swap es) v = Some s \<longleftrightarrow> (s, v) \<in> set es"
proof -
  have "distinct (map fst (map prod.swap es))" using assms by (simp add: es_ok_def comp_def)
  then have "map_of (map prod.swap es) v = Some s \<longleftrightarrow> (v, s) \<in> set (map prod.swap es)"
    by (rule map_of_eq_Some_iff)
  then show ?thesis by (force simp: prod.swap_def)
qed

lemma dict_None: "map_of (map prod.swap es) v = None \<longleftrightarrow> v \<notin> snd ` set es"
  by (auto simp: map_of_eq_None_iff image_image)

lemma dict_ins:
  assumes "es_ok es" and "v \<notin> snd ` set es"
  shows "map_of (map prod.swap (ins (sc, v) es)) = (map_of (map prod.swap es))(v \<mapsto> sc)"
proof -
  let ?A = "takeWhile (\<lambda>x. zlt x (sc, v)) es" and ?B = "dropWhile (\<lambda>x. zlt x (sc, v)) es"
  have "map_of (map prod.swap ?A) v = None"
    using assms(2) set_takeWhileD [of _ "\<lambda>x. zlt x (sc, v)" es] unfolding dict_None by blast
  moreover have "map_of (map prod.swap es) = map_of (map prod.swap ?B) ++ map_of (map prod.swap ?A)"
    by (metis map_append map_of_append takeWhile_dropWhile_id)
  ultimately show ?thesis
    by (auto simp: ins_def map_add_def fun_eq_iff split: option.splits)
qed

lemma dict_without: "map_of (map prod.swap (without v es)) = (map_of (map prod.swap es))(v := None)"
  by (induction es) (auto simp: without_def)

section \<open>Insertion, update and removal\<close>

lemma elems_cong:
  "(\<And>a. a \<in> set ns \<Longrightarrow> score (nodes l' a) = score (nodes l a) \<and> nvalue (nodes l' a) = nvalue (nodes l a))
   \<Longrightarrow> elems l' ns = elems l ns"
  by (simp add: elems_def elem_of_def)

lemma Insert_elems:
  assumes "skl l ns" and "es_ok (elems l ns)" and "\<not> is_nan sc" and "randomLevel draws = Some lv"
  shows "\<exists>l' ns'. Insert draws sc v l = Some (fresh l, l') \<and> skl l' ns' \<and> elems l' ns' = ins (sc, v) (elems l ns)
    \<and> head_elem l' = head_elem l"
proof -
  let ?p = "\<lambda>n. lessThan n sc v"
  let ?A = "takeWhile (\<lambda>a. ?p (nodes l a)) ns" and ?B = "dropWhile (\<lambda>a. ?p (nodes l a)) ns"
  have "\<not> ?p (nodes l b)" if "b \<in> set ?B" for b
  proof (rule sorted_dropWhile [where R = "\<lambda>a b. zlt (elem_of l a) (elem_of l b)" and p = "\<lambda>a. ?p (nodes l a)", OF _ _ that])
    show "sorted_wrt (\<lambda>a b. zlt (elem_of l a) (elem_of l b)) ns"
      using assms(2) by (simp add: es_ok_def elems_def sorted_wrt_map)
  qed (auto simp: lessThan_zlt intro: zlt_trans)
  moreover have "?p (nodes l a)" if "a \<in> set ?A" for a
    using that by (rule set_takeWhileD [THEN conjunct2])
  ultimately have cuts: "cuts (\<lambda>_. ?p) l (header l # ?A) ?B"
    by (intro cuts_nodes [where p = ?p and A = ?A and B = ?B])
  have split: "ns = ?A @ ?B" by simp
  from Insert_skl [OF assms(1) split cuts assms(4)] obtain l' where
    I: "Insert draws sc v l = Some (fresh l, l') \<and> skl l' (?A @ fresh l # ?B) \<and> header l' = header l \<and>
      score (nodes l' (fresh l)) = sc \<and> nvalue (nodes l' (fresh l)) = v \<and>
      (\<forall>a. a \<noteq> fresh l \<longrightarrow> score (nodes l' a) = score (nodes l a) \<and> nvalue (nodes l' a) = nvalue (nodes l a))"
    by (elim exE)
  note l' = I [THEN conjunct1] I [THEN conjunct2, THEN conjunct1]
  have fresh: "a \<noteq> fresh l" if "a \<in> set ns" for a using sklD(2) [OF assms(1), of a] that by auto
  have "elems l' ?A = elems l ?A" "elems l' ?B = elems l ?B"
    using fresh I set_takeWhileD [of _ "\<lambda>a. ?p (nodes l a)" ns] set_dropWhileD [of _ "\<lambda>a. ?p (nodes l a)" ns]
    by (intro elems_cong; blast)+
  then have "elems l' (?A @ fresh l # ?B) = elems l ?A @ (sc, v) # elems l ?B"
    using I by (simp add: elems_def elem_of_def)
  also have "\<dots> = ins (sc, v) (elems l ns)"
    by (simp add: ins_def elems_def takeWhile_map dropWhile_map comp_def lessThan_zlt)
  finally have el: "elems l' (?A @ fresh l # ?B) = ins (sc, v) (elems l ns)" .
  have "header l \<noteq> fresh l" using sklD(2) [OF assms(1), of "header l"] by auto
  then have "head_elem l' = head_elem l" using I by (simp add: head_elem_def elem_of_def)
  then show ?thesis using l' el by blast
qed

lemma elem_split:
  assumes "es_ok (elems l ns)" and "(s, v) \<in> set (elems l ns)"
  obtains A x B where "ns = A @ x # B" and "elem_of l x = (s, v)"
    and "\<And>a. a \<in> set A \<Longrightarrow> zlt (elem_of l a) (s, v)" and "\<And>b. b \<in> set B \<Longrightarrow> zlt (s, v) (elem_of l b)"
proof -
  obtain x where x: "x \<in> set ns" "elem_of l x = (s, v)" using assms(2) by (auto simp: elems_def)
  then obtain A B where ns: "ns = A @ x # B" by (metis split_list)
  have "sorted_wrt (\<lambda>a b. zlt (elem_of l a) (elem_of l b)) (A @ x # B)"
    using assms(1) by (simp only: es_ok_def elems_def sorted_wrt_map ns)
  then have "\<forall>a \<in> set A. zlt (elem_of l a) (s, v)" "\<forall>b \<in> set B. zlt (s, v) (elem_of l b)"
    by (simp_all add: sorted_wrt_append x(2))
  then show ?thesis using ns x(2) by (intro that) auto
qed

lemma elem_cuts:
  assumes "elem_of l x = (s, v)"
    and "\<And>a. a \<in> set A \<Longrightarrow> zlt (elem_of l a) (s, v)" and "\<And>b. b \<in> set B \<Longrightarrow> zlt (s, v) (elem_of l b)"
  shows "cuts (\<lambda>_ n. lessThan n s v) l (header l # A) (x # B)"
proof (rule cuts_nodes)
  fix b assume "b \<in> set (x # B)"
  then show "\<not> lessThan (nodes l b) s v"
    using assms(1) assms(3) [of b] zlt_asym [of "(s, v)" "elem_of l b"] by (auto simp: lessThan_zlt)
qed (use assms(2) in \<open>simp add: lessThan_zlt\<close>)

lemma equal_elem: "elem_of l x = (s, v) \<Longrightarrow> \<not> is_nan s \<Longrightarrow> equal_node (nodes l x) s v"
  by (simp add: elem_of_def equal_node_def feq_refl)

lemma elems_without:
  assumes "es_ok (elems l ns)" and "ns = A @ x # B" and "elem_of l x = (s, v)"
  shows "elems l (A @ B) = without v (elems l ns)"
  using without_split [of "elems l A" s v "elems l B"] assms by (simp add: elems_def)

lemma Delete_elems:
  assumes "skl l ns" and "es_ok (elems l ns)" and "(s, v) \<in> set (elems l ns)"
  shows "\<exists>x l' ns'. Delete s v l = Some (Some x, l') \<and> skl l' ns' \<and> elems l' ns' = without v (elems l ns)
    \<and> head_elem l' = head_elem l"
proof -
  obtain A x B where x: "ns = A @ x # B" "elem_of l x = (s, v)"
    and ab: "\<And>a. a \<in> set A \<Longrightarrow> zlt (elem_of l a) (s, v)" "\<And>b. b \<in> set B \<Longrightarrow> zlt (s, v) (elem_of l b)"
    using elem_split [OF assms(2,3)] by metis
  have "\<not> is_nan s" using assms(2,3) by (auto simp: es_ok_def)
  then have eq: "equal_node (nodes l x) s v" using x(2) by (intro equal_elem)
  have cuts: "cuts (\<lambda>_ n. lessThan n s v) l (header l # A) (x # B)" using x(2) ab by (intro elem_cuts)
  from Delete_skl [OF assms(1) x(1) cuts eq] obtain l' where l': "Delete s v l = Some (Some x, l')" "skl l' (A @ B)"
    "header l' = header l" "\<forall>a. score (nodes l' a) = score (nodes l a) \<and> nvalue (nodes l' a) = nvalue (nodes l a)"
    by blast
  have "elems l' (A @ B) = without v (elems l ns)"
    using elems_without [OF assms(2) x] l'(4) elems_cong [of "A @ B" l' l] by simp
  moreover have "head_elem l' = head_elem l" using l'(3,4) by (simp add: head_elem_def elem_of_def)
  ultimately show ?thesis using l'(1,2) by blast
qed

text \<open>The node found by a search, its neighbours and its removal.\<close>

abbreviation first :: "addr list \<Rightarrow> addr option" where
  "first ns \<equiv> (case ns of [] \<Rightarrow> None | a # _ \<Rightarrow> Some a)"

lemma search_cut:
  assumes inv: "skl l (A @ B)" and cuts: "cuts go l (header l # A) B"
  obtains us where "search go l = Some us" and "fst (us ! 0) = last (header l # A)"
    and "loadNext l (fst (us ! 0)) 0 = Some (first B)" and "snd (us ! 0) = int (length A)"
    and "\<And>i. i < highestLevel l \<Longrightarrow> at_level l (header l # A) i (us ! i)"
proof -
  have P: "header l # A @ B = (header l # A) @ B" "header l # A \<noteq> []" by simp_all
  obtain us where us: "search go l = Some us"
    "\<And>i. i < highestLevel l \<Longrightarrow> at_level l (header l # A) i (us ! i)"
    using search_at_level [OF inv P(1) cuts P(2)] by blast
  have lv: "\<forall>a \<in> set (header l # A). 0 < lvl l a" using skl_level [OF inv] by auto
  have at0: "at_level l (header l # A) 0 (us ! 0)" using us(2) [of 0] sklD(5) [OF inv] by simp
  have f: "fst (us ! 0) = last (header l # A)" using at_level_0(1) [OF at0 lv] by (metis last_snoc)
  then have "loadNext l (fst (us ! 0)) 0 = Some (first B)"
    using loadNext_0 [OF inv P] by (cases B) (simp_all add: loadNext_def)
  moreover have "snd (us ! 0) = int (length A)" using at_level_0(2) [OF at0 lv] by simp
  ultimately show ?thesis using us f that by blast
qed

lemma search_elem:
  assumes inv: "skl l ns" and ns: "ns = A @ x # B" and cuts: "cuts go l (header l # A) (x # B)"
  obtains us where "search go l = Some us" and "loadNext l (fst (us ! 0)) 0 = Some (Some x)"
    and "snd (us ! 0) = int (length A)"
    and "\<And>i. i < highestLevel l \<Longrightarrow> at_level l (header l # A) i (us ! i)"
proof -
  obtain us where us: "search go l = Some us" "loadNext l (fst (us ! 0)) 0 = Some (first (x # B))"
    "snd (us ! 0) = int (length A)" "\<And>i. i < highestLevel l \<Longrightarrow> at_level l (header l # A) i (us ! i)"
    using search_cut [OF inv [unfolded ns] cuts] by metis
  from us(2) have "loadNext l (fst (us ! 0)) 0 = Some (Some x)" by simp
  from that [OF us(1) this us(3,4)] show ?thesis .
qed

lemma neighbours:
  assumes "skl l (A @ x # B)"
  shows "prev (nodes l x) = (if A = [] then None else Some (last A))"
    and "loadNext l x 0 = Some (first B)"
proof -
  show "prev (nodes l x) = (if A = [] then None else Some (last A))"
    using sklD(9) [OF assms] by (simp add: prevs_append)
  have "header l # A @ x # B = (header l # A @ [x]) @ B" by simp
  from loadNext_0 [OF assms this]
  show "loadNext l x 0 = Some (first B)"
    by (cases B) (simp_all add: loadNext_def)
qed

lemma skl_set_score:
  assumes "skl l ns"
  shows "skl (l\<lparr>nodes := (nodes l)(x := (nodes l x)\<lparr>score := s\<rparr>)\<rparr>) ns" (is "skl ?l ns")
proof -
  have n: "sl ?l a i = sl l a i" "lvl ?l a = lvl l a" "shaped (nodes ?l a) = shaped (nodes l a)"
    "prev (nodes ?l a) = prev (nodes l a)" for a i
    by (simp_all add: slot_def shaped_def split: option.split)
  have "links ?l (header l # ns)"
    by (rule links_cong [of _ l]) (use sklD(8) [OF assms] in \<open>simp_all only: n\<close>, simp_all)
  moreover have "prevs ?l None ns" using sklD(9) [OF assms] by (subst prevs_cong [of ns ?l l]) (simp_all only: n)
  ultimately show ?thesis
    using sklD [OF assms] unfolding skl_def n by simp
qed

lemma takeWhile_split:
  assumes "\<And>a. a \<in> set A \<Longrightarrow> p a" and "B = [] \<or> \<not> p (hd B)"
  shows "takeWhile p (A @ B) = A" and "dropWhile p (A @ B) = B"
  using assms by (cases B; simp add: takeWhile_append2 dropWhile_append2)+

lemma UpdateScore_elems:
  assumes inv: "skl l ns" and ok: "es_ok (elems l ns)" and mem: "(s, v) \<in> set (elems l ns)"
    and nan: "\<not> is_nan sc" and lv: "randomLevel draws = Some lv"
  shows "\<exists>x l' ns'. UpdateScore draws s v sc l = Some (x, l') \<and> skl l' ns' \<and>
    elems l' ns' = ins (sc, v) (without v (elems l ns)) \<and> head_elem l' = head_elem l"
proof -
  obtain A x B where x: "ns = A @ x # B" "elem_of l x = (s, v)"
    and ab: "\<And>a. a \<in> set A \<Longrightarrow> zlt (elem_of l a) (s, v)" "\<And>b. b \<in> set B \<Longrightarrow> zlt (s, v) (elem_of l b)"
    using elem_split [OF ok mem] by metis
  have cuts: "cuts (\<lambda>_ n. lessThan n s v) l (header l # A) (x # B)" using x(2) ab by (intro elem_cuts)
  obtain us where us: "search (\<lambda>_ n. lessThan n s v) l = Some us" "loadNext l (fst (us ! 0)) 0 = Some (Some x)"
    "\<And>i. i < highestLevel l \<Longrightarrow> at_level l (header l # A) i (us ! i)"
    using search_elem [OF inv x(1) cuts] by metis
  note nb = neighbours [OF inv [unfolded x(1)]]
  have val: "nvalue (nodes l x) = v" using x(2) by (simp add: elem_of_def)
  have wo: "elems l (A @ B) = without v (elems l ns)" using elems_without [OF ok x] .
  have ok': "es_ok (elems l (A @ B))" using without_ok [OF ok] wo by simp
  let ?fits = "(A = [] \<or> flt (score (nodes l (last A))) sc) \<and> (B = [] \<or> flt sc (score (nodes l (hd B))))"
  have upd: "UpdateScore draws s v sc l =
      (if ?fits then Some (x, l\<lparr>nodes := (nodes l)(x := (nodes l x)\<lparr>score := sc\<rparr>)\<rparr>)
       else do { l' \<leftarrow> deleteNode x us l; Insert draws sc v l' })"
    unfolding UpdateScore_def us(1)
    using us(2) nb val by (cases B) (auto simp: neq_Nil_conv split: option.splits)
  show ?thesis
  proof (cases ?fits)
    case True
    let ?l = "l\<lparr>nodes := (nodes l)(x := (nodes l x)\<lparr>score := sc\<rparr>)\<rparr>"
    have dist: "x \<notin> set A" "x \<notin> set B" using sklD(1) [OF inv] x(1) by auto
    have "elems ?l ns = elems l A @ (sc, v) # elems l B"
      using dist val by (auto simp: x(1) elems_def elem_of_def)
    moreover have "takeWhile (\<lambda>e. zlt e (sc, v)) (elems l A @ elems l B) = elems l A"
      "dropWhile (\<lambda>e. zlt e (sc, v)) (elems l A @ elems l B) = elems l B"
    proof -
      have a: "zlt e (sc, v)" if "e \<in> set (elems l A)" for e
      proof -
        have ne: "A \<noteq> []" using that by (auto simp: elems_def)
        then have "elems l A = elems l (butlast A) @ [elem_of l (last A)]"
          by (metis append_butlast_last_id elems_def list.simps(8,9) map_append)
        then have "e = elem_of l (last A) \<or> zlt e (elem_of l (last A))"
          using ok' that by (auto simp: es_ok_def elems_def sorted_wrt_append)
        moreover have "flt (fst (elem_of l (last A))) sc" using True ne by (simp add: elem_of_def)
        ultimately have "flt (fst e) sc" by (auto simp: zlt_def intro: flt_trans flt_feq_trans)
        then show ?thesis by (simp add: zlt_def)
      qed
      have b: "elems l B = [] \<or> \<not> zlt (hd (elems l B)) (sc, v)"
        using True flt_not_feq by (cases B) (auto simp: elems_def elem_of_def zlt_def)
      show "takeWhile (\<lambda>e. zlt e (sc, v)) (elems l A @ elems l B) = elems l A"
        "dropWhile (\<lambda>e. zlt e (sc, v)) (elems l A @ elems l B) = elems l B"
        using takeWhile_split [of "elems l A" "\<lambda>e. zlt e (sc, v)" "elems l B"] a b by blast+
    qed
    ultimately have "elems ?l ns = ins (sc, v) (without v (elems l ns))"
      unfolding wo [symmetric] by (simp add: ins_def elems_def)
    moreover have "head_elem ?l = head_elem l"
      using sklD(1) [OF inv] x(1) by (auto simp: head_elem_def elem_of_def)
    ultimately show ?thesis using True upd skl_set_score [OF inv] by auto
  next
    case False
    from deleteNode_skl [OF inv x(1) us(3)] obtain l1 where l1: "deleteNode x us l = Some l1" "skl l1 (A @ B)"
      "header l1 = header l" "\<forall>a. score (nodes l1 a) = score (nodes l a) \<and> nvalue (nodes l1 a) = nvalue (nodes l a) \<and> lvl l1 a = lvl l a"
      by blast
    have "elems l1 (A @ B) = elems l (A @ B)" using l1(4) by (intro elems_cong) simp
    moreover have "head_elem l1 = head_elem l" using l1(3,4) by (simp add: head_elem_def elem_of_def)
    ultimately obtain l' ns' where "Insert draws sc v l1 = Some (fresh l1, l')" "skl l' ns'"
      "elems l' ns' = ins (sc, v) (elems l (A @ B))" "head_elem l' = head_elem l"
      using Insert_elems [OF l1(2) _ nan lv, of v] ok' by metis
    then show ?thesis using False upd l1(1) wo by auto
  qed
qed

section \<open>The operations that change a set\<close>

lemma zs_okE:
  assumes "zs_ok z es"
  obtains ns where "skl (zlist z) ns" and "es = elems (zlist z) ns" and "es_ok (elems (zlist z) ns)"
    and "dict z = map_of (map prod.swap es)" and "head_elem (zlist z) = (header_score, ''__HEADER'')"
  using assms by (auto simp: zs_ok_def)

lemma Add_zs_ok:
  assumes z: "zs_ok z es" and lv: "randomLevel draws \<noteq> None"
  shows "\<exists>z'. Add draws sc v z = Some (\<not> is_nan sc \<and> v \<notin> snd ` set es, z') \<and>
    zs_ok z' (if is_nan sc \<or> (\<exists>s. (s, v) \<in> set es \<and> feq sc s) then es else ins (sc, v) (without v es))"
proof -
  obtain ns where ns: "skl (zlist z) ns" "es = elems (zlist z) ns" "es_ok (elems (zlist z) ns)"
    "dict z = map_of (map prod.swap es)" "head_elem (zlist z) = (header_score, ''__HEADER'')"
    using zs_okE [OF z] by metis
  obtain k where k: "randomLevel draws = Some k" using lv by blast
  have ok: "es_ok es" using ns by simp
  show ?thesis
  proof (cases "is_nan sc")
    case True
    then show ?thesis using z by (simp add: Add_def)
  next
    case nan: False
    show ?thesis
    proof (cases "v \<in> snd ` set es")
      case False
      then have wo: "without v es = es" by (metis (mono_tags, lifting) filter_True image_eqI without_def)
      obtain l' ns' where l': "Insert draws sc v (zlist z) = Some (fresh (zlist z), l')" "skl l' ns'"
        "elems l' ns' = ins (sc, v) es" "head_elem l' = head_elem (zlist z)"
        using Insert_elems [OF ns(1,3) nan k, of v] ns(2) by metis
      have "dict z v = None" using False ns(4) dict_None by metis
      then have "Add draws sc v z = Some (True, z\<lparr>dict := (dict z)(v \<mapsto> sc), zlist := l'\<rparr>)"
        using nan l'(1) by (simp add: Add_def)
      moreover have "zs_ok (z\<lparr>dict := (dict z)(v \<mapsto> sc), zlist := l'\<rparr>) (ins (sc, v) es)"
        unfolding zs_ok_def using ins_ok [OF ok nan False] dict_ins [OF ok False, of sc] ns(4,5) l'(2-4) by auto
      moreover have "\<not> (\<exists>s. (s, v) \<in> set es \<and> feq sc s)" using False by force
      ultimately show ?thesis using nan wo False by auto
    next
      case True
      then obtain s where s: "(s, v) \<in> set es" by auto
      have d: "dict z v = Some s" using dict_iff [OF ok] s ns(4) by simp
      have uniq: "(\<exists>s. (s, v) \<in> set es \<and> feq sc s) \<longleftrightarrow> feq sc s"
        using s dict_iff [OF ok, of v] by (metis option.inject)
      show ?thesis
      proof (cases "feq sc s")
        case True
        then show ?thesis using d nan uniq z \<open>v \<in> snd ` set es\<close> by (auto simp: Add_def)
      next
        case False
        obtain x l' ns' where l': "UpdateScore draws s v sc (zlist z) = Some (x, l')" "skl l' ns'"
          "elems l' ns' = ins (sc, v) (without v es)" "head_elem l' = head_elem (zlist z)"
          using UpdateScore_elems [OF ns(1,3) _ nan k, of s v] s ns(2) by metis
        have nv: "v \<notin> snd ` set (without v es)" by (auto simp: without_def)
        have "Add draws sc v z = Some (False, z\<lparr>dict := (dict z)(v \<mapsto> sc), zlist := l'\<rparr>)"
          using nan d False l'(1) by (simp add: Add_def)
        moreover have "zs_ok (z\<lparr>dict := (dict z)(v \<mapsto> sc), zlist := l'\<rparr>) (ins (sc, v) (without v es))"
          unfolding zs_ok_def
          using ins_ok [OF without_ok [OF ok] nan nv] dict_ins [OF without_ok [OF ok] nv, of sc] dict_without [of v es]
            ns(4,5) l'(2-4) by auto
        ultimately show ?thesis using nan uniq False \<open>v \<in> snd ` set es\<close> by auto
      qed
    qed
  qed
qed

lemma Remove_zs_ok:
  assumes z: "zs_ok z es"
  shows "\<exists>r z'. Remove v z = Some (r, z') \<and> zs_ok z' (without v es) \<and>
    (case r of (s, found) \<Rightarrow> found = (v \<in> snd ` set es) \<and> (found \<longrightarrow> (s, v) \<in> set es))"
proof -
  obtain ns where ns: "skl (zlist z) ns" "es = elems (zlist z) ns" "es_ok (elems (zlist z) ns)"
    "dict z = map_of (map prod.swap es)" "head_elem (zlist z) = (header_score, ''__HEADER'')"
    using zs_okE [OF z] by metis
  have ok: "es_ok es" using ns by simp
  show ?thesis
  proof (cases "v \<in> snd ` set es")
    case False
    then have "without v es = es" by (metis (mono_tags, lifting) filter_True image_eqI without_def)
    moreover have "dict z v = None" using False ns(4) dict_None by metis
    ultimately show ?thesis using False z by (simp add: Remove_def)
  next
    case True
    then obtain s where s: "(s, v) \<in> set es" by auto
    have d: "dict z v = Some s" using dict_iff [OF ok] s ns(4) by simp
    obtain x l' ns' where l': "Delete s v (zlist z) = Some (Some x, l')" "skl l' ns'" "elems l' ns' = without v es"
      "head_elem l' = head_elem (zlist z)"
      using Delete_elems [OF ns(1,3), of s v] s ns(2) by metis
    have "Remove v z = Some ((s, True), z\<lparr>dict := (dict z)(v := None), zlist := l'\<rparr>)"
      using d l'(1) by (simp add: Remove_def)
    moreover have "zs_ok (z\<lparr>dict := (dict z)(v := None), zlist := l'\<rparr>) (without v es)"
      unfolding zs_ok_def using without_ok [OF ok] dict_without [of v es] ns(4,5) l'(2-4) by auto
    ultimately show ?thesis using s True by auto
  qed
qed

end
