(* ===== verification/ZSetQuery.thy ===== *)
theory ZSetQuery
  imports ZSetSpec
begin

text \<open>Ranks and ranges of the sorted set, and the removal of ranges.\<close>

section \<open>Ranks\<close>

lemma at_level_cases:
  assumes "at_level l (P @ [x]) i u" and "distinct (P @ [x])"
  shows "(fst u = x \<and> snd u = int (length P)) \<or> fst u \<in> set P"
proof (cases "fst u = x")
  case True
  then show ?thesis using at_level_same(1) [OF assms(1) _ assms(2), of P "[]"] by simp
next
  case False
  then show ?thesis using at_level_mem [OF assms(1)] by auto
qed

lemma rank_loop_elem:
  assumes inv: "skl l (A @ x # B)" and cuts: "cuts (\<lambda>_ n. lessEqual n s v) l (header l # A @ [x]) B"
    and eq: "equal_node (nodes l x) s v" and ne: "\<And>a. a \<in> set (header l # A) \<Longrightarrow> \<not> equal_node (nodes l a) s v"
    and n: "0 < n" "n \<le> highestLevel l" and split: "header l # A @ [x] = C @ y # D" "n \<le> lvl l y"
  shows "rank_loop s v l n y (int (length C)) = Some (int (length A) + 1)"
  using n split
proof (induction n arbitrary: C y D)
  case (Suc n)
  let ?P = "header l # A @ [x]"
  have lk: "links l (?P @ B)" using sklD(8) [OF inv] by simp
  have nh: "n < lvl l y" "n < highestLevel l" using Suc.prems by simp_all
  obtain u where u: "walk (\<lambda>_ n. lessEqual n s v) l n y (int (length C)) = Some u" "at_level l ?P n u"
    using walk_at_level [OF lk cuts Suc.prems(3) nh] by blast
  have dist: "distinct ((header l # A) @ [x])" using sklD(1) [OF inv] by simp
  have "(fst u = x \<and> snd u = int (length A) + 1) \<or> fst u \<in> set (header l # A)"
    using at_level_cases [of l "header l # A" x n u] u(2) dist by auto
  then show ?case
  proof
    assume "fst u = x \<and> snd u = int (length A) + 1"
    then show ?thesis using u(1) eq by (cases u) simp
  next
    assume f: "fst u \<in> set (header l # A)"
    then have step: "rank_loop s v l (Suc n) y (int (length C)) = rank_loop s v l n (fst u) (snd u)"
      using u(1) ne [OF f] by (cases u) simp
    obtain B' C' where B': "?P = B' @ fst u # C'" "snd u = int (length B')" "n < lvl l (fst u)"
      "\<forall>c \<in> set C'. lvl l c \<le> n"
      using u(2) by (auto simp: at_level_def)
    have "0 < n"
    proof (rule ccontr)
      assume "\<not> 0 < n"
      then have "fst u = last ?P"
        using at_level_0(1) [of l ?P u] u(2) skl_level [OF inv] by (metis Un_iff append_Cons append_assoc gr0I last_snoc
            list.set_intros set_append set_ConsD append.simps)
      then show False using f dist by auto
    qed
    then show ?thesis using step Suc.IH [OF _ _ B'(1)] Suc.prems(2) B'(2,3) by simp
  qed
qed simp

lemma lessEqual_elem: "lessEqual (nodes l a) s v \<longleftrightarrow> zlt (elem_of l a) (s, v) \<or> (feq (score (nodes l a)) s \<and> nvalue (nodes l a) = v)"
  by (auto simp: lessEqual_def zlt_def elem_of_def dest: flt_not_feq)

lemma list_Rank_elem:
  assumes inv: "skl l ns" and ok: "es_ok (elems l ns)" and ns: "ns = A @ x # B" and x: "elem_of l x = (s, v)"
    and hd: "v \<noteq> snd (head_elem l) \<or> \<not> feq (fst (head_elem l)) s"
  shows "list_Rank s v l = Some (int (length A) + 1)"
proof -
  have sorted: "sorted_wrt (\<lambda>a b. zlt (elem_of l a) (elem_of l b)) (A @ x # B)"
    using ok by (simp only: es_ok_def elems_def sorted_wrt_map ns)
  have a: "zlt (elem_of l a) (s, v)" if "a \<in> set A" for a
    using sorted that by (simp add: sorted_wrt_append x)
  have b: "zlt (s, v) (elem_of l b)" if "b \<in> set B" for b
    using sorted that by (simp add: sorted_wrt_append x)
  have vals: "nvalue (nodes l a) \<noteq> v" if "a \<in> set A" for a
    using ok that x by (auto simp: es_ok_def elems_def ns elem_of_def image_iff)
  have nan: "\<not> is_nan s" using ok x by (auto simp: es_ok_def elems_def ns)
  have eq: "equal_node (nodes l x) s v" using x nan by (rule equal_elem)
  have cuts: "cuts (\<lambda>_ n. lessEqual n s v) l (header l # A @ [x]) B"
  proof (rule cuts_nodes)
    fix c assume "c \<in> set (A @ [x])"
    then show "lessEqual (nodes l c) s v" using a eq by (auto simp: lessEqual_elem equal_node_def)
  next
    fix c assume "c \<in> set B"
    then show "\<not> lessEqual (nodes l c) s v"
      using b [of c] zlt_asym [of "(s, v)" "elem_of l c"] flt_not_feq
      by (auto simp: lessEqual_elem zlt_def elem_of_def)
  qed
  have ne: "\<not> equal_node (nodes l a) s v" if "a \<in> set (header l # A)" for a
    using that vals hd by (auto simp: equal_node_def head_elem_def elem_of_def)
  show ?thesis
    using rank_loop_elem [OF inv [unfolded ns] cuts eq ne, of "highestLevel l" "[]" "header l" "A @ [x]"]
      sklD(4,5,6) [OF inv] by (simp add: list_Rank_def)
qed

lemma by_rank_loop_elem:
  assumes inv: "skl l (A @ x # B)" and n: "0 < n" "n \<le> highestLevel l"
    and split: "header l # A @ [x] = C @ y # D" "n \<le> lvl l y"
  shows "by_rank_loop (int (length A) + 1) l n y (int (length C)) = Some (Some x)"
  using n split
proof (induction n arbitrary: C y D)
  case (Suc n)
  let ?P = "header l # A @ [x]" and ?k = "int (length A) + 1"
  have lk: "links l (?P @ B)" using sklD(8) [OF inv] by simp
  have nh: "n < lvl l y" "n < highestLevel l" using Suc.prems by simp_all
  have "cuts (\<lambda>r _. r < ?k + 1) l ?P B" by (rule cuts_rank) simp_all
  moreover have "(\<lambda>r _. r < ?k + 1) = (\<lambda>r (_ :: float64ListNode). r \<le> ?k)" by (auto simp: fun_eq_iff)
  ultimately have cuts: "cuts (\<lambda>r _. r \<le> ?k) l ?P B" by simp
  obtain u where u: "walk (\<lambda>r _. r \<le> ?k) l n y (int (length C)) = Some u" "at_level l ?P n u"
    using walk_at_level [OF lk cuts Suc.prems(3) nh] by blast
  have dist: "distinct ((header l # A) @ [x])" using sklD(1) [OF inv] by simp
  have "(fst u = x \<and> snd u = ?k) \<or> fst u \<in> set (header l # A)"
    using at_level_cases [of l "header l # A" x n u] u(2) dist by auto
  then show ?case
  proof
    assume "fst u = x \<and> snd u = ?k"
    then show ?thesis using u(1) by (cases u) simp
  next
    assume f: "fst u \<in> set (header l # A)"
    obtain B' C' where B': "?P = B' @ fst u # C'" "snd u = int (length B')" "n < lvl l (fst u)"
      "\<forall>c \<in> set C'. lvl l c \<le> n"
      using u(2) by (auto simp: at_level_def)
    have "C' \<noteq> []"
    proof
      assume "C' = []"
      then have "x = fst u" using B'(1) by (metis append_Cons last_snoc)
      then show False using f dist by auto
    qed
    moreover have "length ?P = length B' + 1 + length C'" using B'(1) by (metis Suc_eq_plus1 add.assoc add.commute length_append length_Cons plus_1_eq_Suc)
    ultimately have "snd u \<noteq> ?k" using B'(2) by (cases C') auto
    then have step: "by_rank_loop ?k l (Suc n) y (int (length C)) = by_rank_loop ?k l n (fst u) (snd u)"
      using u(1) by (cases u) simp
    have "0 < n"
    proof (rule ccontr)
      assume "\<not> 0 < n"
      then have "hd C' \<in> set C' \<and> lvl l (hd C') \<le> 0" using B'(4) \<open>C' \<noteq> []\<close> by simp
      moreover have "set C' \<subseteq> set ?P" using B'(1) by auto
      ultimately show False using skl_level [OF inv, of "hd C'"] by auto
    qed
    then show ?thesis using step Suc.IH [OF _ _ B'(1)] Suc.prems(2) B'(2,3) by simp
  qed
qed simp

lemma GetNodeByRank_elem:
  assumes inv: "skl l (A @ x # B)"
  shows "GetNodeByRank (int (length A) + 1) l = Some (Some x)"
  using by_rank_loop_elem [OF inv, of "highestLevel l" "[]" "header l" "A @ [x]"] sklD(4,5,6) [OF inv]
  by (simp add: GetNodeByRank_def)

section \<open>Ranges of ranks\<close>

text \<open>The part of a list between two positions, which may lie outside it.\<close>

definition between :: "int \<Rightarrow> int \<Rightarrow> 'a list \<Rightarrow> 'a list" where
  "between lo hi xs = nths xs {i. lo \<le> int i \<and> int i \<le> hi}"

definition outside :: "int \<Rightarrow> int \<Rightarrow> 'a list \<Rightarrow> 'a list" where
  "outside lo hi xs = nths xs {i. \<not> (lo \<le> int i \<and> int i \<le> hi)}"

lemma between_Nil [simp]: "between lo hi [] = []" "outside lo hi [] = []"
  by (simp_all add: between_def outside_def)

lemma between_Cons:
  "between lo hi (x # xs) = (if lo \<le> 0 \<and> 0 \<le> hi then [x] else []) @ between (lo - 1) (hi - 1) xs"
  by (simp add: between_def nths_Cons algebra_simps)

lemma outside_Cons:
  "outside lo hi (x # xs) = (if lo \<le> 0 \<and> 0 \<le> hi then [] else [x]) @ outside (lo - 1) (hi - 1) xs"
  by (auto simp add: outside_def nths_Cons algebra_simps)

lemmas between_code [code] = between_Nil(1) between_Cons
lemmas outside_code [code] = between_Nil(2) outside_Cons

lemma between_split:
  "\<exists>A D E. xs = A @ D @ E \<and> between lo hi xs = D \<and> outside lo hi xs = A @ E \<and>
     (A = [] \<or> int (length A) \<le> lo) \<and> (D @ E = [] \<or> lo \<le> int (length A)) \<and>
     (D = [] \<or> int (length A + length D) \<le> hi + 1) \<and> (E = [] \<or> hi + 1 \<le> int (length A + length D))"
proof (induction xs arbitrary: lo hi)
  case (Cons x xs)
  obtain A D E where IH: "xs = A @ D @ E" "between (lo - 1) (hi - 1) xs = D" "outside (lo - 1) (hi - 1) xs = A @ E"
    "A = [] \<or> int (length A) \<le> lo - 1" "D @ E = [] \<or> lo - 1 \<le> int (length A)"
    "D = [] \<or> int (length A + length D) \<le> hi" "E = [] \<or> hi \<le> int (length A + length D)"
    using Cons [of "lo - 1" "hi - 1"] by (simp only: diff_add_cancel) blast
  consider (mid) "lo \<le> 0" "0 \<le> hi" | (pre) "0 < lo" | (post) "lo \<le> 0" "hi < 0" by linarith
  then show ?case
  proof cases
    case mid
    then have emp: "A = []" using IH(4) by auto
    show ?thesis
      by (rule exI [of _ "[]"], rule exI [of _ "x # D"], rule exI [of _ E]) (use IH mid emp in \<open>auto simp: between_Cons outside_Cons\<close>)
  next
    case pre
    show ?thesis
    proof (cases "xs = []")
      case True
      show ?thesis
        by (rule exI [of _ "[x]"], rule exI [of _ "[]"], rule exI [of _ "[]"]) (use pre True in \<open>auto simp: between_Cons outside_Cons\<close>)
    next
      case False
      show ?thesis
        by (rule exI [of _ "x # A"], rule exI [of _ D], rule exI [of _ E]) (use IH pre False in \<open>auto simp: between_Cons outside_Cons\<close>)
    qed
  next
    case post
    then have emp: "D = []" "A = []" using IH(4,6) by auto
    show ?thesis
      by (rule exI [of _ "[]"], rule exI [of _ "[]"], rule exI [of _ "x # E"]) (use IH post emp in \<open>auto simp: between_Cons outside_Cons\<close>)
  qed
qed auto

lemma between_map: "between lo hi (map f xs) = map f (between lo hi xs)" "outside lo hi (map f xs) = map f (outside lo hi xs)"
  by (simp_all add: between_def outside_def nths_map)

lemma between_clip:
  assumes "\<And>i. i < length xs \<Longrightarrow> (lo \<le> int i \<and> int i \<le> hi) \<longleftrightarrow> (lo' \<le> int i \<and> int i \<le> hi')"
  shows "between lo hi xs = between lo' hi' xs"
proof -
  have "filter (\<lambda>p. snd p \<in> {i. lo \<le> int i \<and> int i \<le> hi}) (zip xs [0..<length xs]) =
      filter (\<lambda>p. snd p \<in> {i. lo' \<le> int i \<and> int i \<le> hi'}) (zip xs [0..<length xs])"
  proof (rule filter_cong)
    fix p assume "p \<in> set (zip xs [0..<length xs])"
    then have "snd p < length xs" by (auto simp: set_zip)
    then show "(snd p \<in> {i. lo \<le> int i \<and> int i \<le> hi}) = (snd p \<in> {i. lo' \<le> int i \<and> int i \<le> hi'})"
      using assms [of "snd p"] by simp
  qed simp
  then show ?thesis by (simp add: between_def nths_def)
qed

text \<open>A rank that counts from the end when it is negative.\<close>

definition rank_pos :: "nat \<Rightarrow> int \<Rightarrow> int" where
  "rank_pos n k = (if k < 0 then k + int n else k)"

lemma normalizeRankRange_between:
  assumes "length xs = n"
  shows "case normalizeRankRange (int n) start stop of
      None \<Rightarrow> between (rank_pos n start) (rank_pos n stop) xs = []
    | Some (lo, hi) \<Rightarrow> 0 \<le> lo \<and> lo \<le> hi \<and> hi < int n \<and>
        between (rank_pos n start) (rank_pos n stop) xs = between lo hi xs"
proof -
  let ?lo = "rank_pos n start" and ?hi = "rank_pos n stop"
  have norm: "normalizeRankRange (int n) start stop =
      (if n = 0 \<or> int n \<le> max 0 ?lo \<or> ?hi < max 0 ?lo then None else Some (max 0 ?lo, min (int n - 1) ?hi))"
    by (simp add: normalizeRankRange_def rank_pos_def Let_def)
  have "between ?lo ?hi xs = between 1 0 xs" if "n = 0 \<or> int n \<le> max 0 ?lo \<or> ?hi < max 0 ?lo"
    by (rule between_clip) (use that assms in auto)
  moreover have "between 1 0 xs = []"
  proof -
    have "{i. 1 \<le> int i \<and> int i \<le> 0} = {}" by auto
    then show ?thesis by (simp only: between_def nths_empty)
  qed
  moreover have "between ?lo ?hi xs = between (max 0 ?lo) (min (int n - 1) ?hi) xs"
    by (rule between_clip) (use assms in auto)
  ultimately show ?thesis unfolding norm by auto
qed

lemma between_take:
  assumes "0 \<le> lo" and "lo \<le> hi" and "hi < int (length xs)"
  obtains A x B where "xs = A @ x # B" and "int (length A) = lo" and "between lo hi xs = take (nat (hi - lo + 1)) (x # B)"
proof -
  obtain A D E where s: "xs = A @ D @ E" "between lo hi xs = D" "A = [] \<or> int (length A) \<le> lo"
    "D @ E = [] \<or> lo \<le> int (length A)" "D = [] \<or> int (length A + length D) \<le> hi + 1"
    "E = [] \<or> hi + 1 \<le> int (length A + length D)"
    using between_split [of xs lo hi] by blast
  have DE: "D @ E \<noteq> []" using s(1,3) assms by auto
  then have lo: "int (length A) = lo" using s(3,4) assms(1) by auto
  have "D \<noteq> []" using s(6) lo DE assms(2) by auto
  then have "int (length D) \<le> hi - lo + 1" using s(5) lo by auto
  moreover have "hi - lo + 1 \<le> int (length D)" using s(1,6) lo assms(3) by auto
  ultimately have "D = take (nat (hi - lo + 1)) (D @ E)" by simp
  moreover obtain x B where "D @ E = x # B" using DE by (cases "D @ E") auto
  ultimately show ?thesis using s(1,2) lo that [of A x B] by simp
qed

section \<open>Walks along the lowest level\<close>

lemma range_loop_nodes:
  assumes "skl l (A @ ns)"
  shows "range_loop l (first ns) start stop res = Some (res @ map (node_of l) (take (nat (stop - start + 1)) ns))"
  using assms
proof (induction ns arbitrary: A start res)
  case Nil
  then show ?case by (simp add: range_loop.simps)
next
  case (Cons a ns)
  have "skl l ((A @ [a]) @ ns)" using Cons.prems by simp
  note IH = Cons.IH [OF this, of "start + 1" "res @ [node_of l a]"]
  show ?case
  proof (cases "start \<le> stop")
    case True
    then have "nat (stop - start + 1) = Suc (nat (stop - (start + 1) + 1))" by simp
    then show ?thesis
      using IH True neighbours(2) [OF Cons.prems] by (subst range_loop.simps) simp
  qed (subst range_loop.simps, simp)
qed

lemma rev_range_loop_nodes:
  assumes "skl l (rev ns @ B)"
  shows "rev_range_loop l (first ns) start stop res = Some (res @ map (node_of l) (take (nat (stop - start + 1)) ns))"
  using assms
proof (induction ns arbitrary: B start res)
  case Nil
  then show ?case by (simp add: rev_range_loop.simps)
next
  case (Cons a ns)
  have p: "prev (nodes l a) = first ns" using neighbours(1) [of l "rev ns" a B] Cons.prems by (cases ns) simp_all
  have "skl l (rev ns @ a # B)" using Cons.prems by simp
  note IH = Cons.IH [OF this, of "start + 1" "res @ [node_of l a]"]
  show ?case
  proof (cases "start \<le> stop")
    case True
    then have "nat (stop - start + 1) = Suc (nat (stop - (start + 1) + 1))" by simp
    then show ?thesis using IH True p by (subst rev_range_loop.simps) simp
  qed (subst rev_range_loop.simps, simp)
qed

lemma score_loop_nodes:
  assumes "skl l (A @ ns)"
  shows "score_loop mx opt l (first ns) res =
    Some (res @ map (node_of l) (takeWhile (\<lambda>a. lessThanMax (score (nodes l a)) mx (ExcludeMax opt)) ns))"
  using assms
proof (induction ns arbitrary: A res)
  case Nil
  then show ?case by (simp add: score_loop.simps)
next
  case (Cons a ns)
  have "skl l ((A @ [a]) @ ns)" using Cons.prems by simp
  from Cons.IH [OF this, of "res @ [node_of l a]"] show ?case
    using neighbours(2) [OF Cons.prems] by (subst score_loop.simps) (auto simp: lessThanMax_def fle_def)
qed

lemma rev_score_loop_nodes:
  assumes "skl l (rev ns @ B)"
  shows "rev_score_loop mn opt l (first ns) res =
    Some (res @ map (node_of l) (takeWhile (\<lambda>a. greaterThanMin (score (nodes l a)) mn (ExcludeMin opt)) ns))"
  using assms
proof (induction ns arbitrary: B res)
  case Nil
  then show ?case by (simp add: rev_score_loop.simps)
next
  case (Cons a ns)
  have p: "prev (nodes l a) = first ns" using neighbours(1) [of l "rev ns" a B] Cons.prems by (cases ns) simp_all
  have "skl l (rev ns @ a # B)" using Cons.prems by simp
  from Cons.IH [OF this, of "res @ [node_of l a]"] show ?case
    using p by (subst rev_score_loop.simps) (auto simp: greaterThanMin_def fle_def feq_def)
qed

section \<open>Ranges of scores\<close>

definition in_range :: "gofloat \<Rightarrow> gofloat \<Rightarrow> RangeOpt \<Rightarrow> elem \<Rightarrow> bool" where
  "in_range mn mx opt e \<longleftrightarrow> fle mn (fst e) \<and> fle (fst e) mx \<and> \<not> (ExcludeMin opt \<and> feq (fst e) mn) \<and> \<not> (ExcludeMax opt \<and> feq (fst e) mx)"

lemma in_range_code:
  "in_range mn mx opt e \<longleftrightarrow> greaterThanMin (fst e) mn (ExcludeMin opt) \<and> lessThanMax (fst e) mx (ExcludeMax opt)"
  by (auto simp: in_range_def greaterThanMin_def lessThanMax_def fle_def flt_def feq_def)

lemma zlt_min: "zlt a b \<Longrightarrow> greaterThanMin (fst a) mn ex \<Longrightarrow> greaterThanMin (fst b) mn ex"
  by (auto simp: zlt_def greaterThanMin_def fle_def intro: flt_trans flt_feq_trans feq_trans split: if_splits)

lemma zlt_max: "zlt a b \<Longrightarrow> lessThanMax (fst b) mx ex \<Longrightarrow> lessThanMax (fst a) mx ex"
  by (auto simp: zlt_def lessThanMax_def fle_def intro: flt_trans flt_feq_trans feq_trans split: if_splits)

lemma empty_range: "flt mx mn \<or> (feq mn mx \<and> (ExcludeMin opt \<or> ExcludeMax opt)) \<Longrightarrow> \<not> in_range mn mx opt e"
  by (auto simp: in_range_code greaterThanMin_def lessThanMax_def flt_def feq_def fle_def split: if_splits)

lemma range_split:
  fixes l defines "lo \<equiv> \<lambda>mn opt a. greaterThanMin (score (nodes l a)) mn (ExcludeMin opt)"
    and "hi \<equiv> \<lambda>mx opt a. lessThanMax (score (nodes l a)) mx (ExcludeMax opt)"
  assumes ok: "es_ok (elems l ns)"
  obtains A D E where "ns = A @ D @ E" and "\<And>a. a \<in> set A \<Longrightarrow> \<not> lo mn opt a"
    and "\<And>d. d \<in> set D \<Longrightarrow> lo mn opt d \<and> hi mx opt d" and "\<And>e. e \<in> set E \<Longrightarrow> lo mn opt e \<and> \<not> hi mx opt e"
    and "filter (in_range mn mx opt) (elems l ns) = elems l D"
proof -
  let ?R = "\<lambda>a b. zlt (elem_of l a) (elem_of l b)"
  define A where "A = takeWhile (\<lambda>a. \<not> lo mn opt a) ns"
  define F where "F = dropWhile (\<lambda>a. \<not> lo mn opt a) ns"
  define D where "D = takeWhile (hi mx opt) F"
  define E where "E = dropWhile (hi mx opt) F"
  have sorted: "sorted_wrt ?R ns" using ok by (simp add: es_ok_def elems_def sorted_wrt_map)
  have ns: "ns = A @ F" "F = D @ E" by (simp_all add: A_def F_def D_def E_def)
  have a: "\<not> lo mn opt a" if "a \<in> set A" for a using that set_takeWhileD by (fastforce simp: A_def)
  have sF: "sorted_wrt ?R F" "sorted_wrt ?R E" using sorted ns by (simp_all add: sorted_wrt_append)
  have f: "lo mn opt c" if c: "c \<in> set F" for c
  proof -
    obtain x X where x: "F = x # X" using c by (cases F) auto
    then have "lo mn opt x" using hd_dropWhile [of "\<lambda>a. \<not> lo mn opt a" ns] by (simp add: F_def)
    then show ?thesis using c sF(1) x zlt_min [of "elem_of l x" "elem_of l c" mn "ExcludeMin opt"]
      by (auto simp: lo_def elem_of_def)
  qed
  have e: "\<not> hi mx opt c" if c: "c \<in> set E" for c
  proof -
    obtain x X where x: "E = x # X" using c by (cases E) auto
    then have "\<not> hi mx opt x" using hd_dropWhile [of "hi mx opt" F] by (simp add: E_def)
    then show ?thesis using c sF(2) x zlt_max [of "elem_of l x" "elem_of l c" mx "ExcludeMax opt"]
      by (auto simp: hi_def elem_of_def)
  qed
  have d: "hi mx opt c" if "c \<in> set D" for c using that set_takeWhileD by (fastforce simp: D_def)
  have in_range: "in_range mn mx opt (elem_of l c) \<longleftrightarrow> lo mn opt c \<and> hi mx opt c" for c
    by (simp add: in_range_code elem_of_def lo_def hi_def)
  have "filter (in_range mn mx opt) (elems l X) = elems l (filter (\<lambda>c. lo mn opt c \<and> hi mx opt c) X)" for X
    by (simp add: elems_def filter_map comp_def in_range)
  moreover have "filter (\<lambda>c. lo mn opt c \<and> hi mx opt c) ns = D"
    using a d e f ns by (simp add: filter_empty_conv filter_id_conv)
  ultimately have "filter (in_range mn mx opt) (elems l ns) = elems l D" by simp
  then show ?thesis using that [of A D E] ns a d e f by simp
qed

lemma takeWhile_cut:
  "(\<And>d. d \<in> set D \<Longrightarrow> P d) \<Longrightarrow> (\<And>e. e \<in> set E \<Longrightarrow> \<not> P e) \<Longrightarrow> takeWhile P (D @ E) = D"
  by (induction D) (cases E, simp_all)

lemma IsInRange_nodes:
  assumes inv: "skl l ns" and ok: "es_ok (elems l ns)"
  obtains b where "IsInRange mn mx opt l = Some b"
    and "b \<Longrightarrow> ns \<noteq> [] \<and> greaterThanMin (score (nodes l (last ns))) mn (ExcludeMin opt)
      \<and> lessThanMax (score (nodes l (hd ns))) mx (ExcludeMax opt)"
    and "\<not> b \<Longrightarrow> filter (in_range mn mx opt) (elems l ns) = []"
proof -
  let ?lo = "\<lambda>a. greaterThanMin (score (nodes l a)) mn (ExcludeMin opt)"
  let ?hi = "\<lambda>a. lessThanMax (score (nodes l a)) mx (ExcludeMax opt)"
  define emp where "emp \<longleftrightarrow> flt mx mn \<or> (feq mn mx \<and> (ExcludeMin opt \<or> ExcludeMax opt))"
  define b where "b \<longleftrightarrow> \<not> emp \<and> ns \<noteq> [] \<and> ?lo (last ns) \<and> ?hi (hd ns)"
  have "loadNext l (header l) 0 = Some (first ns)"
    using loadNext_0 [OF inv, of "[header l]" ns] by (cases ns) (simp_all add: loadNext_def)
  then have "IsInRange mn mx opt l = Some b"
    using sklD(10) [OF inv] by (cases ns) (auto simp: IsInRange_def b_def emp_def)
  moreover have "filter (in_range mn mx opt) (elems l ns) = []" if nb: "\<not> b"
  proof (cases "emp \<or> ns = []")
    case True
    then have "elems l ns = [] \<or> (\<forall>e. \<not> in_range mn mx opt e)"
      using empty_range [of mx mn opt] by (simp only: emp_def elems_def) blast
    then show ?thesis by (auto simp: filter_empty_conv)
  next
    case False
    obtain A D E where s: "ns = A @ D @ E" "\<And>a. a \<in> set A \<Longrightarrow> \<not> ?lo a" "\<And>d. d \<in> set D \<Longrightarrow> ?lo d \<and> ?hi d"
      "\<And>e. e \<in> set E \<Longrightarrow> ?lo e \<and> \<not> ?hi e" "filter (in_range mn mx opt) (elems l ns) = elems l D"
      using range_split [OF ok, of mn opt mx] by metis
    have "D = []"
    proof (rule ccontr)
      assume D: "D \<noteq> []"
      have "?lo (last ns)" using s(1,3,4) D last_in_set [of "D @ E"] by auto
      moreover have "?hi (hd ns)"
      proof (cases A)
        case (Cons a A')
        have "zlt (elem_of l a) (elem_of l (hd D))"
          using ok s(1) Cons hd_in_set [OF D] by (auto simp: es_ok_def elems_def sorted_wrt_map)
        then show ?thesis using zlt_max [of "elem_of l a" "elem_of l (hd D)" mx "ExcludeMax opt"] s(1,3) Cons D
          by (simp add: elem_of_def)
      qed (use s(1,3) D in simp)
      ultimately show False using nb False by (simp add: b_def)
    qed
    then show ?thesis using s(5) by (simp add: elems_def)
  qed
  moreover have "ns \<noteq> [] \<and> ?lo (last ns) \<and> ?hi (hd ns)" if "b" using that by (simp add: b_def)
  ultimately show ?thesis using that [of b] by metis
qed

lemma FirstInRange_nodes:
  assumes inv: "skl l ns" and ok: "es_ok (elems l ns)"
  obtains A D E where "ns = A @ D @ E" and "filter (in_range mn mx opt) (elems l ns) = elems l D"
    and "FirstInRange mn mx opt l = Some (first D)"
    and "takeWhile (\<lambda>a. lessThanMax (score (nodes l a)) mx (ExcludeMax opt)) (D @ E) = D"
proof -
  let ?lo = "\<lambda>a. greaterThanMin (score (nodes l a)) mn (ExcludeMin opt)"
  let ?hi = "\<lambda>a. lessThanMax (score (nodes l a)) mx (ExcludeMax opt)"
  obtain A D E where s: "ns = A @ D @ E" "\<And>a. a \<in> set A \<Longrightarrow> \<not> ?lo a" "\<And>d. d \<in> set D \<Longrightarrow> ?lo d \<and> ?hi d"
    "\<And>e. e \<in> set E \<Longrightarrow> ?lo e \<and> \<not> ?hi e" "filter (in_range mn mx opt) (elems l ns) = elems l D"
    using range_split [OF ok, of mn opt mx] by metis
  obtain b where b: "IsInRange mn mx opt l = Some b" "b \<Longrightarrow> ns \<noteq> [] \<and> ?lo (last ns) \<and> ?hi (hd ns)"
    "\<not> b \<Longrightarrow> filter (in_range mn mx opt) (elems l ns) = []"
    using IsInRange_nodes [OF inv ok, of mn mx opt] by metis
  have "FirstInRange mn mx opt l = Some (first D)"
  proof (cases b)
    case False
    then have "D = []" using b(3) s(5) by (simp add: elems_def)
    then show ?thesis using False b(1) by (simp add: FirstInRange_def)
  next
    case True
    have "cuts (\<lambda>_ n. \<not> greaterThanMin (score n) mn (ExcludeMin opt)) l (header l # A) (D @ E)"
      by (rule cuts_nodes) (use s(2-4) in auto)
    then obtain us where us: "search (\<lambda>_ n. \<not> greaterThanMin (score n) mn (ExcludeMin opt)) l = Some us"
      "loadNext l (fst (us ! 0)) 0 = Some (first (D @ E))"
      using search_cut [OF inv [unfolded s(1)]] by metis
    have "D @ E \<noteq> []" using b(2) [OF True] s(1,2) by auto
    then show ?thesis using True b(1) us s(3,4) by (cases D; cases E) (simp_all add: FirstInRange_def)
  qed
  moreover have "takeWhile ?hi (D @ E) = D" using s(3,4) by (intro takeWhile_cut) auto
  ultimately show ?thesis using that s(1,5) by blast
qed

lemma LastInRange_nodes:
  assumes inv: "skl l ns" and ok: "es_ok (elems l ns)"
  obtains A D E where "ns = A @ D @ E" and "filter (in_range mn mx opt) (elems l ns) = elems l D"
    and "LastInRange mn mx opt l = Some (first (rev D))"
    and "takeWhile (\<lambda>a. greaterThanMin (score (nodes l a)) mn (ExcludeMin opt)) (rev (A @ D)) = rev D"
proof -
  let ?lo = "\<lambda>a. greaterThanMin (score (nodes l a)) mn (ExcludeMin opt)"
  let ?hi = "\<lambda>a. lessThanMax (score (nodes l a)) mx (ExcludeMax opt)"
  obtain A D E where s: "ns = A @ D @ E" "\<And>a. a \<in> set A \<Longrightarrow> \<not> ?lo a" "\<And>d. d \<in> set D \<Longrightarrow> ?lo d \<and> ?hi d"
    "\<And>e. e \<in> set E \<Longrightarrow> ?lo e \<and> \<not> ?hi e" "filter (in_range mn mx opt) (elems l ns) = elems l D"
    using range_split [OF ok, of mn opt mx] by metis
  obtain b where b: "IsInRange mn mx opt l = Some b" "b \<Longrightarrow> ns \<noteq> [] \<and> ?lo (last ns) \<and> ?hi (hd ns)"
    "\<not> b \<Longrightarrow> filter (in_range mn mx opt) (elems l ns) = []"
    using IsInRange_nodes [OF inv ok, of mn mx opt] by metis
  have "LastInRange mn mx opt l = Some (first (rev D))"
  proof (cases b)
    case False
    then have "D = []" using b(3) s(5) by (simp add: elems_def)
    then show ?thesis using False b(1) by (simp add: LastInRange_def)
  next
    case True
    define T where "T = takeWhile ?hi ns"
    define U where "U = dropWhile ?hi ns"
    have ns: "ns = T @ U" by (simp add: T_def U_def)
    have T: "T \<noteq> []" using b(2) [OF True] by (cases ns) (simp_all add: T_def)
    have hiT: "?hi a" if "a \<in> set T" for a using that set_takeWhileD by (fastforce simp: T_def)
    have hiU: "\<not> ?hi c" if c: "c \<in> set U" for c
    proof -
      obtain x X where x: "U = x # X" using c by (cases U) auto
      then have "\<not> ?hi x" using hd_dropWhile [of ?hi ns] by (simp add: U_def)
      moreover have "sorted_wrt (\<lambda>a b. zlt (elem_of l a) (elem_of l b)) (T @ U)"
        using ok by (simp add: es_ok_def elems_def sorted_wrt_map ns [symmetric])
      ultimately show ?thesis using c x zlt_max [of "elem_of l x" "elem_of l c" mx "ExcludeMax opt"]
        by (auto simp: elem_of_def sorted_wrt_append)
    qed
    have "cuts (\<lambda>_ n. lessThanMax (score n) mx (ExcludeMax opt)) l (header l # T) U"
      by (rule cuts_nodes) (use hiT hiU in auto)
    then obtain us where us: "search (\<lambda>_ n. lessThanMax (score n) mx (ExcludeMax opt)) l = Some us"
      "fst (us ! 0) = last (header l # T)"
      using search_cut [OF inv [unfolded ns]] by metis
    then have last: "fst (us ! 0) = last T" using T by simp
    have "first (rev D) = (if \<not> ?lo (last T) then None else Some (last T))"
    proof (cases "D = []")
      case True
      have "last T \<in> set ns" "?hi (last T)" using T ns hiT by auto
      then show ?thesis using s(1,2,4) True by auto
    next
      case False
      have "\<not> (\<exists>d \<in> set D. d \<in> set U)" using s(3) hiU by blast
      moreover have "\<not> (\<exists>e \<in> set E. e \<in> set T)" using s(4) hiT by blast
      moreover have "(A @ D) @ E = T @ U" using s(1) ns by simp
      ultimately have "A @ D = T"
        using False T by (auto simp: append_eq_append_conv2) (metis Un_iff append.assoc append_self_conv last_appendR last_in_set set_append)+
      then have "last T = last D" using False by auto
      moreover have "first (rev D) = Some (last D)" using False by (cases D rule: rev_cases) auto
      ultimately show ?thesis using s(3) False by simp
    qed
    then show ?thesis using True b(1) us(1) last by (simp add: LastInRange_def Let_def)
  qed
  moreover have "takeWhile ?lo (rev (A @ D)) = rev D"
    using s(2,3) takeWhile_cut [of "rev D" ?lo "rev A"] by simp
  ultimately show ?thesis using that s(1,5) by blast
qed

section \<open>The queries of a set\<close>

lemma node_of_elem: "node_of l a = prod.swap (elem_of l a)"
  by (simp add: node_of_def elem_of_def)

lemma nodes_elems: "map (node_of l) ns = map prod.swap (elems l ns)"
  by (simp add: elems_def node_of_elem)

lemma list_Rank_zs:
  assumes z: "zs_ok z es" and es: "es = E1 @ (s, v) # E2" and v: "v \<noteq> ''__HEADER''"
  shows "list_Rank s v (zlist z) = Some (int (length E1) + 1)"
proof -
  obtain ns where ns: "skl (zlist z) ns" "es = elems (zlist z) ns" "es_ok (elems (zlist z) ns)"
    "head_elem (zlist z) = (header_score, ''__HEADER'')"
    using zs_okE [OF z] by metis
  have "map (elem_of (zlist z)) ns = E1 @ (s, v) # E2" using ns(2) es by (simp add: elems_def)
  then obtain A x B where x: "ns = A @ x # B" "elems (zlist z) A = E1" "elem_of (zlist z) x = (s, v)"
    by (auto simp: elems_def map_eq_append_conv map_eq_Cons_conv)
  from list_Rank_elem [OF ns(1,3) x(1,3)] v ns(4) have "list_Rank s v (zlist z) = Some (int (length A) + 1)" by simp
  then show ?thesis using x(2) by (auto simp: elems_def)
qed

definition place :: "string \<Rightarrow> elem list \<Rightarrow> int" where
  "place v es = int (length (takeWhile (\<lambda>e. snd e \<noteq> v) es))"

lemma zs_ok_len:
  assumes "zs_ok z es"
  shows "len (zlist z) = int (length es)"
proof -
  obtain ns where "skl (zlist z) ns" "es = elems (zlist z) ns" using zs_okE [OF assms] by metis
  then show ?thesis using sklD(11) [of "zlist z" ns] by (simp add: elems_def)
qed

lemma zs_ok_found:
  assumes z: "zs_ok z es" and v: "v \<noteq> ''__HEADER''" "v \<in> snd ` set es"
  obtains s where "dict z v = Some s" and "list_Rank s v (zlist z) = Some (place v es + 1)"
proof -
  have ok: "es_ok es" and d: "dict z = map_of (map prod.swap es)" using z by (auto simp: zs_ok_def)
  obtain s where s: "(s, v) \<in> set es" using v(2) by auto
  then obtain E1 E2 where es: "es = E1 @ (s, v) # E2" by (metis split_list)
  have "\<forall>e \<in> set E1. snd e \<noteq> v" using ok by (auto simp: es es_ok_def)
  then have "takeWhile (\<lambda>e. snd e \<noteq> v) es = E1" by (simp add: es takeWhile_append2)
  moreover have "dict z v = Some s" using s dict_iff [OF ok] d by simp
  ultimately show ?thesis using list_Rank_zs [OF z es v(1)] that by (simp add: place_def)
qed

lemma Rank_zs_ok:
  assumes z: "zs_ok z es" and v: "v \<noteq> ''__HEADER''"
  shows "Rank v z = Some (if v \<in> snd ` set es then place v es else - 1)"
    and "RevRank v z = Some (if v \<in> snd ` set es then int (length es) - 1 - place v es else - 1)"
proof -
  have "dict z v = None" if "v \<notin> snd ` set es" using that z dict_None [of es v] by (simp add: zs_ok_def)
  moreover obtain s where "v \<in> snd ` set es \<longrightarrow> dict z v = Some s \<and> list_Rank s v (zlist z) = Some (place v es + 1)"
    using zs_ok_found [OF z v] by metis
  ultimately show "Rank v z = Some (if v \<in> snd ` set es then place v es else - 1)"
    and "RevRank v z = Some (if v \<in> snd ` set es then int (length es) - 1 - place v es else - 1)"
    using zs_ok_len [OF z] by (simp_all add: Rank_def RevRank_def)
qed

lemma Range_zs_ok:
  assumes z: "zs_ok z es"
  shows "Range start stop z =
    Some (map prod.swap (between (rank_pos (length es) start) (rank_pos (length es) stop) es))"
proof -
  obtain ns where ns: "skl (zlist z) ns" "es = elems (zlist z) ns" using zs_okE [OF z] by metis
  let ?n = "length ns"
  have n: "len (zlist z) = int ?n" "length es = ?n" using sklD(11) [OF ns(1)] ns(2) by (simp_all add: elems_def)
  note norm = normalizeRankRange_between [of ns ?n start stop, OF refl]
  have "Range start stop z = Some (map (node_of (zlist z)) (between (rank_pos ?n start) (rank_pos ?n stop) ns))"
  proof (cases "normalizeRankRange (int ?n) start stop")
    case None
    then show ?thesis using norm n(1) by (simp add: Range_def)
  next
    case (Some p)
    obtain lo hi where p: "p = (lo, hi)" by fastforce
    have b: "0 \<le> lo" "lo \<le> hi" "hi < int ?n"
      "between (rank_pos ?n start) (rank_pos ?n stop) ns = between lo hi ns" using norm Some p by simp_all
    obtain A x B where A: "ns = A @ x # B" "int (length A) = lo" "between lo hi ns = take (nat (hi - lo + 1)) (x # B)"
      using between_take [OF b(1-3)] by metis
    have "GetNodeByRank (lo + 1) (zlist z) = Some (Some x)"
      using GetNodeByRank_elem [of "zlist z" A x B] ns(1) A(1,2) by simp
    then show ?thesis
      using range_loop_nodes [of "zlist z" A "x # B" lo hi "[]"] ns(1) A Some p b(4) n(1) by (simp add: Range_def)
  qed
  then show ?thesis using n(2) ns(2) by (simp add: nodes_elems elems_def between_map)
qed

lemma RevRange_zs_ok:
  assumes z: "zs_ok z es"
  shows "RevRange start stop z =
    Some (map prod.swap (between (rank_pos (length es) start) (rank_pos (length es) stop) (rev es)))"
proof -
  obtain ns where ns: "skl (zlist z) ns" "es = elems (zlist z) ns" using zs_okE [OF z] by metis
  let ?n = "length ns"
  have n: "len (zlist z) = int ?n" "length es = ?n" using sklD(11) [OF ns(1)] ns(2) by (simp_all add: elems_def)
  note norm = normalizeRankRange_between [of "rev ns" ?n start stop, OF length_rev]
  have "RevRange start stop z = Some (map (node_of (zlist z)) (between (rank_pos ?n start) (rank_pos ?n stop) (rev ns)))"
  proof (cases "normalizeRankRange (int ?n) start stop")
    case None
    then show ?thesis using norm n(1) by (simp add: RevRange_def)
  next
    case (Some p)
    obtain lo hi where p: "p = (lo, hi)" by fastforce
    have b: "0 \<le> lo" "lo \<le> hi" "hi < int (length (rev ns))"
      "between (rank_pos ?n start) (rank_pos ?n stop) (rev ns) = between lo hi (rev ns)" using norm Some p by simp_all
    obtain A x B where A: "rev ns = A @ x # B" "int (length A) = lo"
      "between lo hi (rev ns) = take (nat (hi - lo + 1)) (x # B)"
      using between_take [OF b(1-3)] by metis
    have ns': "ns = rev B @ x # rev A" using arg_cong [OF A(1), of rev] by simp
    have "GetNodeByRank (int ?n - lo) (zlist z) = Some (Some x)"
      using GetNodeByRank_elem [of "zlist z" "rev B" x "rev A"] ns(1) A(2) ns' by (simp add: algebra_simps)
    then show ?thesis
      using rev_range_loop_nodes [of "zlist z" "x # B" "rev A" lo hi "[]"] ns(1) ns' A(3) Some p b(4) n(1)
      by (simp add: RevRange_def)
  qed
  then show ?thesis using n(2) ns(2) by (simp add: nodes_elems elems_def between_map rev_map)
qed

lemma RangeByScore_zs_ok:
  assumes z: "zs_ok z es"
  shows "RangeByScoreWithOpt mn mx opt z = Some (map prod.swap (filter (in_range mn mx opt) es))"
    and "RevRangeByScoreWithOpt mx mn opt z = Some (map prod.swap (rev (filter (in_range mn mx opt) es)))"
proof -
  obtain ns where ns: "skl (zlist z) ns" "es = elems (zlist z) ns" "es_ok (elems (zlist z) ns)"
    using zs_okE [OF z] by metis
  obtain A D E where f: "ns = A @ D @ E" "filter (in_range mn mx opt) es = elems (zlist z) D"
    "FirstInRange mn mx opt (zlist z) = Some (first D)"
    "takeWhile (\<lambda>a. lessThanMax (score (nodes (zlist z) a)) mx (ExcludeMax opt)) (D @ E) = D"
    using FirstInRange_nodes [OF ns(1,3), of mn mx opt] ns(2) by metis
  show "RangeByScoreWithOpt mn mx opt z = Some (map prod.swap (filter (in_range mn mx opt) es))"
  proof (cases D)
    case Nil
    then show ?thesis using f(2,3) by (simp add: RangeByScoreWithOpt_def score_loop.simps elems_def)
  next
    case (Cons d D')
    then have "first D = first (D @ E)" by simp
    then show ?thesis
      using score_loop_nodes [of "zlist z" A "D @ E" mx opt "[]"] ns(1) f
      by (simp add: RangeByScoreWithOpt_def nodes_elems)
  qed
  obtain A D E where g: "ns = A @ D @ E" "filter (in_range mn mx opt) es = elems (zlist z) D"
    "LastInRange mn mx opt (zlist z) = Some (first (rev D))"
    "takeWhile (\<lambda>a. greaterThanMin (score (nodes (zlist z) a)) mn (ExcludeMin opt)) (rev (A @ D)) = rev D"
    using LastInRange_nodes [OF ns(1,3), of mn mx opt] ns(2) by metis
  show "RevRangeByScoreWithOpt mx mn opt z = Some (map prod.swap (rev (filter (in_range mn mx opt) es)))"
  proof (cases D rule: rev_cases)
    case Nil
    then show ?thesis using g(2,3) by (simp add: RevRangeByScoreWithOpt_def rev_score_loop.simps elems_def)
  next
    case (snoc D' d)
    then have "first (rev D) = first (rev (A @ D))" by simp
    then show ?thesis
      using rev_score_loop_nodes [of "zlist z" "rev (A @ D)" E mn opt "[]"] ns(1) g
      by (simp add: RevRangeByScoreWithOpt_def nodes_elems elems_def rev_map)
  qed
qed

end
