(* ===== verification/ZSetRemove.thy ===== *)
theory ZSetRemove
  imports ZSetQuery
begin

text \<open>The removal of ranges, the counts and the empty set.\<close>

section \<open>The loop that deletes a range of nodes\<close>

lemma at_level_lvl: "(\<And>a. lvl l' a = lvl l a) \<Longrightarrow> at_level l' P i u \<longleftrightarrow> at_level l P i u"
  by (simp add: at_level_def)

lemma delete_loop_nodes:
  assumes "skl l (A @ D @ E)"
    and "\<And>i. i < highestLevel l \<Longrightarrow> at_level l (header l # A) i (us ! i)"
    and "\<And>D1 d D2. D = D1 @ d # D2 \<Longrightarrow> go (t + int (length D1)) (score (nodes l d))"
    and "\<And>e E2. E = e # E2 \<Longrightarrow> \<not> go (t + int (length D)) (score (nodes l e))"
  shows "\<exists>l'. delete_loop (\<lambda>r n. go r (score n)) us (first (D @ E)) t l d removed =
      Some (l', foldl (\<lambda>d v. d(v := None)) d (map (\<lambda>a. nvalue (nodes l a)) D), removed @ map (node_of l) D) \<and>
    skl l' (A @ E) \<and> header l' = header l \<and>
    (\<forall>a. score (nodes l' a) = score (nodes l a) \<and> nvalue (nodes l' a) = nvalue (nodes l a))"
  using assms
proof (induction D arbitrary: l t d removed)
  case Nil
  show ?case
  proof (cases E)
    case (Cons e E2)
    then show ?thesis using Nil.prems(1) Nil.prems(4) [OF Cons] by (subst delete_loop.simps) simp
  qed (use Nil.prems(1) in \<open>subst delete_loop.simps, simp\<close>)
next
  case (Cons a D)
  have go: "go t (score (nodes l a))" using Cons.prems(3) [of "[]" a D] by simp
  have nx: "loadNext l a 0 = Some (first (D @ E))"
    using neighbours(2) [of l A a "D @ E"] Cons.prems(1) by simp
  have ns: "A @ (a # D) @ E = A @ a # (D @ E)" by simp
  from deleteNode_skl [OF Cons.prems(1) ns Cons.prems(2)]
  obtain l1 where l1: "deleteNode a us l = Some l1" "skl l1 (A @ D @ E)" "header l1 = header l"
    "highestLevel l1 \<le> highestLevel l"
    "\<And>a. score (nodes l1 a) = score (nodes l a)" "\<And>a. nvalue (nodes l1 a) = nvalue (nodes l a)"
    "\<And>a. lvl l1 a = lvl l a" by blast
  have at: "at_level l1 (header l1 # A) i (us ! i)" if "i < highestLevel l1" for i
    using Cons.prems(2) [of i] that l1(3,4) at_level_lvl [of l1 l "header l # A" i "us ! i"] l1(7) by simp
  have "go (t + 1 + int (length D1)) (score (nodes l1 e))" if "D = D1 @ e # D2" for D1 e D2
    using Cons.prems(3) [of "a # D1" e D2] that l1(5) by (simp add: algebra_simps)
  moreover have "\<not> go (t + 1 + int (length D)) (score (nodes l1 e))" if "E = e # E2" for e E2
    using Cons.prems(4) [OF that] l1(5) by (simp add: algebra_simps)
  ultimately obtain l' where l': "delete_loop (\<lambda>r n. go r (score n)) us (first (D @ E)) (t + 1) l1
        (d(nvalue (nodes l a) := None)) (removed @ [node_of l a]) =
      Some (l', foldl (\<lambda>d v. d(v := None)) (d(nvalue (nodes l a) := None)) (map (\<lambda>a. nvalue (nodes l1 a)) D),
        (removed @ [node_of l a]) @ map (node_of l1) D)"
    "skl l' (A @ E)" "header l' = header l1"
    "\<And>a. score (nodes l' a) = score (nodes l1 a)" "\<And>a. nvalue (nodes l' a) = nvalue (nodes l1 a)"
    using Cons.IH [OF l1(2) at, of "t + 1" "d(nvalue (nodes l a) := None)" "removed @ [node_of l a]"] by blast
  have same: "node_of l1 = node_of l" "(\<lambda>a. nvalue (nodes l1 a)) = (\<lambda>a. nvalue (nodes l a))"
    using l1(5,6) by (simp_all add: node_of_def fun_eq_iff)
  have "delete_loop (\<lambda>r n. go r (score n)) us (first ((a # D) @ E)) t l d removed =
      Some (l', foldl (\<lambda>d v. d(v := None)) d (map (\<lambda>a. nvalue (nodes l a)) (a # D)), removed @ map (node_of l) (a # D))"
    using l'(1) go nx l1(1,5,6) same by (subst delete_loop.simps) (simp add: node_of_def)
  moreover have "header l' = header l"
    "\<forall>a. score (nodes l' a) = score (nodes l a) \<and> nvalue (nodes l' a) = nvalue (nodes l a)"
    using l'(3-5) l1(3,5,6) by simp_all
  ultimately show ?case using l'(2) by blast
qed

lemma foldl_remove: "foldl (\<lambda>d v. d(v := None)) m vs = m |` (- set vs)"
  by (induction vs arbitrary: m) (auto simp: restrict_map_def fun_eq_iff)

lemma dict_removed:
  assumes "es_ok (E1 @ E2 @ E3)"
  shows "map_of (map prod.swap (E1 @ E2 @ E3)) |` (- set (map snd E2)) = map_of (map prod.swap (E1 @ E3))"
proof -
  have ok: "es_ok (E1 @ E3)" using assms by (auto simp: es_ok_def sorted_wrt_append)
  show ?thesis
  proof
    fix v
    show "(map_of (map prod.swap (E1 @ E2 @ E3)) |` (- set (map snd E2))) v = map_of (map prod.swap (E1 @ E3)) v"
    proof (cases "v \<in> snd ` set E2")
      case True
      then have "v \<notin> snd ` set (E1 @ E3)" using assms by (auto simp: es_ok_def)
      then have "map_of (map prod.swap (E1 @ E3)) v = None" by (simp only: dict_None not_False_eq_True)
      then show ?thesis using True by (simp only: restrict_map_def) simp
    next
      case False
      then have "(s, v) \<in> set (E1 @ E2 @ E3) \<longleftrightarrow> (s, v) \<in> set (E1 @ E3)" for s by force
      then have "map_of (map prod.swap (E1 @ E2 @ E3)) v = map_of (map prod.swap (E1 @ E3)) v"
        using dict_iff [OF assms, of v] dict_iff [OF ok, of v] by (metis option.exhaust)
      then show ?thesis using False by simp
    qed
  qed
qed

lemma removed_zs_ok:
  assumes z: "zs_ok z es" and inv: "skl (zlist z) (A @ D @ E)" and es: "es = elems (zlist z) (A @ D @ E)"
    and l': "skl l' (A @ E)" "header l' = header (zlist z)"
    and same: "\<forall>a. score (nodes l' a) = score (nodes (zlist z) a) \<and> nvalue (nodes l' a) = nvalue (nodes (zlist z) a)"
  shows "zs_ok (z\<lparr>dict := foldl (\<lambda>d v. d(v := None)) (dict z) (map (\<lambda>a. nvalue (nodes (zlist z) a)) D), zlist := l'\<rparr>)
    (elems (zlist z) (A @ E))"
proof -
  let ?e = "elems (zlist z)"
  have e: "elem_of l' = elem_of (zlist z)" using same by (simp add: elem_of_def fun_eq_iff)
  have ok: "es_ok (?e A @ ?e D @ ?e E)" using z es by (simp add: zs_ok_def elems_def)
  then have "es_ok (?e (A @ E))" by (auto simp: es_ok_def sorted_wrt_append elems_def)
  moreover have "map (\<lambda>a. nvalue (nodes (zlist z) a)) D = map snd (?e D)" by (simp add: elems_def elem_of_def)
  moreover have "dict z = map_of (map prod.swap (?e A @ ?e D @ ?e E))" using z es by (simp add: zs_ok_def elems_def)
  ultimately show ?thesis
    using l' e z dict_removed [OF ok] by (auto simp: zs_ok_def foldl_remove elems_def head_elem_def)
qed

section \<open>The removals of a set\<close>

lemma RemoveRangeByScore_zs_ok:
  assumes z: "zs_ok z es"
  shows "\<exists>z'. RemoveRangeByScoreWithOpt mn mx opt z = Some (map prod.swap (filter (in_range mn mx opt) es), z') \<and>
    zs_ok z' (filter (\<lambda>e. \<not> in_range mn mx opt e) es)"
proof -
  let ?l = "zlist z"
  let ?lo = "\<lambda>s. greaterThanMin s mn (ExcludeMin opt)" and ?hi = "\<lambda>s. lessThanMax s mx (ExcludeMax opt)"
  obtain ns where ns: "skl ?l ns" "es = elems ?l ns" "es_ok (elems ?l ns)" using zs_okE [OF z] by metis
  obtain A D E where s: "ns = A @ D @ E" "\<And>a. a \<in> set A \<Longrightarrow> \<not> ?lo (score (nodes ?l a))"
    "\<And>d. d \<in> set D \<Longrightarrow> ?lo (score (nodes ?l d)) \<and> ?hi (score (nodes ?l d))"
    "\<And>e. e \<in> set E \<Longrightarrow> ?lo (score (nodes ?l e)) \<and> \<not> ?hi (score (nodes ?l e))"
    "filter (in_range mn mx opt) (elems ?l ns) = elems ?l D"
    using range_split [OF ns(3), of mn opt mx] by metis
  have inv: "skl ?l (A @ D @ E)" using ns(1) s(1) by simp
  have "cuts (\<lambda>_ n. \<not> ?lo (score n)) ?l (header ?l # A) (D @ E)"
    by (rule cuts_nodes) (use s(2-4) in auto)
  then obtain us where us: "search (\<lambda>_ n. \<not> ?lo (score n)) ?l = Some us"
    "loadNext ?l (fst (us ! 0)) 0 = Some (first (D @ E))"
    "\<And>i. i < highestLevel ?l \<Longrightarrow> at_level ?l (header ?l # A) i (us ! i)"
    using search_cut [OF inv] by metis
  obtain l' where l': "delete_loop (\<lambda>_ n. ?hi (score n)) us (first (D @ E)) 0 ?l (dict z) [] =
      Some (l', foldl (\<lambda>d v. d(v := None)) (dict z) (map (\<lambda>a. nvalue (nodes ?l a)) D), map (node_of ?l) D)"
    "skl l' (A @ E)" "header l' = header ?l"
    "\<forall>a. score (nodes l' a) = score (nodes ?l a) \<and> nvalue (nodes l' a) = nvalue (nodes ?l a)"
    using delete_loop_nodes [OF inv us(3), of "\<lambda>_. ?hi" 0 "dict z" "[]"] s(3,4) by auto
  have out: "filter (\<lambda>e. \<not> in_range mn mx opt e) es = elems ?l (A @ E)"
  proof -
    have "\<forall>a \<in> set (A @ E). \<not> in_range mn mx opt (elem_of ?l a)" "\<forall>a \<in> set D. in_range mn mx opt (elem_of ?l a)"
      using s(2-4) by (auto simp: in_range_code elem_of_def)
    then show ?thesis using ns(2) s(1) by (simp add: elems_def filter_empty_conv filter_id_conv)
  qed
  have "zs_ok (z\<lparr>dict := foldl (\<lambda>d v. d(v := None)) (dict z) (map (\<lambda>a. nvalue (nodes ?l a)) D), zlist := l'\<rparr>)
      (elems ?l (A @ E))"
    using removed_zs_ok [OF z inv _ l'(2-4)] ns(2) s(1) by simp
  then show ?thesis using us(1,2) l'(1) s(5) ns(2) out
    by (simp add: RemoveRangeByScoreWithOpt_def DeleteRangeByScore_def nodes_elems)
qed

lemma RemoveRangeByRank_zs_ok:
  assumes z: "zs_ok z es" and lo: "int_succ (rank_pos (length es) start) = lo + 1"
    and hi: "int_succ (rank_pos (length es) stop) = hi + 1"
  shows "\<exists>z'. RemoveRangeByRank start stop z = Some (map prod.swap (between lo hi es), z') \<and> zs_ok z' (outside lo hi es)"
proof -
  let ?l = "zlist z"
  obtain ns where ns: "skl ?l ns" "es = elems ?l ns" using zs_okE [OF z] by metis
  obtain A D E where s: "ns = A @ D @ E" "between lo hi ns = D" "outside lo hi ns = A @ E"
    "A = [] \<or> int (length A) \<le> lo" "D @ E = [] \<or> lo \<le> int (length A)"
    "D = [] \<or> int (length A + length D) \<le> hi + 1" "E = [] \<or> hi + 1 \<le> int (length A + length D)"
    using between_split [of ns lo hi] by blast
  have inv: "skl ?l (A @ D @ E)" using ns(1) s(1) by simp
  have "cuts (\<lambda>r _. r < lo + 1) ?l (header ?l # A) (D @ E)"
    using s(4,5) by (auto simp: cuts_def Cons_eq_append_conv)
  then obtain us where us: "search (\<lambda>r _. r < lo + 1) ?l = Some us"
    "loadNext ?l (fst (us ! 0)) 0 = Some (first (D @ E))" "snd (us ! 0) = int (length A)"
    "\<And>i. i < highestLevel ?l \<Longrightarrow> at_level ?l (header ?l # A) i (us ! i)"
    using search_cut [OF inv] by metis
  have "int (length A) + 1 + int (length D1) \<le> hi + 1" if "D = D1 @ d # D2" for D1 d D2
    using that s(6) by simp
  moreover have "\<not> int (length A) + 1 + int (length D) \<le> hi + 1" if "E = e # E2" for e E2
    using that s(7) by simp
  ultimately obtain l' where l': "delete_loop (\<lambda>r _. r \<le> hi + 1) us (first (D @ E)) (int (length A) + 1) ?l (dict z) [] =
      Some (l', foldl (\<lambda>d v. d(v := None)) (dict z) (map (\<lambda>a. nvalue (nodes ?l a)) D), map (node_of ?l) D)"
    "skl l' (A @ E)" "header l' = header ?l"
    "\<forall>a. score (nodes l' a) = score (nodes ?l a) \<and> nvalue (nodes l' a) = nvalue (nodes ?l a)"
    using delete_loop_nodes [OF inv us(4), of "\<lambda>r _. r \<le> hi + 1" "int (length A) + 1" "dict z" "[]"]
    by (simp only: append_Nil) blast
  have "zs_ok (z\<lparr>dict := foldl (\<lambda>d v. d(v := None)) (dict z) (map (\<lambda>a. nvalue (nodes ?l a)) D), zlist := l'\<rparr>)
      (elems ?l (A @ E))"
    using removed_zs_ok [OF z inv _ l'(2-4)] ns(2) s(1) by simp
  moreover have "len ?l = int (length es)" by (rule zs_ok_len [OF z])
  moreover have "elems ?l (A @ E) = outside lo hi es" "map (node_of ?l) D = map prod.swap (between lo hi es)"
    using s(2,3) ns(2) by (simp_all add: elems_def between_map node_of_elem)
  moreover have "(if k < 0 then int (length es) + k else k) = rank_pos (length es) k" for k
    by (simp add: rank_pos_def)
  ultimately show ?thesis using us(1-3) l'(1) lo hi
    by (simp add: RemoveRangeByRank_def DeleteRangeByRank_def Let_def)
qed

end
