(* ===== verification/ZSetAlg.thy ===== *)
theory ZSetAlg
  imports ZSetRemove
begin

text \<open>
  Counts, increments, the empty set, and the union and intersection of sorted sets. The set operations
  use the destination only through its \<open>Add\<close>: the locale \<open>scored_set\<close> is that interface.
\<close>

section \<open>The empty set\<close>

lemma skl_new: "skl newFloat64List []"
  by (auto simp: skl_def newFloat64List_def newFloat64ListNode_def shaped_def slot_def
      maxLevel_def op1_def op2_def)

lemma New_zs_ok: "zs_ok NewFloat64 []"
  using skl_new
  by (auto simp: zs_ok_def es_ok_def NewFloat64_def elems_def head_elem_def elem_of_def newFloat64List_def
      newFloat64ListNode_def)

section \<open>Counts\<close>

lemma elems_place:
  assumes "es_ok es" and "es = A @ d # B" and "es = A' @ d # B'"
  shows "length A = length A'"
proof -
  have "distinct es" using assms(1) by (simp add: es_ok_def distinct_map)
  moreover have "es ! length A = d" "length A < length es" by (simp_all add: assms(2))
  moreover have "es ! length A' = d" "length A' < length es" by (simp_all add: assms(3))
  ultimately show ?thesis by (metis nth_eq_iff_index_eq)
qed

lemma CountWithOpt_zs_ok:
  assumes z: "zs_ok z es" and v: "''__HEADER'' \<notin> snd ` set es"
  shows "CountWithOpt mn mx opt z = Some (int (length (filter (in_range mn mx opt) es)))"
proof -
  let ?l = "zlist z" and ?e = "elem_of (zlist z)"
  obtain ns where ns: "skl ?l ns" "es = elems ?l ns" "es_ok (elems ?l ns)" using zs_okE [OF z] by metis
  obtain A D E where f: "ns = A @ D @ E" "filter (in_range mn mx opt) es = elems ?l D"
    "FirstInRange mn mx opt ?l = Some (first D)"
    using FirstInRange_nodes [OF ns(1,3), of mn mx opt] ns(2) by metis
  obtain A' D' E' where g: "ns = A' @ D' @ E'" "filter (in_range mn mx opt) es = elems ?l D'"
    "LastInRange mn mx opt ?l = Some (first (rev D'))"
    using LastInRange_nodes [OF ns(1,3), of mn mx opt] ns(2) by metis
  show ?thesis
  proof (cases D)
    case Nil
    then show ?thesis using f(2,3) by (simp add: CountWithOpt_def elems_def Let_def)
  next
    case (Cons d T)
    have "D' \<noteq> []" "length D' = length D" using f(2) g(2) Cons by (auto simp: elems_def dest: map_eq_imp_length_eq)
    then obtain d' X where D': "D' = X @ [d']" by (metis rev_exhaust)
    have rank: "list_Rank (score (nodes ?l a)) (nvalue (nodes ?l a)) ?l = Some (int (length B) + 1)"
      if "ns = B @ a # C" for a B C
    proof -
      have "es = map ?e B @ (score (nodes ?l a), nvalue (nodes ?l a)) # map ?e C"
        using that ns(2) by (simp add: elems_def elem_of_def)
      then show ?thesis using list_Rank_zs [OF z, of "map ?e B"] v by auto
    qed
    obtain d2 T2 where d2: "D' = d2 # T2" using \<open>D' \<noteq> []\<close> by (cases D') auto
    then have "?e d2 = ?e d" using f(2) g(2) Cons by (simp add: elems_def)
    then have same: "es = map ?e A' @ ?e d # map ?e (T2 @ E')" "es = map ?e A @ ?e d # map ?e (T @ E)"
      using ns(2) arg_cong [OF f(1), of "map ?e"] arg_cong [OF g(1), of "map ?e"] Cons d2 by (simp_all add: elems_def)
    have "es_ok es" using ns(2,3) by simp
    from elems_place [OF this same(2,1)] have "length A = length A'" by simp
    then show ?thesis
      using rank [of A d "T @ E"] rank [of "A' @ X" d' E'] f g D' Cons \<open>length D' = length D\<close>
      by (simp add: CountWithOpt_def elems_def Let_def)
  qed
qed

section \<open>Increments\<close>

lemma IncrBy_zs_ok:
  assumes z: "zs_ok z es" and lv: "randomLevel draws \<noteq> None"
  shows "\<exists>z'. IncrBy draws incr v z =
      (case dict z v of
         None \<Rightarrow> if is_nan incr then Some ((FNum 0, False), z) else Some ((incr, False), z')
       | Some s \<Rightarrow>
           if is_nan incr \<or> is_nan (fadd float64_fmt s incr) then Some ((s, True), z)
           else Some ((fadd float64_fmt s incr, True), z')) \<and>
    (\<forall>sc. sc = (case dict z v of None \<Rightarrow> incr | Some s \<Rightarrow> fadd float64_fmt s incr) \<and> \<not> is_nan incr \<and> \<not> is_nan sc \<longrightarrow>
      zs_ok z' (ins (sc, v) (without v es)))"
proof -
  obtain ns where ns: "skl (zlist z) ns" "es = elems (zlist z) ns" "es_ok (elems (zlist z) ns)"
    "dict z = map_of (map prod.swap es)" "head_elem (zlist z) = (header_score, ''__HEADER'')"
    using zs_okE [OF z] by metis
  obtain k where k: "randomLevel draws = Some k" using lv by blast
  have ok: "es_ok es" using ns by simp
  show ?thesis
  proof (cases "dict z v")
    case None
    then have nv: "v \<notin> snd ` set es" using ns(4) dict_None by metis
    then have wo: "without v es = es" by (metis (mono_tags, lifting) filter_True image_eqI without_def)
    show ?thesis
    proof (cases "is_nan incr")
      case False
      obtain l' ns' where l': "Insert draws incr v (zlist z) = Some (fresh (zlist z), l')" "skl l' ns'"
        "elems l' ns' = ins (incr, v) es" "head_elem l' = head_elem (zlist z)"
        using Insert_elems [OF ns(1,3) False k, of v] ns(2) by metis
      have "zs_ok (z\<lparr>dict := (dict z)(v \<mapsto> incr), zlist := l'\<rparr>) (ins (incr, v) es)"
        unfolding zs_ok_def using ins_ok [OF ok False nv] dict_ins [OF ok nv, of incr] ns(4,5) l'(2-4) by auto
      then show ?thesis using None False l'(1) wo by (auto simp: IncrBy_def)
    qed (simp add: None IncrBy_def)
  next
    case (Some s)
    let ?sc = "fadd float64_fmt s incr"
    have s: "(s, v) \<in> set es" using Some dict_iff [OF ok] ns(4) by simp
    show ?thesis
    proof (cases "is_nan incr \<or> is_nan ?sc")
      case False
      then have nan: "\<not> is_nan ?sc" by simp
      obtain x l' ns' where l': "UpdateScore draws s v ?sc (zlist z) = Some (x, l')" "skl l' ns'"
        "elems l' ns' = ins (?sc, v) (without v es)" "head_elem l' = head_elem (zlist z)"
        using UpdateScore_elems [OF ns(1,3) _ nan k, of s v] s ns(2) by metis
      have nv: "v \<notin> snd ` set (without v es)" by (auto simp: without_def)
      have "zs_ok (z\<lparr>dict := (dict z)(v \<mapsto> ?sc), zlist := l'\<rparr>) (ins (?sc, v) (without v es))"
        unfolding zs_ok_def
        using ins_ok [OF without_ok [OF ok] nan nv] dict_ins [OF without_ok [OF ok] nv, of ?sc] dict_without [of v es]
          ns(4,5) l'(2-4) by auto
      then show ?thesis using Some False l'(1) by (auto simp: IncrBy_def Let_def)
    qed (auto simp: Some IncrBy_def Let_def)
  qed
qed

section \<open>Unions and intersections\<close>

text \<open>What the set operations need of the destination: a value that is not there is added with its score, and a NaN is refused.\<close>

locale scored_set =
  fixes ok :: "'s \<Rightarrow> bool" and scores :: "'s \<Rightarrow> string \<rightharpoonup> gofloat" and add :: "'s adder"
  assumes add_new: "ok z \<Longrightarrow> randomLevel ds \<noteq> None \<Longrightarrow> scores z v = None \<Longrightarrow> \<not> is_nan sc \<Longrightarrow>
      \<exists>b z'. add ds sc v z = Some (b, z') \<and> ok z' \<and> scores z' = (scores z)(v \<mapsto> sc)"
    and add_nan: "is_nan sc \<Longrightarrow> add ds sc v z = Some (False, z)"
begin

lemma add_any:
  assumes "ok z" and "randomLevel ds \<noteq> None" and "scores z v = None"
  shows "\<exists>b z'. add ds sc v z = Some (b, z') \<and> ok z' \<and> scores z' = (scores z)(v := if is_nan sc then None else Some sc)"
  using add_new [OF assms, of sc] add_nan [of sc ds v z] assms(1,3) by (cases "is_nan sc") (auto simp: fun_upd_idem)

lemma add_all_scores:
  assumes "ok z" and "\<forall>x \<in> set xs. randomLevel (fst x) \<noteq> None \<and> scores z (fst (snd x)) = None"
    and "distinct (map (fst \<circ> snd) xs)"
  shows "\<exists>z'. add_all add xs z = Some z' \<and> ok z' \<and>
    (\<forall>v. scores z' v = (case map_of (map snd xs) v of Some sc \<Rightarrow> if is_nan sc then None else Some sc | None \<Rightarrow> scores z v))"
  using assms
proof (induction xs arbitrary: z)
  case (Cons x xs)
  obtain ds v sc where x: "x = (ds, v, sc)" by (metis prod_cases3)
  obtain b z1 where z1: "add ds sc v z = Some (b, z1)" "ok z1"
    "scores z1 = (scores z)(v := if is_nan sc then None else Some sc)"
    using add_any [of z ds v sc] Cons.prems(1,2) x by auto
  have "\<forall>y \<in> set xs. randomLevel (fst y) \<noteq> None \<and> scores z1 (fst (snd y)) = None"
    using Cons.prems(2,3) z1(3) x by (auto simp: image_iff)
  then obtain z' where z': "add_all add xs z1 = Some z'" "ok z'"
    "\<And>v. scores z' v = (case map_of (map snd xs) v of Some sc \<Rightarrow> if is_nan sc then None else Some sc | None \<Rightarrow> scores z1 v)"
    using Cons.IH [OF z1(2)] Cons.prems(3) by auto
  have "map_of (map snd xs) v = None" using Cons.prems(3) x by (auto simp: map_of_eq_None_iff image_image comp_def)
  then show ?case using z' z1(1,3) x by (auto split: option.split)
qed auto

lemma inter_loop_add_all:
  "inter_loop add ns zs z = add_all add
     (concat (map (\<lambda>(ds, v, sc). case inter_score v zs sc of Some s \<Rightarrow> [(ds, v, s)] | None \<Rightarrow> []) ns)) z"
  by (induction ns arbitrary: z) (auto split: option.split Option.bind_split)

end

interpretation zadd: scored_set "\<lambda>z. \<exists>es. zs_ok z es" dict Add
proof
  fix z :: Float64Set and ds v and sc :: gofloat
  assume "\<exists>es. zs_ok z es" and lv: "randomLevel ds \<noteq> None" and v: "dict z v = None" and nan: "\<not> is_nan sc"
  then obtain es where z: "zs_ok z es" by blast
  then have d: "dict z = map_of (map prod.swap es)" and ok: "es_ok es" by (auto simp: zs_ok_def)
  have nv: "v \<notin> snd ` set es" using v d dict_None by metis
  then have wo: "without v es = es" by (metis (mono_tags, lifting) filter_True image_eqI without_def)
  have "(is_nan sc \<or> (\<exists>s. (s, v) \<in> set es \<and> feq sc s)) = False" using nv nan by force
  then obtain z' where z': "Add ds sc v z = Some (\<not> is_nan sc \<and> v \<notin> snd ` set es, z')" "zs_ok z' (ins (sc, v) es)"
    using Add_zs_ok [OF z lv, of sc v] wo by (simp only: if_False) blast
  then have "dict z' = (dict z)(v \<mapsto> sc)" using d dict_ins [OF ok nv, of sc] by (simp add: zs_ok_def)
  then show "\<exists>b z'. Add ds sc v z = Some (b, z') \<and> (\<exists>es. zs_ok z' es) \<and> dict z' = (dict z)(v \<mapsto> sc)"
    using z' by blast
next
  fix z :: Float64Set and ds v and sc :: gofloat
  assume "is_nan sc"
  then show "Add ds sc v z = Some (False, z)" by (simp add: Add_def)
qed

definition drop_nan :: "gofloat option \<Rightarrow> gofloat option" where
  "drop_nan o' = (case o' of Some sc \<Rightarrow> if is_nan sc then None else Some sc | None \<Rightarrow> None)"

definition acc_score :: "gofloat option \<Rightarrow> gofloat option \<Rightarrow> gofloat option" where
  "acc_score a s = (case s of None \<Rightarrow> a | Some sc \<Rightarrow> Some (case a of Some p \<Rightarrow> fadd float64_fmt sc p | None \<Rightarrow> sc))"

text \<open>The sum of the scores of a value over the sets that have it, added up in their order.\<close>

definition total_score :: "Float64Set list \<Rightarrow> string \<Rightarrow> gofloat option" where
  "total_score zs v = foldl acc_score None (map (\<lambda>z. dict z v) zs)"

text \<open>The sum of the scores of a value that all the sets have.\<close>

definition common_score :: "Float64Set list \<Rightarrow> string \<Rightarrow> gofloat option" where
  "common_score zs v =
     (if (\<exists>z \<in> set zs. dict z v = None) then None
      else case map (\<lambda>z. the (dict z v)) zs of [] \<Rightarrow> None | s # ss \<Rightarrow> Some (foldl (fadd float64_fmt) s ss))"

lemma Range_all:
  assumes "zs_ok z es"
  shows "Range 0 (- 1) z = Some (map prod.swap es)"
proof -
  have "between 0 (int (length es) - 1) es = es" by (auto simp: between_def intro: nths_all)
  then show ?thesis using Range_zs_ok [OF assms, of 0 "- 1"] by (cases es) (simp_all add: rank_pos_def)
qed

lemma union_scores_at:
  "distinct (map fst ns) \<Longrightarrow> union_scores ns m v = acc_score (m v) (map_of ns v)"
proof (induction ns arbitrary: m)
  case (Cons n ns)
  obtain w sc where n: "n = (w, sc)" by fastforce
  have "map_of ns w = None" using Cons.prems n by (simp add: map_of_eq_None_iff)
  then show ?case using Cons n by (auto simp: acc_score_def split: option.split)
qed (simp add: acc_score_def)

lemma union_sets_at:
  assumes "\<forall>z \<in> set zs. \<exists>es. zs_ok z es"
  shows "union_sets zs m = Some (\<lambda>v. foldl acc_score (m v) (map (\<lambda>z. dict z v) zs))"
  using assms
proof (induction zs arbitrary: m)
  case (Cons z zs)
  obtain es where z: "zs_ok z es" using Cons.prems by auto
  then have "distinct (map fst (map prod.swap es))" by (simp add: zs_ok_def es_ok_def comp_def)
  then have "union_scores (map prod.swap es) m = (\<lambda>v. acc_score (m v) (dict z v))"
    using z by (simp add: union_scores_at fun_eq_iff zs_ok_def)
  then show ?case using Cons Range_all [OF z] by simp
qed simp

lemma entries_simps [simp]:
  "entries m [] = []"
  "entries m ((ds, v) # order) = (case m v of Some sc \<Rightarrow> [(ds, v, sc)] | None \<Rightarrow> []) @ entries m order"
  by (simp_all add: entries_def)

lemma entries_mem: "x \<in> set (entries m order) \<Longrightarrow> (fst x, fst (snd x)) \<in> set order"
  by (induction order) (auto split: option.splits)

lemma map_of_entries:
  "distinct (map snd order) \<Longrightarrow> map_of (map snd (entries m order)) v = (if v \<in> snd ` set order then m v else None)"
  by (induction order) (force split: option.split)+

lemma entries_distinct: "distinct (map snd order) \<Longrightarrow> distinct (map (fst \<circ> snd) (entries m order))"
proof (induction order)
  case (Cons x order)
  obtain ds v where x: "x = (ds, v)" by fastforce
  then have "v \<notin> (fst \<circ> snd) ` set (entries m order)" using Cons.prems entries_mem by (force simp: image_iff)
  then show ?case using Cons x by (auto split: option.split)
qed simp

lemma total_score_None: "\<forall>z \<in> set zs. dict z v = None \<Longrightarrow> total_score zs v = None"
  by (induction zs) (simp_all add: total_score_def acc_score_def)

lemma inter_score_common:
  "inter_score v zs sc = (if (\<exists>z \<in> set zs. dict z v = None) then None
     else Some (foldl (fadd float64_fmt) sc (map (\<lambda>z. the (dict z v)) zs)))"
  by (induction zs arbitrary: sc) (auto simp: Score_def split: option.splits)

end
