(* ===== verification/ZSetRun.thy ===== *)
theory ZSetRun
  imports ZSetAlg
begin

text \<open>
  The sorted set as a machine that answers a sequence of calls, the sorted list of elements as the
  machine that specifies it, and the properties of the set.
\<close>

section \<open>The two machines\<close>

datatype zop =
    OAdd "nat list" gofloat string
  | OIncrBy "nat list" gofloat string
  | ORemove string
  | ORemoveRangeByRank int int
  | ORemoveRangeByScore gofloat gofloat RangeOpt
  | OLen
  | OScore string
  | OContains string
  | ORank string
  | ORevRank string
  | OCount gofloat gofloat RangeOpt
  | ORange int int
  | ORevRange int int
  | ORangeByScore gofloat gofloat RangeOpt
  | ORevRangeByScore gofloat gofloat RangeOpt

datatype zres = RBool bool | RScore gofloat bool | RInt int | RNodes "Float64Node list"

fun zstep :: "zop \<Rightarrow> Float64Set \<Rightarrow> (zres \<times> Float64Set) option" where
  "zstep (OAdd ds sc v) z = map_option (\<lambda>(b, z'). (RBool b, z')) (Add ds sc v z)"
| "zstep (OIncrBy ds sc v) z = map_option (\<lambda>((s, b), z'). (RScore s b, z')) (IncrBy ds sc v z)"
| "zstep (ORemove v) z = map_option (\<lambda>((s, b), z'). (RScore s b, z')) (Remove v z)"
| "zstep (ORemoveRangeByRank i j) z = map_option (\<lambda>(ns, z'). (RNodes ns, z')) (RemoveRangeByRank i j z)"
| "zstep (ORemoveRangeByScore mn mx opt) z = map_option (\<lambda>(ns, z'). (RNodes ns, z')) (RemoveRangeByScoreWithOpt mn mx opt z)"
| "zstep OLen z = Some (RInt (Len z), z)"
| "zstep (OScore v) z = Some (case Score v z of (s, b) \<Rightarrow> RScore s b, z)"
| "zstep (OContains v) z = Some (RBool (Contains v z), z)"
| "zstep (ORank v) z = map_option (\<lambda>r. (RInt r, z)) (Rank v z)"
| "zstep (ORevRank v) z = map_option (\<lambda>r. (RInt r, z)) (RevRank v z)"
| "zstep (OCount mn mx opt) z = map_option (\<lambda>r. (RInt r, z)) (CountWithOpt mn mx opt z)"
| "zstep (ORange i j) z = map_option (\<lambda>ns. (RNodes ns, z)) (Range i j z)"
| "zstep (ORevRange i j) z = map_option (\<lambda>ns. (RNodes ns, z)) (RevRange i j z)"
| "zstep (ORangeByScore mn mx opt) z = map_option (\<lambda>ns. (RNodes ns, z)) (RangeByScoreWithOpt mn mx opt z)"
| "zstep (ORevRangeByScore mx mn opt) z = map_option (\<lambda>ns. (RNodes ns, z)) (RevRangeByScoreWithOpt mx mn opt z)"

fun zrun :: "zop list \<Rightarrow> Float64Set \<Rightarrow> (zres list \<times> Float64Set) option" where
  "zrun [] z = Some ([], z)"
| "zrun (op # ops) z = do { (r, z') \<leftarrow> zstep op z; (rs, z'') \<leftarrow> zrun ops z'; Some (r # rs, z'') }"

definition lookup :: "string \<Rightarrow> elem list \<Rightarrow> gofloat option" where
  "lookup v es = map_of (map prod.swap es) v"

text \<open>The specification: what each call answers and what it leaves of the sorted list.\<close>

fun sstep :: "zop \<Rightarrow> elem list \<Rightarrow> zres \<times> elem list" where
  "sstep (OAdd ds sc v) es =
     (RBool (\<not> is_nan sc \<and> lookup v es = None),
      if is_nan sc \<or> (case lookup v es of Some s \<Rightarrow> feq sc s | None \<Rightarrow> False) then es else ins (sc, v) (without v es))"
| "sstep (OIncrBy ds incr v) es =
     (let old = (case lookup v es of Some s \<Rightarrow> s | None \<Rightarrow> FNum 0);
          new = (case lookup v es of Some s \<Rightarrow> fadd float64_fmt s incr | None \<Rightarrow> incr)
      in if is_nan incr \<or> is_nan new then (RScore old (lookup v es \<noteq> None), es)
         else (RScore new (lookup v es \<noteq> None), ins (new, v) (without v es)))"
| "sstep (ORemove v) es =
     ((case lookup v es of Some s \<Rightarrow> RScore s True | None \<Rightarrow> RScore (FNum 0) False), without v es)"
| "sstep (ORemoveRangeByRank i j) es =
     (let lo = rank_pos (length es) i; hi = rank_pos (length es) j
      in (RNodes (map prod.swap (between lo hi es)), outside lo hi es))"
| "sstep (ORemoveRangeByScore mn mx opt) es =
     (RNodes (map prod.swap (filter (in_range mn mx opt) es)), filter (\<lambda>e. \<not> in_range mn mx opt e) es)"
| "sstep OLen es = (RInt (int (length es)), es)"
| "sstep (OScore v) es = ((case lookup v es of Some s \<Rightarrow> RScore s True | None \<Rightarrow> RScore (FNum 0) False), es)"
| "sstep (OContains v) es = (RBool (lookup v es \<noteq> None), es)"
| "sstep (ORank v) es = (RInt (if lookup v es = None then - 1 else place v es), es)"
| "sstep (ORevRank v) es = (RInt (if lookup v es = None then - 1 else int (length es) - 1 - place v es), es)"
| "sstep (OCount mn mx opt) es = (RInt (int (length (filter (in_range mn mx opt) es))), es)"
| "sstep (ORange i j) es = (RNodes (map prod.swap (between (rank_pos (length es) i) (rank_pos (length es) j) es)), es)"
| "sstep (ORevRange i j) es =
     (RNodes (map prod.swap (between (rank_pos (length es) i) (rank_pos (length es) j) (rev es))), es)"
| "sstep (ORangeByScore mn mx opt) es = (RNodes (map prod.swap (filter (in_range mn mx opt) es)), es)"
| "sstep (ORevRangeByScore mx mn opt) es = (RNodes (map prod.swap (rev (filter (in_range mn mx opt) es))), es)"

fun srun :: "zop list \<Rightarrow> elem list \<Rightarrow> zres list \<times> elem list" where
  "srun [] es = ([], es)"
| "srun (op # ops) es =
     (case sstep op es of (r, es') \<Rightarrow> case srun ops es' of (rs, es'') \<Rightarrow> (r # rs, es''))"

text \<open>
  The calls for which the two agree: the draws of a level end, no value is the name of the header node,
  and a removed range has ranks below the greatest \<open>int\<close> (and sets are shorter than that).
\<close>

fun zvalid :: "zop \<Rightarrow> bool" where
  "zvalid (OAdd ds sc v) = (randomLevel ds \<noteq> None \<and> v \<noteq> ''__HEADER'')"
| "zvalid (OIncrBy ds sc v) = (randomLevel ds \<noteq> None \<and> v \<noteq> ''__HEADER'')"
| "zvalid (ORemoveRangeByRank i j) = (min_i64 \<le> i \<and> i < max_i64 \<and> min_i64 \<le> j \<and> j < max_i64)"
| "zvalid _ = True"

section \<open>The simulation\<close>

lemma lookup_mem: "es_ok es \<Longrightarrow> lookup v es = Some s \<longleftrightarrow> (s, v) \<in> set es"
  unfolding lookup_def by (rule dict_iff)

lemma lookup_None: "lookup v es = None \<longleftrightarrow> v \<notin> snd ` set es"
  unfolding lookup_def by (rule dict_None)

lemma zs_ok_lookup: "zs_ok z es \<Longrightarrow> dict z v = lookup v es \<and> es_ok es"
  by (simp add: zs_ok_def lookup_def)

lemma int_succ_small: "min_i64 \<le> k + 1 \<Longrightarrow> k < max_i64 \<Longrightarrow> int_succ k = k + 1"
  unfolding int_succ_def by (rule sint_of_int64) simp_all

definition no_header :: "elem list \<Rightarrow> bool" where
  "no_header es \<longleftrightarrow> ''__HEADER'' \<notin> snd ` set es"

lemma no_header_lookup: "no_header es \<Longrightarrow> lookup v es \<noteq> None \<Longrightarrow> v \<noteq> ''__HEADER''"
  by (metis lookup_None no_header_def)

lemma ins_props: "set (ins e es) = insert e (set es)" "length (ins e es) = Suc (length es)"
proof -
  define A B where "A = takeWhile (\<lambda>x. zlt x e) es" and "B = dropWhile (\<lambda>x. zlt x e) es"
  have es: "es = A @ B" by (simp add: A_def B_def)
  have "ins e es = A @ e # B" by (simp only: ins_def A_def B_def)
  then show "set (ins e es) = insert e (set es)" "length (ins e es) = Suc (length es)"
    by (simp_all, simp_all add: es)
qed

lemma nths_length: "length (nths xs I) \<le> length xs"
  using card_mono [of "{..<length xs}" "{i. i < length xs \<and> i \<in> I}"] by (auto simp: length_nths)

lemma sstep_length: "length (snd (sstep op es)) \<le> Suc (length es)"
  by (cases op) (auto simp: ins_props without_def Let_def outside_def le_SucI length_filter_le nths_length)

lemma sstep_no_header: "zvalid op \<Longrightarrow> no_header es \<Longrightarrow> no_header (snd (sstep op es))"
  by (cases op) (auto simp: no_header_def ins_props without_def Let_def outside_def set_nths)

lemma zstep_Add:
  assumes "zs_ok z es" and "randomLevel ds \<noteq> None"
  shows "\<exists>z'. zstep (OAdd ds sc v) z = Some (fst (sstep (OAdd ds sc v) es), z') \<and> zs_ok z' (snd (sstep (OAdd ds sc v) es))"
proof -
  have "(s, v) \<in> set es \<longleftrightarrow> lookup v es = Some s" for s
    using zs_ok_lookup [OF assms(1), of v] lookup_mem [of es v s] by simp
  then have "(\<exists>s. (s, v) \<in> set es \<and> feq sc s) \<longleftrightarrow> (case lookup v es of Some s \<Rightarrow> feq sc s | None \<Rightarrow> False)"
    by (cases "lookup v es") simp_all
  then show ?thesis using Add_zs_ok [OF assms, of sc v] by (auto simp: lookup_None)
qed

lemma zstep_IncrBy:
  assumes "zs_ok z es" and "randomLevel ds \<noteq> None"
  shows "\<exists>z'. zstep (OIncrBy ds sc v) z = Some (fst (sstep (OIncrBy ds sc v) es), z') \<and>
    zs_ok z' (snd (sstep (OIncrBy ds sc v) es))"
  using IncrBy_zs_ok [OF assms, of sc v] zs_ok_lookup [OF assms(1), of v] assms(1)
  by (cases "lookup v es"; cases "is_nan sc") (auto simp: Let_def split: if_splits)

lemma zstep_Remove:
  assumes "zs_ok z es"
  shows "\<exists>z'. zstep (ORemove v) z = Some (fst (sstep (ORemove v) es), z') \<and> zs_ok z' (without v es)"
proof -
  have d: "dict z v = lookup v es" using zs_ok_lookup [OF assms] by simp
  obtain r z' where z': "Remove v z = Some (r, z')" "zs_ok z' (without v es)" using Remove_zs_ok [OF assms, of v] by blast
  then show ?thesis using d by (auto simp: Remove_def split: option.splits Option.bind_splits)
qed

lemma zstep_RemoveRangeByRank:
  assumes "zs_ok z es" and "zvalid (ORemoveRangeByRank i j)" and "int (length es) \<le> max_i64"
  shows "\<exists>z'. zstep (ORemoveRangeByRank i j) z = Some (fst (sstep (ORemoveRangeByRank i j) es), z') \<and>
    zs_ok z' (snd (sstep (ORemoveRangeByRank i j) es))"
proof -
  have "int_succ (rank_pos (length es) k) = rank_pos (length es) k + 1" if "min_i64 \<le> k" "k < max_i64" for k
    by (rule int_succ_small) (use that assms(3) in \<open>auto simp: rank_pos_def\<close>)
  then show ?thesis
    using RemoveRangeByRank_zs_ok [OF assms(1), of i _ j] assms(2) by (fastforce simp: Let_def)
qed

lemma zstep_RemoveRangeByScore: "zs_ok z es \<Longrightarrow>
    \<exists>z'. zstep (ORemoveRangeByScore mn mx opt) z = Some (fst (sstep (ORemoveRangeByScore mn mx opt) es), z') \<and>
      zs_ok z' (snd (sstep (ORemoveRangeByScore mn mx opt) es))"
  using RemoveRangeByScore_zs_ok [of z es mn mx opt] by auto

lemma zs_ok_ranks:
  assumes "zs_ok z es" and "no_header es"
  shows "Rank v z = Some (if lookup v es = None then - 1 else place v es)"
    and "RevRank v z = Some (if lookup v es = None then - 1 else int (length es) - 1 - place v es)"
proof -
  have "Rank v z = Some (- 1) \<and> RevRank v z = Some (- 1)" if "lookup v es = None"
    using zs_ok_lookup [OF assms(1), of v] that by (simp add: Rank_def RevRank_def)
  then show "Rank v z = Some (if lookup v es = None then - 1 else place v es)"
    and "RevRank v z = Some (if lookup v es = None then - 1 else int (length es) - 1 - place v es)"
    using Rank_zs_ok [OF assms(1), of v] no_header_lookup [OF assms(2), of v] lookup_None [of v es] by auto
qed

lemma zstep_sstep:
  assumes z: "zs_ok z es" and h: "no_header es" and op: "zvalid op" and n: "int (length es) \<le> max_i64"
  shows "\<exists>z'. zstep op z = Some (fst (sstep op es), z') \<and> zs_ok z' (snd (sstep op es))"
proof -
  have v: "''__HEADER'' \<notin> snd ` set es" using h by (simp add: no_header_def)
  note queries = zs_ok_lookup [OF z] zs_ok_len [OF z] zs_ok_ranks [OF z h] CountWithOpt_zs_ok [OF z v] Range_zs_ok [OF z]
    RevRange_zs_ok [OF z] RangeByScore_zs_ok [OF z]
  show ?thesis
  proof (cases op)
    case OAdd
    then show ?thesis using zstep_Add [OF z] op by simp
  next
    case OIncrBy
    then show ?thesis using zstep_IncrBy [OF z] op by simp
  next
    case ORemove
    then show ?thesis using zstep_Remove [OF z] by simp
  next
    case ORemoveRangeByRank
    then show ?thesis using zstep_RemoveRangeByRank [OF z _ n] op by simp
  next
    case ORemoveRangeByScore
    then show ?thesis using zstep_RemoveRangeByScore [OF z] by simp
  qed (use z queries in \<open>auto simp: Len_def Score_def Contains_def split: option.splits\<close>)
qed

lemma zrun_srun:
  assumes "zs_ok z es" and "no_header es" and "\<forall>op \<in> set ops. zvalid op" and "int (length es + length ops) \<le> max_i64"
  shows "\<exists>z'. zrun ops z = Some (fst (srun ops es), z') \<and> zs_ok z' (snd (srun ops es))"
  using assms
proof (induction ops arbitrary: z es)
  case (Cons op ops)
  obtain z1 where z1: "zstep op z = Some (fst (sstep op es), z1)" "zs_ok z1 (snd (sstep op es))"
    using zstep_sstep [OF Cons.prems(1,2)] Cons.prems(3,4) by auto
  have "int (length (snd (sstep op es)) + length ops) \<le> max_i64"
    using sstep_length [of op es] Cons.prems(4) by simp
  then obtain z2 where "zrun ops z1 = Some (fst (srun ops (snd (sstep op es))), z2)"
    "zs_ok z2 (snd (srun ops (snd (sstep op es))))"
    using Cons.IH [OF z1(2) sstep_no_header [OF _ Cons.prems(2)]] Cons.prems(3) by auto
  then show ?case using z1(1) by (auto simp: split_beta)
qed simp

section \<open>Properties\<close>

text \<open>
  C2: a new sorted set answers every sequence of valid calls, at most as many as the greatest \<open>int\<close>, as the sorted list of its elements
  does: no call panics or runs forever, each returns what the specification returns, and the skip list, its spans and the dictionary hold
  exactly the elements of the list, ordered by score and then by value. A call is valid when it does not add the value \<open>__HEADER\<close>, which the
  skip list takes for its own, does not remove the ranks up to the greatest \<open>int\<close>, which wraps, and its drawing of a level ends.
\<close>

theorem zset_refines:
  assumes "\<forall>op \<in> set ops. zvalid op" and "int (length ops) \<le> max_i64"
  shows "\<exists>z. zrun ops NewFloat64 = Some (fst (srun ops []), z) \<and> zs_ok z (snd (srun ops []))"
  using zrun_srun [OF New_zs_ok, of ops] assms by (simp add: no_header_def)

definition demo_ops :: "zop list" where
  "demo_ops = [OAdd [1] (FNum 2) ''b'', OAdd [0, 1] (FNum 1) ''a'', OAdd [1] (FNum 3) ''a'', ORange 0 (- 1), ORank ''a'',
     ORemoveRangeByRank 0 0, OLen]"

theorem zset_refines_witness:
  "list_all zvalid demo_ops \<and> int (length demo_ops) \<le> max_i64 \<and>
   (\<exists>z. zrun demo_ops NewFloat64 =
     Some ([RBool True, RBool True, RBool False, RNodes [(''b'', FNum 2), (''a'', FNum 3)], RInt 1,
       RNodes [(''b'', FNum 2)], RInt 1], z))"
proof -
  have v: "\<forall>op \<in> set demo_ops. zvalid op" by code_simp
  have n: "int (length demo_ops) \<le> max_i64" by (simp add: demo_ops_def)
  have "fst (srun demo_ops []) = [RBool True, RBool True, RBool False, RNodes [(''b'', FNum 2), (''a'', FNum 3)],
      RInt 1, RNodes [(''b'', FNum 2)], RInt 1]" by code_simp
  then show ?thesis using zset_refines [OF v n] v n by (auto simp: list_all_iff)
qed

text \<open>Sets for the witnesses.\<close>

lemma one_zs: "\<exists>z. zs_ok z [(FNum 1, ''a'')]"
  using Add_zs_ok [OF New_zs_ok, of "[1]" "FNum 1" "''a''"] by (auto simp: randomLevel_def is_nan_def ins_def without_def)

lemma two_zs: "\<exists>z. zs_ok z [(FNum 1, ''a''), (FNum 2, ''b'')]"
proof -
  obtain z where z: "zs_ok z [(FNum 1, ''a'')]" using one_zs by blast
  have "(if is_nan (FNum 2) \<or> (\<exists>s. (s, ''b'') \<in> set [(FNum 1, ''a'')] \<and> feq (FNum 2) s) then [(FNum 1, ''a'')]
      else ins (FNum 2, ''b'') (without ''b'' [(FNum 1, ''a'')])) = [(FNum 1, ''a''), (FNum 2, ''b'')]"
    by (simp add: is_nan_def ins_def without_def zlt_def flt_def)
  then show ?thesis using Add_zs_ok [OF z, of "[1]" "FNum 2" "''b''"] by (simp add: randomLevel_def) blast
qed

lemma place_split: "es_ok (A @ (s, v) # B) \<Longrightarrow> place v (A @ (s, v) # B) = int (length A)"
  unfolding place_def by (subst takeWhile_append2) (auto simp: es_ok_def)

lemma between_one: "between (int (length A)) (int (length A)) (A @ x # B) = [x]"
proof (induction A)
  case Nil
  have "{i. (0 :: int) \<le> int i \<and> int i \<le> 0} = {0}" by auto
  then show ?case by (simp add: between_def nths_Cons)
next
  case (Cons a A)
  then show ?case by (simp add: between_Cons)
qed

text \<open>
  C29: \<open>Rank\<close> and \<open>Range\<close> are inverse on a well-formed set: the range from and to the rank of a stored value is that value with its
  score, and \<open>RevRange\<close> at the reverse rank gives the same element; the value is not \<open>__HEADER\<close>, which \<open>Rank\<close> never finds.
\<close>

theorem Rank_Range:
  assumes "zs_ok z es" and "(s, v) \<in> set es" and "v \<noteq> ''__HEADER''"
  shows "\<exists>k j. Rank v z = Some k \<and> RevRank v z = Some j \<and> k + j + 1 = Len z \<and>
    Range k k z = Some [(v, s)] \<and> RevRange j j z = Some [(v, s)]"
proof -
  obtain A B where es: "es = A @ (s, v) # B" using assms(2) by (metis split_list)
  have "es_ok es" using assms(1) by (simp add: zs_ok_def)
  then have p: "place v es = int (length A)" using place_split es by simp
  have mem: "v \<in> snd ` set es" using assms(2) by force
  have rev: "rev es = rev B @ (s, v) # rev A" by (simp add: es)
  have "between (int (length B)) (int (length B)) (rev es) = [(s, v)]"
    using between_one [of "rev B" "(s, v)" "rev A"] rev by simp
  then have "RevRange (int (length B)) (int (length B)) z = Some [(v, s)]"
    using RevRange_zs_ok [OF assms(1), of "int (length B)" "int (length B)"] by (simp add: rank_pos_def)
  moreover have "Range (int (length A)) (int (length A)) z = Some [(v, s)]"
    using Range_zs_ok [OF assms(1), of "int (length A)" "int (length A)"] between_one [of A "(s, v)" B] es
    by (simp add: rank_pos_def)
  ultimately show ?thesis using Rank_zs_ok [OF assms(1,3)] mem p es zs_ok_len [OF assms(1)] by (simp add: Len_def)
qed

theorem Rank_Range_witness:
  "\<exists>z k j. zs_ok z [(FNum 1, ''a''), (FNum 2, ''b'')] \<and> Rank ''b'' z = Some k \<and> RevRank ''b'' z = Some j \<and>
    k + j + 1 = Len z \<and> Range k k z = Some [(''b'', FNum 2)] \<and> RevRange j j z = Some [(''b'', FNum 2)]"
proof -
  obtain z where z: "zs_ok z [(FNum 1, ''a''), (FNum 2, ''b'')]" using two_zs by blast
  show ?thesis using Rank_Range [OF z, of "FNum 2" "''b''"] z by auto
qed

text \<open>
  C39: the union of sorted sets holds a value exactly when one of the sets does and the sum of its scores, added up
  in the order of the sets, is a number; that sum is its score. The order in which the map of sums is ranged over
  does not matter.
\<close>

theorem UnionFloat64_scores:
  assumes zs: "\<forall>z \<in> set zs. \<exists>es. zs_ok z es" and order: "distinct (map snd order)" "\<forall>x \<in> set order. randomLevel (fst x) \<noteq> None"
    and keys: "\<forall>z \<in> set zs. dom (dict z) \<subseteq> snd ` set order"
  shows "\<exists>u es. UnionFloat64 order zs = Some u \<and> zs_ok u es \<and> (\<forall>v. dict u v = drop_nan (total_score zs v))"
proof -
  have sums: "union_sets zs Map.empty = Some (total_score zs)"
    using union_sets_at [OF zs, of Map.empty] by (simp add: total_score_def [abs_def])
  let ?xs = "entries (total_score zs) order"
  have "\<forall>x \<in> set ?xs. randomLevel (fst x) \<noteq> None \<and> dict NewFloat64 (fst (snd x)) = None"
    using entries_mem [of _ "total_score zs" order] order(2) by (fastforce simp: NewFloat64_def)
  then obtain u where u: "add_all Add ?xs NewFloat64 = Some u" "\<exists>es. zs_ok u es"
    "\<And>v. dict u v = (case map_of (map snd ?xs) v of Some sc \<Rightarrow> if is_nan sc then None else Some sc | None \<Rightarrow> dict NewFloat64 v)"
    using zadd.add_all_scores [of NewFloat64 ?xs] New_zs_ok entries_distinct [OF order(1)] by blast
  have "map_of (map snd ?xs) v = total_score zs v" for v
  proof (cases "v \<in> snd ` set order")
    case False
    then have "\<forall>z \<in> set zs. dict z v = None" using keys by blast
    then show ?thesis using map_of_entries [OF order(1)] False total_score_None by simp
  qed (simp add: map_of_entries [OF order(1)])
  then have "dict u v = drop_nan (total_score zs v)" for v
    using u(3) [of v] by (simp add: drop_nan_def NewFloat64_def split: option.split)
  then show ?thesis using sums u(1,2) by (auto simp: UnionFloat64_def)
qed

theorem UnionFloat64_scores_witness:
  "\<exists>z1 z2 u. zs_ok z1 [(FNum 1, ''a'')] \<and> zs_ok z2 [(FNum 1, ''a''), (FNum 2, ''b'')] \<and>
    UnionFloat64 [([1], ''b''), ([0, 1], ''a'')] [z1, z2] = Some u \<and> dict u ''b'' = Some (FNum 2) \<and>
    dict u ''a'' = drop_nan (Some (fadd float64_fmt (FNum 1) (FNum 1))) \<and> dict u ''c'' = None"
proof -
  obtain z1 where z1: "zs_ok z1 [(FNum 1, ''a'')]" using one_zs by blast
  obtain z2 where z2: "zs_ok z2 [(FNum 1, ''a''), (FNum 2, ''b'')]" using two_zs by blast
  have d: "dict z1 = [''a'' \<mapsto> FNum 1]" "dict z2 = [''b'' \<mapsto> FNum 2, ''a'' \<mapsto> FNum 1]"
    using z1 z2 by (simp_all add: zs_ok_def)
  have "\<forall>z \<in> set [z1, z2]. \<exists>es. zs_ok z es" "distinct (map snd [([1 :: nat], ''b''), ([0, 1], ''a'')])"
    "\<forall>x \<in> set [([1], ''b''), ([0, 1], ''a'')]. randomLevel (fst x) \<noteq> None"
    "\<forall>z \<in> set [z1, z2]. dom (dict z) \<subseteq> snd ` set [([1 :: nat], ''b''), ([0, 1], ''a'')]"
    using z1 z2 d by (auto simp: randomLevel_def)
  from UnionFloat64_scores [OF this] obtain u where u: "UnionFloat64 [([1], ''b''), ([0, 1], ''a'')] [z1, z2] = Some u"
    "\<And>v. dict u v = drop_nan (total_score [z1, z2] v)" by blast
  show ?thesis using z1 z2 u(1) u(2) [of "''a''"] u(2) [of "''b''"] u(2) [of "''c''"] d
    by (intro exI [of _ z1] exI [of _ z2] exI [of _ u]) (simp add: total_score_def acc_score_def drop_nan_def is_nan_def)
qed

text \<open>
  C40: the intersection of sorted sets holds a value exactly when all the sets do and the sum of its scores is a
  number; that sum is its score.
\<close>

theorem InterFloat64_scores:
  assumes zs: "zs_ok z es" and draws: "\<forall>v. randomLevel (draws v) \<noteq> None"
  shows "\<exists>u us. InterFloat64 draws (z # zs) = Some u \<and> zs_ok u us \<and> (\<forall>v. dict u v = drop_nan (common_score (z # zs) v))"
proof -
  let ?c = "\<lambda>v sc. inter_score v zs sc"
  let ?ns = "map (\<lambda>n. (draws (fst n), n)) (map prod.swap es)"
  let ?xs = "concat (map (\<lambda>(ds, v, sc). case ?c v sc of Some s \<Rightarrow> [(ds, v, s)] | None \<Rightarrow> []) ?ns)"
  let ?m = "\<lambda>v. Option.bind (dict z v) (?c v)"
  have ok: "es_ok es" and d: "dict z = map_of (map prod.swap es)" using zs by (auto simp: zs_ok_def)
  have xs: "?xs = entries ?m (map (\<lambda>e. (draws (snd e), snd e)) es)"
    unfolding entries_def map_map
  proof (intro arg_cong [where f = concat] map_cong refl)
    fix e assume e: "e \<in> set es"
    obtain sc v where sv: "e = (sc, v)" by fastforce
    then have "dict z v = Some sc" using e dict_iff [OF ok, of v sc] d by simp
    then show "((\<lambda>(ds, v, sc). case ?c v sc of Some s \<Rightarrow> [(ds, v, s)] | None \<Rightarrow> []) \<circ>
        ((\<lambda>n. (draws (fst n), n)) \<circ> prod.swap)) e =
      ((\<lambda>(ds, v). case ?m v of Some sc \<Rightarrow> [(ds, v, sc)] | None \<Rightarrow> []) \<circ> (\<lambda>e. (draws (snd e), snd e))) e"
      using sv by (simp split: option.split)
  qed
  have dist: "distinct (map snd (map (\<lambda>e. (draws (snd e), snd e)) es))" using ok by (simp add: es_ok_def comp_def)
  have dist': "distinct (map (fst \<circ> snd) ?xs)" unfolding xs by (rule entries_distinct [OF dist])
  have "\<forall>x \<in> set ?xs. randomLevel (fst x) \<noteq> None \<and> dict NewFloat64 (fst (snd x)) = None"
    unfolding xs using entries_mem [of _ ?m] draws by (fastforce simp: NewFloat64_def)
  then obtain u where u: "add_all Add ?xs NewFloat64 = Some u" "\<exists>es. zs_ok u es"
    "\<And>v. dict u v = (case map_of (map snd ?xs) v of Some sc \<Rightarrow> if is_nan sc then None else Some sc | None \<Rightarrow> dict NewFloat64 v)"
    using zadd.add_all_scores [of NewFloat64 ?xs, OF exI [of "zs_ok NewFloat64", OF New_zs_ok] _ dist'] by blast
  have "map_of (map snd ?xs) v = ?m v" for v
    unfolding xs using map_of_entries [OF dist, of ?m v] dict_None [of es v] d by (auto simp: image_image)
  moreover have "?m v = common_score (z # zs) v" for v
    by (cases "dict z v") (simp_all add: common_score_def inter_score_common)
  ultimately have "dict u v = drop_nan (common_score (z # zs) v)" for v
    using u(3) [of v] by (simp add: drop_nan_def NewFloat64_def split: option.split)
  moreover have "InterFloat64 draws (z # zs) = Some u"
    using u(1) Range_all [OF zs] zadd.inter_loop_add_all [of ?ns zs NewFloat64] by (simp add: InterFloat64_def)
  ultimately show ?thesis using u(2) by blast
qed

theorem InterFloat64_scores_witness:
  "\<exists>z1 z2 u. zs_ok z1 [(FNum 1, ''a''), (FNum 2, ''b'')] \<and> zs_ok z2 [(FNum 1, ''a'')] \<and>
    InterFloat64 (\<lambda>_. [1]) [z1, z2] = Some u \<and> dict u ''b'' = None \<and>
    dict u ''a'' = drop_nan (Some (fadd float64_fmt (FNum 1) (FNum 1)))"
proof -
  obtain z2 where z2: "zs_ok z2 [(FNum 1, ''a'')]" using one_zs by blast
  obtain z1 where z1: "zs_ok z1 [(FNum 1, ''a''), (FNum 2, ''b'')]" using two_zs by blast
  have d: "dict z2 = [''a'' \<mapsto> FNum 1]" "dict z1 = [''b'' \<mapsto> FNum 2, ''a'' \<mapsto> FNum 1]"
    using z1 z2 by (simp_all add: zs_ok_def)
  have "\<forall>v :: string. randomLevel ((\<lambda>_. [1]) v) \<noteq> None" by (simp add: randomLevel_def)
  from InterFloat64_scores [OF z1 this, of "[z2]"] obtain u where u: "InterFloat64 (\<lambda>_. [1]) [z1, z2] = Some u"
    "\<And>v. dict u v = drop_nan (common_score [z1, z2] v)" by blast
  show ?thesis using z1 z2 u(1) u(2) [of "''a''"] u(2) [of "''b''"] d
    by (intro exI [of _ z1] exI [of _ z2] exI [of _ u]) (simp add: common_score_def drop_nan_def)
qed

text \<open>
  \<open>RemoveRangeByRank\<close> up to the greatest \<open>int\<close> removes nothing, though \<open>Range\<close> with the same bounds
  returns the whole set: the rank is incremented without a check and wraps around.
\<close>

theorem RemoveRangeByRank_wraps:
  "\<exists>z z'. zs_ok z [(FNum 1, ''a'')] \<and> Range 0 max_i64 z = Some [(''a'', FNum 1)] \<and>
    RemoveRangeByRank 0 max_i64 z = Some ([], z') \<and> zs_ok z' [(FNum 1, ''a'')]"
proof -
  obtain z where z: "zs_ok z [(FNum 1, ''a'')]" using one_zs by blast
  have "int_succ (rank_pos (length [(FNum 1, ''a'')]) 0) = 0 + 1" "int_succ (rank_pos (length [(FNum 1, ''a'')]) max_i64) = (min_i64 - 1) + 1"
    by (simp_all add: int_succ_def rank_pos_def)
  from RemoveRangeByRank_zs_ok [OF z this] obtain z' where
    "RemoveRangeByRank 0 max_i64 z = Some ([], z')" "zs_ok z' [(FNum 1, ''a'')]"
    by (auto simp: between_Cons outside_Cons)
  moreover have "Range 0 max_i64 z = Some [(''a'', FNum 1)]"
    using Range_zs_ok [OF z, of 0 max_i64] by (simp add: between_Cons rank_pos_def)
  ultimately show ?thesis using z by blast
qed

end
