(* ===== verification/LeapArray.thy ===== *)
theory LeapArray
  imports Prelude
begin

text \<open>
  The leap array (\<open>window/array.go\<close>, \<open>window/bucket.go\<close>, \<open>window/leap_array.go\<close>): a ring of time
  buckets that goroutines share without a lock around the ring. The buckets are objects of a store
  and a slot of the ring holds an address, so that a compare-and-swap compares identities. A call of
  \<open>getBucketOfTime\<close> is a sequence of steps (load the slot; compare the start and try the lock; swap and
  unlock), which the steps of other calls may separate. The start of a bucket does not change once it is in
  the ring, so a comparison may be one step with the lock that follows it; nobody waits for the lock, so
  the swap may be one with the unlocking. A query loads the slots one by one.
\<close>

section \<open>Model\<close>

record 'v Bucket =
  Start :: u64
  Value :: 'v

text \<open>The interface that the user of the window implements.\<close>

record 'v BucketBuilder =
  NewEmptyBucket :: 'v
  Reset :: "'v Bucket \<Rightarrow> u64 \<Rightarrow> 'v Bucket"

datatype window_err = ErrBucketBuilderIsNil | ErrWindowNotSegmentation | ErrTimeBehindStart

definition isHit :: "'v Bucket \<Rightarrow> u64 \<Rightarrow> u64 \<Rightarrow> bool" where
  "isHit b now sz \<longleftrightarrow> Start b \<le> now \<and> now < Start b + sz"

definition calculateStartTime :: "u64 \<Rightarrow> u64 \<Rightarrow> u64" where
  "calculateStartTime now sz = now - (now mod sz)"

record 'v AtomicArray =
  arr_length :: u64
  data :: "nat option list"
  store :: "nat \<Rightarrow> 'v Bucket"
  fresh :: nat

definition offset :: "'v AtomicArray \<Rightarrow> u64 \<Rightarrow> nat option" where
  "offset a index = (if arr_length a = 0 then None else Some (unat (index mod arr_length a)))"

definition getBucket :: "'v AtomicArray \<Rightarrow> u64 \<Rightarrow> nat option" where
  "getBucket a index = (case offset a index of Some i \<Rightarrow> data a ! i | None \<Rightarrow> None)"

text \<open>The new bucket gets an address when it enters the ring.\<close>

definition compareAndSwap :: "u64 \<Rightarrow> nat option \<Rightarrow> 'v Bucket \<Rightarrow> 'v AtomicArray \<Rightarrow> nat option \<times> 'v AtomicArray" where
  "compareAndSwap index old new a =
     (case offset a index of
        Some i \<Rightarrow>
          if data a ! i = old then
            (Some (fresh a), a\<lparr>data := (data a)[i := Some (fresh a)], store := (store a)(fresh a := new), fresh := fresh a + 1\<rparr>)
          else (None, a)
      | None \<Rightarrow> (None, a))"

fun fill :: "u64 \<Rightarrow> 'v \<Rightarrow> nat list \<Rightarrow> u64 \<Rightarrow> 'v AtomicArray \<Rightarrow> u64 \<times> 'v AtomicArray" where
  "fill sz v [] st a = (st, a)"
| "fill sz v (i # is) st a =
     fill sz v is (st + sz) (a\<lparr>data := (data a)[i := Some i], store := (store a)(i := \<lparr>Start = st, Value = v\<rparr>)\<rparr>)"

text \<open>A division by zero panics.\<close>

definition NewAtomicArrayWithTime :: "u64 \<Rightarrow> u64 \<Rightarrow> u64 \<Rightarrow> 'v BucketBuilder \<Rightarrow> 'v AtomicArray option" where
  "NewAtomicArrayWithTime n sz now B =
     (if sz = 0 \<or> n = 0 then None
      else
        let index = unat ((now div sz) mod n);
            v = NewEmptyBucket B;
            a = \<lparr>arr_length = n, data = replicate (unat n) None, store = (\<lambda>_. \<lparr>Start = 0, Value = v\<rparr>), fresh = unat n\<rparr>;
            (st, a1) = fill sz v [index..<unat n] (calculateStartTime now sz) a
        in Some (snd (fill sz v [0..<index] st a1)))"

record 'v LeapArray =
  locked :: bool
  bucketSize :: u64
  intervalSize :: u64
  n :: u64
  array :: "'v AtomicArray"

definition getTimeIndex :: "u64 \<Rightarrow> 'v LeapArray \<Rightarrow> u64" where
  "getTimeIndex now s = (now div bucketSize s) mod arr_length (array s)"

definition isDisable :: "u64 \<Rightarrow> 'v Bucket \<Rightarrow> 'v LeapArray \<Rightarrow> bool" where
  "isDisable now b s \<longleftrightarrow> intervalSize s < now - Start b"

text \<open>The queries: \<open>slots i\<close> is the array at the moment the slot \<open>i\<close> is loaded.\<close>

definition read_slot :: "u64 \<Rightarrow> (u64 \<Rightarrow> bool) \<Rightarrow> 'v LeapArray \<Rightarrow> nat \<Rightarrow> nat list" where
  "read_slot now chick s i =
     (case data (array s) ! i of
        None \<Rightarrow> []
      | Some a \<Rightarrow> if isDisable now (store (array s) a) s \<or> \<not> chick (Start (store (array s) a)) then [] else [a])"

definition ValuesChick :: "u64 \<Rightarrow> (u64 \<Rightarrow> bool) \<Rightarrow> (nat \<Rightarrow> 'v LeapArray) \<Rightarrow> nat list" where
  "ValuesChick now chick slots = concat (map (\<lambda>i. read_slot now chick (slots i) i) [0..<unat (arr_length (array (slots 0)))])"

definition getValueOfTime :: "u64 \<Rightarrow> (nat \<Rightarrow> 'v LeapArray) \<Rightarrow> nat list" where
  "getValueOfTime now slots = concat (map (\<lambda>i. read_slot now (\<lambda>_. True) (slots i) i) [0..<unat (arr_length (array (slots 0)))])"

definition NewLeapArray :: "u64 \<Rightarrow> u64 \<Rightarrow> 'v BucketBuilder option \<Rightarrow> u64 \<Rightarrow> (window_err, 'v LeapArray) go" where
  "NewLeapArray k interval builder now =
     (case builder of
        None \<Rightarrow> Err ErrBucketBuilderIsNil
      | Some B \<Rightarrow>
          if k = 0 \<or> interval = 0 then Err ErrWindowNotSegmentation
          else if interval mod k \<noteq> 0 then Err ErrWindowNotSegmentation
          else
            let sz = interval div k
            in case NewAtomicArrayWithTime k sz now B of
                 None \<Rightarrow> Panic
               | Some a \<Rightarrow> Ok \<lparr>locked = False, bucketSize = sz, intervalSize = interval, n = k, array = a\<rparr>)"

section \<open>Calls of \<open>getBucketOfTime\<close>, step by step\<close>

text \<open>
  Where a call stands: at the head of the loop; with the address it loaded; with the lock held, about
  to swap. The results that calls returned are collected.
\<close>

datatype pc = Idle | AtLoad u64 | AtCmp u64 "nat option" | AtSwap u64 nat

record 'v lsys =
  leap :: "'v LeapArray"
  pcs :: "nat \<Rightarrow> pc"
  rets :: "(u64 \<times> (window_err + nat)) list"

definition ret :: "nat \<Rightarrow> u64 \<Rightarrow> window_err + nat \<Rightarrow> 'v lsys \<Rightarrow> 'v lsys" where
  "ret t now r s = s\<lparr>pcs := (pcs s)(t := Idle), rets := (now, r) # rets s\<rparr>"

definition goto :: "nat \<Rightarrow> pc \<Rightarrow> 'v lsys \<Rightarrow> 'v lsys" where
  "goto t p s = s\<lparr>pcs := (pcs s)(t := p)\<rparr>"

fun getBucketOfTime_step :: "'v BucketBuilder \<Rightarrow> nat \<Rightarrow> pc \<Rightarrow> 'v lsys \<Rightarrow> 'v lsys" where
  "getBucketOfTime_step B t Idle s = s"
| "getBucketOfTime_step B t (AtLoad now) s =
     goto t (AtCmp now (getBucket (array (leap s)) (getTimeIndex now (leap s)))) s"
| "getBucketOfTime_step B t (AtCmp now None) s =
     (let index = getTimeIndex now (leap s); start = calculateStartTime now (bucketSize (leap s))
      in case compareAndSwap index None \<lparr>Start = start, Value = NewEmptyBucket B\<rparr> (array (leap s)) of
           (Some b, a') \<Rightarrow> ret t now (Inr b) (s\<lparr>leap := (leap s)\<lparr>array := a'\<rparr>\<rparr>)
         | (None, _) \<Rightarrow> goto t (AtLoad now) s)"
| "getBucketOfTime_step B t (AtCmp now (Some old)) s =
     (let start = calculateStartTime now (bucketSize (leap s)); ostart = Start (store (array (leap s)) old)
      in if start = ostart then ret t now (Inr old) s
         else if ostart < start then
           (if locked (leap s) then goto t (AtLoad now) s
            else goto t (AtSwap now old) (s\<lparr>leap := (leap s)\<lparr>locked := True\<rparr>\<rparr>))
         else if n (leap s) = 1 then ret t now (Inr old) s
         else ret t now (Inl ErrTimeBehindStart) s)"
| "getBucketOfTime_step B t (AtSwap now old) s =
     (let index = getTimeIndex now (leap s); start = calculateStartTime now (bucketSize (leap s));
          candidate = Reset B \<lparr>Start = start, Value = NewEmptyBucket B\<rparr> start
      in case compareAndSwap index (Some old) candidate (array (leap s)) of
           (Some b, a') \<Rightarrow> ret t now (Inr b) (s\<lparr>leap := (leap s)\<lparr>array := a', locked := False\<rparr>\<rparr>)
         | (None, _) \<Rightarrow> goto t (AtLoad now) (s\<lparr>leap := (leap s)\<lparr>locked := False\<rparr>\<rparr>))"

text \<open>A goroutine starts a call, or its call makes a step.\<close>

datatype lev = ECall nat u64 | EStep nat

fun lstep :: "'v BucketBuilder \<Rightarrow> lev \<Rightarrow> 'v lsys \<Rightarrow> 'v lsys" where
  "lstep B (ECall t now) s = (if pcs s t = Idle then goto t (AtLoad now) s else s)"
| "lstep B (EStep t) s = getBucketOfTime_step B t (pcs s t) s"

fun lrun :: "'v BucketBuilder \<Rightarrow> lev list \<Rightarrow> 'v lsys \<Rightarrow> 'v lsys" where
  "lrun B [] s = s"
| "lrun B (e # es) s = lrun B es (lstep B e s)"

definition lstart :: "'v LeapArray \<Rightarrow> 'v lsys" where
  "lstart la = \<lparr>leap = la, pcs = (\<lambda>_. Idle), rets = []\<rparr>"

text \<open>A call that nothing interrupts.\<close>

definition getBucketOfTime :: "'v BucketBuilder \<Rightarrow> u64 \<Rightarrow> 'v LeapArray \<Rightarrow> 'v lsys" where
  "getBucketOfTime B now la = lrun B [ECall 0 now, EStep 0, EStep 0, EStep 0] (lstart la)"

end
