(* ===== verification/LeapInv.thy ===== *)
theory LeapInv
  imports LeapArray
begin

text \<open>
  The invariant of the leap array under any interleaving of calls, and what it gives: every period of
  time has at most one bucket, and the buckets of the window are the ones that calls were handed.
\<close>

section \<open>Periods and slots\<close>

lemma unat_start:
  "sz \<noteq> 0 \<Longrightarrow> unat (calculateStartTime now sz) = unat now div unat sz * unat sz"
  unfolding calculateStartTime_def
  by (subst unat_sub) (simp_all add: word_le_nat_alt unat_mod minus_mod_eq_div_mult)

lemma start_le: "sz \<noteq> 0 \<Longrightarrow> calculateStartTime now sz \<le> now"
  by (simp add: word_le_nat_alt unat_start)

text \<open>The slot of a bucket that starts at a time.\<close>

definition slot_of :: "'v LeapArray \<Rightarrow> u64 \<Rightarrow> nat" where
  "slot_of s t = (unat t div unat (bucketSize s)) mod unat (n s)"

definition sized :: "'v LeapArray \<Rightarrow> bool" where
  "sized s \<longleftrightarrow> bucketSize s \<noteq> 0 \<and> n s \<noteq> 0 \<and> arr_length (array s) = n s \<and> length (data (array s)) = unat (n s) \<and>
     unat (intervalSize s) = unat (n s) * unat (bucketSize s)"

lemma sizedD:
  assumes "sized s"
  shows "0 < unat (bucketSize s)" "0 < unat (n s)" "arr_length (array s) = n s" "length (data (array s)) = unat (n s)"
    "unat (intervalSize s) = unat (n s) * unat (bucketSize s)" "bucketSize s \<noteq> 0" "n s \<noteq> 0"
  using assms by (auto simp: sized_def unat_gt_0)

lemma unat_getTimeIndex: "sized s \<Longrightarrow> unat (getTimeIndex now s) = slot_of s now"
  by (simp add: getTimeIndex_def slot_of_def sized_def unat_mod unat_div)

lemma slot_of_bound: "sized s \<Longrightarrow> slot_of s t < unat (n s)"
  using sizedD(2) [of s] by (simp add: slot_of_def)

lemma slot_of_start: "sized s \<Longrightarrow> slot_of s (calculateStartTime now (bucketSize s)) = slot_of s now"
  using sizedD(1,6) [of s] by (simp add: slot_of_def unat_start)

lemma offset_index: "sized s \<Longrightarrow> offset (array s) (getTimeIndex now s) = Some (slot_of s now)"
  using unat_getTimeIndex [of s now] slot_of_bound [of s now] sizedD(3,7) [of s] by (simp add: offset_def unat_mod)

text \<open>Two starts in one slot are a whole interval apart.\<close>

lemma same_slot_apart:
  assumes "sized s" and "slot_of s a = slot_of s b" and "unat (bucketSize s) dvd unat a" and "unat (bucketSize s) dvd unat b"
    and "a < b"
  shows "unat a + unat (intervalSize s) \<le> unat b"
proof -
  let ?S = "unat (bucketSize s)" and ?N = "unat (n s)"
  obtain p q where p: "unat a = ?S * p" and q: "unat b = ?S * q" using assms(3,4) by (elim dvdE) auto
  have S: "0 < ?S" using sizedD(1) [OF assms(1)] .
  have "p < q" using assms(5) p q S by (simp add: word_less_nat_alt)
  moreover have "p mod ?N = q mod ?N" using assms(2) p q S by (simp add: slot_of_def)
  ultimately have "p + ?N \<le> q"
    by (metis le_add_diff_inverse less_imp_le_nat mod_eq_dvd_iff_nat dvd_imp_le zero_less_diff add_le_mono1 add.commute)
  then have "?S * p + ?S * ?N \<le> ?S * q" by (metis distrib_left mult_le_mono2)
  then show ?thesis using p q sizedD(5) [OF assms(1)] by (simp add: mult.commute)
qed

section \<open>The invariant of the ring\<close>

abbreviation start_at :: "'v LeapArray \<Rightarrow> nat \<Rightarrow> u64" where
  "start_at s a \<equiv> Start (store (array s) a)"

definition ring :: "'v LeapArray \<Rightarrow> bool" where
  "ring s \<longleftrightarrow> sized s \<and> unat (n s) \<le> fresh (array s) \<and>
     (\<forall>a < fresh (array s). unat (bucketSize s) dvd unat (start_at s a)) \<and>
     (\<forall>i < unat (n s). \<exists>b < fresh (array s). data (array s) ! i = Some b \<and> slot_of s (start_at s b) = i \<and>
        (\<forall>a < fresh (array s). slot_of s (start_at s a) = i \<and> a \<noteq> b \<longrightarrow> start_at s a < start_at s b)) \<and>
     inj_on (start_at s) {..<fresh (array s)}"

lemma ring_sized: "ring s \<Longrightarrow> sized s"
  by (simp add: ring_def)

lemma ring_slot:
  assumes "ring s" and "i < unat (n s)"
  obtains b where "data (array s) ! i = Some b" and "b < fresh (array s)" and "slot_of s (start_at s b) = i"
    and "\<And>a. a < fresh (array s) \<Longrightarrow> slot_of s (start_at s a) = i \<Longrightarrow> a \<noteq> b \<Longrightarrow> start_at s a < start_at s b"
  using assms unfolding ring_def by blast

lemma ring_dvd: "ring s \<Longrightarrow> a < fresh (array s) \<Longrightarrow> unat (bucketSize s) dvd unat (start_at s a)"
  by (simp add: ring_def)

lemma ring_inj:
  "ring s \<Longrightarrow> a < fresh (array s) \<Longrightarrow> b < fresh (array s) \<Longrightarrow> start_at s a = start_at s b \<Longrightarrow> a = b"
  unfolding ring_def by (meson inj_on_eq_iff lessThan_iff)

lemma ring_locked: "ring (s\<lparr>locked := l\<rparr>) \<longleftrightarrow> ring s"
  by (simp add: ring_def sized_def slot_of_def)

text \<open>The ring after a later bucket has entered a slot.\<close>

definition enter :: "nat \<Rightarrow> 'v Bucket \<Rightarrow> 'v LeapArray \<Rightarrow> 'v LeapArray" where
  "enter i new s = s\<lparr>array := (array s)\<lparr>data := (data (array s))[i := Some (fresh (array s))],
     store := (store (array s))(fresh (array s) := new), fresh := fresh (array s) + 1\<rparr>\<rparr>"

lemma enter_simps [simp]:
  "bucketSize (enter i new s) = bucketSize s" "n (enter i new s) = n s" "intervalSize (enter i new s) = intervalSize s"
  "fresh (array (enter i new s)) = Suc (fresh (array s))" "slot_of (enter i new s) t = slot_of s t"
  "start_at (enter i new s) a = (if a = fresh (array s) then Start new else start_at s a)"
  "data (array (enter i new s)) = (data (array s))[i := Some (fresh (array s))]"
  "sized (enter i new s) = sized s" "arr_length (array (enter i new s)) = arr_length (array s)"
  by (simp_all add: enter_def slot_of_def sized_def)

lemma ring_enter:
  assumes "ring s" and "data (array s) ! i = Some old" and "i < unat (n s)" and "slot_of s (Start new) = i"
    and "start_at s old < Start new" and "unat (bucketSize s) dvd unat (Start new)"
  shows "ring (enter i new s)"
proof -
  let ?f = "fresh (array s)" and ?t = "enter i new s"
  have sz: "sized s" using assms(1) by (rule ring_sized)
  have below: "start_at s a < Start new" if a: "a < ?f" "slot_of s (start_at s a) = i" for a
  proof -
    obtain b where b: "data (array s) ! i = Some b"
      "\<And>c. c < ?f \<Longrightarrow> slot_of s (start_at s c) = i \<Longrightarrow> c \<noteq> b \<Longrightarrow> start_at s c < start_at s b"
      using ring_slot [OF assms(1,3)] by blast
    then have "b = old" using assms(2) by simp
    then show ?thesis using b(2) [OF a] assms(5) by (cases "a = old") auto
  qed
  have "\<exists>b < Suc ?f. data (array ?t) ! j = Some b \<and> slot_of s (start_at ?t b) = j \<and>
      (\<forall>a < Suc ?f. slot_of s (start_at ?t a) = j \<and> a \<noteq> b \<longrightarrow> start_at ?t a < start_at ?t b)" if j: "j < unat (n s)" for j
  proof (cases "j = i")
    case True
    then show ?thesis using below assms(3,4) sizedD(4) [OF sz] by (intro exI [of _ ?f]) auto
  next
    case False
    obtain b where b: "data (array s) ! j = Some b" "b < ?f" "slot_of s (start_at s b) = j"
      "\<And>a. a < ?f \<Longrightarrow> slot_of s (start_at s a) = j \<Longrightarrow> a \<noteq> b \<Longrightarrow> start_at s a < start_at s b"
      using ring_slot [OF assms(1) j] by metis
    then show ?thesis using False assms(4) by (intro exI [of _ b]) (auto simp: less_Suc_eq)
  qed
  moreover have "inj_on (start_at ?t) {..<Suc ?f}"
  proof (rule inj_onI)
    fix a b assume ab: "a \<in> {..<Suc ?f}" "b \<in> {..<Suc ?f}" "start_at ?t a = start_at ?t b"
    have "start_at s c \<noteq> Start new" if "c < ?f" for c
      using below [of c] that assms(4) by (cases "start_at s c = Start new") auto
    then show "a = b" using ab ring_inj [OF assms(1), of a b] by (auto simp: less_Suc_eq split: if_splits)
  qed
  ultimately show ?thesis
    using assms(1,6) sz ring_dvd [OF assms(1)] by (auto simp: ring_def less_Suc_eq)
qed

section \<open>The invariant of the calls\<close>

text \<open>No time later than \<open>T\<close> has been asked for; the buckets that the constructor made are the oldest of their slots.\<close>

definition ring_until :: "u64 \<Rightarrow> 'v LeapArray \<Rightarrow> bool" where
  "ring_until T s \<longleftrightarrow> ring s \<and>
     (\<forall>a < fresh (array s). unat (n s) \<le> a \<longrightarrow> start_at s a \<le> T) \<and>
     (\<forall>i < unat (n s). slot_of s (start_at s i) = i \<and> unat (start_at s i) < unat T + unat (intervalSize s)) \<and>
     (\<forall>a < fresh (array s). start_at s (slot_of s (start_at s a)) \<le> start_at s a)"

fun pc_ok :: "u64 \<Rightarrow> 'v LeapArray \<Rightarrow> pc \<Rightarrow> bool" where
  "pc_ok T s Idle = True"
| "pc_ok T s (AtLoad now) = (now \<le> T)"
| "pc_ok T s (AtCmp now None) = False"
| "pc_ok T s (AtCmp now (Some a)) = (now \<le> T \<and> a < fresh (array s) \<and> slot_of s (start_at s a) = slot_of s now)"
| "pc_ok T s (AtSwap now a) = (now \<le> T \<and> a < fresh (array s) \<and> slot_of s (start_at s a) = slot_of s now \<and>
     start_at s a < calculateStartTime now (bucketSize s))"

fun ret_ok :: "u64 \<Rightarrow> 'v LeapArray \<Rightarrow> u64 \<times> (window_err + nat) \<Rightarrow> bool" where
  "ret_ok T s (now, Inl e) = (now \<le> T)"
| "ret_ok T s (now, Inr a) = (now \<le> T \<and> a < fresh (array s) \<and>
     (n s \<noteq> 1 \<longrightarrow> start_at s a = calculateStartTime now (bucketSize s)))"

definition lok :: "u64 \<Rightarrow> 'v lsys \<Rightarrow> bool" where
  "lok T s \<longleftrightarrow> ring_until T (leap s) \<and> (\<forall>t. pc_ok T (leap s) (pcs s t)) \<and> list_all (ret_ok T (leap s)) (rets s)"

lemma pc_ok_locked [simp]: "pc_ok T (s\<lparr>locked := l\<rparr>) p = pc_ok T s p"
  by (cases "(T, s, p)" rule: pc_ok.cases) (simp_all add: slot_of_def)

lemma ret_ok_locked [simp]: "ret_ok T (s\<lparr>locked := l\<rparr>) r = ret_ok T s r"
  by (cases "(T, s, r)" rule: ret_ok.cases) simp_all

lemma ring_until_locked [simp]: "ring_until T (s\<lparr>locked := l\<rparr>) = ring_until T s"
  by (simp add: ring_until_def ring_locked slot_of_def)

lemma pc_ok_enter: "pc_ok T s p \<Longrightarrow> pc_ok T (enter i new s) p"
  by (cases "(T, s, p)" rule: pc_ok.cases) auto

lemma ret_ok_enter: "ret_ok T s r \<Longrightarrow> ret_ok T (enter i new s) r"
  by (cases "(T, s, r)" rule: ret_ok.cases) auto

lemma ring_until_enter:
  assumes "ring_until T s" and "data (array s) ! i = Some old" and "i < unat (n s)" and "slot_of s (Start new) = i"
    and "start_at s old < Start new" and "unat (bucketSize s) dvd unat (Start new)" and "Start new \<le> T"
  shows "ring_until T (enter i new s)"
proof -
  have r: "ring s" using assms(1) by (simp add: ring_until_def)
  obtain b where b: "data (array s) ! i = Some b" "b < fresh (array s)" "slot_of s (start_at s b) = i"
    using ring_slot [OF r assms(3)] by blast
  have n: "unat (n s) \<le> fresh (array s)" using r by (simp add: ring_def)
  have "start_at s i \<le> start_at s b" using assms(1) b by (auto simp: ring_until_def)
  then have "start_at s i \<le> Start new" using assms(2,5) b(1) by auto
  moreover have "slot_of s (start_at s a) < fresh (array s)" for a using slot_of_bound [OF ring_sized [OF r]] n by (meson less_le_trans)
  ultimately show ?thesis using ring_enter [OF r assms(2-6)] assms(1,3,4,7) n
    by (auto simp: ring_until_def less_Suc_eq) (metis less_irrefl)+
qed

lemma lok_goto: "lok T s \<Longrightarrow> pc_ok T (leap s) p \<Longrightarrow> lok T (goto t p s)"
  by (auto simp: lok_def goto_def)

lemma lok_ret: "lok T s \<Longrightarrow> ret_ok T (leap s) (now, r) \<Longrightarrow> lok T (ret t now r s)"
  by (auto simp: lok_def ret_def)

lemma lok_locked: "lok T (s\<lparr>leap := (leap s)\<lparr>locked := l\<rparr>\<rparr>) \<longleftrightarrow> lok T s"
  by (simp add: lok_def list_all_iff)

lemma lok_enter: "lok T s \<Longrightarrow> ring_until T (enter i new (leap s)) \<Longrightarrow> lok T (s\<lparr>leap := enter i new (leap s)\<rparr>)"
  by (auto simp: lok_def list_all_iff intro: pc_ok_enter ret_ok_enter)

definition fair_builder :: "'v BucketBuilder \<Rightarrow> bool" where
  "fair_builder B \<longleftrightarrow> (\<forall>b t. Start (Reset B b t) = t)"

lemma getBucketOfTime_step_lok:
  assumes B: "fair_builder B" and ok: "lok T s" and p: "pcs s t = p"
  shows "lok T (getBucketOfTime_step B t p s)"
proof -
  let ?l = "leap s"
  have pc: "pc_ok T ?l p" and ru: "ring_until T ?l" using ok p by (auto simp: lok_def)
  have r: "ring ?l" using ru by (simp add: ring_until_def)
  note sz = ring_sized [OF r]
  show ?thesis
  proof (cases p)
    case (AtLoad now)
    obtain b where b: "data (array ?l) ! slot_of ?l now = Some b" "b < fresh (array ?l)" "slot_of ?l (start_at ?l b) = slot_of ?l now"
      using ring_slot [OF r slot_of_bound [OF sz]] by blast
    then have "getBucket (array ?l) (getTimeIndex now ?l) = Some b" by (simp add: getBucket_def offset_index [OF sz])
    then show ?thesis using AtLoad ok pc b by (auto intro: lok_goto)
  next
    case (AtCmp now old)
    then obtain a where a: "old = Some a" "now \<le> T" "a < fresh (array ?l)" "slot_of ?l (start_at ?l a) = slot_of ?l now"
      using pc by (cases old) auto
    have "lok T (goto t (AtSwap now a) (s\<lparr>leap := ?l\<lparr>locked := True\<rparr>\<rparr>))"
      if "start_at ?l a < calculateStartTime now (bucketSize ?l)"
      using that a ok by (intro lok_goto) (simp_all add: lok_locked slot_of_def)
    then show ?thesis using AtCmp a ok by (auto simp: Let_def intro!: lok_goto lok_ret)
  next
    case (AtSwap now a)
    let ?st = "calculateStartTime now (bucketSize ?l)" and ?i = "slot_of ?l now"
    let ?new = "Reset B \<lparr>Start = ?st, Value = NewEmptyBucket B\<rparr> ?st"
    have a: "now \<le> T" "start_at ?l a < ?st" using pc AtSwap by auto
    have st: "Start ?new = ?st" using B by (simp add: fair_builder_def)
    have off: "offset (array ?l) (getTimeIndex now ?l) = Some ?i" by (rule offset_index [OF sz])
    show ?thesis
    proof (cases "data (array ?l) ! ?i = Some a")
      case False
      then show ?thesis using AtSwap off ok a(1) by (simp add: Let_def compareAndSwap_def lok_goto lok_locked)
    next
      case True
      let ?s1 = "s\<lparr>leap := enter ?i ?new ?l\<rparr>"
      have d: "unat (bucketSize ?l) dvd unat ?st" using sizedD(6) [OF sz] by (simp add: unat_start)
      have "?st \<le> T" using start_le [OF sizedD(6) [OF sz], of now] a(1) by simp
      then have "ring_until T (enter ?i ?new ?l)"
        using ring_until_enter [OF ru True slot_of_bound [OF sz]] st a(2) d slot_of_start [OF sz] by simp
      then have "lok T ?s1" using ok by (rule lok_enter [rotated])
      then have "lok T (?s1\<lparr>leap := (leap ?s1)\<lparr>locked := False\<rparr>\<rparr>)" by (simp only: lok_locked)
      then have "lok T (ret t now (Inr (fresh (array ?l))) (?s1\<lparr>leap := (leap ?s1)\<lparr>locked := False\<rparr>\<rparr>))"
        by (rule lok_ret) (use a(1) st in simp)
      moreover have "getBucketOfTime_step B t p s = ret t now (Inr (fresh (array ?l))) (?s1\<lparr>leap := (leap ?s1)\<lparr>locked := False\<rparr>\<rparr>)"
        using AtSwap off True by (simp add: Let_def compareAndSwap_def enter_def)
      ultimately show ?thesis by simp
    qed
  qed (use ok in simp)
qed

fun call_time :: "lev \<Rightarrow> u64 list" where
  "call_time (ECall t now) = [now]"
| "call_time (EStep t) = []"

lemma lrun_lok:
  assumes "fair_builder B" and "lok T s" and "\<forall>now \<in> set (concat (map call_time es)). now \<le> T"
  shows "lok T (lrun B es s)"
  using assms(2,3)
proof (induction es arbitrary: s)
  case (Cons e es)
  have "lok T (lstep B e s)"
    using Cons.prems getBucketOfTime_step_lok [OF assms(1)] by (cases e) (auto intro: lok_goto)
  then show ?case using Cons by simp
qed simp

section \<open>The constructor\<close>

lemma fill_range:
  assumes "lo \<le> hi" and "hi \<le> length (data a)"
  shows "fst (fill sz v [lo..<hi] st a) = st + of_nat (hi - lo) * sz \<and>
    (case snd (fill sz v [lo..<hi] st a) of b \<Rightarrow>
      arr_length b = arr_length a \<and> fresh b = fresh a \<and> length (data b) = length (data a) \<and>
      (\<forall>i < length (data a). data b ! i = (if lo \<le> i \<and> i < hi then Some i else data a ! i)) \<and>
      (\<forall>i. store b i = (if lo \<le> i \<and> i < hi then \<lparr>Start = st + of_nat (i - lo) * sz, Value = v\<rparr> else store a i)))"
  using assms
proof (induction "hi - lo" arbitrary: lo st a)
  case (Suc k)
  let ?a = "a\<lparr>data := (data a)[lo := Some lo], store := (store a)(lo := \<lparr>Start = st, Value = v\<rparr>)\<rparr>"
  let ?b = "snd (fill sz v [Suc lo..<hi] (st + sz) ?a)"
  have lo: "lo < hi" using Suc.hyps(2) by simp
  then have f: "fill sz v [lo..<hi] st a = fill sz v [Suc lo..<hi] (st + sz) ?a" by (simp add: upt_conv_Cons)
  have k: "k = hi - Suc lo" "Suc lo \<le> hi" "hi \<le> length (data ?a)" using Suc.hyps(2) Suc.prems lo by simp_all
  note IH = Suc.hyps(1) [OF k, of "st + sz"]
  have shift: "st + sz + of_nat (i - Suc lo) * sz = st + of_nat (i - lo) * sz" if "Suc lo \<le> i" for i
  proof -
    have "i - lo = Suc (i - Suc lo)" using that by simp
    then show ?thesis by (simp add: algebra_simps)
  qed
  have "fst (fill sz v [lo..<hi] st a) = st + of_nat (hi - lo) * sz" using IH shift [of hi] lo by (simp add: f)
  moreover have "data ?b ! i = (if lo \<le> i \<and> i < hi then Some i else data a ! i)" if "i < length (data a)" for i
    using IH that lo Suc.prems by (cases "i = lo") auto
  moreover have "store ?b i = (if lo \<le> i \<and> i < hi then \<lparr>Start = st + of_nat (i - lo) * sz, Value = v\<rparr> else store a i)" for i
    using IH lo shift [of i] by (cases "i = lo") auto
  ultimately show ?case using IH by (simp add: f)
qed auto

text \<open>The periods of the buckets that the constructor makes.\<close>

definition period_at :: "nat \<Rightarrow> nat \<Rightarrow> nat \<Rightarrow> nat" where
  "period_at N q i = (if q mod N \<le> i then q + (i - q mod N) else q + (N - q mod N) + i)"

lemma period_at_props:
  assumes "i < N"
  shows "period_at N q i mod N = i" and "period_at N q i < q + N"
proof -
  have q: "q = q div N * N + q mod N" by simp
  have m: "q mod N < N" using assms by simp
  show "period_at N q i mod N = i"
  proof (cases "q mod N \<le> i")
    case True
    then have "q + (i - q mod N) = q div N * N + i" using q by linarith
    then have "period_at N q i = q div N * N + i" using True by (simp only: period_at_def if_True)
    then show ?thesis using assms by simp
  next
    case False
    have "q + (N - q mod N) = q div N * N + N" using q m by linarith
    then have "period_at N q i = Suc (q div N) * N + i" using False by (simp add: period_at_def)
    then show ?thesis using assms by (metis mod_less mod_mult_self3)
  qed
  show "period_at N q i < q + N" using assms m by (simp only: period_at_def split: if_split) linarith
qed

lemma NewAtomicArrayWithTime_effect:
  assumes "sz \<noteq> 0" and "k \<noteq> 0"
  obtains a where "NewAtomicArrayWithTime k sz now B = Some a" and "arr_length a = k" and "fresh a = unat k"
    and "length (data a) = unat k" and "\<And>i. i < unat k \<Longrightarrow> data a ! i = Some i"
    and "\<And>i. i < unat k \<Longrightarrow> Start (store a i) = of_nat (period_at (unat k) (unat now div unat sz) i) * sz"
proof -
  define q where "q = unat now div unat sz"
  define index where "index = unat ((now div sz) mod k)"
  define st where "st = calculateStartTime now sz"
  define a0 :: "'a AtomicArray" where "a0 = \<lparr>arr_length = k, data = replicate (unat k) None,
    store = (\<lambda>_. \<lparr>Start = 0, Value = NewEmptyBucket B\<rparr>), fresh = unat k\<rparr>"
  define a1 where "a1 = snd (fill sz (NewEmptyBucket B) [index..<unat k] st a0)"
  define st1 where "st1 = fst (fill sz (NewEmptyBucket B) [index..<unat k] st a0)"
  define a2 where "a2 = snd (fill sz (NewEmptyBucket B) [0..<index] st1 a1)"
  have idx: "index = q mod unat k" by (simp add: index_def q_def unat_mod unat_div)
  have le: "index < unat k" using assms(2) by (simp add: idx unat_gt_0)
  have st: "st = of_nat q * sz"
  proof -
    have "st = of_nat (unat st)" by simp
    also have "unat st = q * unat sz" by (simp add: st_def q_def unat_start [OF assms(1)])
    finally show ?thesis by simp
  qed
  have l0: "index \<le> unat k" "unat k \<le> length (data a0)" using le by (simp_all add: a0_def)
  note f1 = fill_range [OF l0, of sz "NewEmptyBucket B" st, folded st1_def a1_def]
  have l1: "0 \<le> index" "index \<le> length (data a1)" using f1 le by (simp_all add: a0_def)
  note f2 = fill_range [OF l1, of sz "NewEmptyBucket B" st1, folded a2_def]
  have st1: "st1 = of_nat (q + (unat k - index)) * sz" using f1 by (simp add: st algebra_simps)
  have "Start (store a2 i) = of_nat (period_at (unat k) q i) * sz" if "i < unat k" for i
    using f1 f2 that by (auto simp: period_at_def idx [symmetric] st st1 algebra_simps)
  moreover have "data a2 ! i = Some i" if "i < unat k" for i
    using f1 f2 that by (auto simp: a0_def)
  moreover have "NewAtomicArrayWithTime k sz now B = Some a2"
    using assms
    by (simp add: NewAtomicArrayWithTime_def Let_def split_beta index_def [symmetric] st_def [symmetric] a0_def [symmetric]
        a1_def [symmetric] st1_def [symmetric] a2_def [symmetric])
  ultimately show ?thesis using that [of a2] f1 f2 by (simp add: a0_def q_def)
qed

lemma NewLeapArray_ring:
  assumes "NewLeapArray k interval (Some B) t0 = Ok la" and "unat t0 + unat interval < 2 ^ 64" and "t0 \<le> T"
  shows "ring_until T la \<and> n la = k \<and> intervalSize la = interval \<and> \<not> locked la"
proof -
  define sz where "sz = interval div k"
  have k: "k \<noteq> 0" "interval mod k = 0" "interval \<noteq> 0" using assms(1) by (auto simp: NewLeapArray_def split: if_splits)
  have dvd: "unat k dvd unat interval" using k(2) by (metis mod_eq_0_iff_dvd unat_0 unat_mod)
  have S: "unat interval = unat k * unat sz" using dvd by (simp add: sz_def unat_div)
  then have sz: "sz \<noteq> 0" using k(3) by (auto simp: unat_eq_zero)
  obtain a where a: "NewAtomicArrayWithTime k sz t0 B = Some a" "arr_length a = k" "fresh a = unat k" "length (data a) = unat k"
    "\<And>i. i < unat k \<Longrightarrow> data a ! i = Some i"
    "\<And>i. i < unat k \<Longrightarrow> Start (store a i) = of_nat (period_at (unat k) (unat t0 div unat sz) i) * sz"
    using NewAtomicArrayWithTime_effect [OF sz k(1)] by metis
  have la: "la = \<lparr>locked = False, bucketSize = sz, intervalSize = interval, n = k, array = a\<rparr>"
    using assms(1) k a(1) by (simp add: NewLeapArray_def sz_def [symmetric] Let_def)
  have sized: "sized la" using sz k(1) a(2,4) S by (simp add: la sized_def)
  let ?p = "period_at (unat k) (unat t0 div unat sz)"
  have bound: "?p i * unat sz < unat t0 + unat interval" if "i < unat k" for i
  proof -
    have "?p i \<le> unat t0 div unat sz + (unat k - 1)" using period_at_props(2) [OF that, of "unat t0 div unat sz"] by simp
    then have "?p i * unat sz \<le> (unat t0 div unat sz + (unat k - 1)) * unat sz" by (rule mult_le_mono1)
    also have "\<dots> = unat t0 div unat sz * unat sz + (unat k - 1) * unat sz" by (simp add: algebra_simps)
    also have "\<dots> < unat t0 + unat k * unat sz"
    proof (rule add_le_less_mono)
      show "(unat k - 1) * unat sz < unat k * unat sz" using that sz by (simp add: unat_gt_0)
    qed simp
    finally show ?thesis using S by simp
  qed
  have st: "unat (start_at la i) = ?p i * unat sz" if "i < unat k" for i
  proof -
    have "start_at la i = of_nat (?p i * unat sz)" using a(6) [OF that] by (simp add: la)
    moreover have "?p i * unat sz < 2 ^ LENGTH(64)" using bound [OF that] assms(2) by simp
    ultimately show ?thesis by (simp only: unat_of_nat mod_less)
  qed
  have slot: "slot_of la (start_at la i) = i" if "i < unat k" for i
    using st [OF that] period_at_props(1) [OF that] sz by (simp add: slot_of_def la unat_gt_0)
  have "inj_on (start_at la) {..<unat k}" by (rule inj_onI) (metis slot lessThan_iff)
  moreover have "unat (start_at la i) < unat T + unat interval" if "i < unat k" for i
    using st [OF that] bound [OF that] assms(3) by (simp add: word_le_nat_alt)
  ultimately show ?thesis using sized slot st a(3,5) by (auto simp: ring_until_def ring_def la)
qed

lemma lstart_lok:
  assumes "NewLeapArray k interval (Some B) t0 = Ok la" and "unat t0 + unat interval < 2 ^ 64" and "t0 \<le> T"
  shows "lok T (lstart la)"
  using NewLeapArray_ring [OF assms] by (simp add: lok_def lstart_def)

lemma step_sizes:
  "n (leap (getBucketOfTime_step B t p s)) = n (leap s) \<and> bucketSize (leap (getBucketOfTime_step B t p s)) = bucketSize (leap s) \<and>
   intervalSize (leap (getBucketOfTime_step B t p s)) = intervalSize (leap s)"
  by (cases "(B, t, p, s)" rule: getBucketOfTime_step.cases)
    (auto simp: goto_def ret_def Let_def compareAndSwap_def split: option.split)

lemma lrun_sizes:
  "n (leap (lrun B es s)) = n (leap s)" "bucketSize (leap (lrun B es s)) = bucketSize (leap s)"
  "intervalSize (leap (lrun B es s)) = intervalSize (leap s)"
proof (induction es arbitrary: s)
  case (Cons e es)
  { case 1 then show ?case using Cons(1) step_sizes [of B _ _ s] by (cases e) (auto simp: goto_def) }
  { case 2 then show ?case using Cons(2) step_sizes [of B _ _ s] by (cases e) (auto simp: goto_def) }
  { case 3 then show ?case using Cons(3) step_sizes [of B _ _ s] by (cases e) (auto simp: goto_def) }
qed simp_all

section \<open>Properties\<close>

definition demo_builder :: "nat BucketBuilder" where
  "demo_builder = \<lparr>NewEmptyBucket = 0, Reset = (\<lambda>b t. b\<lparr>Start := t\<rparr>)\<rparr>"

lemma demo_fair: "fair_builder demo_builder"
  by (simp add: fair_builder_def demo_builder_def)

definition demo_evs :: "lev list" where
  "demo_evs = [ECall 0 2100, ECall 1 2400, EStep 0, EStep 1, EStep 0, EStep 1, EStep 0, EStep 1, EStep 1, EStep 1]"

text \<open>
  C6: whatever the interleaving of the calls of a leap array of more than one bucket, every call that returns a
  bucket returns one that starts at the period of its time, and all the calls for one period return the same
  bucket: no two goroutines ever count into different buckets of a period. The builder keeps the start it is
  given, and the first interval fits 64 bits. With one bucket the code hands out the later bucket to a call
  that comes late, on purpose.
\<close>

theorem getBucketOfTime_unique:
  assumes new: "NewLeapArray k interval (Some B) t0 = Ok la" and fits: "unat t0 + unat interval < 2 ^ 64"
    and B: "fair_builder B" and k: "k \<noteq> 1" and s: "s = lrun B es (lstart la)"
    and a: "(now, Inr a) \<in> set (rets s)" and b: "(now', Inr b) \<in> set (rets s)"
    and same: "calculateStartTime now (bucketSize la) = calculateStartTime now' (bucketSize la)"
  shows "a = b \<and> start_at (leap s) a = calculateStartTime now (bucketSize la)"
proof -
  have ok: "lok (- 1) s" using lrun_lok [OF B lstart_lok [OF new fits], of "- 1" es] s by simp
  have sz: "n (leap s) = k" "bucketSize (leap s) = bucketSize la"
    using NewLeapArray_ring [OF new fits, of "- 1"] s by (simp_all add: lrun_sizes lstart_def)
  have "ret_ok (- 1) (leap s) (now, Inr a)" "ret_ok (- 1) (leap s) (now', Inr b)"
    using ok a b by (auto simp: lok_def list_all_iff)
  then have "a < fresh (array (leap s))" "b < fresh (array (leap s))"
    "start_at (leap s) a = calculateStartTime now (bucketSize la)" "start_at (leap s) b = calculateStartTime now (bucketSize la)"
    using k sz same by simp_all
  moreover have "ring (leap s)" using ok by (simp add: lok_def ring_until_def)
  ultimately show ?thesis using ring_inj by metis
qed

theorem getBucketOfTime_unique_witness:
  "\<exists>la s a b. NewLeapArray 2 1000 (Some demo_builder) 888 = Ok la \<and> s = lrun demo_builder demo_evs (lstart la) \<and>
    (2100, Inr a) \<in> set (rets s) \<and> (2400, Inr b) \<in> set (rets s) \<and> a = b \<and> start_at (leap s) a = 2000"
proof -
  have c: "case NewLeapArray 2 1000 (Some demo_builder) 888 of
      Ok la \<Rightarrow> rets (lrun demo_builder demo_evs (lstart la)) = [(2400, Inr 2), (2100, Inr 2)] \<and> bucketSize la = 500
    | _ \<Rightarrow> False" by code_simp
  then obtain la where la: "NewLeapArray 2 1000 (Some demo_builder) 888 = Ok la" "bucketSize la = 500"
    "rets (lrun demo_builder demo_evs (lstart la)) = [(2400, Inr 2), (2100, Inr 2)]" by (auto split: go.splits)
  let ?s = "lrun demo_builder demo_evs (lstart la)"
  have "start_at (leap ?s) 2 = calculateStartTime 2100 (bucketSize la)"
    using getBucketOfTime_unique [OF la(1) _ demo_fair _ refl, of 2100 2 demo_evs 2400 2] la(2,3)
    by (simp add: calculateStartTime_def)
  then have "start_at (leap ?s) 2 = 2000" using la(2) by (simp add: calculateStartTime_def)
  then show ?thesis using la by auto
qed

lemma read_slot_mem:
  "a \<in> set (read_slot now (\<lambda>_. True) s i) \<longleftrightarrow> data (array s) ! i = Some a \<and> \<not> isDisable now (store (array s) a) s"
  by (auto simp: read_slot_def split: option.split)

lemma handed_out_current:
  assumes ok: "lok now s" and k: "n (leap s) \<noteq> 1" and r: "(t, Inr a) \<in> set (rets s)"
    and recent: "unat now < unat (start_at (leap s) a) + unat (intervalSize (leap s))"
  shows "data (array (leap s)) ! slot_of (leap s) (start_at (leap s) a) = Some a"
proof (rule ccontr)
  let ?l = "leap s"
  assume no: "\<not> ?thesis"
  have ru: "ring_until now ?l" using ok by (simp add: lok_def)
  have rg: "ring ?l" using ru by (simp add: ring_until_def)
  note sz = ring_sized [OF rg]
  have a: "a < fresh (array ?l)" using ok r by (auto simp: lok_def list_all_iff dest: bspec)
  obtain b where b: "data (array ?l) ! slot_of ?l (start_at ?l a) = Some b" "b < fresh (array ?l)"
    "slot_of ?l (start_at ?l b) = slot_of ?l (start_at ?l a)"
    "\<And>c. c < fresh (array ?l) \<Longrightarrow> slot_of ?l (start_at ?l c) = slot_of ?l (start_at ?l a) \<Longrightarrow> c \<noteq> b \<Longrightarrow> start_at ?l c < start_at ?l b"
    using ring_slot [OF rg slot_of_bound [OF sz]] by metis
  have ab: "start_at ?l a < start_at ?l b" using b(4) [OF a] no b(1) by auto
  have apart: "unat (start_at ?l a) + unat (intervalSize ?l) \<le> unat (start_at ?l b)"
    by (rule same_slot_apart [OF sz b(3) [symmetric] ring_dvd [OF rg a] ring_dvd [OF rg b(2)] ab])
  show False
  proof (cases "unat (n ?l) \<le> b")
    case True
    then have "start_at ?l b \<le> now" using ru b(2) by (simp add: ring_until_def)
    then show False using apart recent by (simp add: word_le_nat_alt)
  next
    case False
    then have "slot_of ?l (start_at ?l b) = b" using ru by (simp add: ring_until_def)
    then have "start_at ?l b \<le> start_at ?l a" using ru a b(3) by (auto simp: ring_until_def)
    then show False using ab by simp
  qed
qed

text \<open>What one load sees, in a state in which no call is later than the query.\<close>

lemma read_slot_recent:
  assumes ok: "lok now s" and i: "i < unat (n (leap s))" and small: "unat (intervalSize (leap s)) < 2 ^ 63"
    and a: "a \<in> set (read_slot now (\<lambda>_. True) (leap s) i)"
  shows "start_at (leap s) a \<le> now \<and> unat now \<le> unat (start_at (leap s) a) + unat (intervalSize (leap s))"
proof -
  let ?l = "leap s"
  have ru: "ring_until now ?l" using ok by (simp add: lok_def)
  then have rg: "ring ?l" by (simp add: ring_until_def)
  have d: "data (array ?l) ! i = Some a" "\<not> isDisable now (store (array ?l) a) ?l" using a by (simp_all add: read_slot_mem)
  have f: "a < fresh (array ?l)" using ring_slot [OF rg i] d(1) by (metis option.inject)
  have le: "start_at ?l a \<le> now"
  proof (rule ccontr)
    assume no: "\<not> start_at ?l a \<le> now"
    then have "a < unat (n ?l)" using ru f by (force simp: ring_until_def)
    then have "unat (start_at ?l a) < unat now + unat (intervalSize ?l)" using ru by (simp add: ring_until_def)
    then show False
      using no d(2) small by (simp add: isDisable_def word_less_nat_alt word_le_nat_alt unat_sub_if_size word_size)
  qed
  then show ?thesis using d(2) by (auto simp: isDisable_def word_less_nat_alt word_le_nat_alt unat_sub)
qed

lemma read_slot_handed_out:
  assumes ok: "lok now s" and k: "n (leap s) \<noteq> 1" and r: "(t, Inr a) \<in> set (rets s)"
    and recent: "unat now < unat (calculateStartTime t (bucketSize (leap s))) + unat (intervalSize (leap s))"
  shows "a \<in> set (read_slot now (\<lambda>_. True) (leap s) (slot_of (leap s) t))"
proof -
  let ?l = "leap s"
  have rg: "ring ?l" using ok by (simp add: lok_def ring_until_def)
  note sz = ring_sized [OF rg]
  have "ret_ok now ?l (t, Inr a)" using ok r by (auto simp: lok_def list_all_iff)
  then have a: "start_at ?l a = calculateStartTime t (bucketSize ?l)" "start_at ?l a \<le> now"
    using start_le [OF sizedD(6) [OF sz], of t] k by auto
  have "slot_of ?l (start_at ?l a) = slot_of ?l t" unfolding a(1) by (rule slot_of_start [OF sz])
  then have "data (array ?l) ! slot_of ?l t = Some a" using handed_out_current [OF ok k r] recent a(1) by simp
  moreover have "\<not> isDisable now (store (array ?l) a) ?l"
    using a recent by (auto simp: isDisable_def word_less_nat_alt word_le_nat_alt unat_sub)
  ultimately show ?thesis by (simp add: read_slot_mem)
qed

lemma lrun_append: "lrun B (es @ fs) s = lrun B fs (lrun B es s)"
  by (induction es arbitrary: s) simp_all

lemma lrun_rets: "set (rets s) \<subseteq> set (rets (lrun B es s))"
proof (induction es arbitrary: s)
  case (Cons e es)
  have "set (rets s) \<subseteq> set (rets (getBucketOfTime_step B t p s))" for t p
    by (cases "(B, t, p, s)" rule: getBucketOfTime_step.cases) (auto simp: goto_def ret_def Let_def compareAndSwap_def split: option.split)
  then have "set (rets s) \<subseteq> set (rets (lstep B e s))" by (cases e) (auto simp: goto_def)
  then show ?case using Cons [of "lstep B e s"] by auto
qed simp

text \<open>
  C23: a query of the window of a leap array of more than one bucket loads the slots one by one, while calls of
  \<open>getBucketOfTime\<close> run in between; no call, before or meanwhile, has a time later than that of the query. Every bucket it
  returns started, at the moment of its load, within the last interval, and every bucket that was handed to a
  call before the query and whose period is younger than the interval is among them, so a count over the
  window misses none of the recent events. The first interval fits 64 bits and is shorter than 2 to the 63.
\<close>

theorem getValueOfTime_window:
  assumes new: "NewLeapArray k interval (Some B) t0 = Ok la" and fits: "unat t0 + unat interval < 2 ^ 64" "unat interval < 2 ^ 63"
    and B: "fair_builder B" and k: "k \<noteq> 1" and sl: "\<forall>i. slots i = leap (lrun B (es @ fs i) (lstart la))"
    and past: "t0 \<le> now" "\<forall>i. \<forall>t \<in> set (concat (map call_time (es @ fs i))). t \<le> now"
  shows "(\<forall>a \<in> set (getValueOfTime now slots). \<exists>i.
      start_at (slots i) a \<le> now \<and> unat now \<le> unat (start_at (slots i) a) + unat interval) \<and>
    (\<forall>t a. (t, Inr a) \<in> set (rets (lrun B es (lstart la))) \<and> unat now < unat (calculateStartTime t (bucketSize la)) + unat interval \<longrightarrow>
      a \<in> set (getValueOfTime now slots))"
proof -
  let ?s = "\<lambda>i. lrun B (es @ fs i) (lstart la)"
  have ok: "lok now (?s i)" for i by (rule lrun_lok [OF B lstart_lok [OF new fits(1) past(1)] past(2) [THEN spec]])
  have sz: "n (leap (?s i)) = k" "intervalSize (leap (?s i)) = interval" "bucketSize (leap (?s i)) = bucketSize la" for i
    using NewLeapArray_ring [OF new fits(1) past(1)] by (simp_all add: lrun_sizes lstart_def)
  have rg: "sized (leap (?s i))" for i using ok [of i] by (simp add: lok_def ring_until_def ring_sized)
  have len: "unat (arr_length (array (slots 0))) = unat k" unfolding sl [THEN spec, of 0] sizedD(3) [OF rg [of 0]] sz(1) [of 0] ..
  have mem: "a \<in> set (getValueOfTime now slots) \<longleftrightarrow> (\<exists>i < unat k. a \<in> set (read_slot now (\<lambda>_. True) (slots i) i))" for a
    unfolding getValueOfTime_def len set_concat set_map set_upt by force
  have "\<exists>i. start_at (slots i) a \<le> now \<and> unat now \<le> unat (start_at (slots i) a) + unat interval" if m: "a \<in> set (getValueOfTime now slots)" for a
  proof -
    obtain i where i: "i < unat k" "a \<in> set (read_slot now (\<lambda>_. True) (slots i) i)" using m unfolding mem by blast
    have "start_at (slots i) a \<le> now \<and> unat now \<le> unat (start_at (slots i) a) + unat interval"
      using read_slot_recent [OF ok [of i], of i a] sz [of i] fits(2) i unfolding sl [THEN spec, of i] by simp
    then show ?thesis by (rule exI)
  qed
  moreover have "a \<in> set (getValueOfTime now slots)"
    if r: "(t, Inr a) \<in> set (rets (lrun B es (lstart la)))" "unat now < unat (calculateStartTime t (bucketSize la)) + unat interval" for t a
  proof -
    let ?i = "slot_of la t"
    have la: "n la = k" using NewLeapArray_ring [OF new fits(1) past(1)] by simp
    have i: "slot_of (leap (?s ?i)) t = ?i" using sz [of ?i] la by (simp add: slot_of_def)
    have "(t, Inr a) \<in> set (rets (?s ?i))" using r(1) lrun_rets by (auto simp: lrun_append)
    from read_slot_handed_out [OF ok _ this] have "a \<in> set (read_slot now (\<lambda>_. True) (slots ?i) ?i)"
      using r(2) sz [of ?i] k i unfolding sl [THEN spec, of ?i] by simp
    moreover have "?i < unat k" using slot_of_bound [OF rg [of ?i], of t] i sz(1) [of ?i] by simp
    ultimately show ?thesis unfolding mem by (intro exI [of _ ?i] conjI)
  qed
  ultimately show ?thesis by (intro conjI ballI allI impI) blast+
qed

definition demo_later :: "nat \<Rightarrow> lev list" where
  "demo_later i = (if i = 0 then [] else [ECall 2 1900, EStep 2, EStep 2])"

theorem getValueOfTime_window_witness:
  "\<exists>la slots. NewLeapArray 2 1000 (Some demo_builder) 888 = Ok la \<and> (\<forall>i. slots i = leap (lrun demo_builder (demo_evs @ demo_later i) (lstart la))) \<and>
    2 \<in> set (getValueOfTime 2400 slots)"
proof -
  have "case NewLeapArray 2 1000 (Some demo_builder) 888 of
      Ok la \<Rightarrow> (2100, Inr 2) \<in> set (rets (lrun demo_builder demo_evs (lstart la))) \<and> bucketSize la = 500
    | _ \<Rightarrow> False" by code_simp
  then obtain la where la: "NewLeapArray 2 1000 (Some demo_builder) 888 = Ok la"
    "(2100, Inr 2) \<in> set (rets (lrun demo_builder demo_evs (lstart la)))" "bucketSize la = 500" by (auto split: go.splits)
  let ?slots = "\<lambda>i. leap (lrun demo_builder (demo_evs @ demo_later i) (lstart la))"
  have "\<forall>t \<in> set (concat (map call_time demo_evs)). t \<le> 2400" by code_simp
  then have c: "\<forall>i. \<forall>t \<in> set (concat (map call_time (demo_evs @ demo_later i))). t \<le> 2400" by (auto simp: demo_later_def)
  have sl: "\<forall>i. ?slots i = leap (lrun demo_builder (demo_evs @ demo_later i) (lstart la))" by simp
  have "2 \<in> set (getValueOfTime 2400 ?slots)"
    using getValueOfTime_window [OF la(1) _ _ demo_fair _ sl _ c] la(2,3) by (force simp: calculateStartTime_def)
  then show ?thesis using la(1) by (intro exI [of _ la] exI [of _ ?slots] conjI) simp_all
qed

text \<open>
  a call of \<open>getBucketOfTime\<close> that starts when the lock is free and that no other call interrupts returns
  within three steps: the loop is left in its first round, with the bucket of the period of the time, unless a
  later bucket is already in the slot, when it returns \<open>ErrTimeBehindStart\<close>, or that bucket if it is the only one;
  the lock is free again.
\<close>

theorem getBucketOfTime_returns:
  assumes B: "fair_builder B" and la: "ring la" "\<not> locked la"
  shows "\<exists>r. rets (getBucketOfTime B now la) = [(now, r)] \<and> \<not> locked (leap (getBucketOfTime B now la)) \<and>
    (case r of
       Inr a \<Rightarrow> start_at (leap (getBucketOfTime B now la)) a = calculateStartTime now (bucketSize la) \<or>
         n la = 1 \<and> data (array la) ! slot_of la now = Some a \<and> calculateStartTime now (bucketSize la) < start_at la a
     | Inl e \<Rightarrow> e = ErrTimeBehindStart \<and> n la \<noteq> 1 \<and>
         (\<exists>b. data (array la) ! slot_of la now = Some b \<and> calculateStartTime now (bucketSize la) < start_at la b))"
proof -
  let ?st = "calculateStartTime now (bucketSize la)"
  note sz = ring_sized [OF la(1)]
  obtain b where b: "data (array la) ! slot_of la now = Some b"
    using ring_slot [OF la(1) slot_of_bound [OF sz]] by blast
  have off: "offset (array la) (getTimeIndex now la) = Some (slot_of la now)" by (rule offset_index [OF sz])
  have gb: "getBucket (array la) (getTimeIndex now la) = Some b" using b off by (simp add: getBucket_def)
  consider (eq) "?st = start_at la b" | (lt) "start_at la b < ?st" | (gt) "?st < start_at la b"
    by (metis linorder_less_linear)
  then show ?thesis
  proof cases
    case eq
    then show ?thesis using gb la(2) by (auto simp: getBucketOfTime_def lstart_def goto_def ret_def Let_def)
  next
    case gt
    then show ?thesis using gb b la(2) by (auto simp: getBucketOfTime_def lstart_def goto_def ret_def Let_def)
  next
    case lt
    then show ?thesis using gb b off la(2) B sizedD(4) [OF sz] slot_of_bound [OF sz, of now]
      by (auto simp: getBucketOfTime_def lstart_def goto_def ret_def Let_def compareAndSwap_def getTimeIndex_def fair_builder_def)
  qed
qed

theorem getBucketOfTime_returns_witness:
  "\<exists>la r. NewLeapArray 2 1000 (Some demo_builder) 888 = Ok la \<and> ring la \<and>
    rets (getBucketOfTime demo_builder 2100 la) = [(2100, r)]"
proof -
  have "case NewLeapArray 2 1000 (Some demo_builder) 888 of Ok la \<Rightarrow> True | _ \<Rightarrow> False" by code_simp
  then obtain la where la: "NewLeapArray 2 1000 (Some demo_builder) 888 = Ok la" by (auto split: go.splits)
  have r: "ring_until 888 la \<and> n la = 2 \<and> intervalSize la = 1000 \<and> \<not> locked la"
    by (rule NewLeapArray_ring [OF la]) simp_all
  then have "ring la" "\<not> locked la" by (simp_all add: ring_until_def)
  from getBucketOfTime_returns [OF demo_fair this, of 2100] la \<open>ring la\<close> show ?thesis by blast
qed

end
