(* ===== verification/SlideWindow.thy ===== *)
theory SlideWindow
  imports Prelude "HOL-Library.Multiset"
begin

text \<open>
  The counting window (\<open>window/init.go\<close>, \<open>window/window.go\<close>): callers send their indices over a channel to
  a sentinel goroutine, which adds them up and at every tick puts the sums into a ring of buffers. The
  callers, the sentinel, the ticker and the context interleave: a label says which of them moves, and a
  step that is not enabled is \<open>None\<close>. The sentinel's local map and a caller inside \<open>AddIndex\<close> are part of
  the state.
\<close>

section \<open>Model\<close>

record Index =
  Name :: string
  Score :: u64

record conf =
  csize :: u64
  cinterval :: i64
  ctx_done :: bool

definition defaultWindowSize :: u64 where "defaultWindowSize = 5"
definition defaultWindowInterval :: i64 where "defaultWindowInterval = 1000000000"

definition SetSize :: "u64 \<Rightarrow> conf \<Rightarrow> conf" where "SetSize sz c = c\<lparr>csize := sz\<rparr>"
definition SetInterval :: "i64 \<Rightarrow> conf \<Rightarrow> conf" where "SetInterval d c = c\<lparr>cinterval := d\<rparr>"
definition SetContext :: "bool \<Rightarrow> conf \<Rightarrow> conf" where "SetContext done c = c\<lparr>ctx_done := done\<rparr>"

record Window = conf +
  index :: u64
  closed :: bool
  communication :: "Index list"
  buffer :: "(string \<rightharpoonup> u64) list"
  cur :: "string \<rightharpoonup> u64"  \<comment> \<open>the map \<open>m\<close> of the sentinel\<close>
  running :: bool
  sending :: "nat \<Rightarrow> Index option"  \<comment> \<open>what the caller of an \<open>AddIndex\<close> waits to send\<close>

definition NewWindow :: "(conf \<Rightarrow> conf) list \<Rightarrow> Window" where
  "NewWindow opts =
     (let c = fold (\<lambda>f c. f c) opts \<lparr>csize = defaultWindowSize, cinterval = defaultWindowInterval, ctx_done = False\<rparr>;
          sz = (if csize c = 0 then defaultWindowSize else csize c);
          d = (if cinterval c \<le>s 0 then defaultWindowInterval else cinterval c)
      in \<lparr>csize = sz, cinterval = d, ctx_done = ctx_done c, index = 0, closed = False, communication = [],
          buffer = replicate (unat sz) Map.empty, cur = Map.empty, running = True, sending = (\<lambda>_. None)\<rparr>)"

definition bump :: "string \<Rightarrow> u64 \<Rightarrow> (string \<rightharpoonup> u64) \<Rightarrow> (string \<rightharpoonup> u64)" where
  "bump k v m = m(k \<mapsto> (case m k of Some u \<Rightarrow> u | None \<Rightarrow> 0) + v)"

text \<open>
  \<open>LAdd t i\<close>: goroutine \<open>t\<close> calls \<open>AddIndex\<close>; \<open>LSend t\<close>, \<open>LDrop t\<close>: the two branches of its \<open>select\<close>;
  \<open>LRecv\<close>, \<open>LTick\<close>, \<open>LStop\<close>: the branches of the sentinel's \<open>select\<close>; \<open>LCancel\<close>: the context of the
  caller of \<open>NewWindow\<close> ends.
\<close>

datatype wlab = LAdd nat Index | LSend nat | LDrop nat | LRecv | LTick | LStop | LShutdown | LCancel

definition AddIndex :: "nat \<Rightarrow> Index \<Rightarrow> Window \<Rightarrow> Window option" where
  "AddIndex t i w =
     (if sending w t \<noteq> None then None
      else if closed w then Some w
      else Some (w\<lparr>sending := (sending w)(t \<mapsto> i)\<rparr>))"

definition AddIndex_send :: "nat \<Rightarrow> Window \<Rightarrow> Window option" where
  "AddIndex_send t w =
     (case sending w t of
        None \<Rightarrow> None
      | Some i \<Rightarrow>
          if length (communication w) < unat (csize w)
          then Some (w\<lparr>communication := communication w @ [i], sending := (sending w)(t := None)\<rparr>)
          else None)"

definition AddIndex_drop :: "nat \<Rightarrow> Window \<Rightarrow> Window option" where
  "AddIndex_drop t w =
     (if sending w t \<noteq> None \<and> ctx_done w then Some (w\<lparr>sending := (sending w)(t := None)\<rparr>) else None)"

definition sentinel_recv :: "Window \<Rightarrow> Window option" where
  "sentinel_recv w =
     (case communication w of
        i # rest \<Rightarrow> if running w then Some (w\<lparr>communication := rest, cur := bump (Name i) (Score i) (cur w)\<rparr>) else None
      | [] \<Rightarrow> None)"

definition sentinel_tick :: "Window \<Rightarrow> Window option" where
  "sentinel_tick w =
     (if running w
      then Some (w\<lparr>buffer := (buffer w)[unat (index w) := cur w], cur := Map.empty, index := (index w + 1) mod csize w\<rparr>)
      else None)"

definition sentinel_stop :: "Window \<Rightarrow> Window option" where
  "sentinel_stop w = (if running w \<and> ctx_done w then Some (w\<lparr>running := False\<rparr>) else None)"

text \<open>The first call sets the flag and cancels the context, here in one step.\<close>

definition Shutdown :: "Window \<Rightarrow> Window" where
  "Shutdown w = (if closed w then w else w\<lparr>closed := True, ctx_done := True\<rparr>)"

fun wstep :: "wlab \<Rightarrow> Window \<Rightarrow> Window option" where
  "wstep (LAdd t i) w = AddIndex t i w"
| "wstep (LSend t) w = AddIndex_send t w"
| "wstep (LDrop t) w = AddIndex_drop t w"
| "wstep LRecv w = sentinel_recv w"
| "wstep LTick w = sentinel_tick w"
| "wstep LStop w = sentinel_stop w"
| "wstep LShutdown w = Some (Shutdown w)"
| "wstep LCancel w = Some (w\<lparr>ctx_done := True\<rparr>)"

fun wrun :: "wlab list \<Rightarrow> Window \<Rightarrow> Window option" where
  "wrun [] w = Some w"
| "wrun (l # ls) w = Option.bind (wstep l w) (wrun ls)"

definition merge :: "(string \<rightharpoonup> u64) \<Rightarrow> (string \<rightharpoonup> u64) \<Rightarrow> (string \<rightharpoonup> u64)" where
  "merge m buf = (\<lambda>k. case buf k of None \<Rightarrow> m k | Some u \<Rightarrow> Some ((case m k of Some x \<Rightarrow> x | None \<Rightarrow> 0) + u))"

definition Show_totals :: "Window \<Rightarrow> (string \<rightharpoonup> u64)" where
  "Show_totals w = foldl merge Map.empty (buffer w)"

text \<open>The order in which the map is ranged over is an argument.\<close>

definition Show :: "string list \<Rightarrow> Window \<Rightarrow> Index list" where
  "Show order w =
     concat (map (\<lambda>k. case Show_totals w k of Some u \<Rightarrow> [\<lparr>Name = k, Score = u\<rparr>] | None \<Rightarrow> []) order)"

section \<open>What a window shows\<close>

text \<open>What the sentinel has received since the last tick, and in each completed interval, the latest first.\<close>

fun received :: "wlab list \<Rightarrow> Window \<Rightarrow> Index list \<times> Index list list \<Rightarrow> Index list \<times> Index list list" where
  "received [] w h = h"
| "received (l # ls) w (now, past) =
     (case wstep l w of
        None \<Rightarrow> (now, past)
      | Some w' \<Rightarrow>
          received ls w'
            (case l of LRecv \<Rightarrow> (now @ [hd (communication w)], past) | LTick \<Rightarrow> ([], now # past) | _ \<Rightarrow> (now, past)))"

definition tally :: "Index list \<Rightarrow> (string \<rightharpoonup> u64)" where
  "tally is = foldl (\<lambda>m i. bump (Name i) (Score i) m) Map.empty is"

definition sum_of :: "string \<Rightarrow> Index list \<Rightarrow> u64 option" where
  "sum_of k is = (if k \<in> Name ` set is then Some (sum_list (map Score (filter (\<lambda>i. Name i = k) is))) else None)"

lemma bump_at: "bump k v m j = (if j = k then Some ((case m k of Some u \<Rightarrow> u | None \<Rightarrow> 0) + v) else m j)"
  by (simp add: bump_def)

lemma tally_snoc: "tally (is @ [i]) = bump (Name i) (Score i) (tally is)"
  by (simp add: tally_def)

lemma tally_sum: "tally is = (\<lambda>k. sum_of k is)"
proof (induction "is" rule: rev_induct)
  case Nil
  then show ?case by (simp add: tally_def sum_of_def)
next
  case (snoc i "is")
  have "filter (\<lambda>j. Name j = k) is = []" if "k \<notin> Name ` set is" for k using that by (auto simp: filter_empty_conv)
  then show ?case using snoc by (auto simp: tally_snoc fun_eq_iff bump_at sum_of_def)
qed

lemma merge_sum: "merge (\<lambda>k. sum_of k is) (\<lambda>k. sum_of k js) = (\<lambda>k. sum_of k (is @ js))"
proof -
  have "filter (\<lambda>j. Name j = k) xs = []" if "k \<notin> Name ` set xs" for k and xs :: "Index list"
    using that by (auto simp: filter_empty_conv)
  then show ?thesis by (auto simp: merge_def fun_eq_iff sum_of_def image_Un split: option.splits if_splits)
qed


lemma sum_of_mset: "mset is = mset js \<Longrightarrow> sum_of k is = sum_of k js"
proof -
  assume m: "mset is = mset js"
  then have "set is = set js" by (metis set_mset_mset)
  moreover have "sum_list (map Score (filter (\<lambda>i. Name i = k) is)) = sum_list (map Score (filter (\<lambda>i. Name i = k) js))"
    by (subst (1 2) sum_mset_sum_list [symmetric]) (simp only: mset_map mset_filter m)
  ultimately show ?thesis by (simp add: sum_of_def)
qed

lemma foldl_merge: "foldl merge (\<lambda>k. sum_of k is) (map tally Ls) = (\<lambda>k. sum_of k (is @ concat Ls))"
  by (induction Ls arbitrary: "is") (simp_all add: tally_sum merge_sum)

text \<open>The position in the ring of the interval \<open>j\<close> ticks ago.\<close>

definition pos :: "nat \<Rightarrow> nat \<Rightarrow> nat \<Rightarrow> nat" where
  "pos N i j = (i + N - 1 - j) mod N"

lemma pos_cases:
  assumes "i < N" and "j < N"
  shows "pos N i j = (if j < i then i - 1 - j else i + N - 1 - j)"
proof (cases "j < i")
  case True
  then have "i + N - 1 - j = (i - 1 - j) + N" using assms by linarith
  then have "pos N i j = (i - 1 - j) mod N" by (simp only: pos_def mod_add_self2)
  then show ?thesis using True assms by simp
qed (use assms in \<open>simp add: pos_def\<close>)

lemma pos_bound: "i < N \<Longrightarrow> j < N \<Longrightarrow> pos N i j < N"
  by (simp add: pos_def)

lemma pos_invol:
  assumes "i < N" and "j < N"
  shows "pos N i (pos N i j) = j"
  using pos_cases [OF assms] pos_cases [OF assms(1) pos_bound [OF assms]] assms by (auto split: if_splits)

lemma pos_tick:
  assumes "i < N" and "j < N"
  shows "pos N (Suc i mod N) j = (if j = 0 then i else pos N i (j - 1))"
proof (cases "Suc i = N")
  case True
  then show ?thesis using assms pos_cases [of 0 N j] pos_cases [of i N "j - 1"] by (auto split: if_splits)
next
  case False
  then have "Suc i < N" "Suc i mod N = Suc i" using assms by simp_all
  then show ?thesis using assms pos_cases [of "Suc i" N j] pos_cases [of i N "j - 1"] by (auto split: if_splits)
qed

definition winv :: "Window \<Rightarrow> Index list \<times> Index list list \<Rightarrow> bool" where
  "winv w h \<longleftrightarrow> csize w \<noteq> 0 \<and> length (buffer w) = unat (csize w) \<and> unat (index w) < unat (csize w) \<and>
     cur w = tally (fst h) \<and> length (communication w) \<le> unat (csize w) \<and> (running w \<or> ctx_done w) \<and>
     (closed w \<longrightarrow> ctx_done w) \<and>
     (\<forall>j < unat (csize w). buffer w ! pos (unat (csize w)) (unat (index w)) j =
        tally (if j < length (snd h) then snd h ! j else []))"

lemma winv_new: "winv (NewWindow opts) ([], [])"
  by (auto simp: winv_def NewWindow_def Let_def tally_def defaultWindowSize_def unat_gt_0 pos_def split: if_splits)

lemma winv_tick:
  assumes "winv w (now, past)" and "running w"
  shows "winv (the (sentinel_tick w)) ([], now # past)"
proof -
  let ?N = "unat (csize w)" and ?i = "unat (index w)"
  have b: "csize w \<noteq> 0" "length (buffer w) = ?N" "?i < ?N" "cur w = tally now"
    "\<And>j. j < ?N \<Longrightarrow> buffer w ! pos ?N ?i j = tally (if j < length past then past ! j else [])"
    using assms(1) by (auto simp: winv_def)
  have "?N < 2 ^ LENGTH(64)" by (rule unsigned_less)
  then have N: "?i + 1 < 2 ^ 64" using b(3) by simp
  have i': "unat ((index w + 1) mod csize w) = Suc ?i mod ?N"
    using N by (simp add: unat_mod unat_word_ariths)
  have "(buffer w)[?i := cur w] ! pos ?N (Suc ?i mod ?N) j = tally (if j < length (now # past) then (now # past) ! j else [])"
    if j: "j < ?N" for j
  proof (cases j)
    case 0
    then show ?thesis using b j pos_tick [OF b(3) j] by simp
  next
    case (Suc k)
    have "pos ?N ?i k \<noteq> ?i" using pos_cases [OF b(3), of k] Suc j by auto
    then show ?thesis using b(5) [of k] Suc j pos_tick [OF b(3) j] by simp
  qed
  then show ?thesis using assms b i' by (simp add: winv_def sentinel_tick_def tally_def unat_gt_0)
qed

lemma winv_step:
  assumes "winv w (now, past)" and "wstep l w = Some w'"
  shows "winv w' (case l of LRecv \<Rightarrow> (now @ [hd (communication w)], past) | LTick \<Rightarrow> ([], now # past) | _ \<Rightarrow> (now, past))"
proof (cases l)
  case LTick
  then show ?thesis using winv_tick [OF assms(1)] assms(2) by (simp add: sentinel_tick_def split: if_splits)
qed (use assms in \<open>auto simp: winv_def AddIndex_def AddIndex_send_def AddIndex_drop_def sentinel_recv_def sentinel_stop_def
    Shutdown_def tally_snoc split: if_splits option.splits list.splits\<close>)

lemma winv_run:
  "winv w h \<Longrightarrow> wrun ls w = Some w' \<Longrightarrow> winv w' (received ls w h)"
proof (induction ls arbitrary: w h)
  case (Cons l ls)
  obtain now past where h: "h = (now, past)" by fastforce
  obtain w1 where w1: "wstep l w = Some w1" "wrun ls w1 = Some w'" using Cons.prems(2) by (auto simp: bind_eq_Some_conv)
  then show ?case using Cons.IH [OF winv_step [OF Cons.prems(1) [unfolded h] w1(1)] w1(2)] h by simp
qed simp

lemma Show_totals_sum:
  assumes "winv w (now, past)"
  shows "Show_totals w k = sum_of k (concat (take (unat (csize w)) past))"
proof -
  let ?N = "unat (csize w)" and ?i = "unat (index w)"
  define g where "g = (\<lambda>j. if j < length past then past ! j else [])"
  have b: "length (buffer w) = ?N" "?i < ?N" "\<And>j. j < ?N \<Longrightarrow> buffer w ! pos ?N ?i j = tally (g j)"
    using assms by (auto simp: winv_def g_def)
  have "buffer w ! p = tally (g (pos ?N ?i p))" if "p < ?N" for p
    using b(3) [OF pos_bound [OF b(2) that]] pos_invol [OF b(2) that] by simp
  then have "buffer w = map (\<lambda>p. tally (g (pos ?N ?i p))) [0..<?N]"
    using b(1) by (intro nth_equalityI) simp_all
  then have buf: "buffer w = map tally (map (\<lambda>p. g (pos ?N ?i p)) [0..<?N])" by simp
  have "mset (concat (map (\<lambda>p. g (pos ?N ?i p)) [0..<?N])) = (\<Sum>p \<in> {0..<?N}. mset (g (pos ?N ?i p)))"
    by (simp add: mset_concat comp_def sum_list_distinct_conv_sum_set)
  also have "\<dots> = (\<Sum>j \<in> {0..<?N}. mset (g j))"
    by (rule sum.reindex_bij_witness [of _ "pos ?N ?i" "pos ?N ?i"]) (use b(2) pos_invol pos_bound in auto)
  also have "\<dots> = mset (concat (map g [0..<?N]))"
    by (simp add: mset_concat comp_def sum_list_distinct_conv_sum_set)
  also have "concat (map g [0..<?N]) = concat (take ?N past)"
  proof (cases "?N \<le> length past")
    case True
    then have "map g [0..<?N] = take ?N past" by (intro nth_equalityI) (simp_all add: g_def)
    then show ?thesis by simp
  next
    case False
    then have "map g [0..<?N] = past @ replicate (?N - length past) []" by (intro nth_equalityI) (auto simp: nth_append g_def)
    then show ?thesis using False by (simp add: concat_replicate_trivial)
  qed
  finally have "sum_of k (concat (map (\<lambda>p. g (pos ?N ?i p)) [0..<?N])) = sum_of k (concat (take ?N past))"
    by (rule sum_of_mset)
  moreover have "Map.empty = (\<lambda>k. sum_of k [])" by (simp add: sum_of_def)
  ultimately show ?thesis unfolding Show_totals_def buf using foldl_merge [of "[]"] by (simp only: append_Nil)
qed

text \<open>The indices that went into the channel, in their order.\<close>

fun sent :: "wlab list \<Rightarrow> Window \<Rightarrow> Index list" where
  "sent [] w = []"
| "sent (l # ls) w =
     (case wstep l w of
        None \<Rightarrow> []
      | Some w' \<Rightarrow> (case l of LSend t \<Rightarrow> [the (sending w t)] | _ \<Rightarrow> []) @ sent ls w')"

lemma received_sent:
  "wrun ls w = Some w' \<Longrightarrow> (case received ls w (now, past) of (now', past') \<Rightarrow> concat (rev past') @ now' @ communication w') =
     concat (rev past) @ now @ communication w @ sent ls w"
proof (induction ls arbitrary: w now past)
  case (Cons l ls)
  obtain w1 where w1: "wstep l w = Some w1" "wrun ls w1 = Some w'" using Cons.prems by (auto simp: bind_eq_Some_conv)
  show ?case
  proof (cases l)
    case LTick
    then show ?thesis using w1 Cons.IH [OF w1(2), of "[]" "now # past"] by (auto simp: sentinel_tick_def split: if_splits)
  next
    case LRecv
    then show ?thesis using w1 Cons.IH [OF w1(2), of "now @ [hd (communication w)]" past]
      by (auto simp: sentinel_recv_def split: if_splits list.splits)
  qed (use w1 Cons.IH [OF w1(2), of now past] in \<open>auto simp: AddIndex_def AddIndex_send_def AddIndex_drop_def
      sentinel_stop_def Shutdown_def split: if_splits option.splits\<close>)
qed simp

section \<open>Properties\<close>

definition size_3 :: "(conf \<Rightarrow> conf) list" where
  "size_3 = [SetSize 3]"

definition demo_labels :: "wlab list" where
  "demo_labels = [LAdd 0 \<lparr>Name = ''a'', Score = 2\<rparr>, LAdd 1 \<lparr>Name = ''a'', Score = 5\<rparr>, LSend 1, LRecv, LTick, LSend 0, LRecv,
     LTick, LAdd 0 \<lparr>Name = ''b'', Score = 1\<rparr>]"

text \<open>
  C15: whatever the interleaving of callers, sentinel and ticks, \<open>Show\<close> gives for each name the sum of the scores
  that the sentinel received in the last \<open>size\<close> completed intervals, and no other name; and no index that
  went into the channel is lost: what the sentinel received, and what is still in the channel, is what was sent.
\<close>

theorem Show_window:
  assumes "wrun ls (NewWindow opts) = Some w"
  shows "case received ls (NewWindow opts) ([], []) of (now, past) \<Rightarrow>
    (\<lparr>Name = k, Score = u\<rparr> \<in> set (Show order w) \<longleftrightarrow>
      k \<in> set order \<and> sum_of k (concat (take (unat (csize w)) past)) = Some u) \<and>
    concat (rev past) @ now @ communication w = sent ls (NewWindow opts)"
proof -
  obtain now past where r: "received ls (NewWindow opts) ([], []) = (now, past)" by fastforce
  have "winv w (now, past)" using winv_run [OF winv_new assms] r by simp
  then have "Show_totals w = (\<lambda>k. sum_of k (concat (take (unat (csize w)) past)))"
    using Show_totals_sum by blast
  moreover have "\<lparr>Name = k, Score = u\<rparr> \<in> set (Show order w) \<longleftrightarrow> k \<in> set order \<and> Show_totals w k = Some u"
    by (force simp: Show_def split: option.splits)
  moreover have "concat (rev past) @ now @ communication w = sent ls (NewWindow opts)"
    using received_sent [OF assms, of "[]" "[]"] r by (simp add: NewWindow_def Let_def)
  ultimately show ?thesis using r by simp
qed

theorem Show_window_witness:
  "\<exists>w. wrun demo_labels (NewWindow size_3) = Some w \<and> \<lparr>Name = ''a'', Score = 7\<rparr> \<in> set (Show [''a''] w)"
proof -
  have "case wrun demo_labels (NewWindow size_3) of Some w \<Rightarrow> csize w = 3 | None \<Rightarrow> False" by code_simp
  then obtain w where w: "wrun demo_labels (NewWindow size_3) = Some w" "csize w = 3" by (auto split: option.splits)
  have "snd (received demo_labels (NewWindow size_3) ([], [])) = [[\<lparr>Name = ''a'', Score = 2\<rparr>], [\<lparr>Name = ''a'', Score = 5\<rparr>]]"
    by code_simp
  then have "\<lparr>Name = ''a'', Score = 7\<rparr> \<in> set (Show [''a''] w)"
    using Show_window [OF w(1), of "''a''" 7 "[''a'']"] w(2) by (auto simp: sum_of_def split: prod.splits)
  then show ?thesis using w(1) by blast
qed

text \<open>
  C30: no caller of \<open>AddIndex\<close> is stuck: in every reachable state a caller that waits can finish with at most one step
  of the sentinel before its own, and after a \<open>Shutdown\<close> it needs no one else.
\<close>

theorem AddIndex_progress:
  assumes "wrun ls (NewWindow opts) = Some w" and "sending w t = Some i"
  shows "\<exists>ls' w'. ls' \<in> {[LSend t], [LRecv, LSend t], [LDrop t]} \<and> (closed w \<longrightarrow> ls' = [LDrop t]) \<and>
    wrun ls' w = Some w' \<and> sending w' t = None"
proof -
  have inv: "winv w (received ls (NewWindow opts) ([], []))" by (rule winv_run [OF winv_new assms(1)])
  show ?thesis
  proof (cases "ctx_done w")
    case True
    then show ?thesis using assms(2) by (intro exI [of _ "[LDrop t]"]) (simp add: AddIndex_drop_def)
  next
    case False
    then have alive: "running w" "\<not> closed w" using inv by (auto simp: winv_def)
    show ?thesis
    proof (cases "length (communication w) < unat (csize w)")
      case True
      then show ?thesis using assms(2) alive by (intro exI [of _ "[LSend t]"]) (simp add: AddIndex_send_def)
    next
      case full: False
      have "csize w \<noteq> 0" "length (communication w) \<le> unat (csize w)" using inv by (auto simp: winv_def)
      then obtain j rest where "communication w = j # rest" "length rest < unat (csize w)"
        using full by (cases "communication w") (auto simp: unat_gt_0)
      then show ?thesis using assms(2) alive
        by (intro exI [of _ "[LRecv, LSend t]"]) (simp add: AddIndex_send_def sentinel_recv_def)
    qed
  qed
qed

theorem AddIndex_progress_witness:
  "\<exists>w ls' w'. wrun demo_labels (NewWindow size_3) = Some w \<and> sending w 0 = Some \<lparr>Name = ''b'', Score = 1\<rparr> \<and>
    wrun ls' w = Some w' \<and> sending w' 0 = None"
proof -
  have "case wrun demo_labels (NewWindow size_3) of Some w \<Rightarrow> sending w 0 = Some \<lparr>Name = ''b'', Score = 1\<rparr> | None \<Rightarrow> False"
    by code_simp
  then obtain w where w: "wrun demo_labels (NewWindow size_3) = Some w" "sending w 0 = Some \<lparr>Name = ''b'', Score = 1\<rparr>"
    by (auto split: option.splits)
  from AddIndex_progress [OF this] w show ?thesis by blast
qed

end
