(* ===== verification/GoMath.thy ===== *)
theory GoMath
  imports GoFloat
begin

text \<open>
  Further operations of Go's floating-point numbers and of package \<open>math\<close>: products, quotients, square
  roots, rounding to integers, minimum and maximum, and the conversion to \<open>int64\<close>. Each is the exact
  result rounded to nearest even, as IEEE-754 requires; signed zeros, infinities and NaN are as the
  documentation of the functions says.
\<close>

definition fneg_sign :: "gofloat \<Rightarrow> bool" where
  "fneg_sign x = (case x of FNegInf \<Rightarrow> True | FNegZero \<Rightarrow> True | FNum r \<Rightarrow> r < 0 | _ \<Rightarrow> False)"

definition fzero :: "bool \<Rightarrow> gofloat" where
  "fzero neg = (if neg then FNegZero else FNum 0)"

definition finf :: "bool \<Rightarrow> gofloat" where
  "finf neg = (if neg then FNegInf else FPosInf)"

definition fis_zero :: "gofloat \<Rightarrow> bool" where
  "fis_zero x \<longleftrightarrow> x = FNegZero \<or> x = FNum 0"

definition fis_inf :: "gofloat \<Rightarrow> bool" where
  "fis_inf x \<longleftrightarrow> x = FPosInf \<or> x = FNegInf"

definition fval :: "gofloat \<Rightarrow> rat" where
  "fval x = (case x of FNum r \<Rightarrow> r | _ \<Rightarrow> 0)"

definition fmul :: "ffmt \<Rightarrow> gofloat \<Rightarrow> gofloat \<Rightarrow> gofloat" where
  "fmul fmt a b =
     (let neg = (fneg_sign a \<noteq> fneg_sign b)
      in if is_nan a \<or> is_nan b then FNaN
         else if fis_inf a \<or> fis_inf b then (if fis_zero a \<or> fis_zero b then FNaN else finf neg)
         else if fis_zero a \<or> fis_zero b then fzero neg
         else fround fmt (fval a * fval b))"

definition fdiv :: "ffmt \<Rightarrow> gofloat \<Rightarrow> gofloat \<Rightarrow> gofloat" where
  "fdiv fmt a b =
     (let neg = (fneg_sign a \<noteq> fneg_sign b)
      in if is_nan a \<or> is_nan b then FNaN
         else if fis_inf a then (if fis_inf b then FNaN else finf neg)
         else if fis_inf b then fzero neg
         else if fis_zero b then (if fis_zero a then FNaN else finf neg)
         else if fis_zero a then fzero neg
         else fround fmt (fval a / fval b))"

text \<open>The integer below the square root of a natural number, by bisection from above.\<close>

fun isqrt_search :: "nat \<Rightarrow> nat \<Rightarrow> nat \<Rightarrow> nat" where
  "isqrt_search 0 m r = r"
| "isqrt_search (Suc k) m r = isqrt_search k m (if (r + 2 ^ k) * (r + 2 ^ k) \<le> m then r + 2 ^ k else r)"

definition isqrt :: "nat \<Rightarrow> nat" where
  "isqrt m = isqrt_search (bit_length m) m 0"

definition fsqrt :: "ffmt \<Rightarrow> gofloat \<Rightarrow> gofloat" where
  "fsqrt fmt x =
     (if is_nan x then FNaN
      else if fis_zero x then x
      else if fneg_sign x then FNaN
      else if fis_inf x then FPosInf
      else
        let e = ilog2 (fval x) div 2 - (int (fprec fmt) - 1);
            q = fval x / 2 powi (2 * e);
            k = isqrt (nat \<lfloor>q\<rfloor>);
            h = of_nat k + 1/2;
            k' = (if q < h * h then k else if h * h < q then k + 1 else if even k then k else k + 1)
        in fround fmt (of_nat k' * 2 powi e))"

definition ffloor :: "gofloat \<Rightarrow> gofloat" where
  "ffloor x = (case x of FNum r \<Rightarrow> FNum (of_int \<lfloor>r\<rfloor>) | _ \<Rightarrow> x)"

definition fceil :: "gofloat \<Rightarrow> gofloat" where
  "fceil x = (case x of FNum r \<Rightarrow> if -1 < r \<and> r < 0 then FNegZero else FNum (of_int \<lceil>r\<rceil>) | _ \<Rightarrow> x)"

definition math_Max :: "gofloat \<Rightarrow> gofloat \<Rightarrow> gofloat" where
  "math_Max x y =
     (if x = FPosInf \<or> y = FPosInf then FPosInf
      else if is_nan x \<or> is_nan y then FNaN
      else if fis_zero x \<and> fis_zero y then (if fneg_sign x then y else x)
      else if flt y x then x else y)"

definition math_Min :: "gofloat \<Rightarrow> gofloat \<Rightarrow> gofloat" where
  "math_Min x y =
     (if x = FNegInf \<or> y = FNegInf then FNegInf
      else if is_nan x \<or> is_nan y then FNaN
      else if fis_zero x \<and> fis_zero y then (if fneg_sign x then x else y)
      else if flt x y then x else y)"

definition max_float64 :: gofloat where
  "max_float64 = FNum ((2 - 1 / 2 ^ 52) * 2 ^ 1023)"

text \<open>
  A conversion to \<open>int64\<close> cuts the fraction off. For a value outside the range of \<open>int64\<close> the Go
  specification leaves the result to the implementation: it is the argument \<open>oor\<close>.
\<close>

definition f_to_i64 :: "(gofloat \<Rightarrow> i64) \<Rightarrow> gofloat \<Rightarrow> i64" where
  "f_to_i64 oor x =
     (case x of
        FNum r \<Rightarrow>
          (let k = (if 0 \<le> r then \<lfloor>r\<rfloor> else \<lceil>r\<rceil>)
           in if min_i64 \<le> k \<and> k \<le> max_i64 then word_of_int k else oor x)
      | FNegZero \<Rightarrow> 0
      | _ \<Rightarrow> oor x)"

definition i64_to_f :: "i64 \<Rightarrow> gofloat" where
  "i64_to_f w = f_of_int float64_fmt (sint w)"

lemma isqrt_search_bounds:
  "r * r \<le> m \<Longrightarrow> m < (r + 2 ^ k) * (r + 2 ^ k) \<Longrightarrow>
   (case isqrt_search k m r of s \<Rightarrow> s * s \<le> m \<and> m < (s + 1) * (s + 1))"
proof (induction k arbitrary: r)
  case (Suc k)
  show ?case
  proof (cases "(r + 2 ^ k) * (r + 2 ^ k) \<le> m")
    case True
    have "m < (r + 2 ^ k + 2 ^ k) * (r + 2 ^ k + 2 ^ k)" using Suc.prems(2) by (simp add: mult_2 add.assoc)
    from Suc.IH [OF True this] True show ?thesis by simp
  next
    case False
    with Suc.IH [OF Suc.prems(1)] show ?thesis by simp
  qed
qed simp

lemma less_bit_length: "n < 2 ^ bit_length n"
proof (induction n rule: bit_length.induct)
  case (1 n)
  show ?case
  proof (cases "n = 0")
    case False
    then have "n div 2 < 2 ^ bit_length (n div 2)" using 1 by simp
    then have "n < 2 * 2 ^ bit_length (n div 2)" by linarith
    then show ?thesis using False by (subst bit_length.simps) simp
  qed (simp add: bit_length.simps)
qed

lemma isqrt_bounds: "isqrt m * isqrt m \<le> m" "m < (isqrt m + 1) * (isqrt m + 1)"
proof -
  have "m < 2 ^ bit_length m * 2 ^ bit_length m"
    using less_bit_length [of m] by (metis less_le_trans mult.right_neutral mult_le_mono2 one_le_numeral one_le_power)
  then show "isqrt m * isqrt m \<le> m" "m < (isqrt m + 1) * (isqrt m + 1)"
    using isqrt_search_bounds [of 0 m "bit_length m"] by (simp_all add: isqrt_def)
qed

lemma f_to_i64_of_int: "min_i64 \<le> k \<Longrightarrow> k \<le> max_i64 \<Longrightarrow> f_to_i64 oor (FNum (of_int k)) = word_of_int k"
  by (simp add: f_to_i64_def Let_def)

end
