(* ===== verification/Codel.thy ===== *)
theory Codel
  imports GoMath
begin

text \<open>
  The queue with controlled delay (\<open>container/queue/codel/queue.go\<close>). Times are in milliseconds. A call
  of \<open>Push\<close> puts a packet into the buffered channel and waits for the verdict on it; a call of \<open>Pop\<close> takes
  packets out and judges them, with a reading of the clock for each, until it finds one that is not
  dropped. The channel of a packet holds one verdict, so giving it never blocks; the verdicts are the
  result of \<open>Pop\<close>.
\<close>

section \<open>Model\<close>

record config =
  target :: i64
  internal :: i64

record packet =
  pid :: nat  \<comment> \<open>stands for the channel \<open>ch\<close>\<close>
  ts :: i64

record Queue =
  dropping :: bool
  packets :: "packet list"
  qconf :: config
  count :: i64
  faTime :: i64
  dropNext :: i64

record Stat =
  Dropping :: bool
  Packets :: i64
  FaTime :: i64
  DropNext :: i64

definition defaultConfig :: config where
  "defaultConfig = \<lparr>target = 20, internal = 500\<rparr>"

definition SetTarget :: "i64 \<Rightarrow> config \<Rightarrow> config" where "SetTarget t c = c\<lparr>target := t\<rparr>"
definition SetInternal :: "i64 \<Rightarrow> config \<Rightarrow> config" where "SetInternal t c = c\<lparr>internal := t\<rparr>"

definition NewQueue :: "(config \<Rightarrow> config) list \<Rightarrow> Queue" where
  "NewQueue opts =
     (let c = fold (\<lambda>f c. f c) opts defaultConfig
      in \<lparr>dropping = False, packets = [],
          qconf = (if target c \<le>s 0 \<or> internal c \<le>s 0 then defaultConfig else c),
          count = 0, faTime = 0, dropNext = 0\<rparr>)"

definition Default :: Queue where
  "Default = NewQueue []"

definition Reload :: "config option \<Rightarrow> Queue \<Rightarrow> Queue" where
  "Reload c q =
     (case c of
        None \<Rightarrow> q
      | Some c' \<Rightarrow> if internal c' \<le>s 0 \<or> target c' \<le>s 0 then q else q\<lparr>qconf := c'\<rparr>)"

definition Stat_of :: "Queue \<Rightarrow> Stat" where
  "Stat_of q = \<lparr>Dropping = dropping q, Packets = of_nat (length (packets q)), FaTime = faTime q, DropNext = dropNext q\<rparr>"

definition channel_cap :: nat where "channel_cap = 2048"

datatype push_res = Waits | LimitExceed | CtxErr

definition Push :: "bool \<Rightarrow> packet \<Rightarrow> Queue \<Rightarrow> push_res \<times> Queue" where
  "Push ctx_err p q =
     (if ctx_err then (CtxErr, q)
      else if length (packets q) < channel_cap then (Waits, q\<lparr>packets := packets q @ [p]\<rparr>)
      else (LimitExceed, q))"

definition controlLaw :: "(gofloat \<Rightarrow> i64) \<Rightarrow> i64 \<Rightarrow> Queue \<Rightarrow> Queue" where
  "controlLaw oor now q =
     q\<lparr>dropNext := now + f_to_i64 oor (fdiv float64_fmt (i64_to_f (internal (qconf q))) (fsqrt float64_fmt (i64_to_f (count q))))\<rparr>"

definition judge :: "(gofloat \<Rightarrow> i64) \<Rightarrow> i64 \<Rightarrow> packet \<Rightarrow> Queue \<Rightarrow> bool \<times> Queue" where
  "judge oor now p q =
     (let sojurn = now - ts p;
          (dr, q1) =
            (if sojurn <s target (qconf q) then (False, q\<lparr>faTime := 0\<rparr>)
             else if faTime q = 0 then (False, q\<lparr>faTime := now + internal (qconf q)\<rparr>)
             else (faTime q \<le>s now, q))
      in if dropping q1 then
           if \<not> dr then (dr, q1\<lparr>dropping := False\<rparr>)
           else if dropNext q1 <s now then
             (True, controlLaw oor (dropNext q1) (q1\<lparr>count := count q1 + 1\<rparr>))
           else (dr, q1)
         else if dr \<and> (now - dropNext q1 <s internal (qconf q1) \<or> internal (qconf q1) \<le>s now - faTime q1) then
           (let q2 = q1\<lparr>dropping := True\<rparr>;
                q3 = (if now - dropNext q2 <s internal (qconf q2) then
                        (if 2 <s count q2 then q2\<lparr>count := count q2 - 2\<rparr> else q2\<lparr>count := 1\<rparr>)
                      else q2\<lparr>count := 1\<rparr>)
            in (True, controlLaw oor now q3))
         else (dr, q1))"

text \<open>
  The readings of the clock by the calls of \<open>judge\<close> are a list; the verdicts go to the packets. A list that is
  too short stops the loop early.
\<close>

fun pop_loop :: "(gofloat \<Rightarrow> i64) \<Rightarrow> i64 list \<Rightarrow> packet list \<Rightarrow> Queue \<Rightarrow> (packet \<times> bool) list \<times> Queue" where
  "pop_loop oor nows [] q = ([], q\<lparr>packets := []\<rparr>)"
| "pop_loop oor [] (p # ps) q = ([], q\<lparr>packets := p # ps\<rparr>)"
| "pop_loop oor (now # nows) (p # ps) q =
     (case judge oor now p q of (dr, q') \<Rightarrow>
        if \<not> dr then ([(p, dr)], q'\<lparr>packets := ps\<rparr>)
        else case pop_loop oor nows ps q' of (vs, q'') \<Rightarrow> ((p, dr) # vs, q''))"

definition Pop :: "(gofloat \<Rightarrow> i64) \<Rightarrow> i64 list \<Rightarrow> Queue \<Rightarrow> (packet \<times> bool) list \<times> Queue" where
  "Pop oor nows q = pop_loop oor nows (packets q) q"

section \<open>Runs\<close>

datatype qev = EPush bool packet | EPop "i64 list"

text \<open>
  The judgements of a run: the reading of the clock, the packet and the verdict. A run is of one consumer, whose calls of \<open>Pop\<close> follow
  each other, and of a queue that is not reloaded.
\<close>

fun pop_log :: "(gofloat \<Rightarrow> i64) \<Rightarrow> i64 list \<Rightarrow> packet list \<Rightarrow> Queue \<Rightarrow> (i64 \<times> packet \<times> bool) list" where
  "pop_log oor nows [] q = []"
| "pop_log oor [] (p # ps) q = []"
| "pop_log oor (now # nows) (p # ps) q =
     (case judge oor now p q of (dr, q') \<Rightarrow> (now, p, dr) # (if \<not> dr then [] else pop_log oor nows ps q'))"

fun qrun :: "(gofloat \<Rightarrow> i64) \<Rightarrow> qev list \<Rightarrow> Queue \<Rightarrow> (i64 \<times> packet \<times> bool) list \<times> Queue" where
  "qrun oor [] q = ([], q)"
| "qrun oor (EPush c p # es) q = qrun oor es (snd (Push c p q))"
| "qrun oor (EPop nows # es) q =
     (case qrun oor es (snd (Pop oor nows q)) of (js, q') \<Rightarrow> (pop_log oor nows (packets q) q @ js, q'))"

lemma pop_log_verdicts: "map snd (pop_log oor nows ps q) = fst (pop_loop oor nows ps q)"
  by (induction oor nows ps q rule: pop_loop.induct) (auto split: prod.split)

text \<open>A packet is late when it waited for the target or longer.\<close>

definition late :: "config \<Rightarrow> i64 \<times> packet \<times> bool \<Rightarrow> bool" where
  "late c e \<longleftrightarrow> target c \<le>s fst e - ts (fst (snd e))"

text \<open>When the unbroken run of late packets at the end of the judgements began.\<close>

definition late_since :: "config \<Rightarrow> (i64 \<times> packet \<times> bool) list \<Rightarrow> i64 option" where
  "late_since c js = (case rev (takeWhile (late c) (rev js)) of [] \<Rightarrow> None | e # _ \<Rightarrow> Some (fst e))"

text \<open>The specification: a packet is dropped when packets have been late without a break for an interval.\<close>

definition standing :: "config \<Rightarrow> (i64 \<times> packet \<times> bool) list \<Rightarrow> i64 \<Rightarrow> bool" where
  "standing c js now = (case late_since c js of Some t \<Rightarrow> sint t + sint (internal c) \<le> sint now | None \<Rightarrow> False)"

definition log_ok :: "config \<Rightarrow> (i64 \<times> packet \<times> bool) list \<Rightarrow> bool" where
  "log_ok c js \<longleftrightarrow> (\<forall>i < length js. snd (snd (js ! i)) \<longleftrightarrow> late c (js ! i) \<and> standing c (take i js) (fst (js ! i)))"

definition readable :: "config \<Rightarrow> i64 \<Rightarrow> bool" where
  "readable c now \<longleftrightarrow> 0 < sint now \<and> sint now + sint (internal c) \<le> max_i64"

lemma late_since_snoc:
  "late_since c (js @ [e]) =
     (if late c e then (case late_since c js of None \<Rightarrow> Some (fst e) | Some t \<Rightarrow> Some t) else None)"
  by (auto simp: late_since_def split: list.split)

lemma log_ok_snoc:
  "log_ok c (js @ [e]) \<longleftrightarrow> log_ok c js \<and> (snd (snd e) \<longleftrightarrow> late c e \<and> standing c js (fst e))"
  by (auto simp: log_ok_def nth_append less_Suc_eq)

text \<open>The queue after a run: \<open>faTime\<close> is the end of the interval that began with the run of late packets.\<close>

definition qinv :: "(i64 \<times> packet \<times> bool) list \<Rightarrow> Queue \<Rightarrow> bool" where
  "qinv js q \<longleftrightarrow> 0 < sint (internal (qconf q)) \<and> log_ok (qconf q) js \<and>
     (case late_since (qconf q) js of
        None \<Rightarrow> faTime q = 0
      | Some t \<Rightarrow> readable (qconf q) t \<and> faTime q = t + internal (qconf q))"

lemma qinv_cong: "qconf q' = qconf q \<Longrightarrow> faTime q' = faTime q \<Longrightarrow> qinv js q' = qinv js q"
  by (simp add: qinv_def cong: option.case_cong)

lemma judge_qconf: "qconf (snd (judge oor now p q)) = qconf q"
  by (simp add: judge_def Let_def controlLaw_def)

lemma judge_faTime:
  "faTime (snd (judge oor now p q)) =
     (if now - ts p <s target (qconf q) then 0 else if faTime q = 0 then now + internal (qconf q) else faTime q)"
  by (simp add: judge_def Let_def controlLaw_def)

text \<open>The verdict does not depend on \<open>dropping\<close>, \<open>count\<close> and \<open>dropNext\<close>.\<close>

lemma judge_verdict:
  "fst (judge oor now p q) \<longleftrightarrow> \<not> now - ts p <s target (qconf q) \<and> faTime q \<noteq> 0 \<and> faTime q \<le>s now"
  by (simp add: judge_def Let_def)

lemma sint_deadline:
  assumes "0 < sint (internal c)" and "readable c t"
  shows "sint (t + internal c) = sint t + sint (internal c)" and "t + internal c \<noteq> 0"
proof -
  show e: "sint (t + internal c) = sint t + sint (internal c)"
    using assms by (intro sint_add64) (simp_all add: readable_def)
  then show "t + internal c \<noteq> 0" using assms by (auto simp: readable_def)
qed

lemma judge_qinv:
  assumes inv: "qinv js q" and now: "readable (qconf q) now"
  shows "qinv (js @ [(now, p, fst (judge oor now p q))]) (snd (judge oor now p q))"
proof -
  let ?c = "qconf q" and ?e = "(now, p, fst (judge oor now p q))"
  have i: "0 < sint (internal ?c)" using inv by (simp add: qinv_def)
  have late: "late ?c ?e \<longleftrightarrow> \<not> now - ts p <s target ?c" by (simp add: late_def word_sle_eq word_sless_alt not_less)
  have v: "fst (judge oor now p q) \<longleftrightarrow> late ?c ?e \<and> standing ?c js now"
  proof (cases "late_since ?c js")
    case None
    then show ?thesis using inv judge_verdict [of oor now p q] by (simp add: qinv_def standing_def)
  next
    case (Some t)
    then have "readable ?c t" "faTime q = t + internal ?c" using inv by (auto simp: qinv_def)
    then show ?thesis using Some judge_verdict [of oor now p q] late sint_deadline [OF i]
      by (simp add: standing_def word_sle_eq)
  qed
  then have "log_ok ?c (js @ [?e])" using inv by (simp add: log_ok_snoc qinv_def)
  then show ?thesis
    using inv now late late_since_snoc [of ?c js ?e] sint_deadline(2) [OF i]
    by (auto simp: qinv_def judge_qconf judge_faTime split: option.splits)
qed

lemma pop_qinv:
  assumes "qinv js q" and "\<forall>now \<in> set nows. readable (qconf q) now"
  shows "qinv (js @ pop_log oor nows ps q) (snd (pop_loop oor nows ps q)) \<and> qconf (snd (pop_loop oor nows ps q)) = qconf q \<and>
    map (fst \<circ> snd) (pop_log oor nows ps q) @ packets (snd (pop_loop oor nows ps q)) = ps"
  using assms
proof (induction oor nows ps q arbitrary: js rule: pop_loop.induct)
  case (3 oor now nows p ps q)
  obtain dr q1 where j: "judge oor now p q = (dr, q1)" by fastforce
  have q1: "qinv (js @ [(now, p, dr)]) q1" "qconf q1 = qconf q"
    using judge_qinv [OF "3.prems"(1), of now p oor] "3.prems"(2) j judge_qconf [of oor now p q] by simp_all
  show ?case
  proof (cases dr)
    case True
    have "\<forall>x \<in> set nows. readable (qconf q1) x" using "3.prems"(2) q1(2) by simp
    from "3.IH" [OF j [symmetric] _ q1(1) this] True j q1(2) show ?thesis by (simp add: split_beta)
  next
    case False
    have "qinv (js @ [(now, p, dr)]) (q1\<lparr>packets := ps\<rparr>)" using q1(1) by (simp add: qinv_cong [of "q1\<lparr>packets := ps\<rparr>" q1])
    then show ?thesis using False j q1 by simp
  qed
next
  case (1 oor nows q)
  then show ?case by (simp add: qinv_cong [of "q\<lparr>packets := []\<rparr>" q])
next
  case (2 oor p ps q)
  then show ?case by (simp add: qinv_cong [of "q\<lparr>packets := p # ps\<rparr>" q])
qed

fun readings :: "qev \<Rightarrow> i64 list" where
  "readings (EPush c p) = []"
| "readings (EPop nows) = nows"

lemma qrun_qinv:
  assumes "qinv js q" and "\<forall>now \<in> set (concat (map readings es)). readable (qconf q) now"
  shows "qinv (js @ fst (qrun oor es q)) (snd (qrun oor es q)) \<and> qconf (snd (qrun oor es q)) = qconf q"
  using assms
proof (induction es arbitrary: js q)
  case (Cons e es)
  show ?case
  proof (cases e)
    case (EPush c p)
    have same: "qconf (snd (Push c p q)) = qconf q" "faTime (snd (Push c p q)) = faTime q" by (auto simp: Push_def)
    then have "qinv js (snd (Push c p q))" using Cons.prems(1) qinv_cong [OF same, of js] by simp
    with Cons.IH [of js "snd (Push c p q)"] Cons.prems(2) EPush same(1) show ?thesis by simp
  next
    case (EPop nows)
    let ?q1 = "snd (Pop oor nows q)"
    have "\<forall>now \<in> set nows. readable (qconf q) now" using Cons.prems(2) EPop by simp
    from pop_qinv [OF Cons.prems(1) this, of oor "packets q"]
    have q1: "qinv (js @ pop_log oor nows (packets q) q) ?q1" "qconf ?q1 = qconf q" by (simp_all add: Pop_def)
    have "\<forall>now \<in> set (concat (map readings es)). readable (qconf ?q1) now" using Cons.prems(2) q1(2) by simp
    from Cons.IH [OF q1(1) this] q1(2) EPop show ?thesis by (simp add: split_beta)
  qed
qed simp

section \<open>Properties\<close>

lemma NewQueue_qinv: "qinv [] (NewQueue opts)"
proof -
  define c where "c = fold (\<lambda>f c. f c) opts defaultConfig"
  have "sint (500 :: i64) = 500" by simp
  then have "0 < sint (internal (if target c \<le>s 0 \<or> internal c \<le>s 0 then defaultConfig else c))"
    by (cases "target c \<le>s 0 \<or> internal c \<le>s 0") (auto simp: defaultConfig_def word_sle_eq)
  moreover have "qconf (NewQueue opts) = (if target c \<le>s 0 \<or> internal c \<le>s 0 then defaultConfig else c)"
    by (simp only: NewQueue_def Let_def c_def Queue.simps)
  moreover have "faTime (NewQueue opts) = 0" by (simp add: NewQueue_def Let_def)
  ultimately show ?thesis by (simp add: qinv_def log_ok_def late_since_def)
qed

text \<open>
  C19: a packet is dropped exactly when it has waited for the target or longer and every packet judged
  before it, back to one judged at least an interval earlier, was late as well: the queue drops when it has been
  standing for an interval, and passes everything otherwise. Nothing is assumed of the order of the clock's readings.
\<close>

theorem codel_standing:
  assumes "\<forall>now \<in> set (concat (map readings es)). readable (qconf (NewQueue opts)) now"
  shows "log_ok (qconf (NewQueue opts)) (fst (qrun oor es (NewQueue opts)))"
proof -
  have "qinv (fst (qrun oor es (NewQueue opts))) (snd (qrun oor es (NewQueue opts)))"
    and c: "qconf (snd (qrun oor es (NewQueue opts))) = qconf (NewQueue opts)"
    using qrun_qinv [OF NewQueue_qinv assms, of oor] by simp_all
  then have "log_ok (qconf (snd (qrun oor es (NewQueue opts)))) (fst (qrun oor es (NewQueue opts)))" by (simp only: qinv_def)
  then show ?thesis by (simp only: c)
qed

definition demo_evs :: "qev list" where
  "demo_evs = [EPush False \<lparr>pid = 1, ts = 1\<rparr>, EPush False \<lparr>pid = 2, ts = 2\<rparr>, EPush False \<lparr>pid = 3, ts = 705\<rparr>,
     EPop [100], EPop [700, 710]]"

theorem codel_standing_witness:
  "fst (qrun (\<lambda>_. 0) demo_evs (NewQueue [])) =
     [(100, \<lparr>pid = 1, ts = 1\<rparr>, False), (700, \<lparr>pid = 2, ts = 2\<rparr>, True), (710, \<lparr>pid = 3, ts = 705\<rparr>, False)] \<and>
   log_ok (qconf (NewQueue [])) (fst (qrun (\<lambda>_. 0) demo_evs (NewQueue [])))"
proof -
  have r: "\<forall>now \<in> set (concat (map readings demo_evs)). readable (qconf (NewQueue [])) now" by code_simp
  have "fst (qrun (\<lambda>_. 0) demo_evs (NewQueue [])) =
     [(100, \<lparr>pid = 1, ts = 1\<rparr>, False), (700, \<lparr>pid = 2, ts = 2\<rparr>, True), (710, \<lparr>pid = 3, ts = 705\<rparr>, False)]" by code_simp
  then show ?thesis using codel_standing [OF r, of "\<lambda>_. 0"] by blast
qed

end
