(* ===== verification/Rolling.thy ===== *)
theory Rolling
  imports GoMath "HOL-Library.Monad_Syntax"
begin

text \<open>
  The rolling window of \<open>internal/stat\<close>: a ring of buckets that a policy moves on with the clock. The clock's
  reading is an argument of the operations; an index outside the ring, a division by zero or a negative
  counter is a panic, \<open>None\<close>. The \<open>next\<close> pointers of the buckets make the ring of the slice, so the
  bucket after offset \<open>i\<close> is at \<open>(i + 1) mod size\<close>. The policy's lock makes each operation one step.
\<close>

section \<open>Buckets and windows (\<open>window.go\<close>)\<close>

record Bucket =
  Points :: "gofloat list"
  Count :: i64

definition empty_bucket :: Bucket where
  "empty_bucket = \<lparr>Points = [], Count = 0\<rparr>"

definition Bucket_Append :: "gofloat \<Rightarrow> Bucket \<Rightarrow> Bucket" where
  "Bucket_Append val b = \<lparr>Points = Points b @ [val], Count = Count b + 1\<rparr>"

definition Bucket_Add :: "nat \<Rightarrow> gofloat \<Rightarrow> Bucket \<Rightarrow> Bucket option" where
  "Bucket_Add offset val b =
     (if offset < length (Points b)
      then Some \<lparr>Points = (Points b)[offset := fadd float64_fmt (Points b ! offset) val], Count = Count b + 1\<rparr>
      else None)"

type_synonym Window = "Bucket list"

definition NewWindow :: "nat \<Rightarrow> Window" where
  "NewWindow n = replicate n empty_bucket"

definition ResetBucket :: "nat \<Rightarrow> Window \<Rightarrow> Window option" where
  "ResetBucket offset w = (if offset < length w then Some (w[offset := empty_bucket]) else None)"

fun ResetBuckets :: "nat list \<Rightarrow> Window \<Rightarrow> Window option" where
  "ResetBuckets [] w = Some w"
| "ResetBuckets (i # is) w = Option.bind (ResetBucket i w) (ResetBuckets is)"

definition ResetWindow :: "Window \<Rightarrow> Window option" where
  "ResetWindow w = ResetBuckets [0..<length w] w"

definition Window_Append :: "nat \<Rightarrow> gofloat \<Rightarrow> Window \<Rightarrow> Window option" where
  "Window_Append offset val w = (if offset < length w then Some (w[offset := Bucket_Append val (w ! offset)]) else None)"

definition Window_Add :: "nat \<Rightarrow> gofloat \<Rightarrow> Window \<Rightarrow> Window option" where
  "Window_Add offset val w =
     (if offset < length w then
        if Count (w ! offset) = 0 then Window_Append offset val w
        else map_option (\<lambda>b. w[offset := b]) (Bucket_Add 0 val (w ! offset))
      else None)"

section \<open>Iterators and reductions (\<open>iterator.go\<close>, \<open>reduce.go\<close>)\<close>

text \<open>The buckets that an iterator has still to visit.\<close>

type_synonym Iterator = "Bucket list"

definition Iterator_Next :: "Iterator \<Rightarrow> bool" where
  "Iterator_Next it \<longleftrightarrow> it \<noteq> []"

definition Iterator_Bucket :: "Iterator \<Rightarrow> (Bucket \<times> Iterator) option" where
  "Iterator_Bucket it = (case it of [] \<Rightarrow> None | b # rest \<Rightarrow> Some (b, rest))"

definition fsum :: "gofloat \<Rightarrow> gofloat list \<Rightarrow> gofloat" where
  "fsum r ps = foldl (fadd float64_fmt) r ps"

fun sum_loop :: "Iterator \<Rightarrow> gofloat \<Rightarrow> gofloat" where
  "sum_loop [] r = r"
| "sum_loop (b # it) r = sum_loop it (fsum r (Points b))"

definition Sum :: "Iterator \<Rightarrow> gofloat" where
  "Sum it = sum_loop it (FNum 0)"

fun avg_loop :: "Iterator \<Rightarrow> gofloat \<Rightarrow> gofloat \<Rightarrow> gofloat \<times> gofloat" where
  "avg_loop [] r c = (r, c)"
| "avg_loop (b # it) r c =
     avg_loop it (fsum r (Points b)) (foldl (\<lambda>c _. fadd float64_fmt c (FNum 1)) c (Points b))"

definition Avg :: "Iterator \<Rightarrow> gofloat" where
  "Avg it = (case avg_loop it (FNum 0) (FNum 0) of (r, c) \<Rightarrow> fdiv float64_fmt r c)"

fun pick_points :: "(gofloat \<Rightarrow> gofloat \<Rightarrow> bool) \<Rightarrow> gofloat list \<Rightarrow> gofloat \<times> bool \<Rightarrow> gofloat \<times> bool" where
  "pick_points better [] s = s"
| "pick_points better (p # ps) (r, started) =
     pick_points better ps (if \<not> started then (p, True) else if better p r then (p, started) else (r, started))"

fun pick_loop :: "(gofloat \<Rightarrow> gofloat \<Rightarrow> bool) \<Rightarrow> Iterator \<Rightarrow> gofloat \<times> bool \<Rightarrow> gofloat \<times> bool" where
  "pick_loop better [] s = s"
| "pick_loop better (b # it) s = pick_loop better it (pick_points better (Points b) s)"

definition Min :: "Iterator \<Rightarrow> gofloat" where
  "Min it = fst (pick_loop flt it (FNum 0, False))"

definition Max :: "Iterator \<Rightarrow> gofloat" where
  "Max it = fst (pick_loop (\<lambda>p r. flt r p) it (FNum 0, False))"

definition Count_of :: "Iterator \<Rightarrow> gofloat" where
  "Count_of it = i64_to_f (foldl (\<lambda>r b. r + Count b) 0 it)"

section \<open>The policy (\<open>rolling_policy.go\<close>)\<close>

record RollingPolicy =
  rsize :: nat
  window :: Window
  offset :: nat
  bucketDuration :: i64
  lastAppendTime :: gotime

definition NewRollingPolicy :: "Window \<Rightarrow> i64 \<Rightarrow> gotime \<Rightarrow> RollingPolicy" where
  "NewRollingPolicy w d now = \<lparr>rsize = length w, window = w, offset = 0, bucketDuration = d, lastAppendTime = now\<rparr>"

text \<open>\<open>time.Since\<close>, which saturates.\<close>

definition Since :: "gotime \<Rightarrow> gotime \<Rightarrow> int" where
  "Since now t = max min_i64 (min max_i64 (now - t))"

definition timespan :: "gotime \<Rightarrow> RollingPolicy \<Rightarrow> int option" where
  "timespan now r =
     (if bucketDuration r = 0 then None
      else
        let v = go_div (Since now (lastAppendTime r)) (sint (bucketDuration r))
        in Some (if - 1 < v then v else int (rsize r)))"

definition policy_add ::
  "(nat \<Rightarrow> gofloat \<Rightarrow> Window \<Rightarrow> Window option) \<Rightarrow> gotime \<Rightarrow> gofloat \<Rightarrow> RollingPolicy \<Rightarrow> RollingPolicy option" where
  "policy_add f now val r =
     do {
       t \<leftarrow> timespan now r;
       r1 \<leftarrow> (if 0 < t then
                (let last = TimeAdd (lastAppendTime r) (word_of_int t * bucketDuration r);
                     s = offset r + 1;
                     t' = nat (if int (rsize r) < t then int (rsize r) else t);
                     e = s + t';
                     is = (if rsize r < e then [s..<rsize r] @ [0..<e - rsize r] else [s..<e])
                 in do {
                      w \<leftarrow> ResetBuckets is (window r);
                      Some (r\<lparr>lastAppendTime := last, window := w, offset := (if is = [] then offset r else List.last is)\<rparr>)
                    })
              else Some r);
       w \<leftarrow> f (offset r1) val (window r1);
       Some (r1\<lparr>window := w\<rparr>)
     }"

definition policy_Append :: "gotime \<Rightarrow> gofloat \<Rightarrow> RollingPolicy \<Rightarrow> RollingPolicy option" where
  "policy_Append = policy_add Window_Append"

definition policy_Add :: "gotime \<Rightarrow> gofloat \<Rightarrow> RollingPolicy \<Rightarrow> RollingPolicy option" where
  "policy_Add = policy_add Window_Add"

text \<open>The snapshot that a reduction visits; \<open>None\<close> inside is an empty window, for which the result is zero.\<close>

definition snapshot :: "gotime \<Rightarrow> RollingPolicy \<Rightarrow> Iterator option option" where
  "snapshot now r =
     do {
       t \<leftarrow> timespan now r;
       let count = int (rsize r) - t
       in if 0 < count then
            (let off = offset r + nat t + 1;
                 off' = (if rsize r \<le> off then off - rsize r else off)
             in if off' < length (window r)
                then Some (Some (map (\<lambda>i. window r ! ((off' + i) mod length (window r))) [0..<nat count]))
                else None)
          else Some None
     }"

definition Reduce :: "(Iterator \<Rightarrow> gofloat) \<Rightarrow> gotime \<Rightarrow> RollingPolicy \<Rightarrow> gofloat option" where
  "Reduce f now r = map_option (\<lambda>s. case s of Some it \<Rightarrow> f it | None \<Rightarrow> FNum 0) (snapshot now r)"

section \<open>The counter (\<open>rolling_counter.go\<close>)\<close>

definition NewRollingCounter :: "nat \<Rightarrow> i64 \<Rightarrow> gotime \<Rightarrow> RollingPolicy" where
  "NewRollingCounter n d now = NewRollingPolicy (NewWindow n) d now"

definition counter_Add :: "gotime \<Rightarrow> i64 \<Rightarrow> RollingPolicy \<Rightarrow> RollingPolicy option" where
  "counter_Add now val r = (if val <s 0 then None else policy_Add now (i64_to_f val) r)"

definition counter_Sum :: "gotime \<Rightarrow> RollingPolicy \<Rightarrow> gofloat option" where
  "counter_Sum = Reduce Sum"

definition counter_Value :: "(gofloat \<Rightarrow> i64) \<Rightarrow> gotime \<Rightarrow> RollingPolicy \<Rightarrow> i64 option" where
  "counter_Value oor now r = map_option (f_to_i64 oor) (counter_Sum now r)"

definition counter_Min :: "gotime \<Rightarrow> RollingPolicy \<Rightarrow> gofloat option" where "counter_Min = Reduce Min"
definition counter_Max :: "gotime \<Rightarrow> RollingPolicy \<Rightarrow> gofloat option" where "counter_Max = Reduce Max"
definition counter_Avg :: "gotime \<Rightarrow> RollingPolicy \<Rightarrow> gofloat option" where "counter_Avg = Reduce Avg"
definition counter_Timespan :: "gotime \<Rightarrow> RollingPolicy \<Rightarrow> int option" where "counter_Timespan = timespan"

end
