(* ===== verification/RollingSpec.thy ===== *)
theory RollingSpec
  imports Rolling
begin

text \<open>
  What the rolling window promises: time is cut into periods of the bucket duration, counted from the
  creation of the policy, and a reduction sees the values that were added in the last \<open>size\<close> periods,
  period by period. The ring with its moving offset refines the sequence of periods.
\<close>

section \<open>The ring\<close>

text \<open>The place of the bucket that is \<open>k\<close> periods old.\<close>

definition agepos :: "nat \<Rightarrow> nat \<Rightarrow> nat \<Rightarrow> nat" where
  "agepos N off k = (off + N - k) mod N"

lemma agepos_cases:
  assumes "off < N" and "k < N"
  shows "agepos N off k = (if k \<le> off then off - k else off + N - k)"
proof (cases "k \<le> off")
  case True
  then have "off + N - k = (off - k) + N" by simp
  then have "agepos N off k = (off - k) mod N" by (simp only: agepos_def mod_add_self2)
  then show ?thesis using True assms by simp
qed (use assms in \<open>simp add: agepos_def\<close>)

definition reset_indices :: "nat \<Rightarrow> nat \<Rightarrow> nat \<Rightarrow> nat list" where
  "reset_indices N off t =
     (if N < off + 1 + t then [off + 1..<N] @ [0..<off + 1 + t - N] else [off + 1..<off + 1 + t])"

definition new_offset :: "nat \<Rightarrow> nat \<Rightarrow> nat \<Rightarrow> nat" where
  "new_offset N off t = (if off + t < N then off + t else off + t - N)"

lemma reset_indices_last:
  assumes "off < N" and "0 < t" and "t \<le> N"
  shows "reset_indices N off t \<noteq> []" and "List.last (reset_indices N off t) = new_offset N off t"
  using assms by (auto simp: reset_indices_def new_offset_def)

lemma new_offset_bound: "off < N \<Longrightarrow> t \<le> N \<Longrightarrow> new_offset N off t < N"
  by (auto simp: new_offset_def less_diff_conv2)

lemma reset_indices_bound: "off < N \<Longrightarrow> t \<le> N \<Longrightarrow> i \<in> set (reset_indices N off t) \<Longrightarrow> i < N"
  by (auto simp: reset_indices_def split: if_splits)

lemma agepos_reset:
  assumes "off < N" and "0 < t" and "t \<le> N" and "k < N"
  shows "agepos N (new_offset N off t) k \<in> set (reset_indices N off t) \<longleftrightarrow> k < t"
  using agepos_cases [OF new_offset_bound [OF assms(1,3)] assms(4)] assms
  by (auto simp: reset_indices_def new_offset_def split: if_splits)

lemma agepos_moved:
  assumes "off < N" and "t \<le> N" and "k < N" and "t \<le> k"
  shows "agepos N (new_offset N off t) k = agepos N off (k - t)"
  using agepos_cases [OF new_offset_bound [OF assms(1,2)] assms(3)] agepos_cases [OF assms(1), of "k - t"] assms
  by (auto simp: new_offset_def split: if_splits)

lemma agepos_inj:
  assumes "off < N" and "k < N" and "j < N" and "agepos N off k = agepos N off j"
  shows "k = j"
  using agepos_cases [OF assms(1,2)] agepos_cases [OF assms(1,3)] assms by (auto split: if_splits)

lemma ResetBuckets_effect:
  "\<forall>i \<in> set is. i < length w \<Longrightarrow>
   \<exists>w'. ResetBuckets is w = Some w' \<and> length w' = length w \<and>
     (\<forall>p < length w. w' ! p = (if p \<in> set is then empty_bucket else w ! p))"
proof (induction "is" arbitrary: w)
  case (Cons i "is")
  obtain w' where "ResetBuckets is (w[i := empty_bucket]) = Some w'" "length w' = length w"
    "\<forall>p < length w. w' ! p = (if p \<in> set is then empty_bucket else w[i := empty_bucket] ! p)"
    using Cons.IH [of "w[i := empty_bucket]"] Cons.prems by auto
  then show ?case using Cons.prems by (auto simp: ResetBucket_def nth_list_update)
qed simp

section \<open>The refinement\<close>

text \<open>The period of an instant.\<close>

definition period :: "i64 \<Rightarrow> gotime \<Rightarrow> gotime \<Rightarrow> int" where
  "period d t0 t = (t - t0) div sint d"

text \<open>The policy holds the buckets \<open>H\<close> of the last periods up to \<open>B\<close>.\<close>

definition holds :: "i64 \<Rightarrow> gotime \<Rightarrow> nat \<Rightarrow> (int \<Rightarrow> Bucket) \<Rightarrow> int \<Rightarrow> RollingPolicy \<Rightarrow> bool" where
  "holds d t0 N H B r \<longleftrightarrow> 0 < N \<and> 0 < sint d \<and> rsize r = N \<and> length (window r) = N \<and> offset r < N \<and> bucketDuration r = d \<and>
     0 \<le> B \<and> lastAppendTime r = t0 + B * sint d \<and> (\<forall>k < N. window r ! agepos N (offset r) k = H (B - int k)) \<and>
     (\<forall>m > B. H m = empty_bucket)"

definition in_order :: "i64 \<Rightarrow> gotime \<Rightarrow> int \<Rightarrow> gotime \<Rightarrow> bool" where
  "in_order d t0 B now \<longleftrightarrow> t0 + B * sint d \<le> now \<and> now - t0 \<le> max_i64"

lemma timespan_period:
  assumes h: "holds d t0 N H B r" and now: "in_order d t0 B now"
  shows "timespan now r = Some (period d t0 now - B)" and "B \<le> period d t0 now"
proof -
  have d: "0 < sint d" and B: "0 \<le> B" using h by (auto simp: holds_def)
  have Bd: "0 \<le> B * sint d" using B d by simp
  have "d \<noteq> 0" using d by auto
  have s: "Since now (lastAppendTime r) = now - t0 - B * sint d"
  proof -
    have "lastAppendTime r = t0 + B * sint d" using h by (simp add: holds_def)
    then show ?thesis using now Bd by (auto simp: Since_def in_order_def min_def max_def)
  qed
  have p: "(now - t0 - B * sint d) div sint d = period d t0 now - B"
  proof -
    have e: "now - t0 - B * sint d = (now - t0) + (- B) * sint d" by simp
    show ?thesis unfolding e by (subst div_mult_self1) (use d in \<open>simp_all add: period_def\<close>)
  qed
  have nn: "0 \<le> now - t0 - B * sint d" using now by (simp add: in_order_def)
  then have "0 \<le> (now - t0 - B * sint d) div sint d" using d by (simp add: pos_imp_zdiv_nonneg_iff)
  then show "B \<le> period d t0 now" using p by simp
  show "timespan now r = Some (period d t0 now - B)"
    using h \<open>d \<noteq> 0\<close> s p nn d \<open>B \<le> period d t0 now\<close> by (simp add: timespan_def holds_def Let_def)
qed

text \<open>The policy moves on to the period of the clock.\<close>

definition moved :: "gotime \<Rightarrow> RollingPolicy \<Rightarrow> RollingPolicy option" where
  "moved now r =
     do {
       t \<leftarrow> timespan now r;
       if 0 < t then
         (let t' = nat (if int (rsize r) < t then int (rsize r) else t);
              is = reset_indices (rsize r) (offset r) t'
          in do {
               w \<leftarrow> ResetBuckets is (window r);
               Some (r\<lparr>lastAppendTime := TimeAdd (lastAppendTime r) (word_of_int t * bucketDuration r),
                 window := w, offset := (if is = [] then offset r else List.last is)\<rparr>)
             })
       else Some r
     }"

lemma policy_add_moved:
  "policy_add f now val r = do { r1 \<leftarrow> moved now r; w \<leftarrow> f (offset r1) val (window r1); Some (r1\<lparr>window := w\<rparr>) }"
  by (simp add: policy_add_def moved_def reset_indices_def Let_def add.assoc add.left_commute split: Option.bind_splits)

lemma moved_at:
  assumes "timespan now r = Some t" and "0 < t" and "nat (if int (rsize r) < t then int (rsize r) else t) = t'"
    and "reset_indices (rsize r) (offset r) t' \<noteq> []" and "ResetBuckets (reset_indices (rsize r) (offset r) t') (window r) = Some w"
  shows "moved now r = Some (r\<lparr>lastAppendTime := TimeAdd (lastAppendTime r) (word_of_int t * bucketDuration r),
    window := w, offset := List.last (reset_indices (rsize r) (offset r) t')\<rparr>)"
  using assms(1,2,4,5) by (simp only: moved_def bind.bind_lunit assms(3) Let_def if_True if_False)

lemma moved_holds:
  assumes h: "holds d t0 N H B r" and now: "in_order d t0 B now"
  shows "\<exists>r'. moved now r = Some r' \<and> holds d t0 N H (period d t0 now) r'"
proof -
  define B' where "B' = period d t0 now"
  define t where "t = B' - B"
  have ts: "timespan now r = Some t" "0 \<le> t" using timespan_period [OF h now] by (simp_all add: t_def B'_def)
  have hd: "0 < N" "0 < sint d" "rsize r = N" "length (window r) = N" "offset r < N" "bucketDuration r = d" "0 \<le> B"
    "lastAppendTime r = t0 + B * sint d" "\<And>k. k < N \<Longrightarrow> window r ! agepos N (offset r) k = H (B - int k)"
    "\<And>m. B < m \<Longrightarrow> H m = empty_bucket" using h by (auto simp: holds_def)
  show ?thesis
  proof (cases "t = 0")
    case True
    then have "B' = B" by (simp add: t_def)
    then show ?thesis using True ts h by (simp add: moved_def B'_def)
  next
    case False
    then have t: "0 < t" using ts by simp
    define t' where "t' = nat (if int N < t then int N else t)"
    have t': "0 < t'" "t' \<le> N" "t' < N \<longrightarrow> int t' = t" using t hd(1) by (auto simp: t'_def)
    let ?is = "reset_indices N (offset r) t'" and ?o = "new_offset N (offset r) t'"
    have o: "?o < N" by (rule new_offset_bound [OF hd(5) t'(2)])
    obtain w' where w': "ResetBuckets ?is (window r) = Some w'" "length w' = N"
      "\<And>p. p < N \<Longrightarrow> w' ! p = (if p \<in> set ?is then empty_bucket else window r ! p)"
      using ResetBuckets_effect [of ?is "window r"] reset_indices_bound [OF hd(5) t'(2)] hd(4) by auto
    have "t * sint d \<le> now - t0 - B * sint d"
    proof -
      have "B' * sint d \<le> now - t0"
        using hd(2) by (simp add: B'_def period_def minus_mod_eq_div_mult [symmetric])
      then show ?thesis by (simp add: t_def algebra_simps)
    qed
    moreover have "0 \<le> t * sint d" "0 \<le> B * sint d" using t hd(2,7) by simp_all
    ultimately have td: "sint (word_of_int t * d) = t * sint d"
      using now sint_of_int64 [of "t * sint d"] by (simp add: in_order_def)
    define r' where "r' = r\<lparr>lastAppendTime := t0 + B' * sint d, window := w', offset := ?o\<rparr>"
    have tt: "nat (if int (rsize r) < t then int (rsize r) else t) = t'" by (simp only: t'_def hd(3))
    have l: "TimeAdd (lastAppendTime r) (word_of_int t * bucketDuration r) = t0 + B' * sint d"
      using td hd(6,8) by (simp add: TimeAdd_def t_def algebra_simps)
    have "moved now r = Some r'"
      using moved_at [OF ts(1) t tt, of w'] w'(1) reset_indices_last [OF hd(5) t'(1,2)] hd(3) l by (simp add: r'_def)
    moreover have "w' ! agepos N ?o k = H (B' - int k)" if k: "k < N" for k
    proof -
      have "agepos N ?o k < N" using hd(1) by (simp add: agepos_def)
      then have w: "w' ! agepos N ?o k = (if k < t' then empty_bucket else window r ! agepos N ?o k)"
        using w'(3) agepos_reset [OF hd(5) t'(1,2) k] by simp
      show ?thesis
      proof (cases "k < t'")
        case True
        have "int t' \<le> t" using t by (auto simp: t'_def)
        then have "B < B' - int k" using True by (simp add: t_def)
        then show ?thesis using w True hd(10) by simp
      next
        case False
        then have tt: "int t' = t" using t' k by auto
        have "window r ! agepos N ?o k = H (B - int (k - t'))"
          using agepos_moved [OF hd(5) t'(2) k] False hd(9) [of "k - t'"] k by simp
        moreover have "B - int (k - t') = B' - int k" using False tt by (simp add: t_def)
        ultimately have "window r ! agepos N ?o k = H (B' - int k)" by (simp only:)
        then show ?thesis using w False by (simp only: if_False)
      qed
    qed
    moreover have "H m = empty_bucket" if "B' < m" for m using that t hd(10) [of m] by (simp add: t_def)
    ultimately show ?thesis using hd w'(2) o t by (auto simp: holds_def r'_def B'_def [symmetric] t_def)
  qed
qed

text \<open>An operation on the newest bucket.\<close>

lemma policy_add_holds:
  assumes h: "holds d t0 N H B r" and now: "in_order d t0 B now"
    and f: "\<And>w off. off < length w \<Longrightarrow> w ! off = H (period d t0 now) \<Longrightarrow> f off val w = Some (w[off := b])"
  shows "\<exists>r'. policy_add f now val r = Some r' \<and> holds d t0 N (H(period d t0 now := b)) (period d t0 now) r'"
proof -
  let ?B = "period d t0 now"
  obtain r1 where r1: "moved now r = Some r1" "holds d t0 N H ?B r1" using moved_holds [OF h now] by blast
  then have o: "offset r1 < N" "length (window r1) = N" "window r1 ! agepos N (offset r1) 0 = H ?B"
    by (auto simp: holds_def dest: spec [of _ 0])
  have a0: "agepos N (offset r1) 0 = offset r1" using o(1) by (simp add: agepos_def)
  have "f (offset r1) val (window r1) = Some ((window r1)[offset r1 := b])" using f o a0 by simp
  then have "policy_add f now val r = Some (r1\<lparr>window := (window r1)[offset r1 := b]\<rparr>)"
    using r1(1) by (simp add: policy_add_moved)
  moreover have "(window r1)[offset r1 := b] ! agepos N (offset r1) k = (H(?B := b)) (?B - int k)" if "k < N" for k
  proof (cases "k = 0")
    case True
    then show ?thesis using a0 o by simp
  next
    case False
    then have "agepos N (offset r1) k \<noteq> offset r1" using agepos_inj [OF o(1) that, of 0] a0 o(1) by force
    then show ?thesis using False r1(2) that by (simp add: holds_def)
  qed
  ultimately show ?thesis using r1(2) by (auto simp: holds_def)
qed

text \<open>The buckets that a history of additions makes.\<close>

definition bucket_of :: "gofloat list \<Rightarrow> Bucket" where
  "bucket_of vs = (case vs of [] \<Rightarrow> empty_bucket | v # vs' \<Rightarrow> \<lparr>Points = [fsum v vs'], Count = of_nat (length vs)\<rparr>)"

definition added :: "i64 \<Rightarrow> gotime \<Rightarrow> (gotime \<times> gofloat) list \<Rightarrow> int \<Rightarrow> Bucket" where
  "added d t0 xs m = bucket_of (map snd (filter (\<lambda>x. period d t0 (fst x) = m) xs))"

definition latest :: "i64 \<Rightarrow> gotime \<Rightarrow> (gotime \<times> gofloat) list \<Rightarrow> int" where
  "latest d t0 xs = (if xs = [] then 0 else period d t0 (fst (List.last xs)))"

fun add_list :: "(gotime \<times> gofloat) list \<Rightarrow> RollingPolicy \<Rightarrow> RollingPolicy option" where
  "add_list [] r = Some r"
| "add_list ((t, v) # xs) r = Option.bind (policy_Add t v r) (add_list xs)"

lemma Window_Add_bucket:
  assumes "off < length w" and "w ! off = bucket_of vs" and "length vs < 2 ^ 64 - 1"
  shows "Window_Add off v w = Some (w[off := bucket_of (vs @ [v])])"
proof (cases vs)
  case Nil
  then show ?thesis using assms
    by (simp add: Window_Add_def bucket_of_def empty_bucket_def Window_Append_def Bucket_Append_def fsum_def)
next
  case (Cons x xs)
  have "unat (of_nat (length vs) :: i64) = length vs" using assms(3) by (simp add: unat_of_nat)
  then have "(of_nat (length vs) :: i64) \<noteq> 0" using Cons by (metis length_0_conv list.distinct(1) unat_0)
  then show ?thesis using assms Cons
    by (simp add: Window_Add_def bucket_of_def Bucket_Add_def fsum_def add.commute)
qed

lemma added_snoc:
  "added d t0 (xs @ [(t, v)]) = (added d t0 xs)(period d t0 t :=
     bucket_of (map snd (filter (\<lambda>x. period d t0 (fst x) = period d t0 t) xs) @ [v]))"
  by (auto simp: added_def fun_eq_iff)

lemma period_mono: "0 < sint d \<Longrightarrow> s \<le> t \<Longrightarrow> period d t0 s \<le> period d t0 t"
  by (simp add: period_def zdiv_mono1)

lemma period_start: "0 < sint d \<Longrightarrow> t0 + period d t0 t * sint d \<le> t"
  by (simp add: period_def minus_mod_eq_div_mult [symmetric])

lemma add_list_snoc: "add_list (xs @ [(t, v)]) r = Option.bind (add_list xs r) (policy_Add t v)"
  by (induction xs r rule: add_list.induct) (auto split: Option.bind_splits)

lemma NewRollingCounter_holds:
  "0 < N \<Longrightarrow> 0 < sint d \<Longrightarrow> holds d t0 N (added d t0 []) 0 (NewRollingCounter N d t0)"
  by (simp add: holds_def NewRollingCounter_def NewRollingPolicy_def NewWindow_def added_def bucket_of_def agepos_def
      empty_bucket_def)

lemma in_order_latest:
  assumes d: "0 < sint d" and s: "sorted (t0 # map fst xs @ [now])" and now: "now - t0 \<le> max_i64"
  shows "in_order d t0 (latest d t0 xs) now"
proof (cases "xs = []")
  case False
  then have "fst (List.last xs) \<le> now" using s by (auto simp: sorted_append)
  then show ?thesis using period_start [OF d, of t0 "fst (List.last xs)"] now False by (simp add: in_order_def latest_def)
qed (use assms in \<open>simp add: in_order_def latest_def\<close>)

lemma add_list_holds:
  assumes "0 < N" and d: "0 < sint d"
  shows "sorted (t0 # map fst xs) \<Longrightarrow> (\<forall>x \<in> set xs. fst x - t0 \<le> max_i64) \<Longrightarrow> length xs < 2 ^ 64 \<Longrightarrow>
    \<exists>r. add_list xs (NewRollingCounter N d t0) = Some r \<and> holds d t0 N (added d t0 xs) (latest d t0 xs) r"
proof (induction xs rule: rev_induct)
  case Nil
  then show ?case using NewRollingCounter_holds [OF assms] by (simp add: latest_def)
next
  case (snoc x xs)
  obtain t v where x: "x = (t, v)" by force
  let ?B = "period d t0 t" and ?vs = "map snd (filter (\<lambda>x. period d t0 (fst x) = period d t0 t) xs)"
  have s: "sorted (t0 # map fst xs @ [t])" using snoc.prems(1) x by simp
  then have s': "sorted (t0 # map fst xs)" by (simp add: sorted_append)
  obtain r where r: "add_list xs (NewRollingCounter N d t0) = Some r" "holds d t0 N (added d t0 xs) (latest d t0 xs) r"
    using snoc.IH [OF s'] snoc.prems by auto
  have now: "in_order d t0 (latest d t0 xs) t" using in_order_latest [OF d s] snoc.prems(2) x by simp
  have "length ?vs \<le> length xs" by (simp only: length_map length_filter_le)
  moreover have "length xs < 2 ^ 64 - 1" using snoc.prems(3) by simp
  ultimately have n: "length ?vs < 2 ^ 64 - 1" by (rule le_less_trans)
  have f: "Window_Add off v w = Some (w[off := bucket_of (?vs @ [v])])"
    if "off < length w" "w ! off = added d t0 xs ?B" for w off
    by (rule Window_Add_bucket [OF that(1) _ n]) (simp add: that(2) added_def)
  obtain r' where "policy_Add t v r = Some r'" "holds d t0 N ((added d t0 xs)(?B := bucket_of (?vs @ [v]))) ?B r'"
    using policy_add_holds [OF r(2) now, where f = Window_Add and val = v, OF f] by (auto simp: policy_Add_def)
  then show ?case using r(1) x by (simp add: add_list_snoc added_snoc latest_def del: fun_upd_apply)
qed

lemma snapshot_holds:
  assumes h: "holds d t0 N H B r" and now: "in_order d t0 B now"
  shows "snapshot now r = Some (if period d t0 now - B < int N then Some (map H [period d t0 now - int N + 1..B]) else None)"
proof (cases "period d t0 now - B < int N")
  case True
  note tp = timespan_period [OF h now]
  obtain t where t: "period d t0 now = B + int t" using tp(2) by (metis zle_iff_zadd)
  have tN: "t < N" using True t by simp
  have hd: "rsize r = N" "length (window r) = N" "offset r < N"
    "\<And>k. k < N \<Longrightarrow> window r ! agepos N (offset r) k = H (B - int k)" using h by (auto simp: holds_def)
  define o' where "o' = (if N \<le> offset r + t + 1 then offset r + t + 1 - N else offset r + t + 1)"
  have o': "o' < N" using hd(3) tN by (auto simp: o'_def)
  have "window r ! ((o' + i) mod N) = H (B + int t - int N + 1 + int i)" if i: "i < N - t" for i
  proof -
    let ?k = "N - 1 - t - i"
    have k: "?k < N" "int ?k = int N - 1 - int t - int i" using i by auto
    have "(o' + i) mod N = agepos N (offset r) ?k"
    proof -
      have e: "offset r + N - ?k = offset r + t + 1 + i" using i by auto
      show ?thesis unfolding agepos_def e by (auto simp: o'_def mod_if)
    qed
    then show ?thesis using hd(4) [OF k(1)] k(2) by (simp add: algebra_simps)
  qed
  then have "map (\<lambda>i. window r ! ((o' + i) mod N)) [0..<N - t] = map H [B + int t - int N + 1..B]"
    by (intro nth_equalityI) (auto simp: nth_upto)
  moreover have "snapshot now r = Some (Some (map (\<lambda>i. window r ! ((o' + i) mod N)) [0..<N - t]))"
    using t tp(1) hd(1-3) o' tN by (auto simp: snapshot_def o'_def Let_def nat_diff_distrib)
  ultimately show ?thesis using True t by simp
next
  case False
  then show ?thesis using timespan_period [OF h now] h by (simp add: snapshot_def holds_def)
qed

text \<open>
  C10: A rolling counter refines a log of its additions. Take a counter of \<open>N\<close> buckets created at \<open>t0\<close> with a
  positive bucket duration, and any additions made at non-decreasing times. Then every addition succeeds, and
  the reduction at any later time \<open>now\<close> visits, oldest first, exactly one bucket for each of the last \<open>N\<close>
  periods up to that of the last addition: each bucket holds the sum and the number of the values added in that
  very period, and is empty when there was none, however the ring was moved and cleared in between. When
  \<open>N\<close> or more periods passed since the last addition, the window is empty.
\<close>

theorem rolling_window_refines:
  assumes "0 < N" and "0 < sint d" and "sorted (t0 # map fst xs @ [now])" and "now - t0 \<le> max_i64" and "length xs < 2 ^ 64"
  shows "\<exists>r. add_list xs (NewRollingCounter N d t0) = Some r \<and>
    snapshot now r =
      Some (if period d t0 now - latest d t0 xs < int N
            then Some (map (added d t0 xs) [period d t0 now - int N + 1..latest d t0 xs])
            else None)"
proof -
  have "sorted (t0 # map fst xs)" "\<forall>x \<in> set xs. fst x \<le> now" using assms(3) by (auto simp: sorted_append)
  then obtain r where "add_list xs (NewRollingCounter N d t0) = Some r"
      "holds d t0 N (added d t0 xs) (latest d t0 xs) r"
    using add_list_holds [OF assms(1,2), of t0 xs] assms(4,5) by force
  then show ?thesis using snapshot_holds in_order_latest [OF assms(2,3,4)] by blast
qed

theorem rolling_window_refines_witness:
  "0 < sint (10 :: i64) \<and> sorted (100 # map fst [(103, FNum 4), (112, FNum 5), (115, FNum 6)] @ [131 :: int]) \<and>
   (\<exists>r. add_list [(103, FNum 4), (112, FNum 5), (115, FNum 6)] (NewRollingCounter 4 10 100) = Some r \<and>
     snapshot 131 r = Some (Some (map (added 10 100 [(103, FNum 4), (112, FNum 5), (115, FNum 6)]) [0, 1])))"
  using rolling_window_refines [of 4 10 100 "[(103, FNum 4), (112, FNum 5), (115, FNum 6)]" 131]
  by (simp add: period_def latest_def upto.simps)

end
