(* ===== verification/Bbr.thy ===== *)
theory Bbr
  imports RollingSpec
begin

text \<open>
  The adaptive limiter of \<open>overload/bbr\<close>: \<open>bbr.go\<close> and the middleware of \<open>middle.go\<close>. The load of the
  processor, the instants read from the clock and the time since \<open>initTime\<close> are arguments. \<open>None\<close> is a
  panic of the rolling counters. The conversions of a float outside the range of \<open>int64\<close> are the argument
  \<open>oor\<close>, as in \<^const>\<open>f_to_i64\<close>.
\<close>

section \<open>Configuration\<close>

record config =
  debug :: bool
  enabled :: bool
  winBucket :: i64
  cPUThreshold :: i64
  window_len :: duration
  rule :: string

definition time_Second :: duration where "time_Second = 1000000000"

definition defaultConf :: config where
  "defaultConf = \<lparr>debug = False, enabled = False, winBucket = 100, cPUThreshold = 800,
     window_len = time_Second * 10, rule = ''''\<rparr>"

definition SetDebug :: "bool \<Rightarrow> config \<Rightarrow> config" where "SetDebug b c = c\<lparr>debug := b\<rparr>"
definition SetEnabled :: "bool \<Rightarrow> config \<Rightarrow> config" where "SetEnabled b c = c\<lparr>enabled := b\<rparr>"
definition SetWinBucket :: "i64 \<Rightarrow> config \<Rightarrow> config" where "SetWinBucket n c = c\<lparr>winBucket := n\<rparr>"
definition SetCPUThreshold :: "i64 \<Rightarrow> config \<Rightarrow> config" where "SetCPUThreshold n c = c\<lparr>cPUThreshold := n\<rparr>"
definition SetWindow :: "duration \<Rightarrow> config \<Rightarrow> config" where "SetWindow d c = c\<lparr>window_len := d\<rparr>"
definition SetRule :: "string \<Rightarrow> config \<Rightarrow> config" where "SetRule r c = c\<lparr>rule := r\<rparr>"

section \<open>The limiter\<close>

text \<open>\<open>prevDrop\<close> is 0 also when nothing was stored yet: the failed type assertion gives the zero value.\<close>

record BBR =
  passStat :: RollingPolicy
  rtStat :: RollingPolicy
  inFlight :: i64
  winBucketPerSec :: i64
  conf :: config
  prevDrop :: duration
  prevDropHit :: i32
  rawMaxPASS :: i64
  rawMinRt :: i64

text \<open>The configuration that the options give, with the fallbacks to the defaults, and the bucket duration.\<close>

definition checked_conf :: "config \<Rightarrow> config \<times> duration" where
  "checked_conf c0 =
     (let def = defaultConf;
          c1 = (if winBucket c0 \<le>s 0 then c0\<lparr>winBucket := winBucket def\<rparr> else c0);
          c2 = (if window_len c1 \<le>s 0 then c1\<lparr>window_len := window_len def\<rparr> else c1);
          bucketDuration = word_of_int (go_div (sint (window_len c2)) (sint (winBucket c2)))
      in if bucketDuration \<le>s 0 then
           (let c3 = c2\<lparr>window_len := window_len def, winBucket := winBucket def\<rparr>
            in (c3, word_of_int (go_div (sint (window_len c3)) (sint (winBucket c3)))))
         else (c2, bucketDuration))"

definition newLimiter :: "(config \<Rightarrow> config) list \<Rightarrow> gotime \<Rightarrow> gotime \<Rightarrow> BBR" where
  "newLimiter opts now1 now2 =
     (case checked_conf (fold (\<lambda>opt c. opt c) opts defaultConf) of (c, bd) \<Rightarrow>
        let size = nat (sint (winBucket c));
            ps = word_of_int (go_div (sint time_Second) (sint bd))
        in \<lparr>passStat = NewRollingCounter size bd now1, rtStat = NewRollingCounter size bd now2,
            inFlight = 0, winBucketPerSec = (if ps <s 1 then 1 else ps), conf = c, prevDrop = 0, prevDropHit = 0,
            rawMaxPASS = 0, rawMinRt = 0\<rparr>)"

text \<open>The smoothed load, one tick of \<open>cpuProc\<close>; \<open>decay\<close> is the float nearest to 0.95.\<close>

definition min_u64 :: "u64 \<Rightarrow> u64 \<Rightarrow> u64" where
  "min_u64 l r = (if l < r then l else r)"

definition decay :: gofloat where
  "decay = fround float64_fmt (95 / 100)"

definition cpuProc :: "(gofloat \<Rightarrow> i64) \<Rightarrow> u64 \<Rightarrow> i64 \<Rightarrow> i64" where
  "cpuProc oor usage prev =
     (let u = min_u64 usage 1000
      in f_to_i64 oor
           (fadd float64_fmt (fmul float64_fmt (i64_to_f prev) decay)
              (fmul float64_fmt (f_of_int float64_fmt (uint u)) (fsub float64_fmt (FNum 1) decay))))"

text \<open>The reductions of the two windows. Both stop before the \<open>winBucket\<close>-th bucket.\<close>

fun pass_scan :: "i64 \<Rightarrow> i64 \<Rightarrow> gofloat \<Rightarrow> Iterator \<Rightarrow> gofloat" where
  "pass_scan wb i result [] = result"
| "pass_scan wb i result (b # it) =
     (if i <s wb then pass_scan wb (i + 1) (math_Max result (fsum (FNum 0) (Points b))) it else result)"

fun rt_scan :: "i64 \<Rightarrow> i64 \<Rightarrow> gofloat \<Rightarrow> Iterator \<Rightarrow> gofloat" where
  "rt_scan wb i result [] = result"
| "rt_scan wb i result (b # it) =
     (if i <s wb then
        rt_scan wb (i + 1)
          (if Points b = [] then result
           else math_Min result (fdiv float64_fmt (fsum (FNum 0) (Points b)) (i64_to_f (Count b)))) it
      else result)"

definition maxPASS :: "(gofloat \<Rightarrow> i64) \<Rightarrow> gotime \<Rightarrow> gotime \<Rightarrow> BBR \<Rightarrow> (i64 \<times> BBR) option" where
  "maxPASS oor now1 now2 l =
     do {
       cached \<leftarrow> (if 0 <s rawMaxPASS l then do { t \<leftarrow> counter_Timespan now1 (passStat l); Some (t < 1) } else Some False);
       if cached then Some (rawMaxPASS l, l)
       else do {
         f \<leftarrow> Reduce (pass_scan (winBucket (conf l)) 1 (FNum 1)) now2 (passStat l);
         let raw = f_to_i64 oor f; raw = (if raw = 0 then 1 else raw)
         in Some (raw, l\<lparr>rawMaxPASS := raw\<rparr>)
       }
     }"

definition minRT :: "(gofloat \<Rightarrow> i64) \<Rightarrow> gotime \<Rightarrow> gotime \<Rightarrow> BBR \<Rightarrow> (i64 \<times> BBR) option" where
  "minRT oor now1 now2 l =
     do {
       cached \<leftarrow> (if 0 <s rawMinRt l then do { t \<leftarrow> counter_Timespan now1 (rtStat l); Some (t < 1) } else Some False);
       if cached then Some (rawMinRt l, l)
       else do {
         reduced \<leftarrow> Reduce (rt_scan (winBucket (conf l)) 1 max_float64) now2 (rtStat l);
         let raw = (if fle max_float64 reduced then 1
                    else let r = f_to_i64 oor (fceil reduced) in if r \<le>s 0 then 1 else r)
         in Some (raw, l\<lparr>rawMinRt := raw\<rparr>)
       }
     }"

text \<open>The four instants that \<open>maxFlight\<close> reads.\<close>

type_synonym clk = "(gotime \<times> gotime) \<times> (gotime \<times> gotime)"

definition maxFlight :: "(gofloat \<Rightarrow> i64) \<Rightarrow> clk \<Rightarrow> BBR \<Rightarrow> (i64 \<times> BBR) option" where
  "maxFlight oor ck l =
     do {
       (mp, l1) \<leftarrow> maxPASS oor (fst (fst ck)) (snd (fst ck)) l;
       (mr, l2) \<leftarrow> minRT oor (fst (snd ck)) (snd (snd ck)) l1;
       Some (f_to_i64 oor
               (ffloor (fadd float64_fmt
                  (fdiv float64_fmt (i64_to_f (mp * mr * winBucketPerSec l2)) (FNum 1000)) (FNum (1 / 2)))), l2)
     }"

text \<open>\<open>inFlight > 1 && inFlight > l.maxFlight()\<close>, evaluated from left to right.\<close>

definition overFlight :: "(gofloat \<Rightarrow> i64) \<Rightarrow> clk \<Rightarrow> BBR \<Rightarrow> (bool \<times> BBR) option" where
  "overFlight oor ck l =
     (if 1 <s inFlight l then do { (mf, l') \<leftarrow> maxFlight oor ck l; Some (mf <s inFlight l, l') } else Some (False, l))"

text \<open>\<open>load\<close> is the result of \<open>l.cpu()\<close> and \<open>since\<close> the time since \<open>initTime\<close>.\<close>

definition shouldDrop :: "(gofloat \<Rightarrow> i64) \<Rightarrow> i64 \<Rightarrow> duration \<Rightarrow> clk \<Rightarrow> BBR \<Rightarrow> (bool \<times> BBR) option" where
  "shouldDrop oor load since ck l =
     (if load <s cPUThreshold (conf l) then
        if prevDrop l = 0 then Some (False, l)
        else if since - prevDrop l \<le>s time_Second then
          overFlight oor ck (if prevDropHit l = 0 then l\<lparr>prevDropHit := 1\<rparr> else l)
        else Some (False, l\<lparr>prevDrop := 0\<rparr>)
      else do {
        (dr, l') \<leftarrow> overFlight oor ck l;
        Some (dr, if dr \<and> prevDrop l' = 0 then l'\<lparr>prevDrop := since\<rparr> else l')
      })"

record Stat =
  Cpu :: i64
  InFlight :: i64
  MaxInFlight :: i64
  MinRt :: i64
  MaxPass :: i64

definition Stat_of :: "(gofloat \<Rightarrow> i64) \<Rightarrow> i64 \<Rightarrow> clk \<Rightarrow> clk \<Rightarrow> BBR \<Rightarrow> (Stat \<times> BBR) option" where
  "Stat_of oor load ck ck' l =
     do {
       (mr, l1) \<leftarrow> minRT oor (fst (snd ck)) (snd (snd ck)) l;
       (mp, l2) \<leftarrow> maxPASS oor (fst (fst ck)) (snd (fst ck)) l1;
       (mf, l3) \<leftarrow> maxFlight oor ck' l2;
       Some (\<lparr>Cpu = load, InFlight = inFlight l, MaxInFlight = mf, MinRt = mr, MaxPass = mp\<rparr>, l3)
     }"

section \<open>Requests\<close>

datatype Op = Success | Ignore | Drop

text \<open>
  One request: it has passed \<open>shouldDrop\<close>, it is in flight since an instant, its release callback has run the
  decrement and still has to feed the statistics, or the callback is over.
\<close>

datatype req = Passed | Flying duration | Leaving duration Op | Released | Rejected

definition Allow_enter :: "BBR \<Rightarrow> BBR" where
  "Allow_enter l = l\<lparr>inFlight := inFlight l + 1\<rparr>"

definition done_leave :: "BBR \<Rightarrow> BBR" where
  "done_leave l = l\<lparr>inFlight := inFlight l - 1\<rparr>"

definition time_Millisecond :: duration where "time_Millisecond = 1000000"

definition done_stat :: "duration \<Rightarrow> Op \<Rightarrow> duration \<Rightarrow> gotime \<Rightarrow> gotime \<Rightarrow> BBR \<Rightarrow> BBR option" where
  "done_stat sTime op since now1 now2 l =
     (if op = Success then
        let rt = (word_of_int (go_div (sint (since - sTime)) (sint time_Millisecond)) :: i64)
        in do {
             r \<leftarrow> (if 0 <s rt then counter_Add now1 rt (rtStat l) else Some (rtStat l));
             p \<leftarrow> counter_Add now2 1 (passStat l);
             Some (l\<lparr>rtStat := r, passStat := p\<rparr>)
           }
      else Some l)"

text \<open>
  The requests of one limiter, in any order. \<open>BEnter\<close> and \<open>BDone\<close> are single atomic additions to the counter. \<open>BCheck\<close> is all
  of \<open>shouldDrop\<close>, with its several loads, and \<open>BStat\<close> both additions to the rolling counters, each of which locks; as one step
  they do not touch the counter of requests in flight. The release callback of a request runs at most once (\<open>sync.Once\<close>): a second call of it changes nothing. An event of a
  request that is not at that point changes nothing.
\<close>

record bsys =
  limiter :: BBR
  reqs :: "nat \<Rightarrow> req option"

datatype bev =
    BCheck nat i64 duration clk       \<comment> \<open>\<open>Allow\<close>: the decision\<close>
  | BEnter nat duration               \<comment> \<open>\<open>Allow\<close>: the admitted request is counted, \<open>sTime\<close> is read\<close>
  | BDone nat Op                      \<comment> \<open>the callback: the decrement\<close>
  | BStat nat duration gotime gotime  \<comment> \<open>the callback: the statistics\<close>

fun bstep :: "(gofloat \<Rightarrow> i64) \<Rightarrow> bev \<Rightarrow> bsys \<Rightarrow> bsys option" where
  "bstep oor (BCheck i load since ck) s =
     (if reqs s i = None then
        do {
          (dr, l) \<leftarrow> shouldDrop oor load since ck (limiter s);
          Some \<lparr>limiter = l, reqs = (reqs s)(i \<mapsto> if dr then Rejected else Passed)\<rparr>
        }
      else Some s)"
| "bstep oor (BEnter i since) s =
     (if reqs s i = Some Passed then Some \<lparr>limiter = Allow_enter (limiter s), reqs = (reqs s)(i \<mapsto> Flying since)\<rparr>
      else Some s)"
| "bstep oor (BDone i op) s =
     (case reqs s i of
        Some (Flying st) \<Rightarrow> Some \<lparr>limiter = done_leave (limiter s), reqs = (reqs s)(i \<mapsto> Leaving st op)\<rparr>
      | _ \<Rightarrow> Some s)"
| "bstep oor (BStat i since now1 now2) s =
     (case reqs s i of
        Some (Leaving st op) \<Rightarrow>
          do { l \<leftarrow> done_stat st op since now1 now2 (limiter s); Some \<lparr>limiter = l, reqs = (reqs s)(i \<mapsto> Released)\<rparr> }
      | _ \<Rightarrow> Some s)"

fun brun :: "(gofloat \<Rightarrow> i64) \<Rightarrow> bev list \<Rightarrow> bsys \<Rightarrow> bsys option" where
  "brun oor [] s = Some s"
| "brun oor (e # es) s = Option.bind (bstep oor e s) (brun oor es)"

definition bstart :: "(config \<Rightarrow> config) list \<Rightarrow> gotime \<Rightarrow> gotime \<Rightarrow> bsys" where
  "bstart opts now1 now2 = \<lparr>limiter = newLimiter opts now1 now2, reqs = Map.empty\<rparr>"

section \<open>The middleware (\<open>middle.go\<close>)\<close>

text \<open>The values of the context under the typed keys and under the legacy keys, when they have the right type.\<close>

record 'v ctx_values =
  typed_value :: "'v option"
  legacy_value :: "'v option"

definition ctx_select :: "'v \<Rightarrow> 'v ctx_values \<Rightarrow> 'v" where
  "ctx_select dflt c =
     (case typed_value c of Some v \<Rightarrow> v | None \<Rightarrow> (case legacy_value c of Some v \<Rightarrow> v | None \<Rightarrow> dflt))"

definition limit_key :: "string ctx_values \<Rightarrow> string" where
  "limit_key = ctx_select ''default''"

definition limit_op :: "Op ctx_values \<Rightarrow> Op" where
  "limit_op = ctx_select Success"

datatype 'r outcome = Returns 'r | Panics

text \<open>
  One call through the middleware, as the actions it performs on its limiter: \<open>Allow\<close>, the endpoint, and the
  deferred release. Of a rejected request the later actions change nothing, as the middleware has returned.
\<close>

record mwcall =
  call_op :: "Op ctx_values"
  call_load :: i64
  call_clk :: clk
  call_since :: "duration \<times> duration \<times> duration"
  call_now :: "gotime \<times> gotime"

definition middleware_events :: "nat \<Rightarrow> mwcall \<Rightarrow> 'r outcome \<Rightarrow> bev list" where
  "middleware_events i c out =
     [BCheck i (call_load c) (fst (call_since c)) (call_clk c),
      BEnter i (fst (snd (call_since c))),
      BDone i (case out of Panics \<Rightarrow> Drop | Returns _ \<Rightarrow> limit_op (call_op c)),
      BStat i (snd (snd (call_since c))) (fst (call_now c)) (snd (call_now c))]"

fun bev_id :: "bev \<Rightarrow> nat" where
  "bev_id (BCheck i _ _ _) = i"
| "bev_id (BEnter i _) = i"
| "bev_id (BDone i _) = i"
| "bev_id (BStat i _ _ _) = i"

end
