(* ===== verification/BbrSpec.thy ===== *)
theory BbrSpec
  imports Bbr
begin

text \<open>
  What the adaptive limiter promises: it never panics, its counter of requests in flight is exact under every
  interleaving of admissions and releases, it rejects only under load, and its estimate of the throughput is the
  best of the complete periods in the window of the rolling counter.
\<close>

section \<open>The rolling counters never panic\<close>

definition wf_bucket :: "Bucket \<Rightarrow> bool" where
  "wf_bucket b \<longleftrightarrow> (Count b \<noteq> 0 \<longrightarrow> Points b \<noteq> [])"

definition wf_policy :: "RollingPolicy \<Rightarrow> bool" where
  "wf_policy r \<longleftrightarrow> rsize r = length (window r) \<and> offset r < rsize r \<and> bucketDuration r \<noteq> 0 \<and> list_all wf_bucket (window r)"

lemma timespan_total:
  assumes "wf_policy r"
  obtains t where "timespan now r = Some t" and "0 \<le> t"
proof -
  let ?v = "go_div (Since now (lastAppendTime r)) (sint (bucketDuration r))"
  have "timespan now r = Some (if - 1 < ?v then ?v else int (rsize r))" using assms by (simp add: timespan_def wf_policy_def Let_def)
  then show ?thesis by (rule that) simp
qed

lemma ResetBuckets_wf:
  assumes "\<forall>i \<in> set is. i < length w" and "list_all wf_bucket w"
  shows "\<exists>w'. ResetBuckets is w = Some w' \<and> length w' = length w \<and> list_all wf_bucket w'"
proof -
  obtain w' where "ResetBuckets is w = Some w'" "length w' = length w"
    "\<forall>p < length w. w' ! p = (if p \<in> set is then empty_bucket else w ! p)" using ResetBuckets_effect [OF assms(1)] by blast
  then show ?thesis using assms(2) by (auto simp: list_all_length wf_bucket_def empty_bucket_def)
qed

lemma moved_wf:
  assumes "wf_policy r"
  shows "\<exists>r'. moved now r = Some r' \<and> wf_policy r'"
proof -
  obtain t where t: "timespan now r = Some t" "0 \<le> t" using timespan_total [OF assms] .
  show ?thesis
  proof (cases "0 < t")
    case True
    define t' where "t' = nat (if int (rsize r) < t then int (rsize r) else t)"
    have o: "offset r < rsize r" using assms by (simp add: wf_policy_def)
    have t': "0 < t'" "t' \<le> rsize r" using True o by (auto simp: t'_def)
    let ?is = "reset_indices (rsize r) (offset r) t'"
    obtain w where w: "ResetBuckets ?is (window r) = Some w" "length w = rsize r" "list_all wf_bucket w"
      using ResetBuckets_wf [of ?is "window r"] reset_indices_bound [OF o t'(2)] assms by (auto simp: wf_policy_def)
    show ?thesis
      using moved_at [OF t(1) True t'_def [symmetric] reset_indices_last(1) [OF o t'] w(1)]
        reset_indices_last(2) [OF o t'] new_offset_bound [OF o t'(2)] w assms by (auto simp: wf_policy_def)
  next
    case False
    then show ?thesis using t assms by (simp add: moved_def)
  qed
qed

lemma Window_Add_wf:
  assumes "off < length w" and "list_all wf_bucket w"
  shows "\<exists>w'. Window_Add off v w = Some w' \<and> length w' = length w \<and> list_all wf_bucket w'"
proof -
  have b: "wf_bucket (w ! off)" using assms by (simp add: list_all_length)
  have upd: "list_all wf_bucket (w[off := b'])" if "wf_bucket b'" for b'
    using assms that by (auto simp: list_all_length nth_list_update)
  show ?thesis
  proof (cases "Count (w ! off) = 0")
    case True
    then show ?thesis using assms(1) upd [of "Bucket_Append v (w ! off)"]
      by (simp add: Window_Add_def Window_Append_def wf_bucket_def Bucket_Append_def)
  next
    case False
    then have p: "Points (w ! off) \<noteq> []" using b by (simp add: wf_bucket_def)
    then show ?thesis using False assms(1) by (auto simp: Window_Add_def Bucket_Add_def wf_bucket_def intro!: upd)
  qed
qed

lemma policy_Add_wf:
  assumes "wf_policy r"
  shows "\<exists>r'. policy_Add now v r = Some r' \<and> wf_policy r'"
proof -
  obtain r1 where r1: "moved now r = Some r1" "wf_policy r1" using moved_wf [OF assms] by blast
  then show ?thesis
    using Window_Add_wf [of "offset r1" "window r1" v] by (auto simp: policy_Add_def policy_add_moved wf_policy_def)
qed

lemma counter_Add_wf: "wf_policy r \<Longrightarrow> \<not> v <s 0 \<Longrightarrow> \<exists>r'. counter_Add now v r = Some r' \<and> wf_policy r'"
  using policy_Add_wf by (simp add: counter_Add_def)

lemma Reduce_total:
  assumes "wf_policy r"
  obtains y where "Reduce f now r = Some y"
proof -
  obtain t where t: "timespan now r = Some t" "0 \<le> t" using timespan_total [OF assms] .
  then have "\<exists>s. snapshot now r = Some s"
    using assms by (auto simp: snapshot_def wf_policy_def Let_def)
  then show ?thesis using that by (auto simp: Reduce_def)
qed

section \<open>The decision\<close>

definition bwf :: "BBR \<Rightarrow> bool" where
  "bwf l \<longleftrightarrow> wf_policy (passStat l) \<and> wf_policy (rtStat l)"

text \<open>The decision keeps the counters and the number of requests in flight.\<close>

definition bsame :: "BBR \<Rightarrow> BBR \<Rightarrow> bool" where
  "bsame l l' \<longleftrightarrow> passStat l' = passStat l \<and> rtStat l' = rtStat l \<and> inFlight l' = inFlight l \<and>
     winBucketPerSec l' = winBucketPerSec l \<and> conf l' = conf l"

lemma bsame_refl [simp]: "bsame l l"
  by (simp add: bsame_def)

lemma bsame_trans: "bsame a b \<Longrightarrow> bsame b c \<Longrightarrow> bsame a c"
  by (simp add: bsame_def)

lemma bsame_wf: "bsame l l' \<Longrightarrow> bwf l \<Longrightarrow> bwf l'"
  by (simp add: bsame_def bwf_def)

lemma bsame_upd [simp]:
  "bsame l (l'\<lparr>rawMaxPASS := x\<rparr>) = bsame l l'" "bsame l (l'\<lparr>rawMinRt := x\<rparr>) = bsame l l'"
  "bsame l (l'\<lparr>prevDrop := d\<rparr>) = bsame l l'" "bsame l (l'\<lparr>prevDropHit := h\<rparr>) = bsame l l'"
  by (simp_all add: bsame_def)

lemma maxPASS_total:
  assumes "bwf l"
  shows "\<exists>v l'. maxPASS oor n1 n2 l = Some (v, l') \<and> bsame l l' \<and> prevDrop l' = prevDrop l"
proof -
  have w: "wf_policy (passStat l)" using assms by (simp add: bwf_def)
  obtain t where t: "timespan n1 (passStat l) = Some t" using timespan_total [OF w] .
  obtain y where "Reduce (pass_scan (winBucket (conf l)) 1 (FNum 1)) n2 (passStat l) = Some y" using Reduce_total [OF w] .
  then show ?thesis using t by (auto simp: maxPASS_def counter_Timespan_def Let_def)
qed

lemma minRT_total:
  assumes "bwf l"
  shows "\<exists>v l'. minRT oor n1 n2 l = Some (v, l') \<and> bsame l l' \<and> prevDrop l' = prevDrop l"
proof -
  have w: "wf_policy (rtStat l)" using assms by (simp add: bwf_def)
  obtain t where t: "timespan n1 (rtStat l) = Some t" using timespan_total [OF w] .
  obtain y where "Reduce (rt_scan (winBucket (conf l)) 1 max_float64) n2 (rtStat l) = Some y" using Reduce_total [OF w] .
  then show ?thesis using t by (auto simp: minRT_def counter_Timespan_def Let_def)
qed

lemma maxFlight_total:
  assumes "bwf l"
  shows "\<exists>v l'. maxFlight oor ck l = Some (v, l') \<and> bsame l l' \<and> prevDrop l' = prevDrop l"
proof -
  obtain v1 l1 where 1: "maxPASS oor (fst (fst ck)) (snd (fst ck)) l = Some (v1, l1)" "bsame l l1" "prevDrop l1 = prevDrop l"
    using maxPASS_total [OF assms] by blast
  obtain v2 l2 where 2: "minRT oor (fst (snd ck)) (snd (snd ck)) l1 = Some (v2, l2)" "bsame l1 l2" "prevDrop l2 = prevDrop l1"
    using minRT_total [OF bsame_wf [OF 1(2) assms]] by blast
  then show ?thesis using 1 bsame_trans [OF 1(2) 2(2)] by (simp add: maxFlight_def)
qed

lemma overFlight_total:
  assumes "bwf l"
  shows "\<exists>dr l'. overFlight oor ck l = Some (dr, l') \<and> bsame l l' \<and> prevDrop l' = prevDrop l \<and> (dr \<longrightarrow> 1 <s inFlight l)"
  using maxFlight_total [OF assms, of oor ck] by (auto simp: overFlight_def)

lemma shouldDrop_total:
  assumes "bwf l"
  shows "\<exists>dr l'. shouldDrop oor load since ck l = Some (dr, l') \<and> bsame l l' \<and>
    (dr \<longrightarrow> 1 <s inFlight l \<and>
      (load <s cPUThreshold (conf l) \<longrightarrow> prevDrop l \<noteq> 0 \<and> since - prevDrop l \<le>s time_Second))"
proof (cases "load <s cPUThreshold (conf l)")
  case True
  define l1 where "l1 = (if prevDropHit l = 0 then l\<lparr>prevDropHit := 1\<rparr> else l)"
  have l1: "bsame l l1" "inFlight l1 = inFlight l" by (simp_all add: l1_def bsame_def)
  obtain dr l' where o: "overFlight oor ck l1 = Some (dr, l')" "bsame l1 l'" "dr \<longrightarrow> 1 <s inFlight l"
    using overFlight_total [OF bsame_wf [OF l1(1) assms], of oor ck] l1(2) by auto
  then show ?thesis using True bsame_trans [OF l1(1) o(2)] by (auto simp: shouldDrop_def l1_def [symmetric] ex_bool_eq)
next
  case False
  then show ?thesis using overFlight_total [OF assms, of oor ck] by (auto simp: shouldDrop_def)
qed

section \<open>All interleavings\<close>

definition flying :: "bsys \<Rightarrow> nat set" where
  "flying s = {i. \<exists>t. reqs s i = Some (Flying t)}"

definition binv :: "bsys \<Rightarrow> bool" where
  "binv s \<longleftrightarrow> bwf (limiter s) \<and> finite (flying s) \<and> inFlight (limiter s) = of_nat (card (flying s))"

lemma checked_conf_ok:
  assumes "checked_conf c0 = (c, bd)"
  shows "0 < sint (winBucket c)" and "0 < sint bd"
proof -
  have pos: "0 < sint (w :: i64)" if "\<not> w \<le>s 0" for w using that by (simp add: word_sle_eq)
  show "0 < sint bd"
    using assms by (auto simp: checked_conf_def Let_def defaultConf_def time_Second_def split: if_splits intro: pos)
  show "0 < sint (winBucket c)"
    using assms by (auto simp: checked_conf_def Let_def defaultConf_def split: if_splits intro: pos)
qed

lemma newLimiter_ok:
  fixes opts now1 now2
  defines "l \<equiv> newLimiter opts now1 now2"
  obtains bd where "0 < sint (winBucket (conf l))" and "0 < sint bd"
    and "passStat l = NewRollingCounter (nat (sint (winBucket (conf l)))) bd now1"
    and "rtStat l = NewRollingCounter (nat (sint (winBucket (conf l)))) bd now2" and "inFlight l = 0"
proof -
  obtain c bd where "checked_conf (fold (\<lambda>opt c. opt c) opts defaultConf) = (c, bd)" by force
  then show ?thesis using checked_conf_ok that [of bd] by (simp add: l_def newLimiter_def Let_def)
qed

lemma NewRollingCounter_wf: "0 < n \<Longrightarrow> 0 < sint bd \<Longrightarrow> wf_policy (NewRollingCounter n bd now)"
  by (auto simp: wf_policy_def NewRollingCounter_def NewRollingPolicy_def NewWindow_def list_all_iff wf_bucket_def
      empty_bucket_def)

lemma newLimiter_bwf: "bwf (newLimiter opts now1 now2)" "inFlight (newLimiter opts now1 now2) = 0"
  by (rule newLimiter_ok [of opts now1 now2]; simp add: bwf_def NewRollingCounter_wf)+

lemma bstart_inv: "binv (bstart opts now1 now2)"
  by (simp add: newLimiter_bwf binv_def bstart_def flying_def)

lemma flying_upd:
  "flying \<lparr>limiter = l, reqs = (reqs s)(i \<mapsto> q)\<rparr> =
     (if \<exists>t. q = Flying t then insert i (flying s) else flying s - {i})"
  by (auto simp: flying_def)

lemma done_stat_total:
  assumes "bwf l"
  shows "\<exists>l'. done_stat st op since n1 n2 l = Some l' \<and> bwf l' \<and> inFlight l' = inFlight l"
proof -
  have w: "wf_policy (rtStat l)" "wf_policy (passStat l)" using assms by (simp_all add: bwf_def)
  obtain p where p: "counter_Add n2 1 (passStat l) = Some p" "wf_policy p" using counter_Add_wf [OF w(2), of 1 n2] by (auto simp: word_sless_alt)
  have "\<exists>r. (if 0 <s rt then counter_Add n1 rt (rtStat l) else Some (rtStat l)) = Some r \<and> wf_policy r" for rt
    using counter_Add_wf [OF w(1), of rt n1] w(1) by (auto simp: word_sless_alt)
  then obtain r where "(if 0 <s rt then counter_Add n1 rt (rtStat l) else Some (rtStat l)) = Some r" "wf_policy r"
    if "rt = (word_of_int (go_div (sint (since - st)) (sint time_Millisecond)) :: i64)" for rt by blast
  then show ?thesis using p assms by (cases "op = Success") (simp_all add: done_stat_def Let_def bwf_def)
qed

lemma bstep_inv:
  assumes "binv s"
  shows "\<exists>s'. bstep oor e s = Some s' \<and> binv s'"
proof (cases e)
  case (BCheck i load since ck)
  obtain dr l where l: "shouldDrop oor load since ck (limiter s) = Some (dr, l)" "bsame (limiter s) l"
    using shouldDrop_total [of "limiter s" oor load since ck] assms by (auto simp: binv_def)
  have "flying \<lparr>limiter = l, reqs = (reqs s)(i \<mapsto> if dr then Rejected else Passed)\<rparr> = flying s" if "reqs s i = None"
    using that by (auto simp: flying_def)
  then show ?thesis using l assms BCheck bsame_wf [OF l(2)] by (auto simp: binv_def bsame_def)
next
  case (BEnter i since)
  have "i \<notin> flying s" if "reqs s i = Some Passed" using that by (simp add: flying_def)
  then show ?thesis using assms BEnter by (auto simp: binv_def flying_upd Allow_enter_def bwf_def)
next
  case (BDone i op)
  show ?thesis
  proof (cases "i \<in> flying s")
    case True
    then obtain t where t: "reqs s i = Some (Flying t)" by (auto simp: flying_def)
    have "card (flying s) = Suc (card (flying s - {i}))" using assms True by (simp only: binv_def card_Suc_Diff1)
    then show ?thesis using t assms BDone by (simp add: binv_def flying_upd done_leave_def bwf_def)
  next
    case False
    then show ?thesis using BDone assms by (auto simp: flying_def split: option.splits req.splits)
  qed
next
  case (BStat i since n1 n2)
  show ?thesis
  proof (cases "\<exists>t op. reqs s i = Some (Leaving t op)")
    case True
    then obtain t op where t: "reqs s i = Some (Leaving t op)" by blast
    obtain l where "done_stat t op since n1 n2 (limiter s) = Some l" "bwf l" "inFlight l = inFlight (limiter s)"
      using done_stat_total [of "limiter s" t op since n1 n2] assms by (auto simp: binv_def)
    moreover have "flying \<lparr>limiter = l, reqs = (reqs s)(i \<mapsto> Released)\<rparr> = flying s" for l using t by (auto simp: flying_def)
    ultimately show ?thesis using t assms BStat by (simp add: binv_def)
  next
    case False
    then show ?thesis using BStat assms by (auto split: option.splits req.splits)
  qed
qed

lemma brun_inv: "binv s \<Longrightarrow> \<exists>s'. brun oor es s = Some s' \<and> binv s'"
proof (induction es arbitrary: s)
  case (Cons e es)
  obtain s1 where "bstep oor e s = Some s1" "binv s1" using bstep_inv [OF Cons.prems] by blast
  then show ?case using Cons.IH by simp
qed simp

section \<open>Calls through the middleware\<close>

text \<open>The actions that a request still has to perform in a state.\<close>

fun stage :: "req option \<Rightarrow> nat" where
  "stage None = 0"
| "stage (Some Passed) = 1"
| "stage (Some (Flying _)) = 2"
| "stage (Some (Leaving _ _)) = 3"
| "stage (Some Released) = 4"
| "stage (Some Rejected) = 4"

definition on_track :: "req option \<Rightarrow> nat \<Rightarrow> bool" where
  "on_track q k \<longleftrightarrow> stage q = k \<or> q = Some Rejected \<and> 0 < k"

lemma bstep_other:
  assumes "bstep oor e s = Some s'" and "bev_id e \<noteq> i"
  shows "reqs s' i = reqs s i"
  using assms by (cases e) (auto split: if_splits option.splits req.splits Option.bind_splits)

lemma brun_other: "brun oor es s = Some s' \<Longrightarrow> i \<notin> bev_id ` set es \<Longrightarrow> reqs s' i = reqs s i"
  by (induction es arbitrary: s) (auto split: Option.bind_splits simp: bstep_other)

lemma bstep_track:
  assumes "bstep oor e s = Some s'" and "middleware_events i c out ! k = e" and "k < 4" and "on_track (reqs s i) k"
  shows "on_track (reqs s' i) (Suc k)"
proof -
  have k: "k = 0 \<or> k = 1 \<or> k = 2 \<or> k = 3" using assms(3) by linarith
  show ?thesis using assms(1,2,4) k
    by (cases "reqs s i" rule: stage.cases)
       (auto simp: middleware_events_def on_track_def split: if_splits Option.bind_splits)
qed

lemma brun_track:
  assumes "brun oor es s = Some s'" and "filter (\<lambda>e. bev_id e = i) es = List.drop k (middleware_events i c out)"
    and "k \<le> 4" and "on_track (reqs s i) k"
  shows "on_track (reqs s' i) 4"
  using assms
proof (induction es arbitrary: s k)
  case Nil
  then have "length (List.drop k (middleware_events i c out)) = 0" by simp
  then have "k = 4" using Nil.prems(3) by (simp add: middleware_events_def)
  then show ?case using Nil by simp
next
  case (Cons e es)
  obtain s1 where s1: "bstep oor e s = Some s1" "brun oor es s1 = Some s'"
    using Cons.prems(1) by (auto split: Option.bind_splits)
  show ?case
  proof (cases "bev_id e = i")
    case True
    then have d: "List.drop k (middleware_events i c out) = e # filter (\<lambda>e. bev_id e = i) es" using Cons.prems(2) by simp
    then have k: "k < 4" by (cases "k = 4") (use Cons.prems(3) in \<open>auto simp: middleware_events_def\<close>)
    have "middleware_events i c out ! k = e" "filter (\<lambda>e. bev_id e = i) es = List.drop (Suc k) (middleware_events i c out)"
      using d k by (simp_all add: Cons_nth_drop_Suc [symmetric] middleware_events_def)
    then show ?thesis using Cons.IH [OF s1(2), of "Suc k"] bstep_track [OF s1(1)] k Cons.prems(4) by auto
  next
    case False
    then show ?thesis using Cons.IH [OF s1(2)] Cons.prems bstep_other [OF s1(1) False] by simp
  qed
qed

text \<open>
  C13: The counter of requests in flight is exact. Whatever the options are, for every sequence of decisions, admissions and
  release callbacks of any number of requests, interleaved in any way, with any clock readings (also with a clock
  that goes back) and with release callbacks that are called twice, the limiter never panics, and
  \<open>inFlight\<close> is the number of requests that were admitted and not released.
\<close>

theorem inFlight_exact:
  "\<exists>s. brun oor es (bstart opts now1 now2) = Some s \<and> finite (flying s) \<and> inFlight (limiter s) = of_nat (card (flying s))"
  using brun_inv [OF bstart_inv [of opts now1 now2], of oor es] by (auto simp: binv_def)

text \<open>
  C25: The middleware releases every slot. Take any number of calls through the middleware, each with its own
  operation and with an endpoint that returns or panics, and let their actions be interleaved in any way: when all of them are
  over, every request is released or was rejected, and \<open>inFlight\<close> is back at zero.
\<close>

theorem middleware_releases:
  assumes "\<And>i. filter (\<lambda>e. bev_id e = i) es = (if i < n then middleware_events i (c i) (out i) else [])"
  shows "\<exists>s. brun oor es (bstart opts now1 now2) = Some s \<and> inFlight (limiter s) = 0 \<and>
    (\<forall>i < n. reqs s i \<in> {Some Released, Some Rejected})"
proof -
  obtain s where s: "brun oor es (bstart opts now1 now2) = Some s" "binv s" using brun_inv [OF bstart_inv] by blast
  have on: "on_track (reqs s i) 4" if "i < n" for i
    by (rule brun_track [OF s(1), of i 0]) (use assms [of i] that in \<open>simp_all add: bstart_def on_track_def\<close>)
  have none: "reqs s i = None" if "\<not> i < n" for i
  proof -
    have "i \<notin> bev_id ` set es" using assms [of i] that by (auto simp: filter_empty_conv)
    then show ?thesis using brun_other [OF s(1)] by (simp add: bstart_def)
  qed
  have fin: "reqs s i \<in> {Some Released, Some Rejected}" if "i < n" for i
    using on [OF that] by (cases "reqs s i" rule: stage.cases) (auto simp: on_track_def)
  have "flying s = {}"
  proof -
    have "i \<notin> flying s" for i using fin [of i] none [of i] by (cases "i < n") (auto simp: flying_def)
    then show ?thesis by blast
  qed
  then show ?thesis using s fin by (auto simp: binv_def)
qed

definition demo_call :: mwcall where
  "demo_call = \<lparr>call_op = \<lparr>typed_value = None, legacy_value = Some Ignore\<rparr>, call_load = 900, call_clk = ((0, 0), (0, 0)),
     call_since = (0, 5, 9), call_now = (7, 8)\<rparr>"

definition demo_calls :: "bev list" where
  "demo_calls = [BCheck 0 900 0 ((0, 0), (0, 0)), BCheck 1 900 0 ((0, 0), (0, 0)), BEnter 0 5, BEnter 1 5,
     BDone 1 Drop, BDone 0 Ignore, BStat 0 9 7 8, BStat 1 9 7 8]"

theorem middleware_releases_witness:
  "\<exists>s. brun (\<lambda>_. 0) demo_calls (bstart [] 0 0) = Some s \<and> inFlight (limiter s) = 0 \<and>
     reqs s 0 \<in> {Some Released, Some Rejected} \<and> reqs s 1 \<in> {Some Released, Some Rejected}"
proof -
  define out where "out = (\<lambda>i :: nat. if i = 0 then Returns () else Panics)"
  have "filter (\<lambda>e. bev_id e = i) demo_calls = (if i < 2 then middleware_events i demo_call (out i) else [])" for i
  proof -
    have "i = 0 \<or> i = 1 \<or> 2 \<le> i" by linarith
    then show ?thesis
      by (elim disjE) (simp_all add: demo_calls_def demo_call_def middleware_events_def out_def limit_op_def ctx_select_def)
  qed
  then show ?thesis using middleware_releases [of demo_calls 2 "\<lambda>_. demo_call" out "\<lambda>_. 0" "[]" 0 0] by auto
qed

text \<open>An overloaded limiter that rejects.\<close>

lemma quotient_three_halves: "quotient_of (3 / 2) = (3, 2)" by code_simp

lemma ilog2_three_halves: "ilog2 (3 / 2) = 0"
  by (simp add: ilog2_def quotient_three_halves bit_length.simps[of 3] bit_length.simps[of 2] bit_length.simps[of 1])

lemma fround_three_halves: "fround float64_fmt (3 / 2) = FNum (3 / 2)"
proof -
  have e: "(2 :: rat) powi - 52 = 1 / 2 ^ 52" by (simp add: power_int_def power_one_over)
  have "round_half_even (3 / 2 / (1 / 2 ^ 52)) = 6755399441055744"
    using round_half_even_of_int [of 6755399441055744] by simp
  moreover have "(2 :: rat) powi 1024 > 3 / 2" 
  proof -
    have "(2 :: rat) powi 1 \<le> 2 powi 1024" by (rule power_int_increasing) auto
    then show ?thesis by simp
  qed
  moreover have "\<not> 3 / 2 \<le> - ((2 :: rat) powi 1024)" by (simp add: not_le)
  ultimately show ?thesis by (simp add: fround_def float64_fmt_def ilog2_three_halves e Let_def del: power_numeral_even)
qed


definition demo_opts :: "(config \<Rightarrow> config) list" where "demo_opts = [SetWinBucket 2, SetWindow 2000000]"

definition demo_events :: "bev list" where
  "demo_events = [BCheck 0 900 5 ((0, 0), (0, 0)), BEnter 0 5, BCheck 1 900 5 ((0, 0), (0, 0)), BEnter 1 5]"

lemma demo_limiter:
  "newLimiter demo_opts 0 0 =
    \<lparr>passStat = NewRollingCounter 2 1000000 0, rtStat = NewRollingCounter 2 1000000 0, inFlight = 0, winBucketPerSec = 1000,
     conf = defaultConf\<lparr>winBucket := 2, window_len := 2000000\<rparr>, prevDrop = 0, prevDropHit = 0, rawMaxPASS = 0, rawMinRt = 0\<rparr>"
  by code_simp

lemma demo_run:
  "\<exists>s. brun (\<lambda>_. 0) demo_events (bstart demo_opts 0 0) = Some s \<and> limiter s = (newLimiter demo_opts 0 0)\<lparr>inFlight := 2\<rparr>"
  by (simp add: demo_events_def bstart_def demo_limiter shouldDrop_def overFlight_def defaultConf_def word_sless_alt Allow_enter_def)

lemma demo_drop:
  "\<exists>l. shouldDrop (\<lambda>_. 0) 900 5 ((0, 0), (0, 0)) ((newLimiter demo_opts 0 0)\<lparr>inFlight := 2\<rparr>) = Some (True, l)"
proof -
  let ?l = "(newLimiter demo_opts 0 0)\<lparr>inFlight := 2\<rparr>"
  have p: "maxPASS (\<lambda>_. 0) 0 0 ?l = Some (1, ?l\<lparr>rawMaxPASS := 1\<rparr>)" unfolding demo_limiter by code_simp
  have sn: "snapshot 0 (NewRollingCounter 2 1000000 0) = Some (Some [empty_bucket, empty_bucket])" by code_simp
  have q: "minRT (\<lambda>_. 0) 0 0 (?l\<lparr>rawMaxPASS := 1\<rparr>) = Some (1, ?l\<lparr>rawMaxPASS := 1, rawMinRt := 1\<rparr>)"
    by (simp add: demo_limiter minRT_def Reduce_def sn empty_bucket_def defaultConf_def word_sless_alt fle_def feq_def max_float64_def)
  have 1: "i64_to_f 1000 = FNum 1000" using fround_of_int [of 1000 float64_fmt] by (simp add: i64_to_f_def f_of_int_def float64_fmt_def)
  have 2: "fdiv float64_fmt (FNum 1000) (FNum 1000) = FNum 1"
    using fround_of_int [of 1 float64_fmt] by (simp add: fdiv_def is_nan_def fis_inf_def fis_zero_def fval_def float64_fmt_def)
  have 3: "fadd float64_fmt (FNum 1) (FNum (1 / 2)) = FNum (3 / 2)" using fround_three_halves by simp
  have "\<lfloor>3 / 2 :: rat\<rfloor> = 1" by (simp add: floor_eq_iff)
  then have 4: "f_to_i64 (\<lambda>_. 0) (ffloor (FNum (3 / 2))) = 1" by (simp add: ffloor_def f_to_i64_def)
  have "maxFlight (\<lambda>_. 0) ((0, 0), (0, 0)) ?l = Some (1, ?l\<lparr>rawMaxPASS := 1, rawMinRt := 1\<rparr>)"
    using 1 2 3 4 by (simp add: maxFlight_def p q) (simp add: demo_limiter)
  then show ?thesis
    by (simp add: shouldDrop_def overFlight_def) (simp add: demo_limiter defaultConf_def word_sless_alt)
qed

text \<open>
  The limiter rejects only under load. A request that any run rejects found more than one request in flight; and
  the load was at the threshold or above, or a rejection under load happened at most one second before. In particular
  the limiter never rejects everything: an idle limiter admits.
\<close>

theorem shouldDrop_under_load:
  assumes "brun oor es (bstart opts now1 now2) = Some s" and "card (flying s) < 2 ^ 63"
    and "shouldDrop oor load since ck (limiter s) = Some (dr, l)" and dr
  shows "1 < card (flying s) \<and>
    (cPUThreshold (conf (limiter s)) \<le>s load \<or> prevDrop (limiter s) \<noteq> 0 \<and> since - prevDrop (limiter s) \<le>s time_Second)"
proof -
  have s: "binv s" using brun_inv [OF bstart_inv [of opts now1 now2], of oor es] assms(1) by auto
  then have "bwf (limiter s)" by (simp add: binv_def)
  from shouldDrop_total [OF this, of oor load since ck] have
    "1 <s inFlight (limiter s)"
    "load <s cPUThreshold (conf (limiter s)) \<longrightarrow> prevDrop (limiter s) \<noteq> 0 \<and> since - prevDrop (limiter s) \<le>s time_Second"
    using assms(3,4) by auto
  moreover have "sint (of_nat (card (flying s)) :: i64) = int (card (flying s))"
    using sint_of_int64 [of "int (card (flying s))"] assms(2) by simp
  ultimately show ?thesis using s by (auto simp: binv_def word_sless_alt word_sle_eq)
qed

theorem shouldDrop_under_load_witness:
  "\<exists>s l. brun (\<lambda>_. 0) demo_events (bstart demo_opts 0 0) = Some s \<and> card (flying s) < 2 ^ 63 \<and>
     shouldDrop (\<lambda>_. 0) 900 5 ((0, 0), (0, 0)) (limiter s) = Some (True, l) \<and> 1 < card (flying s)"
proof -
  obtain s l where s: "brun (\<lambda>_. 0) demo_events (bstart demo_opts 0 0) = Some s"
    "shouldDrop (\<lambda>_. 0) 900 5 ((0, 0), (0, 0)) (limiter s) = Some (True, l)" using demo_run demo_drop by auto
  have "flying s \<subseteq> bev_id ` set demo_events"
    using brun_other [OF s(1)] by (fastforce simp: flying_def bstart_def)
  then have "flying s \<subseteq> {0, 1}" by (simp add: demo_events_def)
  then have "card (flying s) \<le> card {0, 1 :: nat}" by (intro card_mono) auto
  then have "card (flying s) < 2 ^ 63" by simp
  then show ?thesis using s shouldDrop_under_load [OF s(1) _ s(2)] by blast
qed

section \<open>The throughput\<close>

definition passes :: "i64 \<Rightarrow> gotime \<Rightarrow> gotime list \<Rightarrow> int \<Rightarrow> nat" where
  "passes d t0 ts m = length (filter (\<lambda>t. period d t0 t = m) ts)"

definition best_pass :: "i64 \<Rightarrow> gotime \<Rightarrow> nat \<Rightarrow> gotime list \<Rightarrow> gotime \<Rightarrow> nat" where
  "best_pass d t0 N ts now =
     foldl max 1 (map (passes d t0 ts) [period d t0 now - int N + 1..period d t0 now - 1])"

lemma fround_nat: "n < 2 ^ 53 \<Longrightarrow> fround float64_fmt (of_nat n) = FNum (of_nat n)"
proof -
  assume "n < 2 ^ 53"
  then have "int n < int (2 ^ 53)" by (simp only: of_nat_less_iff)
  then show ?thesis using fround_of_int [of "int n" float64_fmt] by (simp add: float64_fmt_def)
qed

lemma fadd_nat: "a + b < 2 ^ 53 \<Longrightarrow> fadd float64_fmt (FNum (of_nat a)) (FNum (of_nat b)) = FNum (of_nat (a + b))"
  using fround_nat [of "a + b"] by simp

lemma fsum_ones: "a + n < 2 ^ 53 \<Longrightarrow> fsum (FNum (of_nat a)) (replicate n (FNum 1)) = FNum (of_nat (a + n))"
proof (induction n arbitrary: a)
  case (Suc n)
  then show ?case using fadd_nat [of a 1] Suc.IH [of "a + 1"] by (simp add: fsum_def)
qed (simp add: fsum_def)

lemma fsum_bucket: "n < 2 ^ 53 \<Longrightarrow> fsum (FNum 0) (Points (bucket_of (replicate n (FNum 1)))) = FNum (of_nat n)"
proof (cases n)
  case (Suc m)
  assume n: "n < 2 ^ 53"
  have "fsum (FNum 1) (replicate m (FNum 1)) = FNum (of_nat n)" using fsum_ones [of 1 m] n Suc by simp
  then show ?thesis using fadd_nat [of 0 n] n Suc by (simp add: bucket_of_def fsum_def)
qed (simp add: bucket_of_def empty_bucket_def fsum_def)

lemma math_Max_nat: "1 \<le> a \<Longrightarrow> math_Max (FNum (of_nat a)) (FNum (of_nat b)) = FNum (of_nat (max a b))"
  by (auto simp: math_Max_def is_nan_def fis_zero_def flt_def max_def)

lemma pass_scan_counts:
  assumes "\<forall>c \<in> set cs. c < 2 ^ 53" and "1 \<le> r" and "sint i \<le> sint wb"
  shows "pass_scan wb i (FNum (of_nat r)) (map (\<lambda>c. bucket_of (replicate c (FNum 1))) cs) =
    FNum (of_nat (foldl max r (take (nat (sint wb - sint i)) cs)))"
  using assms
proof (induction cs arbitrary: i r)
  case (Cons c cs)
  show ?case
  proof (cases "sint i < sint wb")
    case True
    then have i: "sint (i + 1) = sint i + 1" using sint64_bounds [of wb] by (intro sint_Suc64) simp
    have "nat (sint wb - sint i) = Suc (nat (sint wb - sint (i + 1)))" using True i by simp
    then show ?thesis
      using True i Cons.prems Cons.IH [of "max r c" "i + 1"] fsum_bucket [of c] math_Max_nat [of r c]
      by (simp add: word_sless_alt)
  next
    case False
    then show ?thesis using Cons.prems by (simp add: word_sless_alt)
  qed
qed simp

lemma foldl_max_ge: "r \<le> foldl max r (cs :: nat list)"
proof (induction cs arbitrary: r)
  case (Cons c cs)
  have "r \<le> max r c" by simp
  also have "\<dots> \<le> foldl max (max r c) cs" by (rule Cons.IH)
  finally show ?case by simp
qed simp

lemma foldl_max_less: "r < n \<Longrightarrow> \<forall>c \<in> set cs. c < n \<Longrightarrow> foldl max r cs < (n :: nat)"
  by (induction cs arbitrary: r) simp_all

lemma foldl_max_zeros: "1 \<le> r \<Longrightarrow> \<forall>c \<in> set cs. c = 0 \<Longrightarrow> foldl max r cs = (r :: nat)"
  by (induction cs) auto

lemma added_passes: "added d t0 (map (\<lambda>t. (t, FNum 1)) ts) m = bucket_of (replicate (passes d t0 ts m) (FNum 1))"
  by (simp add: added_def passes_def filter_map comp_def map_replicate_const)

lemma latest_map: "latest d t0 (map (\<lambda>t. (t, v)) ts) = (if ts = [] then 0 else period d t0 (List.last ts))"
  by (simp add: latest_def last_map)

text \<open>No pass lies after the period of the last one.\<close>

lemma passes_after:
  assumes "0 < sint d" and "sorted ts" and "latest d t0 (map (\<lambda>t. (t, v)) ts) < m"
  shows "passes d t0 ts m = 0"
proof -
  have "period d t0 t \<noteq> m" if "t \<in> set ts" for t
  proof -
    have "t \<le> List.last ts" using assms(2) that by (cases ts rule: rev_cases) (auto simp: sorted_append)
    then show ?thesis using period_mono [OF assms(1), of t "List.last ts" t0] assms(3) that by (auto simp: latest_map split: if_splits)
  qed
  then show ?thesis by (simp add: passes_def filter_empty_conv)
qed

lemma take_upto: "take n [a..b] = [a..min b (a + int n - 1)]"
proof (induction n arbitrary: a)
  case (Suc n)
  show ?case
  proof (cases "a \<le> b")
    case True
    then show ?thesis using Suc [of "a + 1"] by (simp add: upto_rec1 [of a])
  qed simp
qed simp


lemma best_pass_scan:
  assumes d: "0 < sint d" and N: "0 < N" and s: "sorted ts" and B: "B = latest d t0 (map (\<lambda>t. (t, v)) ts)"
    and le: "B \<le> period d t0 now"
  shows "best_pass d t0 N ts now =
    (if period d t0 now - B < int N
     then foldl max 1 (take (N - 1) (map (passes d t0 ts) [period d t0 now - int N + 1..B])) else 1)"
proof -
  let ?p = "period d t0 now" and ?f = "passes d t0 ts"
  define M where "M = min B (?p - 1)"
  have z: "foldl max r (map ?f [a..b]) = r" if "1 \<le> r" "B < a" for r a b
  proof -
    have "passes d t0 ts c = 0" if "a \<le> c" for c using passes_after [OF d s, of t0 v c] \<open>B < a\<close> that B by simp
    then show ?thesis using foldl_max_zeros [OF that(1), of "map ?f [a..b]"] by simp
  qed
  note f1 = foldl_max_ge [of 1]
  show ?thesis
  proof (cases "?p - B < int N")
    case True
    have t: "take (N - 1) [?p - int N + 1..B] = [?p - int N + 1..M]"
    proof -
      have "?p - int N + 1 + int (N - 1) - 1 = ?p - 1" using N by simp
      then show ?thesis by (simp only: take_upto M_def)
    qed
    have "[?p - int N + 1..?p - 1] = [?p - int N + 1..M] @ [M + 1..?p - 1]"
      using upto_split2 [of "?p - int N + 1" M "?p - 1"] True N by (cases "?p - int N + 1 \<le> M") (auto simp: M_def)
    then have "best_pass d t0 N ts now = foldl max (foldl max 1 (map ?f [?p - int N + 1..M])) (map ?f [M + 1..?p - 1])"
      by (simp only: best_pass_def map_append foldl_append)
    also have "\<dots> = foldl max 1 (map ?f [?p - int N + 1..M])"
      by (cases "B \<le> ?p - 1") (use z [OF f1] in \<open>auto simp: M_def\<close>)
    finally show ?thesis using True t by (simp add: take_map)
  next
    case False
    then show ?thesis using z [of 1 "?p - int N + 1" "?p - 1"] by (simp add: best_pass_def)
  qed
qed

text \<open>
  C26: The limiter estimates the throughput by the best complete period. Let the pass counter have \<open>winBucket\<close>
  buckets and count passes at non-decreasing times, as the release callbacks do. When \<open>maxPASS\<close> does not
  answer from its cache, it returns, and caches, the greatest number of passes in any single one of the
  \<open>winBucket - 1\<close> periods before the present one, and at least one: the present, incomplete period never counts.
\<close>

theorem maxPASS_best:
  assumes r: "add_list (map (\<lambda>t. (t, i64_to_f 1)) ts) (NewRollingCounter (nat (sint (winBucket (conf l)))) d t0) = Some (passStat l)"
    and wb: "0 < sint (winBucket (conf l))" and d: "0 < sint d" and s: "sorted (t0 # ts @ [now])" and now: "now - t0 \<le> max_i64"
    and n: "length ts < 2 ^ 53" and c: "0 <s rawMaxPASS l \<longrightarrow> (\<exists>t \<ge> 1. timespan now1 (passStat l) = Some t)"
  shows "maxPASS oor now1 now l =
    (case of_nat (best_pass d t0 (nat (sint (winBucket (conf l)))) ts now) of best \<Rightarrow> Some (best, l\<lparr>rawMaxPASS := best\<rparr>))"
proof -
  have one: "i64_to_f 1 = FNum 1" using fround_nat [of 1] by (simp add: i64_to_f_def f_of_int_def)
  define N where "N = nat (sint (winBucket (conf l)))"
  let ?xs = "map (\<lambda>t. (t, FNum 1)) ts" and ?p = "period d t0 now" and ?best = "best_pass d t0 N ts now"
  define B where "B = latest d t0 ?xs"
  have N: "0 < N" using wb by (simp add: N_def)
  have xs: "map fst ?xs = ts" by (simp add: comp_def)
  have sx: "sorted (t0 # map fst ?xs @ [now])" using s unfolding xs .
  have "length ?xs < 2 ^ 64" using n by simp
  then obtain r where "add_list ?xs (NewRollingCounter N d t0) = Some r" "holds d t0 N (added d t0 ?xs) B r"
    using add_list_holds [OF N d, of t0 ?xs] s now xs unfolding B_def by (force simp: sorted_append)
  then have h: "holds d t0 N (added d t0 ?xs) B (passStat l)" using r one by (simp add: N_def)
  have io: "in_order d t0 B now" using in_order_latest [OF d sx now] by (simp add: B_def)
  note B' = timespan_period(2) [OF h io]
  have best: "?best = (if ?p - B < int N then foldl max 1 (take (N - 1) (map (passes d t0 ts) [?p - int N + 1..B])) else 1)"
    by (rule best_pass_scan [OF d N _ B_def B']) (use s in \<open>simp add: sorted_append\<close>)
  have small: "\<forall>c \<in> set (map (passes d t0 ts) ms). c < 2 ^ 53" for ms
    using le_less_trans [OF length_filter_le n] by (auto simp: passes_def)
  have lt: "1 \<le> ?best" "?best < 2 ^ 53"
    unfolding best_pass_def by (rule foldl_max_ge) (rule foldl_max_less [OF _ small], simp)
  have ap: "added d t0 ?xs = (\<lambda>m. bucket_of (replicate (passes d t0 ts m) (FNum 1)))" by (rule ext) (rule added_passes)
  have "Reduce (pass_scan (winBucket (conf l)) 1 (FNum 1)) now (passStat l) =
      Some (if ?p - B < int N then FNum (of_nat ?best) else FNum 0)"
    using pass_scan_counts [OF small, of 1 1 "winBucket (conf l)"] wb best
    by (simp add: Reduce_def snapshot_holds [OF h io] ap comp_def N_def nat_diff_distrib)
  moreover have "f_to_i64 oor (FNum (of_nat ?best)) = of_nat ?best"
    using f_to_i64_of_int [of "int ?best" oor] lt by simp
  moreover have "(of_nat ?best :: i64) \<noteq> 0"
  proof -
    have "unat (of_nat ?best :: i64) = ?best" using lt by (simp add: unat_of_nat)
    then show ?thesis using lt by auto
  qed
  moreover have "f_to_i64 oor (FNum 0) = 0" using f_to_i64_of_int [of 0 oor] by simp
  ultimately show ?thesis using c best
    by (auto simp: maxPASS_def counter_Timespan_def N_def [symmetric] Let_def)
qed

lemma fround_two: "fround float64_fmt 2 = FNum 2"
  using fround_nat [of 2] by simp

theorem maxPASS_best_witness:
  "maxPASS (\<lambda>_. 0) 0 2500000
     \<lparr>passStat = \<lparr>rsize = 3, window = [\<lparr>Points = [FNum 2], Count = 2\<rparr>, \<lparr>Points = [FNum 1], Count = 1\<rparr>, empty_bucket],
        offset = 1, bucketDuration = 1000000, lastAppendTime = 1000000\<rparr>,
      rtStat = NewRollingCounter 3 1000000 0, inFlight = 0, winBucketPerSec = 1000,
      conf = defaultConf\<lparr>winBucket := 3\<rparr>, prevDrop = 0, prevDropHit = 0, rawMaxPASS = 0, rawMinRt = 0\<rparr> =
   Some (2,
     \<lparr>passStat = \<lparr>rsize = 3, window = [\<lparr>Points = [FNum 2], Count = 2\<rparr>, \<lparr>Points = [FNum 1], Count = 1\<rparr>, empty_bucket],
        offset = 1, bucketDuration = 1000000, lastAppendTime = 1000000\<rparr>,
      rtStat = NewRollingCounter 3 1000000 0, inFlight = 0, winBucketPerSec = 1000,
      conf = defaultConf\<lparr>winBucket := 3\<rparr>, prevDrop = 0, prevDropHit = 0, rawMaxPASS = 2, rawMinRt = 0\<rparr>)"
  (is "_ = Some (2, ?l')")
proof -
  define l where "l = ?l'\<lparr>rawMaxPASS := 0\<rparr>"
  have one: "i64_to_f 1 = FNum 1" using fround_nat [of 1] by (simp add: i64_to_f_def f_of_int_def)
  have "add_list (map (\<lambda>t. (t, i64_to_f 1)) [100, 200, 1500000]) (NewRollingCounter (nat (sint (winBucket (conf l)))) 1000000 0) =
      Some (passStat l)"
    unfolding one
    by (simp add: l_def defaultConf_def policy_Add_def policy_add_def timespan_def Since_def NewRollingCounter_def NewRollingPolicy_def
        NewWindow_def numeral_3_eq_3 Let_def Window_Add_def Window_Append_def Bucket_Append_def Bucket_Add_def empty_bucket_def
        fround_two ResetBucket_def TimeAdd_def)
  moreover have "best_pass 1000000 0 3 [100, 200, 1500000] 2500000 = 2" by code_simp
  ultimately show ?thesis
    using maxPASS_best [of "[100, 200, 1500000]" l 1000000 0 2500000 0 "\<lambda>_. 0"] by (simp add: l_def)
qed

end
