(* ===== verification/Chord.thy ===== *)
theory Chord
  imports GoStrings
begin

text \<open>
  The durable chord of \<open>distributed/backend/durable_chord.go\<close>: a group of member tasks and one callback that runs
  after all of them. A \<open>ChordDelivery\<close> is the stored record of a chord; the functions below are the transitions that
  every storage backend applies to it. Each returns the record it leaves behind, which the Go code changes in place also
  when it fails, together with its result. The JSON encoding of signatures and results is an argument \<open>J\<close>; the
  reading of the clock, which the code takes when a caller passes the zero time, is the argument \<open>clock\<close>.
\<close>

section \<open>Data\<close>

datatype chord_err =
    ErrDurableChordUnsupported | ErrChordInvalidInput | ErrChordRegistrationConflict | ErrChordRegistrationAborted
  | ErrChordRegistrationOwnershipLost | ErrChordPublicationStarted | ErrChordLeaseLost | ErrChordReceiptConflict
  | ErrChordTerminalConflict | ErrChordNotFound
  | ErrUnknownState string | ErrJson | ErrStore string

text \<open>The states are strings in the source; a stored record may hold any other string.\<close>

datatype ChordMemberState =
  MemberSetup | MemberReady | MemberLeased | MemberPublished | MemberPublishUnknown | MemberTerminal | MemberOther string

datatype ChordCallbackState =
  ChordWaiting | ChordReady | ChordLeased | ChordPublished | ChordPublishUnknown | ChordDelivered | ChordSuppressed
  | ChordOther string

datatype MemberTerminalOutcome = MemberSuccess | MemberFailure | MemberOutcomeOther string
datatype CallbackTerminalOutcome = CallbackNone | CallbackSuccess | CallbackFailure | CallbackOutcomeOther string
datatype ChordPublishOutcomeKind = OutcomeSucceeded | OutcomeUnknown | OutcomeRejected | OutcomeOther string

text \<open>\<open>task.Result\<close>, \<open>task.Arg\<close> and \<open>task.Signature\<close>; the fields of a signature that chords do not touch are \<open>sRest\<close>.\<close>

record 'v Result =
  rType :: string
  rValue :: 'v

record 'v Arg =
  aType :: string
  aKey :: string
  aValue :: 'v

record ('v, 'm) Signature =
  sID :: string
  sGroupID :: string
  sArgs :: "'v Arg list"
  sRest :: 'm

text \<open>A slice of pointers to results may be nil, \<open>None\<close>, and may hold nil.\<close>

type_synonym 'v results = "'v Result option list option"

record 'v ChordMemberReceipt =
  rcTaskID :: string
  rcOutcome :: MemberTerminalOutcome
  rcResults :: "'v results"

record ('v, 'm) json =
  unmarshal_sig :: "string \<Rightarrow> ('v, 'm) Signature option"
  marshal_sig :: "('v, 'm) Signature \<Rightarrow> string option"
  reencode_results :: "'v results \<Rightarrow> 'v results option"
  marshal_receipt :: "'v ChordMemberReceipt \<Rightarrow> string"

record ChordMemberRegistration =
  mrOrdinal :: int
  mrTaskID :: string
  mrPayload :: string

record ChordRegistration =
  crDeliveryKey :: string
  crDefinitionHash :: string
  crGroupID :: string
  crGroupName :: string
  crRetention :: i64
  crCallback :: string
  crMembers :: "ChordMemberRegistration list"

record ChordRegistrationRef =
  rfDeliveryKey :: string
  rfOwner :: string
  rfVersion :: i64
  rfCreated :: bool

record 'v ChordMemberPublication =
  mOrdinal :: int
  mTaskID :: string
  mPayload :: string
  mState :: ChordMemberState
  mVersion :: i64
  mLeaseOwner :: string
  mLeaseExpiresAt :: gotime
  mAttempts :: i64
  mNextAttemptAt :: gotime
  mConfirmationDeadline :: gotime
  mLastError :: string
  mReceipt :: "'v ChordMemberReceipt option"

record 'v ChordDelivery =
  DeliveryKey :: string
  DefinitionHash :: string
  dGroupID :: string
  dGroupName :: string
  Retention :: i64
  RegistrationOwner :: string
  RegistrationVersion :: i64
  Version :: i64
  MemberPublicationStarted :: bool
  CallbackTemplate :: string
  CallbackPayload :: string
  Members :: "'v ChordMemberPublication list"
  CallbackState :: ChordCallbackState
  CallbackVersion :: i64
  CallbackLeaseOwner :: string
  CallbackLeaseExpiresAt :: gotime
  CallbackAttempts :: i64
  CallbackNextAttemptAt :: gotime
  CallbackConfirmationAt :: gotime
  CallbackLastError :: string
  TerminalOutcome :: CallbackTerminalOutcome
  TerminalAt :: gotime
  TerminalExpireAt :: "gotime option"
  CreatedAt :: gotime
  UpdatedAt :: gotime

record ChordMemberClaim =
  mcDeliveryKey :: string
  mcOrdinal :: int
  mcOwner :: string
  mcNow :: gotime
  mcLeaseDuration :: duration

record ChordMemberLease =
  mlDeliveryKey :: string
  mlOrdinal :: int
  mlTaskID :: string
  mlPayload :: string
  mlOwner :: string
  mlVersion :: i64
  mlExpiresAt :: gotime

record ChordCallbackClaim =
  ccDeliveryKey :: string
  ccOwner :: string
  ccNow :: gotime
  ccLeaseDuration :: duration

record ChordCallbackLease =
  clDeliveryKey :: string
  clPayload :: string
  clOwner :: string
  clVersion :: i64
  clExpiresAt :: gotime

record ChordPublishOutcome =
  oKind :: ChordPublishOutcomeKind
  oNow :: gotime
  oConfirmationDeadline :: gotime
  oNextAttemptAt :: gotime
  oError :: string

section \<open>Helpers\<close>

text \<open>The zero \<open>time.Time\<close> is the first of January of the year 1.\<close>

definition zero_time :: gotime where
  "zero_time = - 62135596800 * 1000000000"

definition now_or :: "gotime \<Rightarrow> gotime \<Rightarrow> gotime" where
  "now_or clock t = (if t = zero_time then clock else t)"

definition seconds :: "int \<Rightarrow> duration" where
  "seconds n = word_of_int n * 1000000000"

definition DefaultChordRetentionSeconds :: i64 where
  "DefaultChordRetentionSeconds = 3600"

definition NormalizeChordRetention :: "i64 \<Rightarrow> i64" where
  "NormalizeChordRetention v = (if v = 0 then DefaultChordRetentionSeconds else v)"

definition deadlineOrDefault :: "gotime \<Rightarrow> gotime \<Rightarrow> gotime" where
  "deadlineOrDefault v fallback = (if v = zero_time then fallback else v)"

fun kind_name :: "ChordPublishOutcomeKind \<Rightarrow> string" where
  "kind_name OutcomeSucceeded = ''PUBLISHED''"
| "kind_name OutcomeUnknown = ''UNKNOWN''"
| "kind_name OutcomeRejected = ''REJECTED''"
| "kind_name (OutcomeOther s) = s"

definition chordErrorSummary :: "string \<Rightarrow> ChordPublishOutcome \<Rightarrow> string" where
  "chordErrorSummary operation outcome =
     (if oError outcome = '''' then ''''
      else ''operation='' @ operation @ '' category='' @ ToLower (kind_name (oKind outcome)))"

definition setChordTerminalTime :: "gotime \<Rightarrow> gotime \<Rightarrow> 'v ChordDelivery \<Rightarrow> 'v ChordDelivery" where
  "setChordTerminalTime clock t d =
     (let now = now_or clock t; d1 = d\<lparr>TerminalAt := now\<rparr>
      in if Retention d1 <s 0 then d1\<lparr>TerminalExpireAt := None\<rparr>
         else d1\<lparr>TerminalExpireAt := Some (TimeAdd now (NormalizeChordRetention (Retention d1) * 1000000000))\<rparr>)"

definition setChordSuppressed :: "gotime \<Rightarrow> gotime \<Rightarrow> 'v ChordDelivery \<Rightarrow> 'v ChordDelivery" where
  "setChordSuppressed clock now d =
     (if CallbackState d = ChordDelivered \<or> CallbackState d = ChordSuppressed then d
      else
        let d1 = setChordTerminalTime clock now (d\<lparr>CallbackState := ChordSuppressed, TerminalOutcome := CallbackFailure\<rparr>)
        in d1\<lparr>CallbackVersion := CallbackVersion d1 + 1\<rparr>)"

section \<open>Registration\<close>

text \<open>
  The key of a chord and the hash of its definition. \<open>hash\<close> is SHA-256 written in hexadecimal and \<open>marshal_reg\<close> the JSON
  encoding of a registration.
\<close>

definition ChordDeliveryKey :: "(string \<Rightarrow> string) \<Rightarrow> string \<Rightarrow> string \<Rightarrow> string" where
  "ChordDeliveryKey hash groupID callbackID =
     ''chord:v1:'' @ hash groupID @ '':'' @ hash (''gkit-chord-v1'' @ [CHR 0x00] @ groupID @ [CHR 0x00] @ callbackID)"

definition FinalizeChordRegistration ::
  "(string \<Rightarrow> string) \<Rightarrow> (ChordRegistration \<Rightarrow> string option) \<Rightarrow> ('v, 'm) json \<Rightarrow> ChordRegistration \<Rightarrow> (chord_err, ChordRegistration) go" where
  "FinalizeChordRegistration hash marshal_reg J reg =
     (let reg1 = reg\<lparr>crRetention := NormalizeChordRetention (crRetention reg)\<rparr>;
          keyed = (if crDeliveryKey reg1 = [] then
                     (case unmarshal_sig J (crCallback reg1) of
                        None \<Rightarrow> Err ErrJson
                      | Some callback \<Rightarrow> Ok (reg1\<lparr>crDeliveryKey := ChordDeliveryKey hash (crGroupID reg1) (sID callback)\<rparr>))
                   else Ok reg1)
      in case keyed of
           Err e \<Rightarrow> Err e
         | Panic \<Rightarrow> Panic
         | Ok reg2 \<Rightarrow>
             (case marshal_reg (reg2\<lparr>crDefinitionHash := []\<rparr>) of
                None \<Rightarrow> Err ErrJson
              | Some body \<Rightarrow> Ok (reg2\<lparr>crDefinitionHash := hash body\<rparr>)))"

text \<open>The server and the backend both call it; the second call changes nothing.\<close>

lemma FinalizeChordRegistration_idem:
  assumes "FinalizeChordRegistration hash mar J reg = Ok reg'"
  shows "FinalizeChordRegistration hash mar J reg' = Ok reg'"
proof -
  have "crDeliveryKey reg' \<noteq> []" "crRetention reg' = NormalizeChordRetention (crRetention reg')"
    "mar (reg'\<lparr>crDefinitionHash := []\<rparr>) \<noteq> None" "crDefinitionHash reg' = hash (the (mar (reg'\<lparr>crDefinitionHash := []\<rparr>)))"
    using assms by (auto simp: FinalizeChordRegistration_def ChordDeliveryKey_def NormalizeChordRetention_def DefaultChordRetentionSeconds_def Let_def
        split: if_splits option.splits)
  then show ?thesis by (auto simp: FinalizeChordRegistration_def Let_def)
qed

definition NewChordDelivery :: "ChordRegistration \<Rightarrow> string \<Rightarrow> gotime \<Rightarrow> 'v ChordDelivery" where
  "NewChordDelivery reg owner now =
     \<lparr>DeliveryKey = crDeliveryKey reg, DefinitionHash = crDefinitionHash reg, dGroupID = crGroupID reg,
      dGroupName = crGroupName reg, Retention = NormalizeChordRetention (crRetention reg), RegistrationOwner = owner,
      RegistrationVersion = 1, Version = 1, MemberPublicationStarted = False, CallbackTemplate = crCallback reg,
      CallbackPayload = [],
      Members = map (\<lambda>m. \<lparr>mOrdinal = mrOrdinal m, mTaskID = mrTaskID m, mPayload = mrPayload m, mState = MemberSetup,
        mVersion = 1, mLeaseOwner = [], mLeaseExpiresAt = zero_time, mAttempts = 0, mNextAttemptAt = zero_time,
        mConfirmationDeadline = zero_time, mLastError = [], mReceipt = None\<rparr>) (crMembers reg),
      CallbackState = ChordWaiting, CallbackVersion = 1, CallbackLeaseOwner = [], CallbackLeaseExpiresAt = zero_time,
      CallbackAttempts = 0, CallbackNextAttemptAt = zero_time, CallbackConfirmationAt = zero_time, CallbackLastError = [],
      TerminalOutcome = CallbackNone, TerminalAt = zero_time, TerminalExpireAt = None, CreatedAt = now, UpdatedAt = now\<rparr>"

definition ChordRegistrationMatches :: "'v ChordDelivery option \<Rightarrow> ChordRegistration \<Rightarrow> bool" where
  "ChordRegistrationMatches d reg =
     (case d of None \<Rightarrow> False | Some d \<Rightarrow> dGroupID d = crGroupID reg \<and> DefinitionHash d = crDefinitionHash reg)"

definition PrepareChordMembers :: "gotime \<Rightarrow> 'v ChordDelivery \<Rightarrow> 'v ChordDelivery" where
  "PrepareChordMembers now d =
     d\<lparr>Members := map (\<lambda>m. if mState m = MemberSetup then m\<lparr>mState := MemberReady, mVersion := mVersion m + 1\<rparr> else m) (Members d),
       Version := Version d + 1, UpdatedAt := now\<rparr>"

section \<open>The transitions of a member\<close>

text \<open>
  An ordinal outside the members is \<open>ErrChordNotFound\<close>. The source gives the same error for a nil record, which no
  backend passes: a record that is not stored is \<open>ErrChordNotFound\<close> before the transition.
\<close>

definition has_member :: "'v ChordDelivery \<Rightarrow> int \<Rightarrow> bool" where
  "has_member d i \<longleftrightarrow> 0 \<le> i \<and> i < int (length (Members d))"

definition get_member :: "'v ChordDelivery \<Rightarrow> int \<Rightarrow> 'v ChordMemberPublication" where
  "get_member d i = Members d ! nat i"

definition set_member :: "int \<Rightarrow> 'v ChordMemberPublication \<Rightarrow> 'v ChordDelivery \<Rightarrow> 'v ChordDelivery" where
  "set_member i m d = d\<lparr>Members := (Members d)[nat i := m]\<rparr>"

definition touch :: "gotime \<Rightarrow> 'v ChordDelivery \<Rightarrow> 'v ChordDelivery" where
  "touch now d = d\<lparr>Version := Version d + 1, UpdatedAt := now\<rparr>"

definition lease_duration :: "duration \<Rightarrow> duration" where
  "lease_duration d = (if d \<le>s 0 then seconds 30 else d)"

text \<open>What the \<open>switch\<close> of \<open>ClaimChordMember\<close> makes of the member: the result it returns, or the member to lease.\<close>

definition claimable_member ::
  "gotime \<Rightarrow> 'v ChordMemberPublication \<Rightarrow> (chord_err, ChordMemberLease option) go + 'v ChordMemberPublication" where
  "claimable_member now m =
     (case mState m of
        MemberLeased \<Rightarrow> if now < mLeaseExpiresAt m then Inl (Ok None) else Inr (m\<lparr>mState := MemberReady\<rparr>)
      | MemberPublished \<Rightarrow> if now < mConfirmationDeadline m then Inl (Ok None) else Inr (m\<lparr>mState := MemberReady\<rparr>)
      | MemberPublishUnknown \<Rightarrow> if now < mConfirmationDeadline m then Inl (Ok None) else Inr (m\<lparr>mState := MemberReady\<rparr>)
      | MemberReady \<Rightarrow> Inr m
      | MemberSetup \<Rightarrow> Inl (Ok None)
      | MemberTerminal \<Rightarrow> Inl (Ok None)
      | MemberOther s \<Rightarrow> Inl (Err (ErrUnknownState s)))"

definition ClaimChordMember ::
  "gotime \<Rightarrow> ChordMemberClaim \<Rightarrow> 'v ChordDelivery \<Rightarrow> 'v ChordDelivery \<times> (chord_err, ChordMemberLease option) go" where
  "ClaimChordMember clock claim d =
     (if \<not> has_member d (mcOrdinal claim) then (d, Err ErrChordNotFound)
      else
        let now = now_or clock (mcNow claim); i = mcOrdinal claim
        in case claimable_member now (get_member d i) of
             Inl r \<Rightarrow> (d, r)
           | Inr m \<Rightarrow>
               if now < mNextAttemptAt m then (set_member i m d, Ok None)
               else
                 let m1 = m\<lparr>mState := MemberLeased, mLeaseOwner := mcOwner claim,
                            mLeaseExpiresAt := TimeAdd now (lease_duration (mcLeaseDuration claim)),
                            mVersion := mVersion m + 1, mAttempts := mAttempts m + 1\<rparr>;
                     d1 = touch now ((set_member i m1 d)\<lparr>MemberPublicationStarted := True\<rparr>)
                 in (d1, Ok (Some \<lparr>mlDeliveryKey = DeliveryKey d, mlOrdinal = mOrdinal m1, mlTaskID = mTaskID m1,
                            mlPayload = mPayload m1, mlOwner = mcOwner claim, mlVersion = mVersion m1,
                            mlExpiresAt = mLeaseExpiresAt m1\<rparr>)))"

text \<open>The end of \<open>ApplyChordMemberPublishOutcome\<close>, after its \<open>switch\<close>.\<close>

definition outcome_member :: "ChordPublishOutcome \<Rightarrow> 'v ChordMemberPublication \<Rightarrow> 'v ChordMemberPublication" where
  "outcome_member outcome m =
     m\<lparr>mNextAttemptAt := (if oNextAttemptAt outcome \<noteq> zero_time then oNextAttemptAt outcome else mNextAttemptAt m),
       mVersion := mVersion m + 1\<rparr>"

definition ApplyChordMemberPublishOutcome ::
  "gotime \<Rightarrow> ChordMemberLease \<Rightarrow> ChordPublishOutcome \<Rightarrow> 'v ChordDelivery \<Rightarrow> 'v ChordDelivery \<times> (chord_err, unit) go" where
  "ApplyChordMemberPublishOutcome clock lease outcome d =
     (if \<not> has_member d (mlOrdinal lease) then (d, Err ErrChordNotFound)
      else
        let i = mlOrdinal lease; m = get_member d i
        in if mState m \<noteq> MemberLeased \<or> mLeaseOwner m \<noteq> mlOwner lease \<or> mVersion m \<noteq> mlVersion lease then (d, Err ErrChordLeaseLost)
           else
             let now = now_or clock (oNow outcome);
                 m1 = m\<lparr>mLeaseOwner := [], mLeaseExpiresAt := zero_time, mLastError := chordErrorSummary ''member_publish'' outcome\<rparr>;
                 deadline = deadlineOrDefault (oConfirmationDeadline outcome) (TimeAdd now (seconds 30));
                 failed = \<lparr>rcTaskID = mTaskID m1, rcOutcome = MemberFailure, rcResults = None\<rparr>
             in case oKind outcome of
                  OutcomeSucceeded \<Rightarrow>
                    (touch now (set_member i (outcome_member outcome
                       (m1\<lparr>mState := MemberPublished, mConfirmationDeadline := deadline\<rparr>)) d), Ok ())
                | OutcomeUnknown \<Rightarrow>
                    (touch now (set_member i (outcome_member outcome
                       (m1\<lparr>mState := MemberPublishUnknown, mConfirmationDeadline := deadline\<rparr>)) d), Ok ())
                | OutcomeRejected \<Rightarrow>
                    (touch now (set_member i (outcome_member outcome (m1\<lparr>mState := MemberTerminal, mReceipt := Some failed\<rparr>))
                       (setChordSuppressed clock now d)), Ok ())
                | OutcomeOther k \<Rightarrow> (set_member i m1 d, Err (ErrUnknownState k)))"

text \<open>\<open>buildChordCallbackPayload\<close> dereferences every result: a nil one panics.\<close>

fun result_args :: "'v Result option list \<Rightarrow> 'v Arg list option" where
  "result_args [] = Some []"
| "result_args (None # rs) = None"
| "result_args (Some r # rs) = map_option (Cons \<lparr>aType = rType r, aKey = [], aValue = rValue r\<rparr>) (result_args rs)"

fun member_args :: "'v ChordMemberPublication list \<Rightarrow> 'v Arg list option" where
  "member_args [] = Some []"
| "member_args (m # ms) =
     (case mReceipt m of
        None \<Rightarrow> None
      | Some rc \<Rightarrow>
          (case result_args (case rcResults rc of None \<Rightarrow> [] | Some rs \<Rightarrow> rs) of
             None \<Rightarrow> None
           | Some as \<Rightarrow> map_option ((@) as) (member_args ms)))"

definition buildChordCallbackPayload :: "('v, 'm) json \<Rightarrow> 'v ChordDelivery \<Rightarrow> (chord_err, string) go" where
  "buildChordCallbackPayload J d =
     (case unmarshal_sig J (CallbackTemplate d) of
        None \<Rightarrow> Err ErrJson
      | Some callback \<Rightarrow>
          (case member_args (Members d) of
             None \<Rightarrow> Panic
           | Some as \<Rightarrow>
               (case marshal_sig J (callback\<lparr>sArgs := sArgs callback @ as\<rparr>) of None \<Rightarrow> Err ErrJson | Some p \<Rightarrow> Ok p)))"

text \<open>
  The loop over the members after a success: it stops at the first member without a receipt, or suppresses the callback
  at the first failure.
\<close>

datatype completion = Incomplete | Failed | Complete

fun all_done :: "'v ChordMemberPublication list \<Rightarrow> completion" where
  "all_done [] = Complete"
| "all_done (m # ms) =
     (case mReceipt m of
        None \<Rightarrow> Incomplete
      | Some rc \<Rightarrow> if rcOutcome rc = MemberFailure then Failed else all_done ms)"

definition after_receipt ::
  "('v, 'm) json \<Rightarrow> gotime \<Rightarrow> MemberTerminalOutcome \<Rightarrow> gotime \<Rightarrow> 'v ChordDelivery \<Rightarrow> 'v ChordDelivery \<times> (chord_err, unit) go" where
  "after_receipt J clock outcome now d =
     (if outcome = MemberFailure then (setChordSuppressed clock now d, Ok ())
      else case all_done (Members d) of
        Incomplete \<Rightarrow> (d, Ok ())
      | Failed \<Rightarrow> (setChordSuppressed clock now d, Ok ())
      | Complete \<Rightarrow>
          (case buildChordCallbackPayload J d of
             Err e \<Rightarrow> (d, Err e)
           | Panic \<Rightarrow> (d, Panic)
           | Ok payload \<Rightarrow>
               (d\<lparr>CallbackPayload := (if CallbackPayload d = [] then payload else CallbackPayload d),
                  CallbackState := ChordReady, CallbackVersion := CallbackVersion d + 1\<rparr>, Ok ())))"

definition ApplyChordMemberTerminal ::
  "('v, 'm) json \<Rightarrow> gotime \<Rightarrow> int \<Rightarrow> string \<Rightarrow> MemberTerminalOutcome \<Rightarrow> 'v results \<Rightarrow> gotime \<Rightarrow> 'v ChordDelivery \<Rightarrow>
   'v ChordDelivery \<times> (chord_err, unit) go" where
  "ApplyChordMemberTerminal J clock ordinal taskID outcome results now d =
     (if \<not> has_member d ordinal then (d, Err ErrChordNotFound)
      else
        let m = get_member d ordinal
        in if mTaskID m \<noteq> taskID then (d, Err ErrChordReceiptConflict)
           else case reencode_results J results of
             None \<Rightarrow> (d, Err ErrJson)
           | Some copyResults \<Rightarrow>
               let candidate = \<lparr>rcTaskID = taskID, rcOutcome = outcome, rcResults = copyResults\<rparr>
               in case mReceipt m of
                    Some existing \<Rightarrow>
                      (d, if marshal_receipt J existing = marshal_receipt J candidate then Ok () else Err ErrChordReceiptConflict)
                  | None \<Rightarrow>
                      let m1 = m\<lparr>mState := MemberTerminal, mLeaseOwner := [], mLeaseExpiresAt := zero_time,
                                 mReceipt := Some candidate, mVersion := mVersion m + 1\<rparr>
                      in after_receipt J clock outcome now (touch now (set_member ordinal m1 d)))"

section \<open>The transitions of the callback\<close>

definition claimable_callback ::
  "gotime \<Rightarrow> 'v ChordDelivery \<Rightarrow> (chord_err, ChordCallbackLease option) go + 'v ChordDelivery" where
  "claimable_callback now d =
     (case CallbackState d of
        ChordLeased \<Rightarrow> if now < CallbackLeaseExpiresAt d then Inl (Ok None) else Inr (d\<lparr>CallbackState := ChordReady\<rparr>)
      | ChordPublished \<Rightarrow> if now < CallbackConfirmationAt d then Inl (Ok None) else Inr (d\<lparr>CallbackState := ChordReady\<rparr>)
      | ChordPublishUnknown \<Rightarrow> if now < CallbackConfirmationAt d then Inl (Ok None) else Inr (d\<lparr>CallbackState := ChordReady\<rparr>)
      | ChordReady \<Rightarrow> Inr d
      | ChordWaiting \<Rightarrow> Inl (Ok None)
      | ChordDelivered \<Rightarrow> Inl (Ok None)
      | ChordSuppressed \<Rightarrow> Inl (Ok None)
      | ChordOther s \<Rightarrow> Inl (Err (ErrUnknownState s)))"

definition ClaimChordCallback ::
  "gotime \<Rightarrow> ChordCallbackClaim \<Rightarrow> 'v ChordDelivery \<Rightarrow> 'v ChordDelivery \<times> (chord_err, ChordCallbackLease option) go" where
  "ClaimChordCallback clock claim d =
     (let now = now_or clock (ccNow claim)
      in case claimable_callback now d of
           Inl r \<Rightarrow> (d, r)
         | Inr d1 \<Rightarrow>
             if now < CallbackNextAttemptAt d1 then (d1, Ok None)
             else
               let d2 = touch now (d1\<lparr>CallbackState := ChordLeased, CallbackLeaseOwner := ccOwner claim,
                          CallbackLeaseExpiresAt := TimeAdd now (lease_duration (ccLeaseDuration claim)),
                          CallbackVersion := CallbackVersion d1 + 1, CallbackAttempts := CallbackAttempts d1 + 1\<rparr>)
               in (d2, Ok (Some \<lparr>clDeliveryKey = DeliveryKey d2, clPayload = CallbackPayload d2, clOwner = ccOwner claim,
                          clVersion = CallbackVersion d2, clExpiresAt = CallbackLeaseExpiresAt d2\<rparr>)))"

definition ApplyChordCallbackPublishOutcome ::
  "gotime \<Rightarrow> ChordCallbackLease \<Rightarrow> ChordPublishOutcome \<Rightarrow> 'v ChordDelivery \<Rightarrow> 'v ChordDelivery \<times> (chord_err, unit) go" where
  "ApplyChordCallbackPublishOutcome clock lease outcome d =
     (if CallbackState d \<noteq> ChordLeased \<or> CallbackLeaseOwner d \<noteq> clOwner lease \<or> CallbackVersion d \<noteq> clVersion lease
      then (d, Err ErrChordLeaseLost)
      else
        let now = now_or clock (oNow outcome);
            d1 = d\<lparr>CallbackLeaseOwner := [], CallbackLeaseExpiresAt := zero_time,
                   CallbackLastError := chordErrorSummary ''callback_publish'' outcome\<rparr>;
            deadline = deadlineOrDefault (oConfirmationDeadline outcome) (TimeAdd now (seconds 30));
            finish = (\<lambda>d. touch now (d\<lparr>CallbackVersion := CallbackVersion d + 1\<rparr>))
        in case oKind outcome of
             OutcomeSucceeded \<Rightarrow> (finish (d1\<lparr>CallbackState := ChordPublished, CallbackConfirmationAt := deadline\<rparr>), Ok ())
           | OutcomeUnknown \<Rightarrow> (finish (d1\<lparr>CallbackState := ChordPublishUnknown, CallbackConfirmationAt := deadline\<rparr>), Ok ())
           | OutcomeRejected \<Rightarrow>
               (finish (d1\<lparr>CallbackState := ChordReady,
                  CallbackNextAttemptAt := deadlineOrDefault (oNextAttemptAt outcome) (TimeAdd now (seconds 1))\<rparr>), Ok ())
           | OutcomeOther k \<Rightarrow> (d1, Err (ErrUnknownState k)))"

definition ApplyChordCallbackTerminal ::
  "gotime \<Rightarrow> CallbackTerminalOutcome \<Rightarrow> gotime \<Rightarrow> 'v ChordDelivery \<Rightarrow> 'v ChordDelivery \<times> (chord_err, unit) go" where
  "ApplyChordCallbackTerminal clock outcome now d =
     (if CallbackState d = ChordDelivered then
        (d, if TerminalOutcome d = outcome then Ok () else Err ErrChordTerminalConflict)
      else if CallbackState d = ChordSuppressed then (d, Err ErrChordTerminalConflict)
      else
        let d1 = setChordTerminalTime clock now (d\<lparr>CallbackState := ChordDelivered, TerminalOutcome := outcome\<rparr>)
        in (touch now (d1\<lparr>CallbackVersion := CallbackVersion d1 + 1\<rparr>), Ok ()))"

section \<open>The transitions under a backend\<close>

text \<open>
  Every backend passes a transition to its \<open>updateChordDelivery\<close>, which stores the changed record when the transition
  reports a change and no error. \<open>chord_mutate\<close> are the functions that the methods of the backends pass: a claim is a
  change when it is granted, a terminal outcome when it moved the version of the record. \<open>OpReload\<close> is no method: it is
  what the storage does to the times of a record that is written and read again, which a store may keep with less
  precision.
\<close>

fun time_member :: "(gotime \<Rightarrow> gotime) \<Rightarrow> 'v ChordMemberPublication \<Rightarrow> 'v ChordMemberPublication" where
  "time_member f m = m\<lparr>mLeaseExpiresAt := f (mLeaseExpiresAt m), mNextAttemptAt := f (mNextAttemptAt m),
     mConfirmationDeadline := f (mConfirmationDeadline m)\<rparr>"

definition map_times :: "(gotime \<Rightarrow> gotime) \<Rightarrow> 'v ChordDelivery \<Rightarrow> 'v ChordDelivery" where
  "map_times f d = d\<lparr>Members := map (time_member f) (Members d),
     CallbackLeaseExpiresAt := f (CallbackLeaseExpiresAt d), CallbackNextAttemptAt := f (CallbackNextAttemptAt d),
     CallbackConfirmationAt := f (CallbackConfirmationAt d), TerminalAt := f (TerminalAt d),
     TerminalExpireAt := map_option f (TerminalExpireAt d), CreatedAt := f (CreatedAt d), UpdatedAt := f (UpdatedAt d)\<rparr>"

datatype 'v chord_op =
    OpPrepare gotime
  | OpClaimMember gotime ChordMemberClaim
  | OpMemberOutcome gotime ChordMemberLease ChordPublishOutcome
  | OpMemberTerminal gotime int string MemberTerminalOutcome "'v results" gotime
  | OpClaimCallback gotime ChordCallbackClaim
  | OpCallbackOutcome gotime ChordCallbackLease ChordPublishOutcome
  | OpCallbackTerminal gotime CallbackTerminalOutcome gotime
  | OpReload "gotime \<Rightarrow> gotime"

datatype chord_ret = RetDone | RetMember "ChordMemberLease option" | RetCallback "ChordCallbackLease option"

fun map_go :: "('a \<Rightarrow> 'b) \<Rightarrow> ('e, 'a) go \<Rightarrow> ('e, 'b) go" where
  "map_go f (Ok x) = Ok (f x)"
| "map_go f (Err e) = Err e"
| "map_go f Panic = Panic"

definition granted :: "('e, 'a option) go \<Rightarrow> bool" where
  "granted r = (case r of Ok (Some _) \<Rightarrow> True | _ \<Rightarrow> False)"

definition succeeded :: "('e, 'a) go \<Rightarrow> bool" where
  "succeeded r = (case r of Ok _ \<Rightarrow> True | _ \<Rightarrow> False)"

fun chord_mutate :: "('v, 'm) json \<Rightarrow> 'v chord_op \<Rightarrow> 'v ChordDelivery \<Rightarrow> 'v ChordDelivery \<times> bool \<times> (chord_err, chord_ret) go" where
  "chord_mutate J (OpPrepare now) d = (PrepareChordMembers now d, True, Ok RetDone)"
| "chord_mutate J (OpClaimMember clock claim) d =
     (case ClaimChordMember clock claim d of (d', r) \<Rightarrow> (d', granted r, map_go RetMember r))"
| "chord_mutate J (OpMemberOutcome clock lease outcome) d =
     (case ApplyChordMemberPublishOutcome clock lease outcome d of (d', r) \<Rightarrow> (d', succeeded r, map_go (\<lambda>_. RetDone) r))"
| "chord_mutate J (OpMemberTerminal clock ordinal taskID outcome results now) d =
     (case ApplyChordMemberTerminal J clock ordinal taskID outcome results now d of
        (d', r) \<Rightarrow> (d', succeeded r \<and> Version d' \<noteq> Version d, map_go (\<lambda>_. RetDone) r))"
| "chord_mutate J (OpClaimCallback clock claim) d =
     (case ClaimChordCallback clock claim d of (d', r) \<Rightarrow> (d', granted r, map_go RetCallback r))"
| "chord_mutate J (OpCallbackOutcome clock lease outcome) d =
     (case ApplyChordCallbackPublishOutcome clock lease outcome d of (d', r) \<Rightarrow> (d', succeeded r, map_go (\<lambda>_. RetDone) r))"
| "chord_mutate J (OpCallbackTerminal clock outcome now) d =
     (case ApplyChordCallbackTerminal clock outcome now d of
        (d', r) \<Rightarrow> (d', succeeded r \<and> Version d' \<noteq> Version d, map_go (\<lambda>_. RetDone) r))"
| "chord_mutate J (OpReload f) d = (map_times f d, True, Ok RetDone)"

text \<open>One transition on the stored record, atomically.\<close>

definition chord_apply :: "('v, 'm) json \<Rightarrow> 'v chord_op \<Rightarrow> 'v ChordDelivery \<Rightarrow> 'v ChordDelivery \<times> (chord_err, chord_ret) go" where
  "chord_apply J op d = (case chord_mutate J op d of (d', changed, r) \<Rightarrow> (if changed then d' else d, r))"

fun chord_run ::
  "('v, 'm) json \<Rightarrow> 'v chord_op list \<Rightarrow> 'v ChordDelivery \<Rightarrow> 'v ChordDelivery \<times> ('v chord_op \<times> (chord_err, chord_ret) go) list" where
  "chord_run J [] d = (d, [])"
| "chord_run J (op # ops) d =
     (case chord_apply J op d of (d1, r) \<Rightarrow> (case chord_run J ops d1 of (d2, lg) \<Rightarrow> (d2, (op, r) # lg)))"

end
