(* ===== verification/ChordEffect.thy ===== *)
theory ChordEffect
  imports Chord
begin

text \<open>
  What each transition of a durable chord does to the stored record: which member it changes and how, and what it makes of
  the callback. The invariants rest on these facts and not on the definitions.
\<close>

section \<open>The effect of each operation\<close>

lemmas chord_defs = chord_apply_def granted_def succeeded_def touch_def set_member_def get_member_def

text \<open>The part of a record that concerns the callback, without its bookkeeping.\<close>

definition cbpart :: "'v ChordDelivery \<Rightarrow> ChordCallbackState \<times> string \<times> string \<times> CallbackTerminalOutcome \<times> i64 \<times> string" where
  "cbpart d = (CallbackState d, CallbackPayload d, CallbackTemplate d, TerminalOutcome d, CallbackVersion d, CallbackLeaseOwner d)"

text \<open>Only one member changed.\<close>

definition only_at :: "nat \<Rightarrow> 'v ChordDelivery \<Rightarrow> 'v ChordDelivery \<Rightarrow> bool" where
  "only_at i d d' \<longleftrightarrow> i < length (Members d) \<and> Members d' = (Members d)[i := Members d' ! i]"

text \<open>A member after an operation that leaves its receipt.\<close>

definition bumped :: "'v ChordMemberPublication \<Rightarrow> 'v ChordMemberPublication \<Rightarrow> bool" where
  "bumped m m' \<longleftrightarrow> mReceipt m' = mReceipt m \<and> mTaskID m' = mTaskID m \<and> mOrdinal m' = mOrdinal m \<and> mVersion m' = mVersion m + 1 \<and>
     mState m' \<in> {MemberLeased, MemberPublished, MemberPublishUnknown}"

lemma has_member_nat:
  assumes "has_member d i"
  obtains n where "i = int n" and "n < length (Members d)"
  using assms by (metis has_member_def nat_0_le nat_less_iff)

lemma claim_member_effect:
  assumes "chord_apply J (OpClaimMember clock claim) d = (d', r)"
  shows "d' = d \<and> \<not> (\<exists>L. r = Ok (RetMember (Some L))) \<and> \<not> (\<exists>L. r = Ok (RetCallback L)) \<or>
    (\<exists>i L. mcOrdinal claim = int i \<and> only_at i d d' \<and> mState (Members d ! i) \<notin> {MemberSetup, MemberTerminal} \<and>
       bumped (Members d ! i) (Members d' ! i) \<and> mState (Members d' ! i) = MemberLeased \<and> mLeaseOwner (Members d' ! i) = mcOwner claim \<and>
       cbpart d' = cbpart d \<and> r = Ok (RetMember (Some L)) \<and> mlVersion L = mVersion (Members d' ! i) \<and> mlOwner L = mcOwner claim \<and>
       mlOrdinal L = mOrdinal (Members d ! i))"
proof (cases "has_member d (mcOrdinal claim)")
  case True
  then obtain i where i: "mcOrdinal claim = int i" "i < length (Members d)" by (rule has_member_nat)
  show ?thesis
    using assms True i
    by (auto simp: ClaimChordMember_def claimable_member_def chord_defs Let_def cbpart_def bumped_def only_at_def
        split: ChordMemberState.splits if_splits)
next
  case False
  then show ?thesis using assms by (auto simp: ClaimChordMember_def chord_apply_def granted_def)
qed

lemma suppressed_part:
  "Members (setChordSuppressed clock now d) = Members d"
  "CallbackPayload (setChordSuppressed clock now d) = CallbackPayload d"
  "CallbackTemplate (setChordSuppressed clock now d) = CallbackTemplate d"
  "CallbackState (setChordSuppressed clock now d) = (if CallbackState d = ChordDelivered then ChordDelivered else ChordSuppressed)"
  "Version (setChordSuppressed clock now d) = Version d"
  "CallbackState d \<in> {ChordDelivered, ChordSuppressed} \<Longrightarrow> setChordSuppressed clock now d = d"
  by (auto simp: setChordSuppressed_def setChordTerminalTime_def Let_def)

lemma member_outcome_effect:
  assumes "chord_apply J (OpMemberOutcome clock lease outcome) d = (d', r)"
  shows "d' = d \<and> \<not> (\<exists>x. r = Ok x) \<or>
    (\<exists>i. mlOrdinal lease = int i \<and> only_at i d d' \<and> mState (Members d ! i) = MemberLeased \<and> mLeaseOwner (Members d ! i) = mlOwner lease \<and>
       mVersion (Members d ! i) = mlVersion lease \<and> mVersion (Members d' ! i) = mVersion (Members d ! i) + 1 \<and>
       mOrdinal (Members d' ! i) = mOrdinal (Members d ! i) \<and> r = Ok RetDone \<and>
       (bumped (Members d ! i) (Members d' ! i) \<and> cbpart d' = cbpart d \<or>
        mState (Members d' ! i) = MemberTerminal \<and>
        mReceipt (Members d' ! i) = Some \<lparr>rcTaskID = mTaskID (Members d ! i), rcOutcome = MemberFailure, rcResults = None\<rparr> \<and>
        (\<exists>now. cbpart d' = cbpart (setChordSuppressed clock now d))))"
proof -
  let ?m = "get_member d (mlOrdinal lease)"
  consider "\<not> has_member d (mlOrdinal lease)"
    | "has_member d (mlOrdinal lease)" "mState ?m \<noteq> MemberLeased \<or> mLeaseOwner ?m \<noteq> mlOwner lease \<or> mVersion ?m \<noteq> mlVersion lease"
    | "has_member d (mlOrdinal lease)" "mState ?m = MemberLeased" "mLeaseOwner ?m = mlOwner lease" "mVersion ?m = mlVersion lease"
    by blast
  then show ?thesis
  proof cases
    case 3
    then obtain i where i: "mlOrdinal lease = int i" "i < length (Members d)" using has_member_nat by metis
    have m: "Members d ! i = ?m" using i by (simp add: get_member_def)
    note e = assms [unfolded chord_apply_def chord_mutate.simps ApplyChordMemberPublishOutcome_def Let_def] 
    show ?thesis
    proof (cases "oKind outcome")
      case (OutcomeOther k)
      then show ?thesis using e 3 by (auto simp: succeeded_def)
    next
      case OutcomeRejected
      then show ?thesis using e 3 i m
        by (intro disjI2 exI [of _ i]) (auto simp: succeeded_def touch_def set_member_def cbpart_def only_at_def suppressed_part outcome_member_def)
    next
      case OutcomeSucceeded
      then show ?thesis using e 3 i m
        by (intro disjI2 exI [of _ i]) (auto simp: succeeded_def touch_def set_member_def cbpart_def only_at_def bumped_def outcome_member_def)
    next
      case OutcomeUnknown
      then show ?thesis using e 3 i m
        by (intro disjI2 exI [of _ i]) (auto simp: succeeded_def touch_def set_member_def cbpart_def only_at_def bumped_def outcome_member_def)
    qed
  qed (use assms in \<open>auto simp: ApplyChordMemberPublishOutcome_def chord_apply_def succeeded_def Let_def\<close>)
qed

lemma build_cong:
  "Members d' = Members d \<Longrightarrow> CallbackTemplate d' = CallbackTemplate d \<Longrightarrow>
   buildChordCallbackPayload J d' = buildChordCallbackPayload J d"
  by (simp add: buildChordCallbackPayload_def cong: option.case_cong)

text \<open>What a new receipt makes of the callback.\<close>

definition receipt_effect :: "('v, 'm) json \<Rightarrow> gotime \<Rightarrow> MemberTerminalOutcome \<Rightarrow> 'v ChordDelivery \<Rightarrow> 'v ChordDelivery \<Rightarrow> bool" where
  "receipt_effect J clock outcome d d' \<longleftrightarrow>
     (outcome = MemberFailure \<or> all_done (Members d') = Failed) \<and> (\<exists>now. cbpart d' = cbpart (setChordSuppressed clock now d)) \<or>
     outcome \<noteq> MemberFailure \<and> all_done (Members d') = Incomplete \<and> cbpart d' = cbpart d \<or>
     outcome \<noteq> MemberFailure \<and> all_done (Members d') = Complete \<and>
       (\<exists>p. buildChordCallbackPayload J d' = Ok p \<and>
         cbpart d' = (ChordReady, if CallbackPayload d = [] then p else CallbackPayload d, CallbackTemplate d, TerminalOutcome d,
           CallbackVersion d + 1, CallbackLeaseOwner d))"

lemma suppressed_cb_cong:
  assumes "cbpart d1 = cbpart d"
  shows "cbpart (setChordSuppressed clock now d1) = cbpart (setChordSuppressed clock now d)"
  using assms by (simp add: setChordSuppressed_def setChordTerminalTime_def cbpart_def Let_def)

lemma after_receipt_effect:
  assumes "after_receipt J clock outcome now d1 = (d2, r)" and "cbpart d1 = cbpart d"
  shows "Members d2 = Members d1 \<and> Version d2 = Version d1"
    and "r = Ok () \<Longrightarrow> receipt_effect J clock outcome d d2"
proof -
  show "Members d2 = Members d1 \<and> Version d2 = Version d1"
    using assms(1) by (auto simp: after_receipt_def suppressed_part split: if_splits completion.splits go.splits)
  note sup = suppressed_cb_cong [OF assms(2), of clock now]
  show "receipt_effect J clock outcome d d2" if ok: "r = Ok ()"
  proof (cases "outcome = MemberFailure \<or> all_done (Members d1) \<noteq> Complete")
    case True
    then show ?thesis using assms ok sup
      by (auto simp: after_receipt_def receipt_effect_def suppressed_part split: if_splits completion.splits)
  next
    case False
    then obtain p where p: "buildChordCallbackPayload J d1 = Ok p" "d2 = d1\<lparr>CallbackPayload := (if CallbackPayload d1 = [] then p else CallbackPayload d1),
        CallbackState := ChordReady, CallbackVersion := CallbackVersion d1 + 1\<rparr>"
      using assms(1) ok by (auto simp: after_receipt_def split: go.splits)
    then have "buildChordCallbackPayload J d2 = Ok p" using build_cong [of d2 d1 J] by simp
    then show ?thesis using False p(2) assms(2) by (simp add: receipt_effect_def cbpart_def)
  qed
qed

lemma member_terminal_effect:
  assumes "chord_apply J (OpMemberTerminal clock ordinal taskID outcome results now) d = (d', r)"
  shows "d' = d \<and> \<not> (\<exists>L. r = Ok (RetMember L)) \<and> \<not> (\<exists>L. r = Ok (RetCallback L)) \<or>
    (\<exists>i rc. ordinal = int i \<and> only_at i d d' \<and> mReceipt (Members d ! i) = None \<and> mReceipt (Members d' ! i) = Some rc \<and>
       rcOutcome rc = outcome \<and> mState (Members d' ! i) = MemberTerminal \<and> mVersion (Members d' ! i) = mVersion (Members d ! i) + 1 \<and>
       mOrdinal (Members d' ! i) = mOrdinal (Members d ! i) \<and> r = Ok RetDone \<and> receipt_effect J clock outcome d d')"
proof -
  let ?m = "get_member d ordinal"
  note e = assms [unfolded chord_apply_def chord_mutate.simps ApplyChordMemberTerminal_def Let_def]
  show ?thesis
  proof (cases "has_member d ordinal \<and> mTaskID ?m = taskID \<and> mReceipt ?m = None \<and> reencode_results J results \<noteq> None")
    case False
    then show ?thesis using e by (auto simp: succeeded_def split: option.splits if_splits)
  next
    case True
    then obtain i where i: "ordinal = int i" "i < length (Members d)" using has_member_nat by metis
    obtain copy where c: "reencode_results J results = Some copy" using True by blast
    define m1 where "m1 = ?m\<lparr>mState := MemberTerminal, mLeaseOwner := [], mLeaseExpiresAt := zero_time,
      mReceipt := Some \<lparr>rcTaskID = taskID, rcOutcome = outcome, rcResults = copy\<rparr>, mVersion := mVersion ?m + 1\<rparr>"
    define d1 where "d1 = touch now (set_member ordinal m1 d)"
    have m: "Members d1 = (Members d)[i := m1]" "cbpart d1 = cbpart d" "Version d1 = Version d + 1" "Members d ! i = ?m"
      using i by (simp_all add: d1_def touch_def set_member_def cbpart_def get_member_def)
    obtain d2 r' where a: "after_receipt J clock outcome now d1 = (d2, r')" by force
    have e1: "(if succeeded r' \<and> Version d2 \<noteq> Version d then d2 else d) = d'" "map_go (\<lambda>_. RetDone) r' = r"
      using e True c a by (simp_all add: d1_def m1_def)
    note f = after_receipt_effect [OF a m(2)]
    show ?thesis
    proof (cases "r' = Ok ()")
      case ok: True
      then have "d' = d2" using e1(1) f(1) m(3) by (simp add: succeeded_def)
      then show ?thesis using ok f m i True e1(2) by (intro disjI2 exI [of _ i]) (auto simp: only_at_def m1_def)
    next
      case False
      then show ?thesis using e1 by (cases r') (auto simp: succeeded_def)
    qed
  qed
qed

lemma claimable_callback_cases:
  "(\<exists>r. claimable_callback now d = Inl r \<and> \<not> granted r) \<or>
   claimable_callback now d = Inr (d\<lparr>CallbackState := ChordReady\<rparr>) \<and>
     CallbackState d \<in> {ChordReady, ChordLeased, ChordPublished, ChordPublishUnknown}"
  by (cases "CallbackState d") (simp_all add: claimable_callback_def granted_def)

lemma claim_callback_effect:
  assumes "chord_apply J (OpClaimCallback clock claim) d = (d', r)"
  shows "d' = d \<and> \<not> (\<exists>L. r = Ok (RetMember L)) \<and> \<not> (\<exists>L. r = Ok (RetCallback (Some L))) \<or>
    Members d' = Members d \<and> CallbackState d \<in> {ChordReady, ChordLeased, ChordPublished, ChordPublishUnknown} \<and>
    cbpart d' = (ChordLeased, CallbackPayload d, CallbackTemplate d, TerminalOutcome d, CallbackVersion d + 1, ccOwner claim) \<and>
    (\<exists>L. r = Ok (RetCallback (Some L)) \<and> clPayload L = CallbackPayload d \<and> clVersion L = CallbackVersion d' \<and> clOwner L = ccOwner claim)"
proof -
  note e = assms [unfolded chord_apply_def chord_mutate.simps ClaimChordCallback_def Let_def]
  from claimable_callback_cases [of "now_or clock (ccNow claim)" d] show ?thesis
  proof (elim disjE exE conjE)
    fix r' assume "claimable_callback (now_or clock (ccNow claim)) d = Inl r'" "\<not> granted r'"
    then show ?thesis using e by (cases r') (auto simp: granted_def split: option.splits)
  next
    assume "claimable_callback (now_or clock (ccNow claim)) d = Inr (d\<lparr>CallbackState := ChordReady\<rparr>)"
      "CallbackState d \<in> {ChordReady, ChordLeased, ChordPublished, ChordPublishUnknown}"
    then show ?thesis using e by (auto simp: granted_def touch_def cbpart_def split: if_splits)
  qed
qed

lemma callback_outcome_held:
  assumes "CallbackState d = ChordLeased" and "CallbackLeaseOwner d = clOwner lease" and "CallbackVersion d = clVersion lease"
    and "ApplyChordCallbackPublishOutcome clock lease outcome d = (d', r)"
  shows "(\<exists>k. r = Err k) \<or> r = Ok () \<and> Members d' = Members d \<and>
    (\<exists>st \<in> {ChordPublished, ChordPublishUnknown, ChordReady}.
       cbpart d' = (st, CallbackPayload d, CallbackTemplate d, TerminalOutcome d, CallbackVersion d + 1, []))"
  using assms unfolding ApplyChordCallbackPublishOutcome_def Let_def
  by (cases "oKind outcome"; simp add: touch_def cbpart_def; elim conjE; hypsubst; simp)

lemma callback_outcome_effect:
  assumes "chord_apply J (OpCallbackOutcome clock lease outcome) d = (d', r)"
  shows "d' = d \<and> \<not> (\<exists>x. r = Ok x) \<or>
    Members d' = Members d \<and> CallbackState d = ChordLeased \<and> CallbackLeaseOwner d = clOwner lease \<and> CallbackVersion d = clVersion lease \<and>
    r = Ok RetDone \<and>
    (\<exists>st \<in> {ChordPublished, ChordPublishUnknown, ChordReady}.
       cbpart d' = (st, CallbackPayload d, CallbackTemplate d, TerminalOutcome d, CallbackVersion d + 1, []))"
proof -
  obtain d2 r' where a: "ApplyChordCallbackPublishOutcome clock lease outcome d = (d2, r')" by force
  have e: "(if succeeded r' then d2 else d) = d'" "map_go (\<lambda>_. RetDone) r' = r" using assms a by (simp_all add: chord_apply_def)
  show ?thesis
  proof (cases "CallbackState d \<noteq> ChordLeased \<or> CallbackLeaseOwner d \<noteq> clOwner lease \<or> CallbackVersion d \<noteq> clVersion lease")
    case True
    then have "r' = Err ErrChordLeaseLost" using a by (simp add: ApplyChordCallbackPublishOutcome_def)
    then show ?thesis using e by (auto simp: succeeded_def)
  next
    case False
    then show ?thesis using callback_outcome_held [OF _ _ _ a] e by (auto simp: succeeded_def)
  qed
qed

lemma callback_terminal_effect:
  assumes "chord_apply J (OpCallbackTerminal clock outcome now) d = (d', r)"
  shows "\<not> (\<exists>L. r = Ok (RetMember L)) \<and> \<not> (\<exists>L. r = Ok (RetCallback L)) \<and>
   (d' = d \<or>
    Members d' = Members d \<and> CallbackState d \<notin> {ChordDelivered, ChordSuppressed} \<and>
    cbpart d' = (ChordDelivered, CallbackPayload d, CallbackTemplate d, outcome, CallbackVersion d + 1, CallbackLeaseOwner d))"
proof -
  note e = assms [unfolded chord_apply_def chord_mutate.simps ApplyChordCallbackTerminal_def Let_def]
  show ?thesis
  proof (cases "CallbackState d \<in> {ChordDelivered, ChordSuppressed}")
    case True
    then show ?thesis using e by (auto simp: succeeded_def split: if_splits)
  next
    case False
    then show ?thesis using e by (auto simp: succeeded_def touch_def cbpart_def setChordTerminalTime_def Let_def)
  qed
qed

lemma prepare_effect:
  assumes "chord_apply J (OpPrepare now) d = (d', r)"
  shows "r = Ok RetDone" and "cbpart d' = cbpart d" and
    "Members d' = map (\<lambda>m. if mState m = MemberSetup then m\<lparr>mState := MemberReady, mVersion := mVersion m + 1\<rparr> else m) (Members d)"
  using assms by (auto simp: chord_apply_def PrepareChordMembers_def cbpart_def)

lemma reload_effect:
  assumes "chord_apply J (OpReload f) d = (d', r)"
  shows "r = Ok RetDone" and "cbpart d' = cbpart d" and "Members d' = map (time_member f) (Members d)"
  using assms by (auto simp: chord_apply_def map_times_def cbpart_def)

end
