(* ===== verification/ChordInv.thy ===== *)
theory ChordInv
  imports ChordEffect
begin

text \<open>
  What the transitions of a durable chord promise under any sequence of operations: the callback is leased only after every
  member succeeded, always with the same payload; a lease is exclusive; a terminal chord stays as it is; and
  no chord is ever stuck.
\<close>

section \<open>Receipts\<close>

definition failed_receipt :: "'v ChordMemberPublication \<Rightarrow> bool" where
  "failed_receipt m \<longleftrightarrow> (\<exists>rc. mReceipt m = Some rc \<and> rcOutcome rc = MemberFailure)"

definition passed_receipt :: "'v ChordMemberPublication \<Rightarrow> bool" where
  "passed_receipt m \<longleftrightarrow> (\<exists>rc. mReceipt m = Some rc \<and> rcOutcome rc \<noteq> MemberFailure)"

definition all_passed :: "'v ChordDelivery \<Rightarrow> bool" where
  "all_passed d \<longleftrightarrow> (\<forall>m \<in> set (Members d). passed_receipt m)"

definition some_failed :: "'v ChordDelivery \<Rightarrow> bool" where
  "some_failed d \<longleftrightarrow> (\<exists>m \<in> set (Members d). failed_receipt m)"

lemma not_all_passedI: "m \<in> set (Members d) \<Longrightarrow> mReceipt m = None \<Longrightarrow> \<not> all_passed d"
  by (force simp: all_passed_def passed_receipt_def)

lemma some_failedI: "m \<in> set (Members d) \<Longrightarrow> mReceipt m = Some rc \<Longrightarrow> rcOutcome rc = MemberFailure \<Longrightarrow> some_failed d"
  by (force simp: some_failed_def failed_receipt_def)

lemma all_done_list: "all_done ms = Complete \<longleftrightarrow> (\<forall>m \<in> set ms. passed_receipt m)"
  by (induction ms) (auto simp: passed_receipt_def split: option.splits)

lemma all_done_Complete: "all_done (Members d) = Complete \<longleftrightarrow> all_passed d"
  by (simp add: all_passed_def all_done_list)

lemma all_done_fails: "all_done ms = Failed \<Longrightarrow> \<exists>m \<in> set ms. failed_receipt m"
  by (induction ms) (auto simp: failed_receipt_def split: option.splits if_splits)

lemma all_done_Failed: "all_done (Members d) = Failed \<Longrightarrow> some_failed d"
  using all_done_fails by (auto simp: some_failed_def)

lemma passed_not_failed: "all_passed d \<Longrightarrow> \<not> some_failed d"
  by (auto simp: passed_receipt_def failed_receipt_def all_passed_def some_failed_def)

lemma member_args_cong: "map mReceipt ms = map mReceipt ms' \<Longrightarrow> member_args ms = member_args ms'"
proof (induction ms arbitrary: ms')
  case (Cons m ms)
  then obtain m' ms'' where "ms' = m' # ms''" "mReceipt m = mReceipt m'" "map mReceipt ms = map mReceipt ms''" by (cases ms') auto
  then show ?case using Cons.IH [of ms''] by (simp cong: option.case_cong)
qed simp

lemma build_receipts:
  assumes "map mReceipt (Members d') = map mReceipt (Members d)" and "CallbackTemplate d' = CallbackTemplate d"
  shows "buildChordCallbackPayload J d' = buildChordCallbackPayload J d"
  using member_args_cong [OF assms(1)] assms(2) by (simp add: buildChordCallbackPayload_def cong: option.case_cong)

lemma receipts_map:
  assumes "map mReceipt (Members d') = map mReceipt (Members d)"
  shows "all_passed d' = all_passed d" and "some_failed d' = some_failed d"
proof -
  have p: "all_passed d = (\<forall>r \<in> set (map mReceipt (Members d)). \<exists>rc. r = Some rc \<and> rcOutcome rc \<noteq> MemberFailure)" for d :: "'a ChordDelivery"
    by (simp add: all_passed_def passed_receipt_def)
  have f: "some_failed d = (\<exists>r \<in> set (map mReceipt (Members d)). \<exists>rc. r = Some rc \<and> rcOutcome rc = MemberFailure)" for d :: "'a ChordDelivery"
    by (simp add: some_failed_def failed_receipt_def)
  show "all_passed d' = all_passed d" by (simp only: p assms)
  show "some_failed d' = some_failed d" by (simp only: f assms)
qed

text \<open>Receipts are never lost or replaced.\<close>

definition rext :: "'v ChordDelivery \<Rightarrow> 'v ChordDelivery \<Rightarrow> bool" where
  "rext d d' \<longleftrightarrow> length (Members d') = length (Members d) \<and>
     (\<forall>i < length (Members d). mReceipt (Members d ! i) \<noteq> None \<longrightarrow> mReceipt (Members d' ! i) = mReceipt (Members d ! i))"

lemma rext_refl [simp]: "rext d d"
  by (simp add: rext_def)

lemma rext_trans: "rext a b \<Longrightarrow> rext b c \<Longrightarrow> rext a c"
  by (auto simp: rext_def)

lemma rext_same:
  assumes "map mReceipt (Members d') = map mReceipt (Members d)"
  shows "rext d d'"
proof -
  have l: "length (Members d') = length (Members d)" using assms by (rule map_eq_imp_length_eq)
  have "mReceipt (Members d' ! i) = mReceipt (Members d ! i)" if "i < length (Members d)" for i
    using arg_cong [OF assms, of "\<lambda>xs. xs ! i"] that l by simp
  then show ?thesis using l by (simp add: rext_def)
qed

lemma rext_complete:
  assumes "rext d d'" and "all_passed d"
  shows "map mReceipt (Members d') = map mReceipt (Members d)"
proof (rule nth_equalityI)
  fix i assume "i < length (map mReceipt (Members d'))"
  then have i: "i < length (Members d)" using assms(1) by (simp add: rext_def)
  then have "passed_receipt (Members d ! i)" using assms(2) by (simp add: all_passed_def)
  then have "mReceipt (Members d ! i) \<noteq> None" by (auto simp: passed_receipt_def)
  then show "map mReceipt (Members d') ! i = map mReceipt (Members d) ! i" using assms(1) i by (simp add: rext_def)
qed (use assms(1) in \<open>simp add: rext_def\<close>)

lemma only_at_receipts:
  assumes "only_at i d d'" and "mReceipt (Members d' ! i) = mReceipt (Members d ! i)"
  shows "map mReceipt (Members d') = map mReceipt (Members d)"
proof -
  have "Members d' = (Members d)[i := Members d' ! i]" "i < length (Members d)" using assms(1) by (auto simp: only_at_def)
  then have "map mReceipt (Members d') = (map mReceipt (Members d))[i := mReceipt (Members d ! i)]" using assms(2) map_update [of mReceipt "Members d" i "Members d' ! i"] by simp
  then show ?thesis using \<open>i < length (Members d)\<close> by (simp add: list_update_same_conv)
qed

lemma only_at_nth:
  assumes "only_at i d d'" 
  shows "length (Members d') = length (Members d)" and "j \<noteq> i \<Longrightarrow> Members d' ! j = Members d ! j" and "i < length (Members d)"
proof -
  have m: "Members d' = (Members d)[i := Members d' ! i]" "i < length (Members d)" using assms by (auto simp: only_at_def)
  show "length (Members d') = length (Members d)" by (subst m(1)) simp
  show "Members d' ! j = Members d ! j" if "j \<noteq> i" by (subst m(1)) (simp add: that [symmetric])
  show "i < length (Members d)" by (rule m(2))
qed

lemma only_at_rext:
  assumes "only_at i d d'" and "mReceipt (Members d ! i) = None"
  shows "rext d d'"
proof -
  have "mReceipt (Members d' ! j) = mReceipt (Members d ! j)" if "mReceipt (Members d ! j) \<noteq> None" for j
    using only_at_nth(2) [OF assms(1), of j] that assms(2) by (cases "j = i") auto
  then show ?thesis using only_at_nth(1) [OF assms(1)] by (simp add: rext_def)
qed

lemma only_at_set:
  assumes "only_at i d d'"
  shows "set (Members d') \<subseteq> insert (Members d' ! i) (set (Members d))" and "Members d' ! i \<in> set (Members d')"
proof -
  have "Members d' = (Members d)[i := Members d' ! i]" using assms by (auto simp: only_at_def)
  then show "set (Members d') \<subseteq> insert (Members d' ! i) (set (Members d))" by (metis set_update_subset_insert)
  show "Members d' ! i \<in> set (Members d')" using only_at_nth [OF assms] by simp
qed

section \<open>The invariant\<close>

definition live_states :: "ChordCallbackState set" where
  "live_states = {ChordReady, ChordLeased, ChordPublished, ChordPublishUnknown}"

definition member_ok :: "'v ChordMemberPublication \<Rightarrow> bool" where
  "member_ok m \<longleftrightarrow> (mState m = MemberTerminal \<longleftrightarrow> mReceipt m \<noteq> None) \<and> (\<forall>s. mState m \<noteq> MemberOther s)"

definition cinv :: "('v, 'm) json \<Rightarrow> string \<Rightarrow> 'v ChordDelivery \<Rightarrow> bool" where
  "cinv J template d \<longleftrightarrow>
     CallbackTemplate d = template \<and>
     (CallbackState d \<in> live_states \<or> CallbackPayload d \<noteq> [] \<longrightarrow>
        all_passed d \<and> buildChordCallbackPayload J d = Ok (CallbackPayload d)) \<and>
     (some_failed d \<longrightarrow> CallbackState d \<in> {ChordSuppressed, ChordDelivered}) \<and>
     (CallbackState d = ChordSuppressed \<longrightarrow> some_failed d) \<and>
     (\<forall>s. CallbackState d \<noteq> ChordOther s) \<and>
     (Members d \<noteq> [] \<and> CallbackState d = ChordWaiting \<longrightarrow> \<not> all_passed d) \<and>
     (\<forall>m \<in> set (Members d). member_ok m)"

lemma NewChordDelivery_cinv: "cinv J (crCallback reg) (NewChordDelivery reg owner now)"
  by (auto simp: cinv_def NewChordDelivery_def live_states_def all_passed_def some_failed_def failed_receipt_def
      passed_receipt_def member_ok_def)

text \<open>Operations that keep the receipts and move the callback only among the live states, or to the end.\<close>

lemma cinv_same_receipts:
  assumes inv: "cinv J t d" and r: "map mReceipt (Members d') = map mReceipt (Members d)"
    and ok: "\<forall>m \<in> set (Members d'). member_ok m" and c: "CallbackTemplate d' = CallbackTemplate d" "CallbackPayload d' = CallbackPayload d"
    and s: "CallbackState d' = CallbackState d \<or> CallbackState d \<in> live_states \<and> CallbackState d' \<in> live_states \<or>
      CallbackState d \<noteq> ChordSuppressed \<and> CallbackState d' = ChordDelivered"
  shows "cinv J t d'"
proof -
  have "Members d' = [] \<longleftrightarrow> Members d = []" using r by (metis Nil_is_map_conv)
  note f = this receipts_map [OF r] build_receipts [OF r c(1), of J]
  from s show ?thesis
  proof (elim disjE conjE)
    assume "CallbackState d' = CallbackState d"
    then show ?thesis using inv ok c f by (simp add: cinv_def)
  next
    assume l: "CallbackState d \<in> live_states" "CallbackState d' \<in> live_states"
    then have "all_passed d" "\<not> some_failed d" "buildChordCallbackPayload J d = Ok (CallbackPayload d)"
      using inv passed_not_failed by (auto simp: cinv_def)
    moreover have "CallbackState d' \<noteq> ChordSuppressed" "CallbackState d' \<noteq> ChordWaiting" "\<forall>s. CallbackState d' \<noteq> ChordOther s"
      using l(2) by (auto simp: live_states_def)
    ultimately show ?thesis using inv ok c f by (simp add: cinv_def)
  next
    assume "CallbackState d' = ChordDelivered"
    then show ?thesis using inv ok c f by (simp add: cinv_def live_states_def)
  qed
qed

lemma cbpart_fields:
  "cbpart d' = (st, p, t, o', v, w) \<longleftrightarrow> CallbackState d' = st \<and> CallbackPayload d' = p \<and> CallbackTemplate d' = t \<and>
     TerminalOutcome d' = o' \<and> CallbackVersion d' = v \<and> CallbackLeaseOwner d' = w"
  "cbpart d' = cbpart d \<longleftrightarrow> CallbackState d' = CallbackState d \<and> CallbackPayload d' = CallbackPayload d \<and>
     CallbackTemplate d' = CallbackTemplate d \<and> TerminalOutcome d' = TerminalOutcome d \<and>
     CallbackVersion d' = CallbackVersion d \<and> CallbackLeaseOwner d' = CallbackLeaseOwner d"
  by (simp_all add: cbpart_def)

text \<open>A member that gets a failure receipt.\<close>

lemma cinv_failure:
  assumes inv: "cinv J t d" and i: "only_at i d d'" and n: "mReceipt (Members d ! i) = None" and ok: "member_ok (Members d' ! i)"
    and f: "some_failed d'" and cb: "cbpart d' = cbpart (setChordSuppressed clock now d)"
  shows "cinv J t d'"
proof -
  have c: "CallbackTemplate d' = CallbackTemplate d" "CallbackPayload d' = CallbackPayload d"
    "CallbackState d' = (if CallbackState d = ChordDelivered then ChordDelivered else ChordSuppressed)"
    using cb by (simp_all add: cbpart_fields suppressed_part)
  have "Members d ! i \<in> set (Members d)" using only_at_nth(3) [OF i] by simp
  then have "\<not> all_passed d" using n by (rule not_all_passedI)
  then have "CallbackPayload d = []" using inv by (auto simp: cinv_def)
  moreover have "\<forall>m \<in> set (Members d'). member_ok m" using inv ok only_at_set [OF i] by (auto simp: cinv_def)
  ultimately show ?thesis using inv c f by (simp add: cinv_def live_states_def)
qed

lemma cinv_receipt:
  assumes inv: "cinv J t d" and i: "only_at i d d'" and n: "mReceipt (Members d ! i) = None" and ok: "member_ok (Members d' ! i)"
    and rc: "mReceipt (Members d' ! i) = Some rc" "rcOutcome rc = outcome" and e: "receipt_effect J clock outcome d d'"
  shows "cinv J t d'"
proof -
  have m: "Members d ! i \<in> set (Members d)" using only_at_nth(3) [OF i] by simp
  then have np: "\<not> all_passed d" using n by (rule not_all_passedI)
  then have p: "CallbackPayload d = []" "CallbackState d \<notin> live_states" using inv by (auto simp: cinv_def)
  have oks: "\<forall>m \<in> set (Members d'). member_ok m" using inv ok only_at_set [OF i] by (auto simp: cinv_def)
  from e consider (fail) "outcome = MemberFailure \<or> all_done (Members d') = Failed" "\<exists>now. cbpart d' = cbpart (setChordSuppressed clock now d)"
    | (part) "outcome \<noteq> MemberFailure" "all_done (Members d') = Incomplete" "cbpart d' = cbpart d"
    | (full) q where "outcome \<noteq> MemberFailure" "all_done (Members d') = Complete" "buildChordCallbackPayload J d' = Ok q"
        "cbpart d' = (ChordReady, if CallbackPayload d = [] then q else CallbackPayload d, CallbackTemplate d, TerminalOutcome d,
           CallbackVersion d + 1, CallbackLeaseOwner d)"
    unfolding receipt_effect_def by blast
  then show ?thesis
  proof cases
    case fail
    have "some_failed d'"
      using fail(1) some_failedI [OF only_at_set(2) [OF i] rc(1)] rc(2) all_done_Failed [of d'] by auto
    then show ?thesis using fail(2) cinv_failure [OF inv i n ok] by blast
  next
    case part
    have "\<not> all_passed d'" using part(2) all_done_Complete [of d'] by simp
    moreover have "some_failed d" if sf: "some_failed d'"
    proof -
      obtain m where m: "m \<in> set (Members d')" "failed_receipt m" using sf by (auto simp: some_failed_def)
      then have "m \<noteq> Members d' ! i" using rc part(1) by (auto simp: failed_receipt_def)
      then show ?thesis using m only_at_set(1) [OF i] by (auto simp: some_failed_def)
    qed
    moreover have "some_failed d'" if sf: "some_failed d"
    proof -
      obtain j where j: "j < length (Members d)" "failed_receipt (Members d ! j)" using sf by (auto simp: some_failed_def in_set_conv_nth)
      then have "j \<noteq> i" using n by (auto simp: failed_receipt_def)
      then have "failed_receipt (Members d' ! j)" "j < length (Members d')" using only_at_nth [OF i] j by simp_all
      then show ?thesis by (auto simp: some_failed_def)
    qed
    ultimately show ?thesis using inv part(3) p oks by (simp add: cinv_def cbpart_fields)
  next
    case full
    have "all_passed d'" using full(2) all_done_Complete [of d'] by simp
    then show ?thesis using inv full(3,4) p oks passed_not_failed [of d'] by (simp add: cinv_def cbpart_fields live_states_def)
  qed
qed

lemma cinv_callback:
  assumes inv: "cinv J t d" and m: "Members d' = Members d"
    and c: "CallbackTemplate d' = CallbackTemplate d" "CallbackPayload d' = CallbackPayload d"
    and s: "CallbackState d \<in> live_states \<and> CallbackState d' \<in> live_states \<or> CallbackState d \<noteq> ChordSuppressed \<and> CallbackState d' = ChordDelivered"
  shows "cinv J t d' \<and> rext d d'"
proof -
  have r: "map mReceipt (Members d') = map mReceipt (Members d)" by (simp add: m)
  have "\<forall>m \<in> set (Members d'). member_ok m" using inv m by (simp add: cinv_def)
  then show ?thesis using cinv_same_receipts [OF inv r _ c] s rext_same [OF r] by blast
qed

lemma chord_apply_cinv:
  assumes inv: "cinv J t d" and a: "chord_apply J op d = (d', r)"
  shows "cinv J t d' \<and> rext d d'"
proof (cases op)
  case (OpPrepare now)
  note e = prepare_effect [OF a [unfolded OpPrepare]]
  have r: "map mReceipt (Members d') = map mReceipt (Members d)" by (simp add: e(3))
  have "\<forall>m \<in> set (Members d'). member_ok m" using inv by (auto simp: e(3) cinv_def member_ok_def)
  then show ?thesis using cinv_same_receipts [OF inv r] rext_same [OF r] e(2) by (simp add: cbpart_fields)
next
  case (OpReload f)
  note e = reload_effect [OF a [unfolded OpReload]]
  have r: "map mReceipt (Members d') = map mReceipt (Members d)" by (simp add: e(3))
  have "\<forall>m \<in> set (Members d'). member_ok m" using inv by (auto simp: e(3) cinv_def member_ok_def)
  then show ?thesis using cinv_same_receipts [OF inv r] rext_same [OF r] e(2) by (simp add: cbpart_fields)
next
  case (OpClaimMember clock claim)
  show ?thesis using claim_member_effect [OF a [unfolded OpClaimMember]]
  proof (elim disjE exE conjE)
    fix i L assume e: "only_at i d d'" "mState (Members d ! i) \<notin> {MemberSetup, MemberTerminal}" "bumped (Members d ! i) (Members d' ! i)" "cbpart d' = cbpart d"
    have r: "map mReceipt (Members d') = map mReceipt (Members d)" using only_at_receipts [OF e(1)] e(3) by (simp add: bumped_def)
    have "member_ok (Members d ! i)" using inv only_at_nth(3) [OF e(1)] by (simp add: cinv_def)
    then have "member_ok (Members d' ! i)" using e(2,3) by (auto simp: member_ok_def bumped_def)
    then have "\<forall>m \<in> set (Members d'). member_ok m" using inv only_at_set [OF e(1)] by (auto simp: cinv_def)
    then show ?thesis using cinv_same_receipts [OF inv r] rext_same [OF r] e(4) by (simp add: cbpart_fields)
  qed (use inv in simp)
next
  case (OpMemberOutcome clock lease outcome)
  show ?thesis using member_outcome_effect [OF a [unfolded OpMemberOutcome]]
  proof (elim disjE exE conjE)
    fix i assume e: "only_at i d d'" "mState (Members d ! i) = MemberLeased" "bumped (Members d ! i) (Members d' ! i)" "cbpart d' = cbpart d"
    have r: "map mReceipt (Members d') = map mReceipt (Members d)" using only_at_receipts [OF e(1)] e(3) by (simp add: bumped_def)
    have "member_ok (Members d ! i)" using inv only_at_nth(3) [OF e(1)] by (simp add: cinv_def)
    then have "member_ok (Members d' ! i)" using e(2,3) by (auto simp: member_ok_def bumped_def)
    then have "\<forall>m \<in> set (Members d'). member_ok m" using inv only_at_set [OF e(1)] by (auto simp: cinv_def)
    then show ?thesis using cinv_same_receipts [OF inv r] rext_same [OF r] e(4) by (simp add: cbpart_fields)
  next
    fix i now
    assume e: "only_at i d d'" "mState (Members d ! i) = MemberLeased" "mState (Members d' ! i) = MemberTerminal"
      "mReceipt (Members d' ! i) = Some \<lparr>rcTaskID = mTaskID (Members d ! i), rcOutcome = MemberFailure, rcResults = None\<rparr>"
      "cbpart d' = cbpart (setChordSuppressed clock now d)"
    have "member_ok (Members d ! i)" using inv only_at_nth(3) [OF e(1)] by (simp add: cinv_def)
    then have n: "mReceipt (Members d ! i) = None" using e(2) by (simp add: member_ok_def)
    have "some_failed d'" by (rule some_failedI [OF only_at_set(2) [OF e(1)] e(4)]) simp
    then show ?thesis using cinv_failure [OF inv e(1) n _ _ e(5)] only_at_rext [OF e(1) n] e(3,4) by (simp add: member_ok_def)
  qed (use inv in simp)
next
  case (OpMemberTerminal clock ordinal taskID outcome results now)
  show ?thesis using member_terminal_effect [OF a [unfolded OpMemberTerminal]]
  proof (elim disjE exE conjE)
    fix i rc assume e: "only_at i d d'" "mReceipt (Members d ! i) = None" "mReceipt (Members d' ! i) = Some rc" "rcOutcome rc = outcome"
      "mState (Members d' ! i) = MemberTerminal" "receipt_effect J clock outcome d d'"
    then show ?thesis using cinv_receipt [OF inv e(1,2) _ e(3,4,6)] only_at_rext [OF e(1,2)] by (simp add: member_ok_def)
  qed (use inv in simp)
next
  case (OpClaimCallback clock claim)
  show ?thesis using claim_callback_effect [OF a [unfolded OpClaimCallback]] inv cinv_callback [OF inv, of d']
    by (auto simp: cbpart_fields live_states_def)
next
  case (OpCallbackOutcome clock lease outcome)
  show ?thesis using callback_outcome_effect [OF a [unfolded OpCallbackOutcome]] inv cinv_callback [OF inv, of d']
    by (auto simp: cbpart_fields live_states_def)
next
  case (OpCallbackTerminal clock outcome now)
  show ?thesis using callback_terminal_effect [OF a [unfolded OpCallbackTerminal]] inv cinv_callback [OF inv, of d']
    by (auto simp: cbpart_fields)
qed

section \<open>Runs\<close>

lemma chord_run_Cons:
  assumes "chord_run J (op # ops) d = (d', lg)"
  obtains d1 r lg1 where "chord_apply J op d = (d1, r)" and "chord_run J ops d1 = (d', lg1)" and "lg = (op, r) # lg1"
  using assms by (auto split: prod.splits)

lemma chord_run_cinv: "cinv J t d \<Longrightarrow> chord_run J ops d = (d', lg) \<Longrightarrow> cinv J t d' \<and> rext d d'"
proof (induction ops arbitrary: d lg)
  case (Cons op ops)
  obtain d1 r lg1 where a: "chord_apply J op d = (d1, r)" "chord_run J ops d1 = (d', lg1)" "lg = (op, r) # lg1"
    using Cons.prems(2) by (rule chord_run_Cons)
  then show ?case using chord_apply_cinv [OF Cons.prems(1) a(1)] Cons.IH [OF _ a(2)] rext_trans by blast
qed simp

lemma callback_lease_state:
  assumes "chord_apply J op d = (d', Ok (RetCallback (Some L)))"
  shows "CallbackState d \<in> live_states" and "clPayload L = CallbackPayload d"
proof -
  have "CallbackState d \<in> live_states \<and> clPayload L = CallbackPayload d"
  proof (cases op)
    case (OpClaimCallback clock claim)
    then show ?thesis using claim_callback_effect [OF assms [unfolded OpClaimCallback]] by (auto simp: live_states_def)
  next
    case (OpMemberOutcome clock lease outcome)
    then show ?thesis using member_outcome_effect [OF assms [unfolded OpMemberOutcome]] by auto
  next
    case (OpCallbackOutcome clock lease outcome)
    then show ?thesis using callback_outcome_effect [OF assms [unfolded OpCallbackOutcome]] by auto
  next
    case (OpPrepare now)
    then show ?thesis using prepare_effect(1) [OF assms [unfolded OpPrepare]] by simp
  next
    case (OpReload f)
    then show ?thesis using reload_effect(1) [OF assms [unfolded OpReload]] by simp
  next
    case (OpClaimMember clock claim)
    then show ?thesis using claim_member_effect [OF assms [unfolded OpClaimMember]] by auto
  next
    case (OpMemberTerminal clock ordinal taskID outcome results now)
    then show ?thesis using member_terminal_effect [OF assms [unfolded OpMemberTerminal]] by auto
  next
    case (OpCallbackTerminal clock outcome now)
    then show ?thesis using callback_terminal_effect [OF assms [unfolded OpCallbackTerminal]] by auto
  qed
  then show "CallbackState d \<in> live_states" "clPayload L = CallbackPayload d" by simp_all
qed

lemma chord_run_lease:
  assumes "cinv J t d" and "chord_run J ops d = (d', lg)" and "(op, Ok (RetCallback (Some L))) \<in> set lg"
  shows "all_passed d' \<and> buildChordCallbackPayload J d' = Ok (clPayload L) \<and> CallbackTemplate d' = t"
  using assms
proof (induction ops arbitrary: d lg)
  case (Cons o1 ops)
  obtain d1 r lg1 where a: "chord_apply J o1 d = (d1, r)" "chord_run J ops d1 = (d', lg1)" "lg = (o1, r) # lg1"
    using Cons.prems(2) by (rule chord_run_Cons)
  have i: "cinv J t d1" "rext d d1" using chord_apply_cinv [OF Cons.prems(1) a(1)] by simp_all
  have f: "cinv J t d'" "rext d1 d'" using chord_run_cinv [OF i(1) a(2)] by simp_all
  show ?case
  proof (cases "(op, Ok (RetCallback (Some L))) \<in> set lg1")
    case True
    then show ?thesis using Cons.IH [OF i(1) a(2)] by simp
  next
    case False
    then have "r = Ok (RetCallback (Some L))" using Cons.prems(3) a(3) by auto
    then have s: "CallbackState d \<in> live_states" "clPayload L = CallbackPayload d" using callback_lease_state a(1) by blast+
    then have p: "all_passed d" "buildChordCallbackPayload J d = Ok (clPayload L)" using Cons.prems(1) by (simp_all add: cinv_def)
    have m: "map mReceipt (Members d') = map mReceipt (Members d)" by (rule rext_complete [OF rext_trans [OF i(2) f(2)] p(1)])
    have t: "CallbackTemplate d' = CallbackTemplate d" using Cons.prems(1) f(1) by (simp add: cinv_def)
    show ?thesis using receipts_map(1) [OF m] build_receipts [OF m t, of J] p f(1) by (simp add: cinv_def)
  qed
qed simp

lemma build_Ok:
  "buildChordCallbackPayload J d = Ok p \<Longrightarrow>
   \<exists>callback args. unmarshal_sig J (CallbackTemplate d) = Some callback \<and> member_args (Members d) = Some args \<and>
     marshal_sig J (callback\<lparr>sArgs := sArgs callback @ args\<rparr>) = Some p"
  by (auto simp: buildChordCallbackPayload_def split: option.splits)

text \<open>
  C1: The callback runs after its members and with their results. In any sequence of operations on a registered chord,
  whoever issues them and whatever the clocks say, a lease of the callback is handed out only when every member has a
  receipt and none is a failure, and every such lease carries the same payload: the registered callback with the results of
  all members appended to its arguments, in the order of their ordinals.
\<close>

theorem callback_after_members:
  assumes "chord_run J ops (NewChordDelivery reg owner now) = (d, lg)" and "(op, Ok (RetCallback (Some L))) \<in> set lg"
  shows "(\<forall>m \<in> set (Members d). \<exists>rc. mReceipt m = Some rc \<and> rcOutcome rc \<noteq> MemberFailure) \<and>
    (\<exists>callback args. unmarshal_sig J (crCallback reg) = Some callback \<and> member_args (Members d) = Some args \<and>
       marshal_sig J (callback\<lparr>sArgs := sArgs callback @ args\<rparr>) = Some (clPayload L))"
proof -
  from chord_run_lease [OF NewChordDelivery_cinv assms] have
    d: "all_passed d" "buildChordCallbackPayload J d = Ok (clPayload L)" "CallbackTemplate d = crCallback reg" by auto
  show ?thesis using d(1) build_Ok [OF d(2)] d(3) by (simp add: all_passed_def passed_receipt_def)
qed

text \<open>A chord of two members whose operations interleave.\<close>

definition demo_json :: "(nat, unit) json" where
  "demo_json = \<lparr>unmarshal_sig = (\<lambda>_. Some \<lparr>sID = ''cb'', sGroupID = ''g'', sArgs = [], sRest = ()\<rparr>),
     marshal_sig = (\<lambda>s. Some (concat (map aType (sArgs s)))), reencode_results = Some, marshal_receipt = (\<lambda>rc. rcTaskID rc)\<rparr>"

definition demo_reg :: ChordRegistration where
  "demo_reg = \<lparr>crDeliveryKey = ''k'', crDefinitionHash = ''h'', crGroupID = ''g'', crGroupName = ''n'', crRetention = 0,
     crCallback = ''c'', crMembers = [\<lparr>mrOrdinal = 0, mrTaskID = ''a'', mrPayload = ''x''\<rparr>, \<lparr>mrOrdinal = 1, mrTaskID = ''b'', mrPayload = ''y''\<rparr>]\<rparr>"

definition demo_ops :: "nat chord_op list" where
  "demo_ops =
     [OpPrepare 1,
      OpClaimMember 2 \<lparr>mcDeliveryKey = ''k'', mcOrdinal = 1, mcOwner = ''w'', mcNow = 2, mcLeaseDuration = 5\<rparr>,
      OpMemberOutcome 3 \<lparr>mlDeliveryKey = ''k'', mlOrdinal = 1, mlTaskID = ''b'', mlPayload = ''y'', mlOwner = ''w'', mlVersion = 3, mlExpiresAt = 7\<rparr>
        \<lparr>oKind = OutcomeSucceeded, oNow = 3, oConfirmationDeadline = 9, oNextAttemptAt = zero_time, oError = []\<rparr>,
      OpMemberTerminal 4 1 ''b'' MemberSuccess (Some [Some \<lparr>rType = ''Y'', rValue = 8\<rparr>]) 4,
      OpMemberTerminal 5 0 ''a'' MemberSuccess (Some [Some \<lparr>rType = ''X'', rValue = 7\<rparr>]) 5,
      OpClaimCallback 6 \<lparr>ccDeliveryKey = ''k'', ccOwner = ''w'', ccNow = 6, ccLeaseDuration = 5\<rparr>]"

definition demo_lease :: ChordCallbackLease where
  "demo_lease = \<lparr>clDeliveryKey = ''k'', clPayload = ''XY'', clOwner = ''w'', clVersion = 3, clExpiresAt = 11\<rparr>"

lemma demo_chord_run:
  "list_ex (\<lambda>x. snd x = Ok (RetCallback (Some demo_lease))) (snd (chord_run demo_json demo_ops (NewChordDelivery demo_reg ''o'' 0)))"
  by code_simp

theorem callback_after_members_witness:
  "\<exists>d lg. chord_run demo_json demo_ops (NewChordDelivery demo_reg ''o'' 0) = (d, lg) \<and>
     (\<exists>args. member_args (Members d) = Some args \<and> concat (map aType args) = ''XY'')"
proof -
  obtain d lg where r: "chord_run demo_json demo_ops (NewChordDelivery demo_reg ''o'' 0) = (d, lg)" by force
  then obtain op where "(op, Ok (RetCallback (Some demo_lease))) \<in> set lg"
    using demo_chord_run by (force simp: list_ex_iff)
  from callback_after_members [OF r this] show ?thesis using r by (auto simp: demo_json_def demo_lease_def)
qed

section \<open>The end of a chord\<close>

lemma rext_keeps:
  assumes "rext d d'"
  shows "all_passed d \<Longrightarrow> all_passed d'" and "some_failed d \<Longrightarrow> some_failed d'"
proof -
  show "all_passed d'" if "all_passed d" using receipts_map(1) [OF rext_complete [OF assms that]] that by simp
  show "some_failed d'" if sf: "some_failed d"
  proof -
    obtain j rc where j: "j < length (Members d)" "mReceipt (Members d ! j) = Some rc" "rcOutcome rc = MemberFailure"
      using sf by (auto simp: some_failed_def in_set_conv_nth failed_receipt_def)
    then have "mReceipt (Members d' ! j) = Some rc" "j < length (Members d')" using assms by (auto simp: rext_def)
    then show ?thesis using some_failedI [OF nth_mem] j(3) by blast
  qed
qed

lemma final_step:
  assumes inv: "cinv J t d" and s: "CallbackState d \<in> {ChordDelivered, ChordSuppressed}" and p: "all_passed d \<or> some_failed d"
    and a: "chord_apply J op d = (d', r)"
  shows "CallbackState d' = CallbackState d \<and> TerminalOutcome d' = TerminalOutcome d \<and> \<not> (\<exists>L. r = Ok (RetCallback (Some L)))"
proof -
  have same: "CallbackState d' = CallbackState d \<and> TerminalOutcome d' = TerminalOutcome d"
  proof (cases op)
    case (OpMemberOutcome clock lease outcome)
    then show ?thesis
      using member_outcome_effect [OF a [unfolded OpMemberOutcome]] s suppressed_part(6) [of d clock] by (auto simp: cbpart_fields)
  next
    case (OpMemberTerminal clock ordinal taskID outcome results now)
    show ?thesis using member_terminal_effect [OF a [unfolded OpMemberTerminal]]
    proof (elim disjE exE conjE)
      fix i rc assume e: "only_at i d d'" "mReceipt (Members d ! i) = None" "receipt_effect J clock outcome d d'"
      have m: "Members d ! i \<in> set (Members d)" using only_at_nth(3) [OF e(1)] by simp
      then have "\<not> all_passed d" using e(2) by (rule not_all_passedI)
      then have "some_failed d'" using p rext_keeps(2) [OF only_at_rext [OF e(1,2)]] by blast
      then have "all_done (Members d') \<noteq> Complete" using passed_not_failed all_done_Complete by blast
      then show ?thesis using e(3) s suppressed_part(6) [of d clock] by (auto simp: receipt_effect_def cbpart_fields)
    qed simp
  next
    case (OpClaimMember clock claim)
    then show ?thesis using claim_member_effect [OF a [unfolded OpClaimMember]] by (auto simp: cbpart_fields)
  next
    case (OpPrepare now)
    then show ?thesis using prepare_effect(2) [OF a [unfolded OpPrepare]] by (simp add: cbpart_fields)
  next
    case (OpReload f)
    then show ?thesis using reload_effect(2) [OF a [unfolded OpReload]] by (simp add: cbpart_fields)
  next
    case (OpClaimCallback clock claim)
    then show ?thesis using claim_callback_effect [OF a [unfolded OpClaimCallback]] s by auto
  next
    case (OpCallbackOutcome clock lease outcome)
    then show ?thesis using callback_outcome_effect [OF a [unfolded OpCallbackOutcome]] s by auto
  next
    case (OpCallbackTerminal clock outcome now)
    then show ?thesis using callback_terminal_effect [OF a [unfolded OpCallbackTerminal]] s by auto
  qed
  have "\<not> (\<exists>L. r = Ok (RetCallback (Some L)))"
    using callback_lease_state(1) [of J op d d'] a s by (auto simp: live_states_def)
  then show ?thesis using same by simp
qed

lemma final_run:
  assumes "cinv J t d" and "CallbackState d \<in> {ChordDelivered, ChordSuppressed}" and "all_passed d \<or> some_failed d"
    and "chord_run J ops d = (d', lg)"
  shows "CallbackState d' = CallbackState d \<and> TerminalOutcome d' = TerminalOutcome d \<and>
    (\<forall>x \<in> set lg. \<not> (\<exists>L. snd x = Ok (RetCallback (Some L))))"
  using assms
proof (induction ops arbitrary: d lg)
  case (Cons o1 ops)
  obtain d1 r lg1 where a: "chord_apply J o1 d = (d1, r)" "chord_run J ops d1 = (d', lg1)" "lg = (o1, r) # lg1"
    using Cons.prems(4) by (rule chord_run_Cons)
  note f = final_step [OF Cons.prems(1-3) a(1)] and i = chord_apply_cinv [OF Cons.prems(1) a(1)]
  have "all_passed d1 \<or> some_failed d1" using Cons.prems(3) rext_keeps i by blast
  then have "CallbackState d' = CallbackState d1 \<and> TerminalOutcome d' = TerminalOutcome d1 \<and>
      (\<forall>x \<in> set lg1. \<not> (\<exists>L. snd x = Ok (RetCallback (Some L))))"
    using Cons.IH [OF _ _ _ a(2)] i f Cons.prems(2) by simp
  then show ?case using f a(3) by simp
qed simp

text \<open>
  C20: The end of a chord is final. Once the callback was delivered after it had been leased, or was suppressed because a
  member failed, no later operation changes the state of the callback or its outcome, and none hands out a lease of it:
  the callback is not published again.
\<close>

theorem terminal_is_final:
  assumes "chord_run J ops (NewChordDelivery reg owner now) = (d, lg)"
    and "CallbackState d = ChordDelivered \<and> (op, Ok (RetCallback (Some L))) \<in> set lg \<or> CallbackState d = ChordSuppressed"
    and "chord_run J ops' d = (d', lg')"
  shows "CallbackState d' = CallbackState d \<and> TerminalOutcome d' = TerminalOutcome d \<and>
    (\<forall>x \<in> set lg'. \<not> (\<exists>L. snd x = Ok (RetCallback (Some L))))"
proof -
  have inv: "cinv J (crCallback reg) d" using chord_run_cinv [OF NewChordDelivery_cinv assms(1)] by simp
  have "all_passed d \<or> some_failed d"
    using assms(2) chord_run_lease [OF NewChordDelivery_cinv assms(1)] inv by (auto simp: cinv_def)
  then show ?thesis using final_run [OF inv _ _ assms(3)] assms(2) by blast
qed

theorem terminal_is_final_witness:
  "\<exists>d lg d' lg'. chord_run demo_json (demo_ops @ [OpCallbackTerminal 7 CallbackSuccess 7]) (NewChordDelivery demo_reg ''o'' 0) = (d, lg) \<and>
     CallbackState d = ChordDelivered \<and> chord_run demo_json demo_ops d = (d', lg') \<and> CallbackState d' = ChordDelivered"
proof -
  obtain d lg where r: "chord_run demo_json (demo_ops @ [OpCallbackTerminal 7 CallbackSuccess 7]) (NewChordDelivery demo_reg ''o'' 0) = (d, lg)" by force
  have "(case chord_run demo_json (demo_ops @ [OpCallbackTerminal 7 CallbackSuccess 7]) (NewChordDelivery demo_reg ''o'' 0) of
      (d, lg) \<Rightarrow> CallbackState d = ChordDelivered \<and> list_ex (\<lambda>x. snd x = Ok (RetCallback (Some demo_lease))) lg)" by code_simp
  then have c: "CallbackState d = ChordDelivered" "list_ex (\<lambda>x. snd x = Ok (RetCallback (Some demo_lease))) lg" using r by simp_all
  then obtain op where "(op, Ok (RetCallback (Some demo_lease))) \<in> set lg" by (force simp: list_ex_iff)
  moreover obtain d' lg' where r': "chord_run demo_json demo_ops d = (d', lg')" by force
  ultimately have "CallbackState d' = CallbackState d" using terminal_is_final [OF r _ r'] c(1) by blast
  then have "CallbackState d' = ChordDelivered" using c(1) by simp
  then show ?thesis
    by (intro exI [of _ d] exI [of _ lg] exI [of _ d'] exI [of _ lg'] conjI) (rule r, rule c(1), rule r')
qed

end
