(* ===== verification/ChordLease.thy ===== *)
theory ChordLease
  imports ChordInv
begin

text \<open>
  Leases of a durable chord: the version of a member and of the callback fences the holder of an older lease off, and a
  chord whose leases and deadlines have run out can always be moved on.
\<close>

section \<open>Leases are exclusive\<close>

text \<open>The slots that are leased, the lease that an entry of a log grants, and the one whose outcome it accepts.\<close>

datatype slot = SMember int | SCallback

fun grants :: "'v chord_op \<times> (chord_err, chord_ret) go \<Rightarrow> (slot \<times> i64) option" where
  "grants (_, Ok (RetMember (Some L))) = Some (SMember (mlOrdinal L), mlVersion L)"
| "grants (_, Ok (RetCallback (Some L))) = Some (SCallback, clVersion L)"
| "grants _ = None"

fun accepts :: "'v chord_op \<times> (chord_err, chord_ret) go \<Rightarrow> (slot \<times> i64) option" where
  "accepts (OpMemberOutcome _ L _, Ok _) = Some (SMember (mlOrdinal L), mlVersion L)"
| "accepts (OpCallbackOutcome _ L _, Ok _) = Some (SCallback, clVersion L)"
| "accepts _ = None"

lemma grants_None: "\<not> (\<exists>L. r = Ok (RetMember (Some L))) \<Longrightarrow> \<not> (\<exists>L. r = Ok (RetCallback (Some L))) \<Longrightarrow> grants (op, r) = None"
proof (cases r)
  case (Ok x)
  assume a: "\<not> (\<exists>L. r = Ok (RetMember (Some L)))" "\<not> (\<exists>L. r = Ok (RetCallback (Some L)))"
  show ?thesis
  proof (cases x)
    case (RetMember l)
    then show ?thesis using a(1) Ok by (cases l) auto
  next
    case (RetCallback l)
    then show ?thesis using a(2) Ok by (cases l) auto
  qed (simp add: Ok)
qed simp_all

definition slot_version :: "slot \<Rightarrow> 'v ChordDelivery \<Rightarrow> i64" where
  "slot_version s d = (case s of SMember i \<Rightarrow> mVersion (get_member d i) | SCallback \<Rightarrow> CallbackVersion d)"

definition numbered :: "'v ChordDelivery \<Rightarrow> bool" where
  "numbered d \<longleftrightarrow> (\<forall>i < length (Members d). mOrdinal (Members d ! i) = int i)"

definition has_slot :: "'v ChordDelivery \<Rightarrow> slot \<Rightarrow> bool" where
  "has_slot d s = (case s of SMember i \<Rightarrow> has_member d i | SCallback \<Rightarrow> True)"

text \<open>A step leaves the version of a slot or moves it on by one; a grant and an acceptance move it on.\<close>

definition slot_step :: "'v chord_op \<times> (chord_err, chord_ret) go \<Rightarrow> slot \<Rightarrow> 'v ChordDelivery \<Rightarrow> 'v ChordDelivery \<Rightarrow> bool" where
  "slot_step x s d d' \<longleftrightarrow>
     slot_version s d' \<in> {slot_version s d, slot_version s d + 1} \<and>
     (\<forall>v. grants x = Some (s, v) \<longrightarrow> slot_version s d' = slot_version s d + 1 \<and> v = slot_version s d' \<and> has_slot d s) \<and>
     (\<forall>v. accepts x = Some (s, v) \<longrightarrow> slot_version s d' = slot_version s d + 1 \<and> v = slot_version s d \<and> has_slot d s)"

lemma only_at_slot:
  assumes i: "only_at i d d'" and v: "mVersion (Members d' ! i) = mVersion (Members d ! i) + 1"
    and o: "mOrdinal (Members d' ! i) = mOrdinal (Members d ! i)" and n: "numbered d"
  shows "numbered d'" and "length (Members d') = length (Members d)"
    and "has_slot d (SMember k) \<Longrightarrow> slot_version (SMember k) d' = (if k = int i then slot_version (SMember k) d + 1 else slot_version (SMember k) d)"
    and "has_slot d (SMember (int i))"
proof -
  note f = only_at_nth [OF i]
  show l: "length (Members d') = length (Members d)" by (rule f(1))
  have "mOrdinal (Members d' ! j) = int j" if "j < length (Members d)" for j
    using f(2) [of j] o n that by (cases "j = i") (auto simp: numbered_def)
  then show "numbered d'" using l by (simp add: numbered_def)
  show "slot_version (SMember k) d' = (if k = int i then slot_version (SMember k) d + 1 else slot_version (SMember k) d)" if "has_slot d (SMember k)"
    using f(2) [of "nat k"] v that by (auto simp: slot_version_def get_member_def has_slot_def has_member_def)
  show "has_slot d (SMember (int i))" using f(3) by (simp add: has_slot_def has_member_def)
qed

lemma slot_version_cb: "slot_version SCallback d = CallbackVersion d"
  by (simp add: slot_version_def)

lemma suppressed_version:
  "cbpart d' = cbpart (setChordSuppressed clock now d) \<Longrightarrow> CallbackVersion d' \<in> {CallbackVersion d, CallbackVersion d + 1}"
  by (auto simp: cbpart_fields setChordSuppressed_def setChordTerminalTime_def Let_def)

lemma receipt_version: "receipt_effect J clock outcome d d' \<Longrightarrow> CallbackVersion d' \<in> {CallbackVersion d, CallbackVersion d + 1}"
  unfolding receipt_effect_def by (elim disjE conjE exE) (erule suppressed_version, erule suppressed_version, simp_all add: cbpart_fields)

lemma chord_apply_slot:
  assumes n: "numbered d" and a: "chord_apply J op d = (d', r)" and h: "has_slot d s"
  shows "slot_step (op, r) s d d' \<and> numbered d' \<and> length (Members d') = length (Members d)"
proof (cases op)
  case (OpPrepare now)
  note e = prepare_effect [OF a [unfolded OpPrepare]]
  have "slot_version s d' \<in> {slot_version s d, slot_version s d + 1}"
    using e(2,3) h by (cases s) (auto simp: slot_version_def get_member_def has_slot_def has_member_def cbpart_fields)
  then show ?thesis using n e OpPrepare by (auto simp: slot_step_def numbered_def)
next
  case (OpReload f)
  note e = reload_effect [OF a [unfolded OpReload]]
  have "slot_version s d' = slot_version s d"
    using e(2,3) h by (cases s) (auto simp: slot_version_def get_member_def has_slot_def has_member_def cbpart_fields nat_less_iff)
  then show ?thesis using n e OpReload by (auto simp: slot_step_def numbered_def)
next
  case (OpClaimMember clock claim)
  show ?thesis using claim_member_effect [OF a [unfolded OpClaimMember]]
  proof (elim disjE exE conjE)
    fix i L assume e: "only_at i d d'" "bumped (Members d ! i) (Members d' ! i)" "cbpart d' = cbpart d" "r = Ok (RetMember (Some L))"
      "mlVersion L = mVersion (Members d' ! i)" "mlOrdinal L = mOrdinal (Members d ! i)"
    have b: "mVersion (Members d' ! i) = mVersion (Members d ! i) + 1" "mOrdinal (Members d' ! i) = mOrdinal (Members d ! i)" using e(2) by (simp_all add: bumped_def)
    note f = only_at_slot [OF e(1) b n]
    have "mlOrdinal L = int i" using e(6) n only_at_nth(3) [OF e(1)] by (simp add: numbered_def)
    then show ?thesis using f e OpClaimMember h
      by (cases s) (auto simp: slot_step_def slot_version_cb cbpart_fields b slot_version_def get_member_def)
  next
    assume e: "d' = d" "\<not> (\<exists>L. r = Ok (RetMember (Some L)))" "\<not> (\<exists>L. r = Ok (RetCallback L))"
    then have "grants (op, r) = None" "accepts (op, r) = None" using OpClaimMember by (simp_all add: grants_None)
    then show ?thesis using e(1) n by (simp add: slot_step_def)
  qed
next
  case (OpMemberOutcome clock lease outcome)
  show ?thesis using member_outcome_effect [OF a [unfolded OpMemberOutcome]]
  proof (elim disjE conjE)
    assume e: "d' = d" "\<not> (\<exists>x. r = Ok x)"
    then have "grants (op, r) = None" "accepts (op, r) = None" by (cases r; simp)+
    then show ?thesis using e(1) n by (simp add: slot_step_def)
  next
    assume "\<exists>i. mlOrdinal lease = int i \<and> only_at i d d' \<and> mState (Members d ! i) = MemberLeased \<and> mLeaseOwner (Members d ! i) = mlOwner lease \<and>
       mVersion (Members d ! i) = mlVersion lease \<and> mVersion (Members d' ! i) = mVersion (Members d ! i) + 1 \<and>
       mOrdinal (Members d' ! i) = mOrdinal (Members d ! i) \<and> r = Ok RetDone \<and>
       (bumped (Members d ! i) (Members d' ! i) \<and> cbpart d' = cbpart d \<or>
        mState (Members d' ! i) = MemberTerminal \<and>
        mReceipt (Members d' ! i) = Some \<lparr>rcTaskID = mTaskID (Members d ! i), rcOutcome = MemberFailure, rcResults = None\<rparr> \<and>
        (\<exists>now. cbpart d' = cbpart (setChordSuppressed clock now d)))"
    then obtain i where e: "mlOrdinal lease = int i" "only_at i d d'" "mVersion (Members d ! i) = mlVersion lease"
      "mVersion (Members d' ! i) = mVersion (Members d ! i) + 1" "mOrdinal (Members d' ! i) = mOrdinal (Members d ! i)" "r = Ok RetDone"
      "cbpart d' = cbpart d \<or> (\<exists>now. cbpart d' = cbpart (setChordSuppressed clock now d))" by blast
    note f = only_at_slot [OF e(2,4,5) n]
    have "CallbackVersion d' \<in> {CallbackVersion d, CallbackVersion d + 1}"
      using e(7) suppressed_version [of d' clock _ d] by (elim disjE exE) (simp add: cbpart_fields, blast)
    then show ?thesis using f e OpMemberOutcome h
      by (cases s) (auto simp: slot_step_def slot_version_cb slot_version_def get_member_def)
  qed
next
  case (OpMemberTerminal clock ordinal taskID outcome results now)
  show ?thesis using member_terminal_effect [OF a [unfolded OpMemberTerminal]]
  proof (elim disjE exE conjE)
    fix i rc assume e: "only_at i d d'" "mVersion (Members d' ! i) = mVersion (Members d ! i) + 1"
      "mOrdinal (Members d' ! i) = mOrdinal (Members d ! i)" "r = Ok RetDone" "receipt_effect J clock outcome d d'"
    note f = only_at_slot [OF e(1-3) n]
    have "CallbackVersion d' \<in> {CallbackVersion d, CallbackVersion d + 1}"
      by (rule receipt_version [OF e(5)])
    then show ?thesis using f e(4) OpMemberTerminal h
      by (cases s) (auto simp: slot_step_def slot_version_cb slot_version_def get_member_def)
  next
    assume e: "d' = d" "\<not> (\<exists>L. r = Ok (RetMember L))" "\<not> (\<exists>L. r = Ok (RetCallback L))"
    then have "grants (op, r) = None" "accepts (op, r) = None" using OpMemberTerminal by (simp_all add: grants_None)
    then show ?thesis using e(1) n by (simp add: slot_step_def)
  qed
next
  case (OpClaimCallback clock claim)
  show ?thesis using claim_callback_effect [OF a [unfolded OpClaimCallback]]
  proof (elim disjE conjE)
    assume e: "d' = d" "\<not> (\<exists>L. r = Ok (RetMember L))" "\<not> (\<exists>L. r = Ok (RetCallback (Some L)))"
    then have "grants (op, r) = None" "accepts (op, r) = None" using OpClaimCallback by (simp_all add: grants_None)
    then show ?thesis using e(1) n by (simp add: slot_step_def)
  qed (use n h OpClaimCallback in \<open>cases s; auto simp: slot_step_def slot_version_def get_member_def has_slot_def cbpart_fields numbered_def\<close>)
next
  case (OpCallbackOutcome clock lease outcome)
  show ?thesis using callback_outcome_effect [OF a [unfolded OpCallbackOutcome]]
  proof (elim disjE conjE)
    assume e: "d' = d" "\<not> (\<exists>x. r = Ok x)"
    then have "grants (op, r) = None" "accepts (op, r) = None" by (cases r; simp)+
    then show ?thesis using e(1) n by (simp add: slot_step_def)
  qed (use n h OpCallbackOutcome in \<open>cases s; auto simp: slot_step_def slot_version_def get_member_def has_slot_def cbpart_fields numbered_def\<close>)
next
  case (OpCallbackTerminal clock outcome now)
  note e = callback_terminal_effect [OF a [unfolded OpCallbackTerminal]]
  have "grants (op, r) = None" "accepts (op, r) = None" using e OpCallbackTerminal by (simp_all add: grants_None)
  then show ?thesis using e n h
    by (cases s) (auto simp: slot_step_def slot_version_def get_member_def has_slot_def cbpart_fields numbered_def)
qed

text \<open>The records that a run goes through.\<close>

definition chord_at :: "('v, 'm) json \<Rightarrow> 'v chord_op list \<Rightarrow> 'v ChordDelivery \<Rightarrow> nat \<Rightarrow> 'v ChordDelivery" where
  "chord_at J ops d k = fst (chord_run J (take k ops) d)"

lemma chord_run_snoc:
  "chord_run J (ops @ [op]) d =
     (case chord_run J ops d of (d1, lg) \<Rightarrow> (case chord_apply J op d1 of (d2, r) \<Rightarrow> (d2, lg @ [(op, r)])))"
  by (induction ops arbitrary: d) (simp_all split: prod.splits)

lemma chord_run_length: "length (snd (chord_run J ops d)) = length ops"
  by (induction ops arbitrary: d) (simp_all split: prod.splits, metis snd_conv)

lemma chord_run_take:
  "k \<le> length ops \<Longrightarrow> snd (chord_run J (take k ops) d) = take k (snd (chord_run J ops d))"
proof (induction ops arbitrary: d k)
  case (Cons op ops)
  show ?case
  proof (cases k)
    case (Suc k')
    then show ?thesis using Cons.IH [of k'] Cons.prems by (simp split: prod.splits) (metis snd_conv)
  qed simp
qed simp

lemma chord_at_step:
  assumes "k < length ops"
  shows "chord_apply J (ops ! k) (chord_at J ops d k) = (chord_at J ops d (Suc k), snd (snd (chord_run J ops d) ! k))"
    and "fst (snd (chord_run J ops d) ! k) = ops ! k"
proof -
  obtain d1 lg where r: "chord_run J (take k ops) d = (d1, lg)" by force
  obtain d2 x where a: "chord_apply J (ops ! k) d1 = (d2, x)" by force
  have s: "chord_run J (take (Suc k) ops) d = (d2, lg @ [(ops ! k, x)])"
    using assms r a by (simp add: take_Suc_conv_app_nth chord_run_snoc)
  have "length lg = k" using chord_run_length [of J "take k ops" d] r assms by simp
  then have "snd (chord_run J (take (Suc k) ops) d) ! k = (ops ! k, x)" using s by (simp add: nth_append)
  then have "snd (chord_run J ops d) ! k = (ops ! k, x)" using chord_run_take [of "Suc k" ops J d] assms by simp
  then show "chord_apply J (ops ! k) (chord_at J ops d k) = (chord_at J ops d (Suc k), snd (snd (chord_run J ops d) ! k))"
    "fst (snd (chord_run J ops d) ! k) = ops ! k"
    using r a s by (simp_all add: chord_at_def)
qed

lemma chord_at_slot:
  assumes n: "numbered d" and "k \<le> length ops"
  shows "numbered (chord_at J ops d k) \<and> length (Members (chord_at J ops d k)) = length (Members d)"
  using assms(2)
proof (induction k)
  case 0
  then show ?case using n by (simp add: chord_at_def)
next
  case (Suc k)
  then have i: "numbered (chord_at J ops d k)" "length (Members (chord_at J ops d k)) = length (Members d)" by auto
  have "has_slot (chord_at J ops d k) SCallback" by (simp add: has_slot_def)
  from chord_apply_slot [OF i(1) chord_at_step(1) this] show ?case using Suc.prems i(2) by auto
qed

lemma chord_at_slot_step:
  assumes n: "numbered d" and k: "k < length ops" and h: "has_slot d s"
  shows "slot_step (snd (chord_run J ops d) ! k) s (chord_at J ops d k) (chord_at J ops d (Suc k))"
proof -
  have i: "numbered (chord_at J ops d k)" "length (Members (chord_at J ops d k)) = length (Members d)"
    using chord_at_slot [OF n, of k ops J] k by simp_all
  have "has_slot (chord_at J ops d k) s" using h i(2) by (cases s) (simp_all add: has_slot_def has_member_def)
  moreover have "(ops ! k, snd (snd (chord_run J ops d) ! k)) = snd (chord_run J ops d) ! k"
    using chord_at_step(2) [OF k, of J d] by (metis prod.collapse)
  ultimately show ?thesis using chord_apply_slot [OF i(1) chord_at_step(1) [OF k]] by simp
qed

lemma slot_version_count:
  assumes n: "numbered d" and h: "has_slot d s"
  shows "a + m \<le> length ops \<Longrightarrow>
    \<exists>c \<le> m. slot_version s (chord_at J ops d (a + m)) = slot_version s (chord_at J ops d a) + of_nat c"
proof (induction m)
  case (Suc m)
  then obtain c where c: "c \<le> m" "slot_version s (chord_at J ops d (a + m)) = slot_version s (chord_at J ops d a) + of_nat c" by auto
  have "slot_step (snd (chord_run J ops d) ! (a + m)) s (chord_at J ops d (a + m)) (chord_at J ops d (Suc (a + m)))"
    by (rule chord_at_slot_step [OF n _ h]) (use Suc.prems in simp)
  then consider "slot_version s (chord_at J ops d (Suc (a + m))) = slot_version s (chord_at J ops d a) + of_nat c"
    | "slot_version s (chord_at J ops d (Suc (a + m))) = slot_version s (chord_at J ops d a) + of_nat (Suc c)"
    using c(2) by (auto simp: slot_step_def)
  then show ?case
  proof cases
    case 1
    then show ?thesis using c(1) by (intro exI [of _ c]) simp
  next
    case 2
    then show ?thesis using c(1) by (intro exI [of _ "Suc c"]) simp
  qed
qed simp

lemma accepts_slot:
  assumes n: "numbered d" and a: "chord_apply J op d = (d', r)" and g: "accepts (op, r) = Some (s, v)"
  shows "has_slot d s"
proof (cases s)
  case (SMember i)
  then obtain clock L oc x where "op = OpMemberOutcome clock L oc" "r = Ok x" "i = mlOrdinal L"
    using g by (cases op; cases r) auto
  then show ?thesis using member_outcome_effect [of J clock L oc d d' r] a only_at_nth(3) SMember
    by (auto simp: has_slot_def has_member_def)
qed (simp add: has_slot_def)

lemma NewChordDelivery_numbered:
  assumes "map mrOrdinal (crMembers reg) = map int [0..<length (crMembers reg)]"
  shows "numbered (NewChordDelivery reg owner now)"
proof -
  have "mrOrdinal (crMembers reg ! i) = int i" if "i < length (crMembers reg)" for i
    using arg_cong [OF assms, of "\<lambda>xs. xs ! i"] that by simp
  then show ?thesis by (simp add: numbered_def NewChordDelivery_def)
qed

text \<open>
  C5: A lease is exclusive. Take a chord whose members are numbered in order, as the server registers it, and any sequence
  of operations. When the outcome of a lease of a member, or of the callback, is accepted, then since that
  lease was granted no other lease of the same member or of the callback was granted and no outcome for it was accepted:
  a holder whose lease ran out and was given to someone else is always refused, and an outcome counts once.
\<close>

theorem lease_exclusive:
  assumes reg: "map mrOrdinal (crMembers reg) = map int [0..<length (crMembers reg)]" and small: "length ops < 2 ^ 64"
    and run: "chord_run J ops (NewChordDelivery reg owner now) = (d, lg)" and ij: "i < k" "k < j" "j < length lg"
    and g: "grants (lg ! i) = Some (s, v)" and acc: "accepts (lg ! j) = Some (s, v)"
  shows "(\<forall>v'. grants (lg ! k) \<noteq> Some (s, v')) \<and> (\<forall>v'. accepts (lg ! k) \<noteq> Some (s, v'))"
proof -
  let ?d = "NewChordDelivery reg owner now :: 'a ChordDelivery" and ?S = "chord_at J ops (NewChordDelivery reg owner now)"
  have n: "numbered ?d" by (rule NewChordDelivery_numbered [OF reg])
  have lg: "snd (chord_run J ops ?d) = lg" "length lg = length ops" using run chord_run_length [of J ops ?d] by simp_all
  have hj: "has_slot (?S j) s"
    using accepts_slot [OF _ chord_at_step(1), of J ops ?d j s v] chord_at_slot [OF n, of j ops J] chord_at_step(2) [of j ops J ?d] ij lg acc
    by (metis less_imp_le_nat prod.collapse)
  then have h: "has_slot ?d s" using chord_at_slot [OF n, of j ops J] ij lg by (cases s) (auto simp: has_slot_def has_member_def)
  note st = chord_at_slot_step [OF n _ h, of _ ops J, unfolded lg]
  have vi: "slot_version s (?S (Suc i)) = v" using st [of i] ij lg(2) g by (auto simp: slot_step_def)
  have vj: "slot_version s (?S j) = v" using st [of j] ij lg(2) acc by (auto simp: slot_step_def)
  show ?thesis
  proof (rule ccontr)
    assume "\<not> ?thesis"
    then have vk: "slot_version s (?S (Suc k)) = slot_version s (?S k) + 1" using st [of k] ij lg(2) by (auto simp: slot_step_def)
    obtain c1 where c1: "c1 \<le> k - Suc i" "slot_version s (?S k) = v + of_nat c1"
      using slot_version_count [OF n h, of "Suc i" "k - Suc i" ops J] vi ij lg(2) by auto
    obtain c2 where c2: "c2 \<le> j - Suc k" "slot_version s (?S j) = slot_version s (?S (Suc k)) + of_nat c2"
      using slot_version_count [OF n h, of "Suc k" "j - Suc k" ops J] ij lg(2) by auto
    have "(of_nat (c1 + 1 + c2) :: i64) = 0" using vj vk c1(2) c2(2) by (simp add: algebra_simps)
    moreover have "c1 + 1 + c2 < 2 ^ 64" using c1(1) c2(1) ij lg(2) small by simp
    moreover have "unat (of_nat (c1 + 1 + c2) :: i64) = c1 + 1 + c2"
      using \<open>c1 + 1 + c2 < 2 ^ 64\<close> by (simp only: unat_of_nat) simp
    ultimately show False by simp
  qed
qed

definition demo_claim :: "int \<Rightarrow> gotime \<Rightarrow> ChordMemberClaim" where
  "demo_claim i t = \<lparr>mcDeliveryKey = ''k'', mcOrdinal = i, mcOwner = ''w'', mcNow = t, mcLeaseDuration = 5\<rparr>"

definition demo_member_lease :: ChordMemberLease where
  "demo_member_lease = \<lparr>mlDeliveryKey = ''k'', mlOrdinal = 1, mlTaskID = ''b'', mlPayload = ''y'', mlOwner = ''w'', mlVersion = 3, mlExpiresAt = 7\<rparr>"

definition demo_lease_ops :: "nat chord_op list" where
  "demo_lease_ops =
     [OpPrepare 1, OpClaimMember 2 (demo_claim 1 2), OpClaimMember 2 (demo_claim 0 2),
      OpMemberOutcome 3 demo_member_lease
        \<lparr>oKind = OutcomeSucceeded, oNow = 3, oConfirmationDeadline = 9, oNextAttemptAt = zero_time, oError = []\<rparr>]"

theorem lease_exclusive_witness:
  "case chord_run demo_json demo_lease_ops (NewChordDelivery demo_reg ''o'' 0) of (d, lg) \<Rightarrow>
     grants (lg ! 1) = Some (SMember 1, 3) \<and> accepts (lg ! 3) = Some (SMember 1, 3) \<and> grants (lg ! 2) \<noteq> Some (SMember 1, 4)"
proof -
  obtain d lg where r: "chord_run demo_json demo_lease_ops (NewChordDelivery demo_reg ''o'' 0) = (d, lg)" by force
  have "(case chord_run demo_json demo_lease_ops (NewChordDelivery demo_reg ''o'' 0) of (d, lg) \<Rightarrow>
      length lg = 4 \<and> grants (lg ! 1) = Some (SMember 1, 3) \<and> accepts (lg ! 3) = Some (SMember 1, 3))" by code_simp
  then have c: "length lg = 4" "grants (lg ! 1) = Some (SMember 1, 3)" "accepts (lg ! 3) = Some (SMember 1, 3)" using r by simp_all
  have "map mrOrdinal (crMembers demo_reg) = map int [0..<length (crMembers demo_reg)]" by code_simp
  from lease_exclusive [OF this _ r _ _ _ c(2,3), of 2] show ?thesis using r c by (simp add: demo_lease_ops_def)
qed

section \<open>No chord is stuck\<close>

text \<open>Every lease, deadline and pause of the record has passed at \<open>now\<close>.\<close>

definition all_due :: "gotime \<Rightarrow> 'v ChordDelivery \<Rightarrow> bool" where
  "all_due now d \<longleftrightarrow>
     (\<forall>m \<in> set (Members d). mLeaseExpiresAt m \<le> now \<and> mConfirmationDeadline m \<le> now \<and> mNextAttemptAt m \<le> now) \<and>
     CallbackLeaseExpiresAt d \<le> now \<and> CallbackConfirmationAt d \<le> now \<and> CallbackNextAttemptAt d \<le> now"

lemma claim_due_member:
  assumes h: "has_member d (mcOrdinal claim)" and now: "mcNow claim \<noteq> zero_time" and due: "all_due (mcNow claim) d"
    and st: "mState (get_member d (mcOrdinal claim)) \<in> {MemberReady, MemberLeased, MemberPublished, MemberPublishUnknown}"
  shows "granted (snd (ClaimChordMember clock claim d))"
proof -
  have "get_member d (mcOrdinal claim) \<in> set (Members d)" using h by (simp add: has_member_def get_member_def nat_less_iff)
  then have "mLeaseExpiresAt (get_member d (mcOrdinal claim)) \<le> mcNow claim" "mConfirmationDeadline (get_member d (mcOrdinal claim)) \<le> mcNow claim"
    "mNextAttemptAt (get_member d (mcOrdinal claim)) \<le> mcNow claim" using due by (simp_all add: all_due_def)
  then show ?thesis using h now st
    by (auto simp: ClaimChordMember_def claimable_member_def now_or_def granted_def Let_def)
qed

lemma claim_due_callback:
  assumes "ccNow claim \<noteq> zero_time" and "all_due (ccNow claim) d" and "CallbackState d \<in> live_states"
  shows "granted (snd (ClaimChordCallback clock claim d))"
  using assms by (auto simp: ClaimChordCallback_def claimable_callback_def now_or_def granted_def Let_def all_due_def live_states_def)

lemma receipts_decide:
  assumes c: "cinv J t d" and "Members d \<noteq> []" and "\<forall>m \<in> set (Members d). mReceipt m \<noteq> None"
  shows "CallbackState d \<in> {ChordDelivered, ChordSuppressed} \<union> live_states"
proof (cases "some_failed d")
  case False
  then have "all_passed d" using assms(3) by (auto simp: some_failed_def all_passed_def failed_receipt_def passed_receipt_def split: option.splits)
  then show ?thesis using c assms(2) by (cases "CallbackState d") (auto simp: cinv_def live_states_def)
qed (use c in \<open>auto simp: cinv_def\<close>)

lemma chord_run_members: "chord_run J ops d = (d', lg) \<Longrightarrow> cinv J t d \<Longrightarrow> length (Members d') = length (Members d)"
  using chord_run_cinv [of J t d ops d' lg] by (simp add: rext_def)

lemma prepare_ready:
  assumes "has_member d i" and "mState (get_member d i) = MemberSetup"
  shows "has_member (PrepareChordMembers t d) i" and "mState (get_member (PrepareChordMembers t d) i) = MemberReady"
  using assms by (auto simp: has_member_def get_member_def PrepareChordMembers_def nat_less_iff)

lemma prepare_all_due: "all_due now d \<Longrightarrow> all_due now (PrepareChordMembers t d)"
  by (auto simp: PrepareChordMembers_def all_due_def)

text \<open>
  C21: No chord is stuck. In every state a chord with at least one member can reach, once the leases, confirmation deadlines and retry pauses of
  its record have passed, a claim succeeds wherever work is left: each member that has no receipt is leased to whoever claims it, after the
  members are prepared if it is still in its setup, and when every member has its receipt, either the callback is delivered or suppressed for
  good or it is leased to whoever claims it.
\<close>

theorem chord_never_stuck:
  assumes run: "chord_run J ops (NewChordDelivery reg owner t0) = (d, lg)" and members: "crMembers reg \<noteq> []"
    and now: "now \<noteq> zero_time" and due: "all_due now d"
  shows "(\<forall>claim t. has_member d (mcOrdinal claim) \<and> mcNow claim = now \<and> mReceipt (get_member d (mcOrdinal claim)) = None \<longrightarrow>
            granted (snd (ClaimChordMember clock claim
              (if mState (get_member d (mcOrdinal claim)) = MemberSetup then PrepareChordMembers t d else d)))) \<and>
         ((\<forall>m \<in> set (Members d). mReceipt m \<noteq> None) \<longrightarrow>
            CallbackState d \<in> {ChordDelivered, ChordSuppressed} \<or>
            (\<forall>claim. ccNow claim = now \<longrightarrow> granted (snd (ClaimChordCallback clock claim d))))"
proof (intro conjI allI impI)
  have c: "cinv J (crCallback reg) d" using chord_run_cinv [OF NewChordDelivery_cinv run] by simp
  {
    fix claim :: ChordMemberClaim and t
    assume a: "has_member d (mcOrdinal claim) \<and> mcNow claim = now \<and> mReceipt (get_member d (mcOrdinal claim)) = None"
    then have "get_member d (mcOrdinal claim) \<in> set (Members d)" by (simp add: has_member_def get_member_def nat_less_iff)
    then have ok: "member_ok (get_member d (mcOrdinal claim))" using c by (simp add: cinv_def)
    show "granted (snd (ClaimChordMember clock claim (if mState (get_member d (mcOrdinal claim)) = MemberSetup then PrepareChordMembers t d else d)))"
    proof (cases "mState (get_member d (mcOrdinal claim)) = MemberSetup")
      case True
      note p = prepare_ready [OF conjunct1 [OF a] True, of t]
      show ?thesis using claim_due_member [OF p(1), of clock] p(2) prepare_all_due [OF due] a now True by auto
    next
      case False
      then have "mState (get_member d (mcOrdinal claim)) \<in> {MemberReady, MemberLeased, MemberPublished, MemberPublishUnknown}"
        using a ok by (cases "mState (get_member d (mcOrdinal claim))") (auto simp: member_ok_def)
      then show ?thesis using claim_due_member [of d claim clock] a now due False by simp
    qed
  next
    assume r: "\<forall>m \<in> set (Members d). mReceipt m \<noteq> None"
    have "length (Members d) = length (crMembers reg)"
      using chord_run_members [OF run NewChordDelivery_cinv] by (simp add: NewChordDelivery_def)
    then have "Members d \<noteq> []" using members by auto
    then show "CallbackState d \<in> {ChordDelivered, ChordSuppressed} \<or>
        (\<forall>claim. ccNow claim = now \<longrightarrow> granted (snd (ClaimChordCallback clock claim d)))"
      using receipts_decide [OF c _ r] claim_due_callback now due by blast
  }
qed

theorem chord_never_stuck_witness:
  "granted (snd (ClaimChordMember 0 (demo_claim 1 20) (fst (chord_run demo_json demo_lease_ops (NewChordDelivery demo_reg ''o'' 0)))))"
proof -
  obtain d lg where r: "chord_run demo_json demo_lease_ops (NewChordDelivery demo_reg ''o'' 0) = (d, lg)" by force
  have d: "d = fst (chord_run demo_json demo_lease_ops (NewChordDelivery demo_reg ''o'' 0))" using r by simp
  have "all_due 20 d" unfolding d by code_simp
  moreover have "has_member d 1 \<and> mReceipt (get_member d 1) = None \<and> mState (get_member d 1) \<noteq> MemberSetup" unfolding d by code_simp
  moreover have "mcOrdinal (demo_claim 1 20) = 1" "mcNow (demo_claim 1 20) = 20" by (simp_all add: demo_claim_def)
  ultimately have "granted (snd (ClaimChordMember 0 (demo_claim 1 20) (if mState (get_member d 1) = MemberSetup then PrepareChordMembers 0 d else d)))"
    using chord_never_stuck [OF r, of 20 0, THEN conjunct1, rule_format, of "demo_claim 1 20" 0] by (simp add: demo_reg_def zero_time_def)
  then show ?thesis using \<open>has_member d 1 \<and> _\<close> unfolding d by simp
qed

end
