(* ===== verification/ChordStore.thy ===== *)
theory ChordStore
  imports ChordLease
begin

text \<open>
  The storage of durable chords in MongoDB, \<open>distributed/backend/backend_mongodb/durable_chord.go\<close>. The collection is
  an argument: \<open>collection\<close> lists the calls of the driver the code makes, each of which acts on one document or a set
  of documents at once, and \<open>chord_collection\<close> says what the code relies on. A method of the backend is several such
  calls, between which other processes run; each call is a step of \<open>mstep\<close>. A call of the driver may
  also fail, and a write that fails may or may not have happened.
\<close>

section \<open>The collection\<close>

record ('c, 'v) collection =
  FindOne :: "string \<Rightarrow> 'c \<Rightarrow> 'v ChordDelivery option"
  FindGroup :: "string \<Rightarrow> 'c \<Rightarrow> 'v ChordDelivery option"
  FindExpired :: "gotime \<Rightarrow> nat \<Rightarrow> 'c \<Rightarrow> string list"
  InsertOne :: "'v ChordDelivery \<Rightarrow> 'c \<Rightarrow> 'c option"
  ReplaceOne :: "string \<Rightarrow> i64 \<Rightarrow> 'v ChordDelivery \<Rightarrow> 'c \<Rightarrow> 'c \<times> bool"
  DeleteOne :: "string \<Rightarrow> string \<Rightarrow> i64 \<Rightarrow> 'c \<Rightarrow> 'c \<times> bool"
  DeleteMany :: "string list \<Rightarrow> 'c \<Rightarrow> 'c \<times> nat"

text \<open>
  After a write the documents are as they were, but for the one that is written, which is read back with
  its times as the store keeps them, \<open>f\<close>. An insertion is refused when the identifier or the group is taken. A replacement
  takes the document with the identifier and the version of the filter, and counts as a modification when the document
  differs from the one it replaces. A deletion takes the document that has the identifier, the owner and the version of the
  filter and whose publication has not started.
\<close>

locale chord_collection =
  fixes f :: "gotime \<Rightarrow> gotime" and C :: "('c, 'v) collection"
  assumes insert_refused: "InsertOne C d c = None \<longleftrightarrow> FindOne C (DeliveryKey d) c \<noteq> None \<or> FindGroup C (dGroupID d) c \<noteq> None"
    and insert_find: "InsertOne C d c = Some c' \<Longrightarrow> FindOne C k c' = (if k = DeliveryKey d then Some (map_times f d) else FindOne C k c)"
    and replace_find: "FindOne C k' (fst (ReplaceOne C k v d c)) =
          (if k' = k \<and> (\<exists>e. FindOne C k c = Some e \<and> Version e = v) then Some (map_times f d) else FindOne C k' c)"
    and replace_modified: "snd (ReplaceOne C k v d c) \<longleftrightarrow> (\<exists>e. FindOne C k c = Some e \<and> Version e = v \<and> map_times f d \<noteq> e)"
    and delete_found: "snd (DeleteOne C k w v c) \<longleftrightarrow>
          (\<exists>e. FindOne C k c = Some e \<and> RegistrationOwner e = w \<and> RegistrationVersion e = v \<and> \<not> MemberPublicationStarted e)"
    and delete_find: "FindOne C k' (fst (DeleteOne C k w v c)) =
          (if k' = k \<and> snd (DeleteOne C k w v c) then None else FindOne C k' c)"
    and remove_find: "FindOne C k' (fst (DeleteMany C ks c)) = (if k' \<in> set ks then None else FindOne C k' c)"

section \<open>The methods of the backend\<close>

text \<open>
  \<open>clocks\<close> are the two readings of the clock of an attempt: the method reads it for the transition, and the transition for the record.
  Where a call stands. \<open>UpdFind\<close>: in \<open>updateChordDelivery\<close> before its \<open>FindOne\<close>, with the number of the
  attempt. \<open>UpdReplace\<close>: before its \<open>ReplaceOne\<close>, with the times it read, the version, the changed document and the result the
  transition gave. \<open>RegInsert\<close> and \<open>RegAttach\<close>: \<open>RegisterChord\<close> before the insertion and after it was refused. \<open>AbDelete\<close> and
  \<open>AbExplain\<close>: \<open>AbortRegistration\<close> before the deletion and after it found nothing to delete. \<open>ClFind\<close> and
  \<open>ClRemove\<close>: \<open>CleanupTerminalChordDeliveries\<close> before its query and before its deletion.
\<close>

datatype clocks = Clocks (atNow: gotime) (atClock: gotime)

datatype store_ret = RetOp "(chord_err, chord_ret) go" | RetRef "(chord_err, ChordRegistrationRef) go" | RetUnit "(chord_err, unit) go"
  | RetCount "(chord_err, nat) go"

datatype 'v mcall =
    MIdle
  | UpdFind string "'v chord_op" nat
  | UpdReplace string "'v chord_op" clocks nat i64 "'v ChordDelivery" "(chord_err, chord_ret) go"
  | RegInsert ChordRegistration "'v ChordDelivery"
  | RegAttach ChordRegistration
  | AbDelete ChordRegistrationRef
  | AbExplain ChordRegistrationRef
  | ClFind gotime int
  | ClRemove "string list"
  | MDone store_ret

text \<open>The methods and their arguments; \<open>RegisterChord\<close> draws an owner and reads the clock.\<close>

datatype 'v chord_method =
    MUpdate string "'v chord_op"
  | MRegister ChordRegistration string gotime
  | MAbort ChordRegistrationRef
  | MCleanup gotime int

record ('c, 'v) mstate =
  coll :: 'c
  called :: "nat \<Rightarrow> 'v chord_method option"
  calls :: "nat \<Rightarrow> 'v mcall"
  hist :: "(nat \<times> 'v chord_op \<times> (chord_err, chord_ret) go) list"

text \<open>
  \<open>hist\<close> is not part of the program: it notes the transitions of the document \<open>key\<close> in the order in which they
  take effect.
\<close>

definition goto :: "nat \<Rightarrow> 'v mcall \<Rightarrow> ('c, 'v) mstate \<Rightarrow> ('c, 'v) mstate" where
  "goto i pc s = s\<lparr>calls := (calls s)(i := pc)\<rparr>"

definition note_op :: "string \<Rightarrow> string \<Rightarrow> nat \<Rightarrow> 'v chord_op \<Rightarrow> (chord_err, chord_ret) go \<Rightarrow> ('c, 'v) mstate \<Rightarrow> ('c, 'v) mstate" where
  "note_op key k i op r s = (if k = key then s\<lparr>hist := hist s @ [(i, op, r)]\<rparr> else s)"

definition cas_exhausted :: chord_err where
  "cas_exhausted = ErrStore ''mongo chord CAS exhausted''"

text \<open>
  Every attempt reads the clock anew; \<open>at_time\<close> is the operation with these readings.
\<close>

fun at_time :: "clocks \<Rightarrow> 'v chord_op \<Rightarrow> 'v chord_op" where
  "at_time t (OpPrepare _) = OpPrepare (atNow t)"
| "at_time t (OpClaimMember _ claim) = OpClaimMember (atClock t) claim"
| "at_time t (OpMemberOutcome _ lease outcome) = OpMemberOutcome (atClock t) lease outcome"
| "at_time t (OpMemberTerminal _ ordinal taskID outcome results _) = OpMemberTerminal (atClock t) ordinal taskID outcome results (atNow t)"
| "at_time t (OpClaimCallback _ claim) = OpClaimCallback (atClock t) claim"
| "at_time t (OpCallbackOutcome _ lease outcome) = OpCallbackOutcome (atClock t) lease outcome"
| "at_time t (OpCallbackTerminal _ outcome _) = OpCallbackTerminal (atClock t) outcome (atNow t)"
| "at_time t (OpReload f) = OpReload f"

text \<open>\<open>FindOne\<close> of \<open>updateChordDelivery\<close> and the transition that follows it.\<close>

definition update_find :: "('v, 'm) json \<Rightarrow> ('c, 'v) collection \<Rightarrow> string \<Rightarrow> nat \<Rightarrow> string \<Rightarrow> 'v chord_op \<Rightarrow> nat \<Rightarrow> clocks \<Rightarrow>
    ('c, 'v) mstate \<Rightarrow> ('c, 'v) mstate" where
  "update_find J C key i k op attempt t s =
     (case FindOne C k (coll s) of
        None \<Rightarrow> goto i (MDone (RetOp (Err ErrChordNotFound))) s
      | Some document \<Rightarrow>
          let version = Version document
          in case chord_mutate J (at_time t op) document of (d, changed, r) \<Rightarrow>
               if \<not> succeeded r \<or> \<not> changed then note_op key k i (at_time t op) r (goto i (MDone (RetOp r)) s)
               else goto i (UpdReplace k op t attempt version d r) s)"

text \<open>\<open>ReplaceOne\<close> and the end of the loop; the loop makes at most 16 attempts.\<close>

definition update_replace :: "('c, 'v) collection \<Rightarrow> string \<Rightarrow> nat \<Rightarrow> string \<Rightarrow> 'v chord_op \<Rightarrow> clocks \<Rightarrow> nat \<Rightarrow> i64 \<Rightarrow> 'v ChordDelivery \<Rightarrow>
    (chord_err, chord_ret) go \<Rightarrow> ('c, 'v) mstate \<Rightarrow> ('c, 'v) mstate" where
  "update_replace C key i k op t attempt version d r s =
     (case ReplaceOne C k version d (coll s) of (c, modified) \<Rightarrow>
        let s1 = s\<lparr>coll := c\<rparr>
        in if modified then note_op key k i (at_time t op) r (goto i (MDone (RetOp r)) s1)
           else if attempt + 1 < 16 then goto i (UpdFind k op (attempt + 1)) s1
           else goto i (MDone (RetOp (Err cas_exhausted))) s1)"

definition reg_ref :: "'v ChordDelivery \<Rightarrow> bool \<Rightarrow> ChordRegistrationRef" where
  "reg_ref d created = \<lparr>rfDeliveryKey = DeliveryKey d, rfOwner = RegistrationOwner d, rfVersion = RegistrationVersion d, rfCreated = created\<rparr>"

definition register_insert :: "('c, 'v) collection \<Rightarrow> nat \<Rightarrow> ChordRegistration \<Rightarrow> 'v ChordDelivery \<Rightarrow> ('c, 'v) mstate \<Rightarrow> ('c, 'v) mstate" where
  "register_insert C i reg delivery s =
     (case InsertOne C delivery (coll s) of
        Some c \<Rightarrow> goto i (MDone (RetRef (Ok (reg_ref delivery True)))) (s\<lparr>coll := c\<rparr>)
      | None \<Rightarrow> goto i (RegAttach reg) s)"

definition register_attach :: "('c, 'v) collection \<Rightarrow> nat \<Rightarrow> ChordRegistration \<Rightarrow> ('c, 'v) mstate \<Rightarrow> ('c, 'v) mstate" where
  "register_attach C i reg s =
     goto i (MDone (RetRef (case FindGroup C (crGroupID reg) (coll s) of
         None \<Rightarrow> Err (ErrStore ''no documents'')
       | Some existing \<Rightarrow>
           if \<not> ChordRegistrationMatches (Some existing) reg then Err ErrChordRegistrationConflict
           else Ok (reg_ref existing False)))) s"

definition abort_delete :: "('c, 'v) collection \<Rightarrow> nat \<Rightarrow> ChordRegistrationRef \<Rightarrow> ('c, 'v) mstate \<Rightarrow> ('c, 'v) mstate" where
  "abort_delete C i ref s =
     (case DeleteOne C (rfDeliveryKey ref) (rfOwner ref) (rfVersion ref) (coll s) of (c, deleted) \<Rightarrow>
        goto i (if deleted then MDone (RetUnit (Ok ())) else AbExplain ref) (s\<lparr>coll := c\<rparr>))"

definition abort_explain :: "('c, 'v) collection \<Rightarrow> nat \<Rightarrow> ChordRegistrationRef \<Rightarrow> ('c, 'v) mstate \<Rightarrow> ('c, 'v) mstate" where
  "abort_explain C i ref s =
     goto i (MDone (RetUnit (case FindOne C (rfDeliveryKey ref) (coll s) of
         None \<Rightarrow> Ok ()
       | Some existing \<Rightarrow>
           if RegistrationOwner existing \<noteq> rfOwner ref \<or> RegistrationVersion existing \<noteq> rfVersion ref
           then Err ErrChordRegistrationOwnershipLost else Err ErrChordPublicationStarted))) s"

definition cleanup_find :: "('c, 'v) collection \<Rightarrow> nat \<Rightarrow> gotime \<Rightarrow> int \<Rightarrow> ('c, 'v) mstate \<Rightarrow> ('c, 'v) mstate" where
  "cleanup_find C i now limit s =
     (let ids = FindExpired C now (nat (if limit \<le> 0 then 100 else limit)) (coll s)
      in goto i (if ids = [] then MDone (RetCount (Ok 0)) else ClRemove ids) s)"

definition cleanup_remove :: "('c, 'v) collection \<Rightarrow> nat \<Rightarrow> string list \<Rightarrow> ('c, 'v) mstate \<Rightarrow> ('c, 'v) mstate" where
  "cleanup_remove C i ids s =
     (case DeleteMany C ids (coll s) of (c, n) \<Rightarrow> goto i (MDone (RetCount (Ok n))) (s\<lparr>coll := c\<rparr>))"

text \<open>The start of a method, before its first call of the driver.\<close>

fun enter :: "(ChordRegistration \<Rightarrow> (chord_err, ChordRegistration) go) \<Rightarrow> 'v chord_method \<Rightarrow> 'v mcall" where
  "enter fin (MUpdate k op) = UpdFind k op 0"
| "enter fin (MRegister reg owner now) =
     (case fin reg of
        Ok reg1 \<Rightarrow> RegInsert reg1 (NewChordDelivery reg1 owner now)
      | Err e \<Rightarrow> MDone (RetRef (Err e))
      | Panic \<Rightarrow> MDone (RetRef Panic))"
| "enter fin (MAbort ref) =
     (if \<not> rfCreated ref then MDone (RetUnit (Err ErrChordRegistrationOwnershipLost)) else AbDelete ref)"
| "enter fin (MCleanup now limit) = ClFind now limit"

text \<open>One call of the driver that answers, with the readings of the clock after it.\<close>

fun mstep :: "('v, 'm) json \<Rightarrow> ('c, 'v) collection \<Rightarrow> string \<Rightarrow> nat \<Rightarrow> clocks \<Rightarrow> ('c, 'v) mstate \<Rightarrow> ('c, 'v) mstate" where
  "mstep J C key i t s =
     (case calls s i of
        UpdFind k op attempt \<Rightarrow> update_find J C key i k op attempt t s
      | UpdReplace k op t attempt version d r \<Rightarrow> update_replace C key i k op t attempt version d r s
      | RegInsert reg delivery \<Rightarrow> register_insert C i reg delivery s
      | RegAttach reg \<Rightarrow> register_attach C i reg s
      | AbDelete ref \<Rightarrow> abort_delete C i ref s
      | AbExplain ref \<Rightarrow> abort_explain C i ref s
      | ClFind now limit \<Rightarrow> cleanup_find C i now limit s
      | ClRemove ids \<Rightarrow> cleanup_remove C i ids s
      | _ \<Rightarrow> s)"

text \<open>One call of the driver that fails; \<open>happened\<close> says whether a write took place all the same. No clock is read
  after a write.\<close>

definition driver_failed :: chord_err where
  "driver_failed = ErrStore ''driver''"

fun failed_ret :: "'v mcall \<Rightarrow> 'v mcall" where
  "failed_ret (UpdFind k op attempt) = MDone (RetOp (Err driver_failed))"
| "failed_ret (UpdReplace k op t attempt version d r) = MDone (RetOp (Err driver_failed))"
| "failed_ret (RegInsert reg delivery) = MDone (RetRef (Err driver_failed))"
| "failed_ret (RegAttach reg) = MDone (RetRef (Err driver_failed))"
| "failed_ret (AbDelete ref) = MDone (RetUnit (Err driver_failed))"
| "failed_ret (AbExplain ref) = MDone (RetUnit (Err driver_failed))"
| "failed_ret (ClFind now limit) = MDone (RetCount (Err driver_failed))"
| "failed_ret (ClRemove ids) = MDone (RetCount (Err driver_failed))"
| "failed_ret pc = pc"

definition is_write :: "'v mcall \<Rightarrow> bool" where
  "is_write pc = (case pc of UpdReplace _ _ _ _ _ _ _ \<Rightarrow> True | RegInsert _ _ \<Rightarrow> True | AbDelete _ \<Rightarrow> True | ClRemove _ \<Rightarrow> True | _ \<Rightarrow> False)"

definition mfail :: "('v, 'm) json \<Rightarrow> ('c, 'v) collection \<Rightarrow> string \<Rightarrow> nat \<Rightarrow> bool \<Rightarrow> ('c, 'v) mstate \<Rightarrow> ('c, 'v) mstate" where
  "mfail J C key i happened s =
     goto i (failed_ret (calls s i)) (if happened \<and> is_write (calls s i) then mstep J C key i (Clocks 0 0) s else s)"

datatype 'v mevent = MBegin nat "'v chord_method" | MStep nat clocks | MFail nat bool

fun mdo :: "(ChordRegistration \<Rightarrow> (chord_err, ChordRegistration) go) \<Rightarrow> ('v, 'm) json \<Rightarrow> ('c, 'v) collection \<Rightarrow> string \<Rightarrow>
    'v mevent \<Rightarrow> ('c, 'v) mstate \<Rightarrow> ('c, 'v) mstate" where
  "mdo fin J C key (MBegin i m) s =
     (if called s i \<noteq> None then s else goto i (enter fin m) (s\<lparr>called := (called s)(i := Some m)\<rparr>))"
| "mdo fin J C key (MStep i t) s = mstep J C key i t s"
| "mdo fin J C key (MFail i happened) s = mfail J C key i happened s"

definition mrun :: "(ChordRegistration \<Rightarrow> (chord_err, ChordRegistration) go) \<Rightarrow> ('v, 'm) json \<Rightarrow> ('c, 'v) collection \<Rightarrow> string \<Rightarrow>
    'v mevent list \<Rightarrow> ('c, 'v) mstate \<Rightarrow> ('c, 'v) mstate" where
  "mrun fin J C key evs s = foldl (\<lambda>s ev. mdo fin J C key ev s) s evs"

definition mstart :: "'c \<Rightarrow> ('c, 'v) mstate" where
  "mstart c = \<lparr>coll = c, called = (\<lambda>_. None), calls = (\<lambda>_. MIdle), hist = []\<rparr>"

end
