(* ===== verification/ChordLin.thy ===== *)
theory ChordLin
  imports ChordStore
begin

text \<open>
  The concurrent updates of a stored chord are linearizable: whatever the interleaving of the calls, the document goes
  through the records of a sequential run of the transitions, and every call returns what its transition gives in that run.
\<close>

section \<open>Transitions and versions\<close>

fun is_reload :: "'v chord_op \<Rightarrow> bool" where
  "is_reload (OpReload f) = True"
| "is_reload op = False"

lemma mutate_version:
  assumes "chord_mutate J op d = (d', True, r)" and "\<not> is_reload op"
  shows "Version d' = Version d + 1" and "succeeded r"
proof -
  have "Version d' = Version d + 1 \<and> succeeded r"
  proof (cases op)
    case (OpMemberTerminal clock ordinal taskID outcome results now)
    then show ?thesis using assms
      by (auto simp: ApplyChordMemberTerminal_def after_receipt_def Let_def succeeded_def suppressed_part touch_def set_member_def
          split: prod.splits option.splits if_splits go.splits completion.splits)
  qed (use assms in \<open>auto simp: PrepareChordMembers_def ClaimChordMember_def claimable_member_def ApplyChordMemberPublishOutcome_def outcome_member_def
      ClaimChordCallback_def claimable_callback_def ApplyChordCallbackPublishOutcome_def ApplyChordCallbackTerminal_def setChordTerminalTime_def
      granted_def succeeded_def touch_def set_member_def suppressed_part Let_def
      split: prod.splits option.splits if_splits sum.splits ChordMemberState.splits ChordCallbackState.splits ChordPublishOutcomeKind.splits\<close>)
  then show "Version d' = Version d + 1" "succeeded r" by simp_all
qed

lemma mutate_unchanged: "chord_mutate J op d = (d', changed, r) \<Longrightarrow> \<not> succeeded r \<Longrightarrow> \<not> changed"
  by (cases op) (auto simp: granted_def succeeded_def split: prod.splits go.splits option.splits)

section \<open>The invariant\<close>

text \<open>
  A sequential run over a store: after every change the record is read back with its times as the store keeps them. The stored document is
  where the sequential run of the noted transitions ends, with the noted results.
\<close>

fun store_run :: "(gotime \<Rightarrow> gotime) \<Rightarrow> ('v, 'm) json \<Rightarrow> 'v chord_op list \<Rightarrow> 'v ChordDelivery \<Rightarrow>
    'v ChordDelivery \<times> ('v chord_op \<times> (chord_err, chord_ret) go) list" where
  "store_run f J [] d = (d, [])"
| "store_run f J (op # ops) d =
     (case chord_mutate J op d of (d', changed, r) \<Rightarrow>
        (case store_run f J ops (if changed then map_times f d' else d) of (d2, lg) \<Rightarrow> (d2, (op, r) # lg)))"

lemma store_run_append:
  "store_run f J (ops @ ops') d = (case store_run f J ops d of (d1, lg1) \<Rightarrow> case store_run f J ops' d1 of (d2, lg2) \<Rightarrow> (d2, lg1 @ lg2))"
  by (induction ops arbitrary: d) (auto split: prod.splits)

text \<open>Such a run is a run of the transitions with a reload after every change.\<close>

lemma store_run_chord_run:
  "store_run f J ops d = (d', lg) \<Longrightarrow> \<exists>ops' lg'. chord_run J ops' d = (d', lg') \<and> set lg \<subseteq> set lg'"
proof (induction ops arbitrary: d lg)
  case Nil
  then show ?case by (intro exI [of _ "[]"]) simp
next
  case (Cons op ops)
  obtain d1 ch r where m: "chord_mutate J op d = (d1, ch, r)" by (metis prod_cases3)
  obtain lg2 where n: "store_run f J ops (if ch then map_times f d1 else d) = (d', lg2)" "lg = (op, r) # lg2"
    using Cons.prems m by (auto split: prod.splits)
  obtain ops' lg' where o: "chord_run J ops' (if ch then map_times f d1 else d) = (d', lg')" "set lg2 \<subseteq> set lg'" using Cons.IH [OF n(1)] by blast
  show ?case
  proof (cases ch)
    case True
    then have "chord_run J (op # OpReload f # ops') d = (d', (op, r) # (OpReload f, Ok RetDone) # lg')" using m o by (simp add: chord_apply_def)
    then show ?thesis using o(2) n(2) by (intro exI [of _ "op # OpReload f # ops'"] exI conjI) auto
  next
    case False
    then have "chord_run J (op # ops') d = (d', (op, r) # lg')" using m o by (simp add: chord_apply_def)
    then show ?thesis using o(2) n(2) by (intro exI [of _ "op # ops'"] exI conjI) auto
  qed
qed

definition run_ok :: "(gotime \<Rightarrow> gotime) \<Rightarrow> ('v, 'm) json \<Rightarrow> 'v ChordDelivery \<Rightarrow> nat \<Rightarrow> 'v ChordDelivery \<Rightarrow>
    (nat \<times> 'v chord_op \<times> (chord_err, chord_ret) go) list \<Rightarrow> bool" where
  "run_ok f J d0 n cur h \<longleftrightarrow> Version cur = Version d0 + of_nat n \<and> store_run f J (map (fst \<circ> snd) h) d0 = (cur, map snd h)"

text \<open>A call about to replace the document read it \<open>n - m\<close> changes ago.\<close>

definition fresh_read :: "('v, 'm) json \<Rightarrow> 'v ChordDelivery \<Rightarrow> nat \<Rightarrow> 'v ChordDelivery \<Rightarrow> 'v chord_op \<Rightarrow> i64 \<Rightarrow> 'v ChordDelivery \<Rightarrow> (chord_err, chord_ret) go \<Rightarrow> bool" where
  "fresh_read J d0 n cur op v d r \<longleftrightarrow>
     (\<exists>m \<le> n. v = Version d0 + of_nat m \<and> (m = n \<longrightarrow> chord_mutate J op cur = (d, True, r)))"

definition call_ok :: "string \<Rightarrow> ('c, 'v) mstate \<Rightarrow> nat \<Rightarrow> bool" where
  "call_ok key s i \<longleftrightarrow>
     (\<forall>op' r. (i, op', r) \<in> set (hist s) \<longrightarrow> (\<exists>r. calls s i = MDone (RetOp r)) \<and> (\<exists>op t. called s i = Some (MUpdate key op) \<and> op' = at_time t op)) \<and>
     (case calls s i of
        UpdFind k op a \<Rightarrow> called s i = Some (MUpdate k op)
      | UpdReplace k op t a v d r \<Rightarrow> called s i = Some (MUpdate k op)
      | MIdle \<Rightarrow> called s i = None
      | MDone (RetOp r) \<Rightarrow> (\<forall>op. called s i = Some (MUpdate key op) \<longrightarrow> (\<exists>t. (i, at_time t op, r) \<in> set (hist s)) \<or> r = Err cas_exhausted \<or> r = Err driver_failed)
      | _ \<Rightarrow> \<forall>op. called s i \<noteq> Some (MUpdate key op)) \<and>
     (called s i = None \<longrightarrow> calls s i = MIdle) \<and>
     (\<forall>k op. called s i = Some (MUpdate k op) \<longrightarrow> \<not> is_reload op)"

definition minv :: "(gotime \<Rightarrow> gotime) \<Rightarrow> ('c, 'v) collection \<Rightarrow> ('v, 'm) json \<Rightarrow> 'v ChordDelivery \<Rightarrow> string \<Rightarrow> nat \<Rightarrow> ('c, 'v) mstate \<Rightarrow> bool" where
  "minv f C J d0 key n s \<longleftrightarrow>
     (\<exists>cur. FindOne C key (coll s) = Some cur \<and> run_ok f J d0 n cur (hist s) \<and>
        (\<forall>i op t a v d r. calls s i = UpdReplace key op t a v d r \<longrightarrow> fresh_read J d0 n cur (at_time t op) v d r)) \<and>
     distinct (map fst (hist s)) \<and> (\<forall>i. call_ok key s i)"

lemma run_ok_still:
  assumes "run_ok f J d0 n cur h" and "chord_mutate J op cur = (d, False, r)"
  shows "run_ok f J d0 n cur (h @ [(i, op, r)])"
  using assms by (simp add: run_ok_def store_run_append)

lemma map_times_Version [simp]: "Version (map_times f d) = Version d"
  by (simp add: map_times_def)

lemma run_ok_change:
  assumes "run_ok f J d0 n cur h" and m: "chord_mutate J op cur = (d, True, r)" and "\<not> is_reload op"
  shows "run_ok f J d0 (Suc n) (map_times f d) (h @ [(i, op, r)])"
  using assms mutate_version(1) [OF m assms(3)] by (simp add: run_ok_def store_run_append)

lemma at_time_reload [simp]: "is_reload (at_time t op) = is_reload op"
  by (cases op) simp_all

lemma fresh_read_now:
  "run_ok f J d0 n cur h \<Longrightarrow> chord_mutate J op cur = (d, True, r) \<Longrightarrow> fresh_read J d0 n cur op (Version cur) d r"
  by (auto simp: fresh_read_def run_ok_def)

lemma fresh_read_Suc: "fresh_read J d0 n cur op v d r \<Longrightarrow> fresh_read J d0 (Suc n) cur' op v d r"
  by (auto simp: fresh_read_def intro: le_SucI)

lemma fresh_read_match:
  assumes "fresh_read J d0 n cur op v d r" and "run_ok f J d0 n cur h" and "v = Version cur" and "n < 2 ^ 64"
  shows "chord_mutate J op cur = (d, True, r)"
proof -
  obtain m where m: "m \<le> n" "v = Version d0 + of_nat m" "m = n \<longrightarrow> chord_mutate J op cur = (d, True, r)"
    using assms(1) by (auto simp: fresh_read_def)
  have "(of_nat m :: i64) = of_nat n" using assms(2,3) m(2) by (simp add: run_ok_def)
  then have "unat (of_nat m :: i64) = unat (of_nat n :: i64)" by simp
  then have "m = n" using m(1) assms(4) by (simp add: unat_of_nat)
  then show ?thesis using m(3) by simp
qed

section \<open>Every step keeps it\<close>

lemma call_ok_other:
  assumes "call_ok key s j" and "called s' j = called s j" and "calls s' j = calls s j"
    and "hist s' = hist s \<or> (\<exists>e. hist s' = hist s @ [e] \<and> fst e \<noteq> j)"
  shows "call_ok key s' j"
  using assms unfolding call_ok_def by (elim disjE) (auto split: mcall.splits store_ret.splits)

lemma minvD:
  assumes "minv f C J d0 key n s"
  obtains cur where "FindOne C key (coll s) = Some cur" "run_ok f J d0 n cur (hist s)"
    "\<forall>i op t a v d r. calls s i = UpdReplace key op t a v d r \<longrightarrow> fresh_read J d0 n cur (at_time t op) v d r"
    "distinct (map fst (hist s))" "\<forall>i. call_ok key s i"
  using assms unfolding minv_def by blast

text \<open>A step of call \<open>i\<close> that leaves the document and the history.\<close>

lemma minv_same:
  assumes inv: "minv f C J d0 key n s" and f: "FindOne C key (coll s') = FindOne C key (coll s)" and h: "hist s' = hist s"
    and c: "\<And>j. j \<noteq> i \<Longrightarrow> called s' j = called s j \<and> calls s' j = calls s j" and ok: "call_ok key s' i"
    and pc: "\<And>cur op t a v d r. FindOne C key (coll s) = Some cur \<Longrightarrow> run_ok f J d0 n cur (hist s) \<Longrightarrow>
      calls s' i = UpdReplace key op t a v d r \<Longrightarrow> fresh_read J d0 n cur (at_time t op) v d r"
  shows "minv f C J d0 key n s'"
proof -
  obtain cur where a: "FindOne C key (coll s) = Some cur" "run_ok f J d0 n cur (hist s)"
    "\<forall>i op t a v d r. calls s i = UpdReplace key op t a v d r \<longrightarrow> fresh_read J d0 n cur (at_time t op) v d r"
    "distinct (map fst (hist s))" "\<forall>i. call_ok key s i" using inv by (rule minvD)
  have "call_ok key s' j" for j
    by (cases "j = i") (use ok call_ok_other [OF a(5) [rule_format, of j], of s'] c [of j] h in auto)
  moreover have "fresh_read J d0 n cur (at_time t op) v d r" if "calls s' j = UpdReplace key op t a v d r" for j op t a v d r
    by (cases "j = i") (use that pc a c [of j] in auto)
  ultimately show ?thesis using a f h unfolding minv_def by auto
qed

text \<open>A step of call \<open>i\<close> that ends it with a transition of the document.\<close>

lemma minv_note:
  assumes inv: "minv f C J d0 key n s" and i: "\<exists>a. calls s i = UpdFind key op a \<or> (\<exists>t v d r. calls s i = UpdReplace key op t a v d r)"
    and f: "FindOne C key (coll s') = Some cur'" and run: "run_ok f J d0 n' cur' (hist s @ [(i, at_time t op, r)])"
    and n: "n' = Suc n \<or> n' = n \<and> FindOne C key (coll s') = FindOne C key (coll s)" and h: "hist s' = hist s @ [(i, at_time t op, r)]"
    and c: "called s' = called s" "calls s' = (calls s)(i := MDone (RetOp r'))" and r': "r' = r \<or> r' = Err driver_failed"
  shows "minv f C J d0 key n' s'"
proof -
  obtain cur where a: "FindOne C key (coll s) = Some cur" "run_ok f J d0 n cur (hist s)"
    "\<forall>i op t a v d r. calls s i = UpdReplace key op t a v d r \<longrightarrow> fresh_read J d0 n cur (at_time t op) v d r"
    "distinct (map fst (hist s))" "\<forall>i. call_ok key s i" using inv by (rule minvD)
  have "i \<notin> fst ` set (hist s)" using a(5) [rule_format, of i] i by (auto simp: call_ok_def)
  then have "distinct (map fst (hist s'))" using a(4) h by simp
  moreover have "call_ok key s' j" for j
  proof (cases "j = i")
    case True
    then show ?thesis using a(5) [rule_format, of i] i c h r' by (auto simp: call_ok_def)
  next
    case False
    then show ?thesis using call_ok_other [OF a(5) [rule_format, of j], of s'] c h by auto
  qed
  moreover have "fresh_read J d0 n' cur' (at_time t op) v d r" if p: "calls s' j = UpdReplace key op t a v d r" for j op t a v d r
  proof -
    have "fresh_read J d0 n cur (at_time t op) v d r" using a(3) p c(2) by (auto split: if_splits)
    then show ?thesis using n a(1) f fresh_read_Suc [of J d0 n cur "at_time t op" v d r cur'] by auto
  qed
  ultimately show ?thesis using run f h unfolding minv_def by auto
qed

context chord_collection
begin

lemma step_find:
  assumes inv: "minv f C J d0 key n s" and i: "calls s i = UpdFind k op a"
  shows "minv f C J d0 key n (update_find J C key i k op a t s)"
proof -
  obtain cur where q: "FindOne C key (coll s) = Some cur" "run_ok f J d0 n cur (hist s)" "\<forall>i. call_ok key s i"
    using inv by (auto simp: minv_def)
  have ci: "called s i = Some (MUpdate k op)" "\<forall>op' r. (i, op', r) \<notin> set (hist s)" "\<not> is_reload op"
    using q(3) [rule_format, of i] i by (auto simp: call_ok_def)
  show ?thesis
  proof (cases "FindOne C k (coll s)")
    case None
    then have "k \<noteq> key" using q(1) by auto
    then show ?thesis using None ci
      by (intro minv_same [OF inv, where i = i]) (auto simp: update_find_def goto_def call_ok_def)
  next
    case (Some doc)
    obtain d ch r where m: "chord_mutate J (at_time t op) doc = (d, ch, r)" by (metis prod_cases3)
    show ?thesis
    proof (cases "succeeded r \<and> ch")
      case True
      then have e: "update_find J C key i k op a t s = goto i (UpdReplace k op t a (Version doc) d r) s"
        using Some m by (simp add: update_find_def)
      show ?thesis unfolding e using True m Some ci
        by (intro minv_same [OF inv, where i = i]) (auto simp: goto_def call_ok_def intro: fresh_read_now)
    next
      case False
      then have ch: "\<not> ch" using mutate_unchanged [OF m] by auto
      have e: "update_find J C key i k op a t s = note_op key k i (at_time t op) r (goto i (MDone (RetOp r)) s)"
        using Some m False by (auto simp: update_find_def)
      show ?thesis
      proof (cases "k = key")
        case True
        then have "chord_mutate J (at_time t op) cur = (d, False, r)" using m Some q(1) ch by simp
        note run = run_ok_still [OF q(2) this, of i]
        show ?thesis unfolding e using i True q(1) run
          by (intro minv_note [OF inv, where i = i and op = op and t = t and r = r and r' = r and cur' = cur]) (auto simp: note_op_def goto_def)
      next
        case False
        then show ?thesis unfolding e using ci
          by (intro minv_same [OF inv, where i = i]) (auto simp: note_op_def goto_def call_ok_def)
      qed
    qed
  qed
qed

lemma step_replace:
  assumes inv: "minv f C J d0 key n s" and i: "calls s i = UpdReplace k op t a v d r" and n: "n < 2 ^ 64"
  shows "\<exists>n'. n' \<le> Suc n \<and> minv f C J d0 key n' (update_replace C key i k op t a v d r s)"
    and "\<exists>n'. n' \<le> Suc n \<and> minv f C J d0 key n' (goto i (MDone (RetOp (Err driver_failed))) (update_replace C key i k op t a v d r s))"
proof -
  let ?s = "update_replace C key i k op t a v d r s"
  let ?t = "goto i (MDone (RetOp (Err driver_failed))) ?s"
  obtain cur where q: "FindOne C key (coll s) = Some cur" "run_ok f J d0 n cur (hist s)" "\<forall>i. call_ok key s i"
      "\<forall>i op t a v d r. calls s i = UpdReplace key op t a v d r \<longrightarrow> fresh_read J d0 n cur (at_time t op) v d r"
    using inv by (auto simp: minv_def)
  have ci: "called s i = Some (MUpdate k op)" "\<forall>op' r. (i, op', r) \<notin> set (hist s)" "\<not> is_reload op"
    using q(3) [rule_format, of i] i by (auto simp: call_ok_def)
  obtain c md where R: "ReplaceOne C k v d (coll s) = (c, md)" by force
  have fc: "FindOne C key c = (if key = k \<and> (\<exists>e. FindOne C k (coll s) = Some e \<and> Version e = v) then Some (map_times f d) else FindOne C key (coll s))"
    using replace_find [of key k v d "coll s"] R by simp
  have fm: "md \<longleftrightarrow> (\<exists>e. FindOne C k (coll s) = Some e \<and> Version e = v \<and> map_times f d \<noteq> e)"
    using replace_modified [of k v d "coll s"] R by simp
  have "(\<exists>n'. n' \<le> Suc n \<and> minv f C J d0 key n' ?s) \<and> (\<exists>n'. n' \<le> Suc n \<and> minv f C J d0 key n' ?t)"
  proof (cases "k = key \<and> v = Version cur")
    case True
    then have m: "chord_mutate J (at_time t op) cur = (d, True, r)"
      using fresh_read_match [OF _ q(2) _ n, of "at_time t op" v d r] q(4) i by blast
    have "Version (map_times f d) \<noteq> Version cur" using mutate_version(1) [OF m] ci(3) by simp
    then have md: md using fm True q(1) by auto
    note run = run_ok_change [OF q(2) m, of i]
    have s: "coll ?s = c" "called ?s = called s" "calls ?s = (calls s)(i := MDone (RetOp r))" "hist ?s = hist s @ [(i, at_time t op, r)]"
      using R md True by (simp_all add: update_replace_def note_op_def goto_def)
    have "FindOne C key c = Some (map_times f d)" using fc True q(1) by auto
    then have "minv f C J d0 key (Suc n) ?s" "minv f C J d0 key (Suc n) ?t"
      using i True run s ci(3) by (auto intro!: minv_note [OF inv, where i = i and op = op and t = t and r = r and cur' = "map_times f d"] simp: goto_def)
    then show ?thesis by blast
  next
    case False
    then have fk: "FindOne C key c = FindOne C key (coll s)" using fc q(1) by auto
    have nk: "md \<longrightarrow> k \<noteq> key" using fm False q(1) by auto
    have h: "hist ?s = hist s" "coll ?s = c" "called ?s = called s"
      and pc: "\<exists>pc. calls ?s = (calls s)(i := pc) \<and> (pc = UpdFind k op (a + 1) \<or> pc = MDone (RetOp (Err cas_exhausted)) \<or> k \<noteq> key \<and> pc = MDone (RetOp r))"
      using R nk by (cases md; simp add: update_replace_def note_op_def goto_def Let_def; blast)+
    have "minv f C J d0 key n ?s"
      using pc h fk ci by (intro minv_same [OF inv, where i = i]) (auto simp: call_ok_def)
    moreover have "minv f C J d0 key n ?t"
      using pc h fk ci by (intro minv_same [OF inv, where i = i]) (auto simp: call_ok_def goto_def)
    ultimately show ?thesis by (meson le_SucI order_refl)
  qed
  then show "\<exists>n'. n' \<le> Suc n \<and> minv f C J d0 key n' ?s" "\<exists>n'. n' \<le> Suc n \<and> minv f C J d0 key n' ?t" by simp_all
qed

end

text \<open>The calls that do not update.\<close>

definition other_pc :: "'v mcall \<Rightarrow> bool" where
  "other_pc pc \<longleftrightarrow> (case pc of RegInsert _ _ \<Rightarrow> True | RegAttach _ \<Rightarrow> True | AbDelete _ \<Rightarrow> True | AbExplain _ \<Rightarrow> True
     | ClFind _ _ \<Rightarrow> True | ClRemove _ \<Rightarrow> True | MDone (RetRef _) \<Rightarrow> True | MDone (RetUnit _) \<Rightarrow> True | MDone (RetCount _) \<Rightarrow> True | _ \<Rightarrow> False)"

context chord_collection
begin

lemma other_step:
  assumes "other_pc (calls s i)" and "FindOne C key (coll s) \<noteq> None" and "FindOne C key (coll (mstep J C key i t s)) \<noteq> None"
  shows "FindOne C key (coll (mstep J C key i t s)) = FindOne C key (coll s)" and "hist (mstep J C key i t s) = hist s"
    and "called (mstep J C key i t s) = called s"
    and "\<And>j. j \<noteq> i \<Longrightarrow> calls (mstep J C key i t s) j = calls s j" and "other_pc (calls (mstep J C key i t s) i)"
proof -
  have "FindOne C key (coll (mstep J C key i t s)) = FindOne C key (coll s) \<and> hist (mstep J C key i t s) = hist s \<and>
    called (mstep J C key i t s) = called s \<and> (\<forall>j. j \<noteq> i \<longrightarrow> calls (mstep J C key i t s) j = calls s j) \<and>
    other_pc (calls (mstep J C key i t s) i)"
  proof (cases "calls s i")
    case (RegInsert reg d)
    show ?thesis
    proof (cases "InsertOne C d (coll s)")
      case None
      then show ?thesis using RegInsert by (simp add: register_insert_def goto_def other_pc_def)
    next
      case (Some c)
      then have "key \<noteq> DeliveryKey d" using insert_refused [of d "coll s"] assms(2) by auto
      then show ?thesis using RegInsert Some insert_find [OF Some, of key] by (simp add: register_insert_def goto_def other_pc_def)
    qed
  next
    case (AbDelete ref)
    then show ?thesis using assms(3) delete_find [of key "rfDeliveryKey ref" "rfOwner ref" "rfVersion ref" "coll s"]
      by (auto simp: abort_delete_def goto_def other_pc_def split: prod.splits if_splits)
  next
    case (ClRemove ids)
    then show ?thesis using assms(3) remove_find [of key ids "coll s"]
      by (auto simp: cleanup_remove_def goto_def other_pc_def split: prod.splits if_splits)
  qed (use assms(1) in \<open>auto simp: register_attach_def abort_explain_def cleanup_find_def goto_def other_pc_def Let_def\<close>)
  then show "FindOne C key (coll (mstep J C key i t s)) = FindOne C key (coll s)" "hist (mstep J C key i t s) = hist s"
    "called (mstep J C key i t s) = called s" "\<And>j. j \<noteq> i \<Longrightarrow> calls (mstep J C key i t s) j = calls s j"
    "other_pc (calls (mstep J C key i t s) i)" by simp_all
qed

lemma other_call_ok:
  "call_ok key s i \<Longrightarrow> other_pc (calls s i) \<Longrightarrow> hist s' = hist s \<Longrightarrow> called s' i = called s i \<Longrightarrow> other_pc (calls s' i) \<Longrightarrow> call_ok key s' i"
  by (auto simp: call_ok_def other_pc_def split: mcall.splits store_ret.splits)

lemma failed_other: "other_pc pc \<Longrightarrow> other_pc (failed_ret pc)"
  by (cases pc) (auto simp: other_pc_def)

lemma minv_other:
  assumes inv: "minv f C J d0 key n s" and o: "other_pc (calls s i)" and f: "FindOne C key (coll (mstep J C key i t s)) \<noteq> None"
  shows "minv f C J d0 key n (mstep J C key i t s)"
    and "minv f C J d0 key n (goto i (failed_ret (calls s i)) (mstep J C key i t s))"
proof -
  have q: "FindOne C key (coll s) \<noteq> None" "call_ok key s i" using inv by (auto simp: minv_def)
  note e = other_step [OF o q(1) f]
  show "minv f C J d0 key n (mstep J C key i t s)"
    by (intro minv_same [OF inv e(1,2)]) (use e o q in \<open>auto simp del: mstep.simps simp: other_pc_def intro!: other_call_ok [OF q(2) o]\<close>)
  show "minv f C J d0 key n (goto i (failed_ret (calls s i)) (mstep J C key i t s))"
    by (intro minv_same [OF inv, where i = i])
      (use e o q failed_other [OF o] in \<open>auto simp del: mstep.simps simp: goto_def other_pc_def intro!: other_call_ok [OF q(2) o]\<close>)
qed

lemma mfail_other:
  assumes inv: "minv f C J d0 key n s" and o: "other_pc (calls s i)" and f: "FindOne C key (coll (mfail J C key i b s)) \<noteq> None"
  shows "minv f C J d0 key n (mfail J C key i b s)"
proof (cases "b \<and> is_write (calls s i)")
  case True
  then have e: "mfail J C key i b s = goto i (failed_ret (calls s i)) (mstep J C key i (Clocks 0 0) s)" by (simp add: mfail_def)
  show ?thesis unfolding e by (rule minv_other(2) [OF inv o]) (use f e in \<open>simp add: goto_def\<close>)
next
  case False
  have q: "call_ok key s i" using inv by (simp add: minv_def)
  from False have e: "mfail J C key i b s = goto i (failed_ret (calls s i)) s" by (auto simp: mfail_def)
  show ?thesis unfolding e
    by (intro minv_same [OF inv, where i = i])
      (use o q failed_other [OF o] in \<open>auto simp: goto_def other_pc_def intro!: other_call_ok [OF q o]\<close>)
qed

end

text \<open>The events of a run: a method other than a reload begins, or a call of the driver answers or fails.\<close>

fun real_event :: "'v mevent \<Rightarrow> bool" where
  "real_event (MBegin i (MUpdate k op)) \<longleftrightarrow> \<not> is_reload op"
| "real_event ev \<longleftrightarrow> True"

lemma enter_ok:
  assumes "real_event (MBegin i m)" and "call_ok key s i" and "called s i = None"
  shows "call_ok key (goto i (enter fin m) (s\<lparr>called := (called s)(i := Some m)\<rparr>)) i"
proof -
  have "\<forall>op' r. (i, op', r) \<notin> set (hist s)" using assms(2,3) by (auto simp: call_ok_def)
  then show ?thesis using assms(1) by (cases m) (auto simp: call_ok_def goto_def split: go.splits)
qed

lemma enter_not_replace: "enter fin m \<noteq> UpdReplace k op t a v d r"
  by (cases m) (auto split: go.splits)

context chord_collection
begin

lemma minv_fail_find:
  assumes inv: "minv f C J d0 key n s" and i: "calls s i = UpdFind k op a \<or> calls s i = UpdReplace k op t a v d r"
  shows "minv f C J d0 key n (goto i (MDone (RetOp (Err driver_failed))) s)"
proof -
  have "call_ok key s i" using inv by (simp add: minv_def)
  then have "called s i = Some (MUpdate k op)" "\<forall>op' r. (i, op', r) \<notin> set (hist s)" "\<not> is_reload op" using i by (auto simp: call_ok_def)
  then show ?thesis by (intro minv_same [OF inv, where i = i]) (auto simp: goto_def call_ok_def)
qed

lemma mdo_minv:
  assumes inv: "minv f C J d0 key n s" and n: "n < 2 ^ 64" and r: "real_event ev" and f: "FindOne C key (coll (mdo fin J C key ev s)) \<noteq> None"
  shows "\<exists>n'. n' \<le> Suc n \<and> minv f C J d0 key n' (mdo fin J C key ev s)"
proof -
  have keep: "minv f C J d0 key n t \<Longrightarrow> \<exists>n'. n' \<le> Suc n \<and> minv f C J d0 key n' t" for t by (intro exI [of _ n]) simp
  show ?thesis
  proof (cases ev)
    case (MBegin i m)
    show ?thesis
    proof (cases "called s i")
      case None
      have "call_ok key s i" using inv by (simp add: minv_def)
      then have "minv f C J d0 key n (goto i (enter fin m) (s\<lparr>called := (called s)(i := Some m)\<rparr>))"
        by (intro minv_same [OF inv, where i = i] enter_ok) (use r None MBegin in \<open>auto simp: goto_def enter_not_replace\<close>)
      then show ?thesis using MBegin None by (intro exI [of _ n]) simp
    next
      case (Some x)
      then show ?thesis using inv MBegin keep by auto
    qed
  next
    case (MStep i t)
    show ?thesis
    proof (cases "calls s i")
      case (UpdFind k op a)
      then show ?thesis using step_find [OF inv UpdFind] MStep keep by auto
    next
      case (UpdReplace k op t a v d r)
      then show ?thesis using step_replace(1) [OF inv UpdReplace n] MStep by simp
    next
      case MIdle
      then show ?thesis using inv MStep keep by auto
    next
      case (MDone x)
      then show ?thesis using inv MStep keep by auto
    qed (use minv_other(1) [OF inv, of i] f MStep keep in \<open>auto simp del: mstep.simps simp: other_pc_def\<close>)
  next
    case (MFail i b)
    show ?thesis
    proof (cases "calls s i")
      case (UpdFind k op a)
      then show ?thesis using minv_fail_find [OF inv, of i k op a] MFail keep by (auto simp: mfail_def is_write_def)
    next
      case (UpdReplace k op t a v d r)
      then show ?thesis using step_replace(2) [OF inv UpdReplace n] minv_fail_find [OF inv, of i k op a t v d r] MFail keep
        by (cases b) (auto simp: mfail_def is_write_def)
    next
      case MIdle
      then show ?thesis using inv MFail keep by (auto simp: mfail_def is_write_def goto_def fun_upd_idem)
    next
      case (MDone x)
      then show ?thesis using inv MFail keep by (auto simp: mfail_def is_write_def goto_def fun_upd_idem)
    qed (use mfail_other [OF inv, of i b] f MFail keep in \<open>auto simp: other_pc_def\<close>)
  qed
qed

end

text \<open>The document is there after every event.\<close>

definition always_stored :: "(ChordRegistration \<Rightarrow> (chord_err, ChordRegistration) go) \<Rightarrow> ('v, 'm) json \<Rightarrow> ('c, 'v) collection \<Rightarrow> string \<Rightarrow>
    'v mevent list \<Rightarrow> ('c, 'v) mstate \<Rightarrow> bool" where
  "always_stored fin J C key evs s \<longleftrightarrow> list_all (\<lambda>k. FindOne C key (coll (mrun fin J C key (take k evs) s)) \<noteq> None) [0..<Suc (length evs)]"

lemma always_stored_Cons:
  "always_stored fin J C key (ev # evs) s \<Longrightarrow> always_stored fin J C key evs (mdo fin J C key ev s) \<and> FindOne C key (coll (mdo fin J C key ev s)) \<noteq> None"
proof -
  assume a: "always_stored fin J C key (ev # evs) s"
  have "FindOne C key (coll (mrun fin J C key (take k evs) (mdo fin J C key ev s))) \<noteq> None" if "k \<le> length evs" for k
  proof -
    have "Suc k \<in> set [0..<Suc (length (ev # evs))]" using that by (simp only: set_upt atLeastLessThan_iff length_Cons) simp
    then have "FindOne C key (coll (mrun fin J C key (take (Suc k) (ev # evs)) s)) \<noteq> None"
      using a unfolding always_stored_def list_all_iff by blast
    then show ?thesis by (simp add: mrun_def)
  qed
  note g = this
  show ?thesis using g [of 0] g [of "length evs"] g by (auto simp: always_stored_def list_all_iff mrun_def less_Suc_eq_le)
qed

context chord_collection
begin

lemma mrun_minv:
  assumes "minv f C J d0 key n s" and "n + length evs < 2 ^ 64" and "list_all real_event evs" and "always_stored fin J C key evs s"
  shows "\<exists>n'. minv f C J d0 key n' (mrun fin J C key evs s)"
  using assms
proof (induction evs arbitrary: n s)
  case Nil
  then show ?case by (auto simp: mrun_def)
next
  case (Cons ev evs)
  have f: "always_stored fin J C key evs (mdo fin J C key ev s)" "FindOne C key (coll (mdo fin J C key ev s)) \<noteq> None"
    using always_stored_Cons [OF Cons.prems(4)] by simp_all
  have "n < 2 ^ 64" "real_event ev" using Cons.prems by simp_all
  from mdo_minv [OF Cons.prems(1) this f(2)]
  obtain n' where n': "n' \<le> Suc n" "minv f C J d0 key n' (mdo fin J C key ev s)" by blast
  have "\<exists>n'. minv f C J d0 key n' (mrun fin J C key evs (mdo fin J C key ev s))"
    by (rule Cons.IH [OF n'(2) _ _ f(1)]) (use n'(1) Cons.prems in simp_all)
  then show ?case by (simp add: mrun_def)
qed

lemma mstart_minv: "FindOne C key c = Some d0 \<Longrightarrow> minv f C J d0 key 0 (mstart c)"
  by (auto simp: minv_def mstart_def run_ok_def call_ok_def intro!: exI [of _ "[]"])

end

end
