(* ===== verification/ChordMongo.thy ===== *)
theory ChordMongo
  imports ChordLin
begin

text \<open>
  The properties of the MongoDB backend for durable chords: its concurrent updates are linearizable, so what holds of every
  sequence of transitions holds of the stored document. A list of documents shows that the laws of the collection can hold;
  two runs over it show what the laws of the collection do not give when a document is deleted and registered again.
\<close>

section \<open>Linearizability\<close>

lemma mrun_reaches:
  assumes "chord_collection f C" and "FindOne C key c = Some d0" and "s = mrun fin J C key evs (mstart c)"
    and "length evs < 2 ^ 64" and "list_all real_event evs" and "always_stored fin J C key evs (mstart c)"
  shows "\<exists>n. minv f C J d0 key n s"
  using chord_collection.mrun_minv [OF assms(1) chord_collection.mstart_minv [OF assms(1,2)], of evs] assms(3-6) by auto

lemma minv_linear:
  "minv f C J d0 key n s \<Longrightarrow> \<exists>d. FindOne C key (coll s) = Some d \<and> store_run f J (map (fst \<circ> snd) (hist s)) d0 = (d, map snd (hist s))"
  unfolding minv_def run_ok_def by blast

lemma minv_call:
  "minv f C J d0 key n s \<Longrightarrow> called s i = Some (MUpdate key op) \<Longrightarrow> calls s i = MDone (RetOp r) \<Longrightarrow>
   (\<exists>t. (i, at_time t op, r) \<in> set (hist s)) \<or> r = Err cas_exhausted \<or> r = Err driver_failed"
  by (auto simp: minv_def call_ok_def dest!: spec [of _ i])

lemma minv_hist:
  "minv f C J d0 key n s \<Longrightarrow> (i, op', r) \<in> set (hist s) \<Longrightarrow> \<exists>op t. called s i = Some (MUpdate key op) \<and> op' = at_time t op"
  by (auto simp: minv_def call_ok_def dest!: spec [of _ i])

text \<open>
  C3: Concurrent updates of a chord in MongoDB are linearizable. Take a document that is stored and never deleted, fewer than 2 to the 64 events of
  any number of calls of the methods of the backend, in any interleaving of their calls of the driver, some of which may fail with or without
  effect. The noted transitions, each by a call of an update of that document, at most one per call, with the readings of the clock of one
  attempt, form a sequential run from the stored document: every one has in that run the result that is noted, and the document is where that run
  ends, its times read back after each change as the store keeps them. A call that returns gives the result of its transition in that run, unless
  the driver failed or sixteen attempts were lost.
\<close>

theorem updateChordDelivery_linearizable:
  assumes "chord_collection f C" and "FindOne C key c = Some d0" and "s = mrun fin J C key evs (mstart c)"
    and "length evs < 2 ^ 64" and "list_all real_event evs" and "always_stored fin J C key evs (mstart c)"
  shows "(\<exists>d. FindOne C key (coll s) = Some d \<and> store_run f J (map (fst \<circ> snd) (hist s)) d0 = (d, map snd (hist s))) \<and>
         distinct (map fst (hist s)) \<and>
         (\<forall>i op' r. (i, op', r) \<in> set (hist s) \<longrightarrow> (\<exists>op t. called s i = Some (MUpdate key op) \<and> op' = at_time t op)) \<and>
         (\<forall>i op r. called s i = Some (MUpdate key op) \<and> calls s i = MDone (RetOp r) \<longrightarrow>
            (\<exists>t. (i, at_time t op, r) \<in> set (hist s)) \<or> r = Err cas_exhausted \<or> r = Err driver_failed)"
proof -
  obtain n where i: "minv f C J d0 key n s" using mrun_reaches [OF assms] by blast
  have "distinct (map fst (hist s))" using i by (simp add: minv_def)
  then show ?thesis using minv_linear [OF i] minv_call [OF i] minv_hist [OF i] by blast
qed

section \<open>A collection\<close>

text \<open>A list of documents by identifier obeys the laws, with any rounding of the times.\<close>

definition list_collection :: "(gotime \<Rightarrow> gotime) \<Rightarrow> ((string \<times> 'v ChordDelivery) list, 'v) collection" where
  "list_collection f = \<lparr>
     FindOne = (\<lambda>k c. map_of c k),
     FindGroup = (\<lambda>g c. find (\<lambda>d. dGroupID d = g) (map snd c)),
     FindExpired = (\<lambda>now n c. take n (map fst (filter (\<lambda>e. case TerminalExpireAt (snd e) of Some t \<Rightarrow> t \<le> now | None \<Rightarrow> False) c))),
     InsertOne = (\<lambda>d c. if map_of c (DeliveryKey d) \<noteq> None \<or> find (\<lambda>e. dGroupID e = dGroupID d) (map snd c) \<noteq> None then None
        else Some ((DeliveryKey d, map_times f d) # c)),
     ReplaceOne = (\<lambda>k v d c. (map (\<lambda>e. if fst e = k \<and> Version (snd e) = v then (k, map_times f d) else e) c,
        case map_of c k of Some e \<Rightarrow> Version e = v \<and> map_times f d \<noteq> e | None \<Rightarrow> False)),
     DeleteOne = (\<lambda>k w v c. case map_of c k of
         Some e \<Rightarrow> if RegistrationOwner e = w \<and> RegistrationVersion e = v \<and> \<not> MemberPublicationStarted e
                   then (filter (\<lambda>e. fst e \<noteq> k) c, True) else (c, False)
       | None \<Rightarrow> (c, False)),
     DeleteMany = (\<lambda>ks c. (filter (\<lambda>e. fst e \<notin> set ks) c, length (filter (\<lambda>e. fst e \<in> set ks) c)))\<rparr>"

lemma map_of_replace:
  "map_of (map (\<lambda>e. if fst e = k \<and> P (snd e) then (k, x) else e) c) k' =
     (if k' = k \<and> (case map_of c k of Some e \<Rightarrow> P e | None \<Rightarrow> False) then Some x else map_of c k')"
proof (induction c)
  case (Cons e c)
  then show ?case by (cases "fst e = k"; cases "P (snd e)"; cases "k' = fst e") simp_all
qed simp

lemma map_of_filter_key: "map_of (filter (\<lambda>e. P (fst e)) c) k = (if P k then map_of c k else None)"
proof (induction c)
  case (Cons e c)
  then show ?case by (cases "P (fst e)"; cases "k = fst e") simp_all
qed simp

lemma list_delete:
  "DeleteOne (list_collection f) k w v c =
     (if \<exists>e. map_of c k = Some e \<and> RegistrationOwner e = w \<and> RegistrationVersion e = v \<and> \<not> MemberPublicationStarted e
      then (filter (\<lambda>e. fst e \<noteq> k) c, True) else (c, False))"
  by (cases "map_of c k") (simp_all add: list_collection_def)

interpretation docs: chord_collection f "list_collection f" for f :: "gotime \<Rightarrow> gotime"
proof
  show "FindOne (list_collection f) k' (fst (ReplaceOne (list_collection f) k v d c)) =
      (if k' = k \<and> (\<exists>e. FindOne (list_collection f) k c = Some e \<and> Version e = v) then Some (map_times f d)
       else FindOne (list_collection f) k' c)" for k' k v and d :: "'v ChordDelivery" and c
    using map_of_replace [of k "\<lambda>e. Version e = v" "map_times f d" c k'] by (cases "map_of c k") (simp_all add: list_collection_def)
  show "snd (ReplaceOne (list_collection f) k v d c) = (\<exists>e. FindOne (list_collection f) k c = Some e \<and> Version e = v \<and> map_times f d \<noteq> e)"
    for k v and d :: "'v ChordDelivery" and c
    by (cases "map_of c k") (simp_all add: list_collection_def)
  show "FindOne (list_collection f) k' (fst (DeleteOne (list_collection f) k w v c)) =
      (if k' = k \<and> snd (DeleteOne (list_collection f) k w v c) then None else FindOne (list_collection f) k' c)" for k' k w v c
    using map_of_filter_key [of "\<lambda>i. i \<noteq> k" c k'] by (auto simp: list_delete) (auto simp: list_collection_def)
  show "snd (DeleteOne (list_collection f) k w v c) \<longleftrightarrow>
      (\<exists>e. FindOne (list_collection f) k c = Some e \<and> RegistrationOwner e = w \<and> RegistrationVersion e = v \<and> \<not> MemberPublicationStarted e)" for k w v c
    by (simp add: list_delete) (simp add: list_collection_def)
  show "FindOne (list_collection f) k' (fst (DeleteMany (list_collection f) ks c)) = (if k' \<in> set ks then None else FindOne (list_collection f) k' c)" for k' ks c
    using map_of_filter_key [of "\<lambda>i. i \<notin> set ks" c k'] by (simp add: list_collection_def)
  show "InsertOne (list_collection f) d c = None \<longleftrightarrow>
      FindOne (list_collection f) (DeliveryKey d) c \<noteq> None \<or> FindGroup (list_collection f) (dGroupID d) c \<noteq> None" for d :: "'v ChordDelivery" and c
    by (simp add: list_collection_def)
  show "FindOne (list_collection f) k c' = (if k = DeliveryKey d then Some (map_times f d) else FindOne (list_collection f) k c)"
    if "InsertOne (list_collection f) d c = Some c'" for d :: "'v ChordDelivery" and c c' k
    using that by (auto simp: list_collection_def split: if_splits)
qed

definition demo_docs :: "(string \<times> nat ChordDelivery) list" where
  "demo_docs = [(''k'', NewChordDelivery demo_reg ''o'' 0)]"

text \<open>An equality of operations that evaluates: the operations that take no function.\<close>

fun same_op :: "'v chord_op \<Rightarrow> 'v chord_op \<Rightarrow> bool" where
  "same_op (OpPrepare t) (OpPrepare t') \<longleftrightarrow> t = t'"
| "same_op (OpMemberTerminal t i x oc rs n) (OpMemberTerminal t' i' x' oc' rs' n') \<longleftrightarrow> t = t' \<and> i = i' \<and> x = x' \<and> oc = oc' \<and> rs = rs' \<and> n = n'"
| "same_op op op' \<longleftrightarrow> False"

lemma same_ops: "list_all2 same_op xs ys \<Longrightarrow> xs = ys"
proof (induction rule: list_all2_induct)
  case (Cons x xs y ys)
  then show ?case by (cases "(x, y)" rule: same_op.cases) simp_all
qed simp

text \<open>Two calls read the same version; the second loses its replacement and tries again, at a later time.\<close>

definition demo_events :: "nat mevent list" where
  "demo_events =
     [MBegin 0 (MUpdate ''k'' (OpPrepare 1)), MBegin 1 (MUpdate ''k'' (OpMemberTerminal 2 1 ''b'' MemberSuccess (Some []) 2)),
      MStep 0 (Clocks 1 1), MStep 1 (Clocks 2 2), MStep 0 (Clocks 0 0), MStep 1 (Clocks 0 0), MStep 1 (Clocks 3 4), MStep 1 (Clocks 0 0)]"

theorem updateChordDelivery_linearizable_witness:
  "\<exists>d lg. FindOne (list_collection (\<lambda>t. t - t mod 1000)) ''k'' (coll (mrun Ok demo_json (list_collection (\<lambda>t. t - t mod 1000)) ''k'' demo_events (mstart demo_docs))) = Some d \<and>
     store_run (\<lambda>t. t - t mod 1000) demo_json [OpPrepare 1, OpMemberTerminal 4 1 ''b'' MemberSuccess (Some []) 3] (NewChordDelivery demo_reg ''o'' 0) = (d, lg)"
proof -
  let ?f = "\<lambda>t :: gotime. t - t mod 1000"
  let ?C = "list_collection ?f :: ((string \<times> nat ChordDelivery) list, nat) collection"
  let ?s = "mrun Ok demo_json ?C ''k'' demo_events (mstart demo_docs)"
  have 1: "FindOne ?C ''k'' demo_docs = Some (NewChordDelivery demo_reg ''o'' 0)" by (simp add: list_collection_def demo_docs_def)
  have 2: "list_all real_event demo_events" by code_simp
  have 3: "always_stored Ok demo_json ?C ''k'' demo_events (mstart demo_docs)" by code_simp
  have 4: "list_all2 same_op (map (fst \<circ> snd) (hist ?s)) [OpPrepare 1, OpMemberTerminal 4 1 ''b'' MemberSuccess (Some []) 3]" by code_simp
  have 5: "length demo_events < 2 ^ 64" by (simp add: demo_events_def)
  have 6: "map (fst \<circ> snd) (hist ?s) = [OpPrepare 1, OpMemberTerminal 4 1 ''b'' MemberSuccess (Some []) 3]" using 4 by (rule same_ops)
  obtain d where o: "FindOne ?C ''k'' (coll ?s) = Some d"
    "store_run ?f demo_json (map (fst \<circ> snd) (hist ?s)) (NewChordDelivery demo_reg ''o'' 0) = (d, map snd (hist ?s))"
    using updateChordDelivery_linearizable [OF docs.chord_collection_axioms 1 refl 5 2 3] by (elim conjE exE) (rule that)
  show ?thesis using o unfolding 6 by blast
qed

section \<open>The callback of a stored chord\<close>

text \<open>
  C12: What holds of every sequence of transitions holds of concurrent processes. When any of the calls that run
  concurrently on a chord stored in MongoDB returns a lease of the callback, the stored document holds
  a receipt of every member, none of them a failure, and the lease carries the registered callback with the results of all
  members appended in order.
\<close>

theorem concurrent_callback_lease:
  assumes "chord_collection f C" and "FindOne C key c = Some (map_times f (NewChordDelivery reg owner t0))"
    and "s = mrun fin J C key evs (mstart c)" and "length evs < 2 ^ 64" and "list_all real_event evs"
    and "always_stored fin J C key evs (mstart c)"
    and call: "called s i = Some (MUpdate key op)" "calls s i = MDone (RetOp (Ok (RetCallback (Some L))))"
  shows "\<exists>d callback args. FindOne C key (coll s) = Some d \<and>
    (\<forall>m \<in> set (Members d). \<exists>rc. mReceipt m = Some rc \<and> rcOutcome rc \<noteq> MemberFailure) \<and>
    unmarshal_sig J (crCallback reg) = Some callback \<and> member_args (Members d) = Some args \<and>
    marshal_sig J (callback\<lparr>sArgs := sArgs callback @ args\<rparr>) = Some (clPayload L)"
proof -
  let ?d0 = "map_times f (NewChordDelivery reg owner t0)"
  obtain n where i: "minv f C J ?d0 key n s" using mrun_reaches [OF assms(1-6)] by blast
  obtain d where o: "FindOne C key (coll s) = Some d" "store_run f J (map (fst \<circ> snd) (hist s)) ?d0 = (d, map snd (hist s))"
    using minv_linear [OF i] by blast
  obtain t where t: "(i, at_time t op, Ok (RetCallback (Some L))) \<in> set (hist s)" using minv_call [OF i call] by auto
  obtain ops lg where r: "chord_run J ops ?d0 = (d, lg)" "set (map snd (hist s)) \<subseteq> set lg" using store_run_chord_run [OF o(2)] by blast
  have m: "(at_time t op, Ok (RetCallback (Some L))) \<in> set lg" using t r(2) by force
  have r': "chord_run J (OpReload f # ops) (NewChordDelivery reg owner t0) = (d, (OpReload f, Ok RetDone) # lg)"
    using r(1) by (simp add: chord_apply_def)
  have e: "all_passed d" "buildChordCallbackPayload J d = Ok (clPayload L)" "CallbackTemplate d = crCallback reg"
    using chord_run_lease [OF NewChordDelivery_cinv r', of "at_time t op" L] m by simp_all
  show ?thesis using o(1) e(1,3) build_Ok [OF e(2)] by (auto simp: all_passed_def passed_receipt_def)
qed

definition returned :: "('c, 'v) mstate \<Rightarrow> nat \<Rightarrow> store_ret option" where
  "returned s i = (case calls s i of MDone r \<Rightarrow> Some r | _ \<Rightarrow> None)"

definition demo_callback_events :: "nat mevent list" where
  "demo_callback_events =
     concat (map (\<lambda>(i, t, op). [MBegin i (MUpdate ''k'' op), MStep i (Clocks t t), MStep i (Clocks t t)])
       [(0, 1, OpPrepare 1), (1, 4, OpMemberTerminal 4 1 ''b'' MemberSuccess (Some [Some \<lparr>rType = ''Y'', rValue = 8\<rparr>]) 4),
        (2, 5, OpMemberTerminal 5 0 ''a'' MemberSuccess (Some [Some \<lparr>rType = ''X'', rValue = 7\<rparr>]) 5)]) @
     [MBegin 3 (MUpdate ''k'' (OpClaimCallback 6 \<lparr>ccDeliveryKey = ''k'', ccOwner = ''v'', ccNow = 6, ccLeaseDuration = 5\<rparr>)),
      MBegin 4 (MUpdate ''k'' (OpClaimCallback 6 \<lparr>ccDeliveryKey = ''k'', ccOwner = ''w'', ccNow = 6, ccLeaseDuration = 5\<rparr>)),
      MStep 3 (Clocks 6 6), MStep 4 (Clocks 6 6), MStep 4 (Clocks 6 6), MStep 3 (Clocks 6 6)]"

theorem concurrent_callback_lease_witness:
  "\<exists>d args. FindOne (list_collection id) ''k'' (coll (mrun Ok demo_json (list_collection id) ''k'' demo_callback_events (mstart demo_docs))) = Some d \<and>
     member_args (Members d) = Some args \<and> concat (map aType args) = ''XY''"
proof -
  let ?C = "list_collection id :: ((string \<times> nat ChordDelivery) list, nat) collection"
  let ?s = "mrun Ok demo_json ?C ''k'' demo_callback_events (mstart demo_docs)"
  let ?op = "OpClaimCallback 6 \<lparr>ccDeliveryKey = ''k'', ccOwner = ''w'', ccNow = 6, ccLeaseDuration = 5\<rparr> :: nat chord_op"
  have 1: "FindOne ?C ''k'' demo_docs = Some (map_times id (NewChordDelivery demo_reg ''o'' 0))" by code_simp
  have 2: "length demo_callback_events < 2 ^ 64" by (simp add: demo_callback_events_def)
  have 3: "list_all real_event demo_callback_events" by code_simp
  have 4: "always_stored Ok demo_json ?C ''k'' demo_callback_events (mstart demo_docs)" by code_simp
  have "case called ?s 4 of
      Some (MUpdate k (OpClaimCallback t claim)) \<Rightarrow> k = ''k'' \<and> t = 6 \<and> claim = \<lparr>ccDeliveryKey = ''k'', ccOwner = ''w'', ccNow = 6, ccLeaseDuration = 5\<rparr>
    | _ \<Rightarrow> False" by code_simp
  then have 5: "called ?s 4 = Some (MUpdate ''k'' ?op)" by (simp split: option.splits chord_method.splits chord_op.splits)
  have "returned ?s 4 = Some (RetOp (Ok (RetCallback (Some demo_lease))))" by code_simp
  then have 6: "calls ?s 4 = MDone (RetOp (Ok (RetCallback (Some demo_lease))))" by (simp add: returned_def split: mcall.splits)
  show ?thesis using concurrent_callback_lease [OF docs.chord_collection_axioms 1 refl 2 3 4 5 6]
    by (elim exE conjE) (auto simp: demo_json_def demo_lease_def)
qed

section \<open>A document that is registered again\<close>

text \<open>
  A new registration of the same chord starts again at version 1, so the version does not tell it from the old one: a call
  that read the old document before it was aborted replaces the new one, whose caller was told that it created it.
\<close>

definition demo_reg2 :: ChordRegistration where
  "demo_reg2 = demo_reg\<lparr>crMembers := [\<lparr>mrOrdinal = 0, mrTaskID = ''n'', mrPayload = ''z''\<rparr>]\<rparr>"

definition stale_events :: "nat mevent list" where
  "stale_events =
     [MBegin 0 (MRegister demo_reg ''a'' 0), MStep 0 (Clocks 1 1),
      MBegin 1 (MUpdate ''k'' (OpPrepare 1)), MStep 1 (Clocks 1 1),
      MBegin 2 (MAbort \<lparr>rfDeliveryKey = ''k'', rfOwner = ''a'', rfVersion = 1, rfCreated = True\<rparr>), MStep 2 (Clocks 1 1),
      MBegin 3 (MRegister demo_reg2 ''b'' 2), MStep 3 (Clocks 1 1),
      MStep 1 (Clocks 1 1)]"

theorem stale_update_replaces_registration:
  "(let s = mrun Ok demo_json (list_collection id) ''k'' stale_events (mstart [])
    in returned s 3 = Some (RetRef (Ok \<lparr>rfDeliveryKey = ''k'', rfOwner = ''b'', rfVersion = 1, rfCreated = True\<rparr>)) \<and>
       map_option (\<lambda>d. (RegistrationOwner d, map mTaskID (Members d))) (FindOne (list_collection id) ''k'' (coll s)) = Some (''a'', [''a'', ''b'']))"
  by code_simp

text \<open>
  The clean-up deletes the identifiers of its query without looking at the documents again: when another process removed
  an expired document in between and the chord was registered anew, the new document is deleted.
\<close>

definition expired_docs :: "(string \<times> nat ChordDelivery) list" where
  "expired_docs = [(''k'', (NewChordDelivery demo_reg ''a'' 0)\<lparr>CallbackState := ChordDelivered, TerminalExpireAt := Some 5\<rparr>)]"

definition cleanup_events :: "nat mevent list" where
  "cleanup_events =
     [MBegin 0 (MCleanup 9 100), MStep 0 (Clocks 1 1), MBegin 1 (MCleanup 9 100), MStep 1 (Clocks 1 1), MStep 1 (Clocks 1 1),
      MBegin 2 (MRegister demo_reg ''b'' 9), MStep 2 (Clocks 1 1), MStep 0 (Clocks 1 1)]"

theorem cleanup_deletes_new_registration:
  "(let s = mrun Ok demo_json (list_collection id) ''k'' cleanup_events (mstart expired_docs)
    in returned s 2 = Some (RetRef (Ok \<lparr>rfDeliveryKey = ''k'', rfOwner = ''b'', rfVersion = 1, rfCreated = True\<rparr>)) \<and>
       FindOne (list_collection id) ''k'' (coll s) = None)"
  by code_simp

end
