(* ===== verification/Pool.thy ===== *)
theory Pool
  imports Prelude
begin

text \<open>
  The resource pool of \<open>container/pool\<close>. A resource is a number; the constructor the caller supplies hands out the next one
  or fails. The mutex makes each stretch of code between \<open>Lock\<close> and \<open>Unlock\<close>, and each piece of code outside it, one
  step of \<open>pstep\<close>; any number of calls of \<open>Get\<close>, \<open>Put\<close> and \<open>Shutdown\<close> and the cleaner goroutine interleave in any
  order. Readings of the clock are arguments of the steps. The channel \<open>generation\<close> is a number: closing it and making a
  new one adds one, so a channel is closed when its number is below the current one.
\<close>

unbundle bit_operations_syntax

section \<open>Configuration\<close>

datatype pool_err = ErrPoolNewFuncIsNull | ErrPoolExhausted | ErrPoolClosed | ErrNew | ErrContext

record config =
  maxActive :: u64
  maxIdle :: u64
  idleTimeout :: duration
  waitTimeout :: duration
  wait :: bool

definition millisecond :: duration where
  "millisecond = 1000000"

definition minDuration :: duration where
  "minDuration = 100 * millisecond"

definition defaultConfig :: config where
  "defaultConfig = \<lparr>maxActive = 20, maxIdle = 10, idleTimeout = 90 * (1000 * millisecond), waitTimeout = 0, wait = False\<rparr>"

definition SetActive :: "u64 \<Rightarrow> config \<Rightarrow> config" where
  "SetActive a c = c\<lparr>maxActive := a\<rparr>"

definition SetIdle :: "u64 \<Rightarrow> config \<Rightarrow> config" where
  "SetIdle n c = c\<lparr>maxIdle := n\<rparr>"

definition SetIdleTimeout :: "duration \<Rightarrow> config \<Rightarrow> config" where
  "SetIdleTimeout d c = c\<lparr>idleTimeout := d\<rparr>"

definition SetWait :: "bool \<Rightarrow> duration \<Rightarrow> config \<Rightarrow> config" where
  "SetWait w d c = c\<lparr>wait := w, waitTimeout := d\<rparr>"

record item =
  createdAt :: gotime
  res :: nat

definition expire :: "gotime \<Rightarrow> duration \<Rightarrow> item \<Rightarrow> bool" where
  "expire now timeout it = (if timeout \<le>s 0 then False else TimeAdd (createdAt it) timeout < now)"

section \<open>The state\<close>

text \<open>
  Where a call stands. \<open>GetHave\<close>: \<open>Get\<close> took an item off the list and holds the lock no more; \<open>GetRelease\<close>: the item was
  expired and is shut down; both carry the loop variables \<open>i\<close> and \<open>n\<close>. \<open>GetCreate\<close>: in the constructor. \<open>GetFailed\<close>: it
  failed. \<open>GetWait\<close>: in the \<open>select\<close> on the generation captured. \<open>PutShut\<close>, \<open>CleanShut\<close> and
  \<open>CloseShut\<close>: about to shut down resources that are detached. \<open>CloseWait\<close>: \<open>Shutdown\<close> waits for the cleaner.
  \<open>CleanTop\<close>, \<open>CleanSelect\<close> and \<open>CleanRun\<close>: the loop of the cleaner before it reads the configuration, in its
  \<open>select\<close> and before \<open>cleanExpired\<close>.
\<close>

datatype ppc =
    GetEnter | GetHave item duration nat nat | GetRelease nat nat | GetCreate | GetFailed | GetWait nat | GetRetry
  | GetDone "(pool_err, nat) go"
  | PutEnter nat bool | PutShut nat | PutDone
  | CloseEnter | CloseShut "nat list" | CloseWait | CloseDone "(pool_err, unit) go"
  | CleanTop | CleanSelect duration | CleanRun | CleanShut "nat list" | CleanDone

record pool =
  hasNew :: bool
  generation :: nat
  cleanerWake :: bool
  cleanerStop :: bool
  active :: u64
  conf :: config
  closed :: bool
  idles :: "item list"
  procs :: "ppc list"
  held :: "nat list"
  shut :: "nat list"
  created :: nat

text \<open>
  \<open>procs\<close> are the calls, in the order they were made. \<open>held\<close> are the resources \<open>Get\<close> has returned and \<open>Put\<close> was not
  called with yet, \<open>shut\<close> those on which \<open>Shutdown\<close> was called, in order, and \<open>created\<close> the number of resources the
  constructor has made.
\<close>

definition NewList :: "(config \<Rightarrow> config) list \<Rightarrow> pool" where
  "NewList opts = \<lparr>hasNew = False, generation = 0, cleanerWake = False, cleanerStop = False, active = 0,
     conf = fold (\<lambda>f c. f c) opts defaultConfig, closed = False, idles = [], procs = [CleanTop], held = [], shut = [], created = 0\<rparr>"

definition pc_to :: "nat \<Rightarrow> ppc \<Rightarrow> pool \<Rightarrow> pool" where
  "pc_to i pc l = l\<lparr>procs := (procs l)[i := pc]\<rparr>"

definition notifyLocked :: "pool \<Rightarrow> pool" where
  "notifyLocked l = l\<lparr>generation := generation l + 1\<rparr>"

definition releaseLocked :: "pool \<Rightarrow> pool" where
  "releaseLocked l = notifyLocked (l\<lparr>active := active l + NOT 0\<rparr>)"

definition wakeCleaner :: "pool \<Rightarrow> pool" where
  "wakeCleaner l = l\<lparr>cleanerWake := True\<rparr>"

definition do_shutdown :: "nat \<Rightarrow> pool \<Rightarrow> pool" where
  "do_shutdown r l = l\<lparr>shut := shut l @ [r]\<rparr>"

definition Reload :: "(config \<Rightarrow> config) list \<Rightarrow> pool \<Rightarrow> pool" where
  "Reload opts l =
     (let c = fold (\<lambda>f c. f c) opts (conf l); l1 = notifyLocked (l\<lparr>conf := c\<rparr>)
      in if idleTimeout c \<noteq> idleTimeout (conf l) then wakeCleaner l1 else l1)"

definition Init :: "duration \<Rightarrow> pool \<Rightarrow> pool" where
  "Init d l = (if d \<le>s 0 then l else wakeCleaner l)"

definition New :: "bool \<Rightarrow> pool \<Rightarrow> pool" where
  "New f l = l\<lparr>hasNew := f\<rparr>"

section \<open>Get\<close>

text \<open>The part of the loop of \<open>Get\<close> after its inner loop, with the lock held.\<close>

definition get_check :: "nat \<Rightarrow> pool \<Rightarrow> pool" where
  "get_check p l =
     (if closed l then pc_to p (GetDone (Err ErrPoolClosed)) l
      else if maxActive (conf l) = 0 \<or> active l < maxActive (conf l) then
        (if \<not> hasNew l then pc_to p (GetDone (Err ErrPoolNewFuncIsNull)) l
         else pc_to p GetCreate (l\<lparr>active := active l + 1\<rparr>))
      else if waitTimeout (conf l) = 0 \<and> \<not> wait (conf l) then pc_to p (GetDone (Err ErrPoolExhausted)) l
      else pc_to p (GetWait (generation l)) l)"

text \<open>One round of the inner loop, with the lock held.\<close>

definition get_loop :: "nat \<Rightarrow> nat \<Rightarrow> nat \<Rightarrow> pool \<Rightarrow> pool" where
  "get_loop p i n l =
     (if i < n then
        (case idles l of
           [] \<Rightarrow> get_check p l
         | it # rest \<Rightarrow> pc_to p (GetHave it (idleTimeout (conf l)) i n) (l\<lparr>idles := rest\<rparr>))
      else get_check p l)"

definition get_enter :: "nat \<Rightarrow> pool \<Rightarrow> pool" where
  "get_enter p l =
     (if closed l then pc_to p (GetDone (Err ErrPoolClosed)) l else get_loop p 0 (length (idles l)) l)"

definition get_have :: "nat \<Rightarrow> gotime \<Rightarrow> item \<Rightarrow> duration \<Rightarrow> nat \<Rightarrow> nat \<Rightarrow> pool \<Rightarrow> pool" where
  "get_have p now it timeout i n l =
     (if \<not> expire now timeout it then pc_to p (GetDone (Ok (res it))) (l\<lparr>held := res it # held l\<rparr>)
      else pc_to p (GetRelease i n) (do_shutdown (res it) l))"

definition get_create :: "nat \<Rightarrow> bool \<Rightarrow> pool \<Rightarrow> pool" where
  "get_create p ok l =
     (if ok then pc_to p (GetDone (Ok (created l))) (l\<lparr>held := created l # held l, created := created l + 1\<rparr>)
      else pc_to p GetFailed l)"

section \<open>Put, the cleaner and Shutdown\<close>

definition put_enter :: "nat \<Rightarrow> gotime \<Rightarrow> nat \<Rightarrow> bool \<Rightarrow> pool \<Rightarrow> pool" where
  "put_enter p now r forceClose l =
     (let (l1, s) =
        (if \<not> closed l \<and> \<not> forceClose then
           let xs = \<lparr>createdAt = now, res = r\<rparr> # idles l
           in if of_nat (length xs) > maxIdle (conf l)
              then (l\<lparr>idles := butlast xs\<rparr>, Some (res (last xs)))
              else (l\<lparr>idles := xs\<rparr>, None)
         else (l, Some r))
      in case s of
           None \<Rightarrow> pc_to p PutDone (notifyLocked l1)
         | Some r1 \<Rightarrow> pc_to p (PutShut r1) (releaseLocked l1))"

text \<open>The items \<open>cleanExpired\<close> takes off the back, the last first; \<open>now k\<close> is the reading of the clock for the \<open>k\<close>-th.\<close>

fun expired_back :: "(nat \<Rightarrow> gotime) \<Rightarrow> duration \<Rightarrow> item list \<Rightarrow> nat list" where
  "expired_back now timeout [] = []"
| "expired_back now timeout (it # rest) =
     (if \<not> expire (now 0) timeout it then [] else res it # expired_back (\<lambda>k. now (Suc k)) timeout rest)"

definition cleanExpired :: "nat \<Rightarrow> (nat \<Rightarrow> gotime) \<Rightarrow> pool \<Rightarrow> pool" where
  "cleanExpired p now l =
     (if closed l \<or> idleTimeout (conf l) \<le>s 0 then pc_to p CleanTop l
      else
        let gone = expired_back now (idleTimeout (conf l)) (rev (idles l));
            l1 = l\<lparr>idles := take (length (idles l) - length gone) (idles l)\<rparr>;
            l2 = (if gone \<noteq> [] then notifyLocked (l1\<lparr>active := active l1 + NOT (of_nat (length gone) - 1)\<rparr>) else l1)
        in pc_to p (CleanShut gone) l2)"

definition close_enter :: "nat \<Rightarrow> pool \<Rightarrow> pool" where
  "close_enter p l =
     (if closed l then pc_to p (CloseDone (Err ErrPoolClosed)) l
      else
        let shutdowns = map res (idles l);
            l1 = l\<lparr>closed := True, cleanerStop := True\<rparr>;
            l2 = (if shutdowns \<noteq> [] then l1\<lparr>active := active l1 + NOT (of_nat (length shutdowns) - 1)\<rparr> else l1)
        in pc_to p (CloseShut shutdowns) (notifyLocked (l2\<lparr>idles := []\<rparr>)))"

section \<open>Steps\<close>

text \<open>
  \<open>SRun\<close>: the call goes on, with the readings of the clock it takes. \<open>SNew ok\<close>: the constructor returns.
  \<open>SGiveUp\<close>: the context of a waiting \<open>Get\<close> is done or its time is over. \<open>STimer\<close>: the
  timer of the cleaner fires; \<open>SWake\<close>: it takes a wake-up. A \<open>select\<close> with several ready cases may take any.
\<close>

datatype pchoice = SRun "nat \<Rightarrow> gotime" | SNew bool | SGiveUp | STimer | SWake

fun run_step :: "nat \<Rightarrow> (nat \<Rightarrow> gotime) \<Rightarrow> ppc \<Rightarrow> pool \<Rightarrow> pool" where
  "run_step p now GetEnter l = get_enter p l"
| "run_step p now (GetHave it timeout i n) l = get_have p (now 0) it timeout i n l"
| "run_step p now (GetRelease i n) l = get_loop p (i + 1) n (releaseLocked l)"
| "run_step p now GetCreate l = l"
| "run_step p now GetFailed l = pc_to p (GetDone (Err ErrNew)) (releaseLocked l)"
| "run_step p now (GetWait g) l = (if g < generation l then pc_to p GetRetry l else l)"
| "run_step p now GetRetry l = get_loop p 0 (length (idles l)) l"
| "run_step p now (PutEnter r force) l = put_enter p (now 0) r force l"
| "run_step p now (PutShut r) l = pc_to p PutDone (do_shutdown r l)"
| "run_step p now CloseEnter l = close_enter p l"
| "run_step p now (CloseShut rs) l =
     (case rs of [] \<Rightarrow> pc_to p CloseWait l | r # rs' \<Rightarrow> pc_to p (CloseShut rs') (do_shutdown r l))"
| "run_step p now CloseWait l = (if CleanDone \<in> set (procs l) then pc_to p (CloseDone (Ok ())) l else l)"
| "run_step p now CleanTop l = pc_to p (CleanSelect (idleTimeout (conf l))) l"
| "run_step p now (CleanSelect timeout) l = (if cleanerStop l then pc_to p CleanDone l else l)"
| "run_step p now CleanRun l = cleanExpired p now l"
| "run_step p now (CleanShut rs) l =
     (case rs of [] \<Rightarrow> pc_to p CleanTop l | r # rs' \<Rightarrow> pc_to p (CleanShut rs') (do_shutdown r l))"
| "run_step p now (GetDone r) l = l"
| "run_step p now PutDone l = l"
| "run_step p now (CloseDone r) l = l"
| "run_step p now CleanDone l = l"

definition pstep :: "nat \<Rightarrow> pchoice \<Rightarrow> ppc \<Rightarrow> pool \<Rightarrow> pool" where
  "pstep p c pc l =
     (case c of
        SRun now \<Rightarrow> run_step p now pc l
      | SNew ok \<Rightarrow> (case pc of GetCreate \<Rightarrow> get_create p ok l | _ \<Rightarrow> l)
      | SGiveUp \<Rightarrow> (case pc of GetWait g \<Rightarrow> pc_to p (GetDone (Err ErrContext)) l | _ \<Rightarrow> l)
      | STimer \<Rightarrow> (case pc of CleanSelect timeout \<Rightarrow> if 0 <s timeout then pc_to p CleanRun l else l | _ \<Rightarrow> l)
      | SWake \<Rightarrow> (case pc of
            CleanSelect timeout \<Rightarrow> if cleanerWake l then pc_to p CleanRun (l\<lparr>cleanerWake := False\<rparr>) else l
          | _ \<Rightarrow> l))"

text \<open>
  A resource is put back, once, by a caller that holds it; a foreign or nil resource, or one put back twice, is outside the contract of
  \<open>Put\<close> and not modelled. The constructor makes a new resource or returns an error; one that panics, or that returns a resource a
  second time, is not modelled either. The methods that take the lock once and return are one event.
\<close>

datatype pevent =
    CallGet | CallPut nat bool | CallShutdown | CallReload "(config \<Rightarrow> config) list" | CallInit duration | CallNew bool
  | PStep nat pchoice

fun pdo :: "pevent \<Rightarrow> pool \<Rightarrow> pool" where
  "pdo CallGet l = l\<lparr>procs := procs l @ [GetEnter]\<rparr>"
| "pdo (CallPut r force) l =
     (if r \<in> set (held l) then l\<lparr>procs := procs l @ [PutEnter r force], held := remove1 r (held l)\<rparr> else l)"
| "pdo CallShutdown l = l\<lparr>procs := procs l @ [CloseEnter]\<rparr>"
| "pdo (CallReload opts) l = Reload opts l"
| "pdo (CallInit d) l = Init d l"
| "pdo (CallNew f) l = New f l"
| "pdo (PStep p c) l = (if p < length (procs l) then pstep p c (procs l ! p) l else l)"

definition prun :: "pevent list \<Rightarrow> pool \<Rightarrow> pool" where
  "prun evs l = fold pdo evs l"

end
