(* ===== verification/PoolInv.thy ===== *)
theory PoolInv
  imports Pool "HOL-Library.Multiset"
begin

text \<open>
  Invariants of the resource pool under every interleaving: each resource is in one place, the counter \<open>active\<close> is the
  number of resources in use, and no \<open>Get\<close> sleeps while it could go on.
\<close>

section \<open>Where resources are\<close>

text \<open>The resources a call has in hand, and how many units of \<open>active\<close> it stands for.\<close>

fun owned :: "ppc \<Rightarrow> nat multiset" where
  "owned (GetHave it timeout i n) = {#res it#}"
| "owned (PutEnter r force) = {#r#}"
| "owned (PutShut r) = {#r#}"
| "owned (CloseShut rs) = mset rs"
| "owned (CleanShut rs) = mset rs"
| "owned pc = {#}"

fun counted :: "ppc \<Rightarrow> nat" where
  "counted (GetHave it timeout i n) = 1"
| "counted (GetRelease i n) = 1"
| "counted GetCreate = 1"
| "counted GetFailed = 1"
| "counted (PutEnter r force) = 1"
| "counted pc = 0"

definition in_use :: "pool \<Rightarrow> nat" where
  "in_use l = length (idles l) + length (held l) + sum_list (map counted (procs l))"

definition pinv :: "pool \<Rightarrow> bool" where
  "pinv l \<longleftrightarrow>
     mset (map res (idles l)) + mset (held l) + sum_list (map owned (procs l)) + mset (shut l) = mset [0..<created l] \<and>
     active l = of_nat (in_use l) \<and> (closed l \<longrightarrow> idles l = [])"

text \<open>A step of one call keeps the invariant when it moves resources and units correctly.\<close>

lemma pinv_step:
  assumes inv: "pinv l" and p: "p < length (procs l)" and procs: "procs l' = (procs l)[p := pc]"
    and loc: "mset (map res (idles l')) + mset (held l') + mset (shut l') + owned pc + mset [0..<created l] =
       mset (map res (idles l)) + mset (held l) + mset (shut l) + owned (procs l ! p) + mset [0..<created l']"
    and act: "active l' + of_nat y = active l + of_nat x"
    and cnt: "length (idles l') + length (held l') + counted pc + y = length (idles l) + length (held l) + counted (procs l ! p) + x"
    and cl: "closed l' \<Longrightarrow> idles l' = []"
  shows "pinv l'"
proof -
  let ?S = "sum_list (map owned (procs l))" and ?S' = "sum_list (map owned (procs l'))"
  have S: "?S' + owned (procs l ! p) = ?S + owned pc" unfolding procs by (rule sum_list_update_nth [OF p])
  have L: "mset (map res (idles l)) + mset (held l) + ?S + mset (shut l) = mset [0..<created l]" using inv by (simp add: pinv_def)
  have "mset (map res (idles l')) + mset (held l') + ?S' + mset (shut l') + (owned (procs l ! p) + mset [0..<created l]) =
      (mset (map res (idles l')) + mset (held l') + mset (shut l') + owned pc + mset [0..<created l]) + ?S"
    using S by (simp add: ac_simps)
  also have "\<dots> = mset [0..<created l'] + (owned (procs l ! p) + mset [0..<created l])"
    unfolding loc using L by (simp add: ac_simps)
  finally have 1: "mset (map res (idles l')) + mset (held l') + ?S' + mset (shut l') = mset [0..<created l']" by (simp only: add_right_cancel)
  let ?c = "sum_list (map counted (procs l))" and ?c' = "sum_list (map counted (procs l'))"
  have C: "?c' + counted (procs l ! p) = ?c + counted pc" unfolding procs by (rule sum_list_update_nth [OF p])
  have "in_use l' + y = in_use l + x" using C cnt by (simp add: in_use_def)
  then have "(of_nat (in_use l') :: u64) + of_nat y = of_nat (in_use l) + of_nat x" by (metis of_nat_add)
  then have "active l' = of_nat (in_use l')" using inv act unfolding pinv_def by (metis add_right_cancel)
  then show ?thesis using 1 cl by (simp add: pinv_def)
qed

lemma pinv_same:
  assumes "pinv l" and "procs l' = procs l" and "idles l' = idles l" and "held l' = held l" and "shut l' = shut l"
    and "created l' = created l" and "active l' = active l" and "closed l' = closed l"
  shows "pinv l'"
  using assms by (simp add: pinv_def in_use_def)

lemma not_minus: "NOT (w - 1) = - (w :: 'a :: len word)"
  by (simp add: not_eq_complement)

section \<open>The effect of the steps\<close>

text \<open>After its inner loop \<open>Get\<close> either takes a unit or leaves the counter, and owns nothing.\<close>

lemma get_check_form:
  obtains pc where "get_check p l = pc_to p pc (l\<lparr>active := active l + of_nat (counted pc)\<rparr>)" "owned pc = {#}"
    "\<forall>g. pc = GetWait g \<longrightarrow> g = generation l \<and> \<not> closed l \<and> maxActive (conf l) \<noteq> 0 \<and> maxActive (conf l) \<le> active l"
    "counted pc \<noteq> 0 \<longrightarrow> maxActive (conf l) = 0 \<or> active l < maxActive (conf l)"
proof -
  have [simp]: "l\<lparr>active := active l\<rparr> = l" by (cases l) simp
  consider "closed l" | "\<not> closed l" "maxActive (conf l) = 0 \<or> active l < maxActive (conf l)"
    | "\<not> closed l" "maxActive (conf l) \<noteq> 0" "maxActive (conf l) \<le> active l" by fastforce
  then show thesis
  proof cases
    case 1
    then show ?thesis by (intro that [of "GetDone (Err ErrPoolClosed)"]) (simp_all add: get_check_def)
  next
    case 2
    then show ?thesis by (intro that [of "if hasNew l then GetCreate else GetDone (Err ErrPoolNewFuncIsNull)"]) (auto simp: get_check_def split: if_splits)
  next
    case 3
    then show ?thesis
      by (intro that [of "if waitTimeout (conf l) = 0 \<and> \<not> wait (conf l) then GetDone (Err ErrPoolExhausted) else GetWait (generation l)"])
        (auto simp: get_check_def not_less split: if_splits)
  qed
qed

lemma get_loop_form:
  obtains (take) it rest where "idles l = it # rest" "i < n"
      "get_loop p i n l = pc_to p (GetHave it (idleTimeout (conf l)) i n) (l\<lparr>idles := rest\<rparr>)"
  | (check) "get_loop p i n l = get_check p l" "n \<le> i \<or> idles l = []"
  using take check by (cases "idles l"; cases "i < n") (simp_all add: get_loop_def)

lemma get_loop_pinv:
  assumes inv: "pinv l" and p: "p < length (procs l)" and o: "owned (procs l ! p) = {#}"
    and l1: "l1 = l\<lparr>active := a, generation := g\<rparr>" and a: "a + of_nat (counted (procs l ! p)) = active l"
  shows "pinv (get_loop p i n l1)"
proof (cases rule: get_loop_form [of l1 i n p])
  case (take it rest)
  then have "\<not> closed l" "idles l = it # rest" using inv l1 by (auto simp: pinv_def)
  then show ?thesis unfolding take(3)
    by (intro pinv_step [OF inv p, where y = "counted (procs l ! p)" and x = 0])
      (use a l1 o in \<open>auto simp: pc_to_def ac_simps\<close>)
next
  case check
  obtain pc where pc: "get_check p l1 = pc_to p pc (l1\<lparr>active := active l1 + of_nat (counted pc)\<rparr>)" "owned pc = {#}"
    by (rule get_check_form)
  show ?thesis unfolding check(1) pc(1)
    by (intro pinv_step [OF inv p, where y = "counted (procs l ! p)" and x = "counted pc"])
      (use a l1 o pc(2) inv in \<open>auto simp: pc_to_def ac_simps pinv_def\<close>)
qed

text \<open>The items that \<open>cleanExpired\<close> detaches are the last of the list.\<close>

lemma expired_back_prefix: "\<exists>ys. xs = ys @ drop (length ys) xs \<and> expired_back now timeout xs = map res ys"
proof (induction xs arbitrary: now)
  case (Cons it xs)
  obtain ys where y: "xs = ys @ drop (length ys) xs" "expired_back (\<lambda>k. now (Suc k)) timeout xs = map res ys" using Cons by blast
  show ?case
  proof (cases "expire (now 0) timeout it")
    case True
    then show ?thesis using y by (intro exI [of _ "it # ys"]) simp
  qed (intro exI [of _ "[]"], simp)
qed simp

lemma cleaned:
  assumes "gone = expired_back now timeout (rev xs)"
  shows "mset (map res (take (length xs - length gone) xs)) + mset gone = mset (map res xs)" and "length gone \<le> length xs"
proof -
  obtain ys where y: "rev xs = ys @ drop (length ys) (rev xs)" "gone = map res ys" using expired_back_prefix assms by blast
  then have x: "xs = rev (drop (length ys) (rev xs)) @ rev ys" by (metis rev_append rev_rev_ident)
  have len: "length gone = length ys" "length ys \<le> length xs" using y(2) arg_cong [OF x, of length] by simp_all
  have "take (length xs - length gone) xs = rev (drop (length ys) (rev xs))" using x len by (simp add: rev_drop)
  then have "mset (map res (take (length xs - length gone) xs)) + mset gone = mset (map res (rev (drop (length ys) (rev xs)) @ rev ys))"
    using y(2) by simp
  then show "mset (map res (take (length xs - length gone) xs)) + mset gone = mset (map res xs)" using x by simp
  show "length gone \<le> length xs" using len by simp
qed

lemma cleanExpired_pinv:
  assumes inv: "pinv l" and p: "p < length (procs l)" and pc: "procs l ! p = CleanRun"
  shows "pinv (cleanExpired p now l)"
proof (cases "closed l \<or> idleTimeout (conf l) \<le>s 0")
  case True
  then show ?thesis by (intro pinv_step [OF inv p, where y = 0 and x = 0]) (use inv pc in \<open>auto simp: cleanExpired_def pc_to_def pinv_def\<close>)
next
  case False
  let ?g = "expired_back now (idleTimeout (conf l)) (rev (idles l))"
  note c = cleaned [OF refl [of ?g]]
  have "closed (cleanExpired p now l) = closed l" using False by (simp add: cleanExpired_def pc_to_def notifyLocked_def Let_def)
  moreover have "active (cleanExpired p now l) + of_nat (length ?g) = active l"
    using False by (simp add: cleanExpired_def pc_to_def notifyLocked_def Let_def not_minus)
  moreover have "idles (cleanExpired p now l) = take (length (idles l) - length ?g) (idles l)"
    using False by (simp add: cleanExpired_def pc_to_def notifyLocked_def Let_def)
  moreover have "procs (cleanExpired p now l) = (procs l)[p := CleanShut ?g]" "held (cleanExpired p now l) = held l"
    "shut (cleanExpired p now l) = shut l" "created (cleanExpired p now l) = created l"
    using False by (simp_all add: cleanExpired_def pc_to_def notifyLocked_def Let_def)
  ultimately show ?thesis
    by (intro pinv_step [OF inv p, where y = "length ?g" and x = 0 and pc = "CleanShut ?g"]) (use c pc False in \<open>auto simp: ac_simps\<close>)
qed

lemma close_pinv:
  assumes inv: "pinv l" and p: "p < length (procs l)" and pc: "procs l ! p = CloseEnter"
  shows "pinv (close_enter p l)"
proof (cases "closed l")
  case True
  then show ?thesis by (intro pinv_step [OF inv p, where y = 0 and x = 0]) (use inv pc in \<open>auto simp: close_enter_def pc_to_def pinv_def\<close>)
next
  case False
  then show ?thesis
    by (intro pinv_step [OF inv p, where y = "length (idles l)" and x = 0 and pc = "CloseShut (map res (idles l))"])
      (use pc in \<open>auto simp: close_enter_def pc_to_def notifyLocked_def Let_def not_minus ac_simps\<close>)
qed

lemma put_pinv:
  assumes inv: "pinv l" and p: "p < length (procs l)" and pc: "procs l ! p = PutEnter r force"
  shows "pinv (put_enter p now r force l)"
proof -
  let ?xs = "\<lparr>createdAt = now, res = r\<rparr> # idles l"
  have x: "mset (map res (butlast ?xs)) + {#res (last ?xs)#} = mset (map res ?xs)"
    using append_butlast_last_id [of ?xs] by (metis list.distinct(1) map_append mset_append list.simps(8,9) mset_single_iff_right mset.simps)
  consider (drop) "\<not> closed l" "\<not> force" "of_nat (length ?xs) > maxIdle (conf l)" | (keep) "\<not> closed l" "\<not> force" "\<not> of_nat (length ?xs) > maxIdle (conf l)"
    | (close) "closed l \<or> force" by blast
  then show ?thesis
  proof cases
    case drop
    then show ?thesis
      by (intro pinv_step [OF inv p, where y = 1 and x = 0 and pc = "PutShut (res (last ?xs))"])
        (use pc x in \<open>auto simp: put_enter_def pc_to_def notifyLocked_def releaseLocked_def Let_def ac_simps\<close>)
  next
    case keep
    then show ?thesis
      by (intro pinv_step [OF inv p, where y = 0 and x = 0 and pc = PutDone])
        (use pc in \<open>auto simp: put_enter_def pc_to_def notifyLocked_def Let_def ac_simps\<close>)
  next
    case close
    then show ?thesis
      by (intro pinv_step [OF inv p, where y = 1 and x = 0 and pc = "PutShut r"])
        (use pc inv in \<open>auto simp: put_enter_def pc_to_def notifyLocked_def releaseLocked_def Let_def ac_simps pinv_def\<close>)
  qed
qed

lemma run_step_pinv:
  assumes inv: "pinv l" and p: "p < length (procs l)" and pc: "procs l ! p = pc"
  shows "pinv (run_step p now pc l)"
proof -
  have cl: "closed l \<Longrightarrow> idles l = []" using inv by (simp add: pinv_def)
  have g: "l = l\<lparr>active := active l, generation := generation l\<rparr>" by (cases l) simp
  show ?thesis
  proof (cases pc)
    case GetEnter
    then show ?thesis using get_loop_pinv [OF inv p _ g, of 0 "length (idles l)"] pc cl
        pinv_step [OF inv p, where l' = "pc_to p (GetDone (Err ErrPoolClosed)) l" and y = 0 and x = 0 and pc = "GetDone (Err ErrPoolClosed)"]
      by (auto simp: get_enter_def pc_to_def)
  next
    case GetRetry
    then show ?thesis using get_loop_pinv [OF inv p _ g, of 0 "length (idles l)"] pc by simp
  next
    case (GetRelease i n)
    have e: "releaseLocked l = l\<lparr>active := active l + NOT 0, generation := generation l + 1\<rparr>" by (simp add: releaseLocked_def notifyLocked_def)
    show ?thesis using get_loop_pinv [OF inv p _ e, of "i + 1" n] pc GetRelease by simp
  next
    case (GetHave it timeout i n)
    show ?thesis
    proof (cases "expire (now 0) timeout it")
      case True
      then show ?thesis using GetHave pc cl
        by (auto simp: get_have_def do_shutdown_def pc_to_def intro!: pinv_step [OF inv p, where pc = "GetRelease i n" and y = 0 and x = 0])
    next
      case False
      then show ?thesis using GetHave pc cl
        by (auto simp: get_have_def pc_to_def intro!: pinv_step [OF inv p, where pc = "GetDone (Ok (res it))" and y = 0 and x = 0])
    qed
  next
    case GetFailed
    then show ?thesis using pc cl
      by (auto simp: pc_to_def releaseLocked_def notifyLocked_def intro!: pinv_step [OF inv p, where pc = "GetDone (Err ErrNew)" and y = 1 and x = 0])
  next
    case (GetWait g)
    then show ?thesis using pc cl inv by (auto simp: pc_to_def intro!: pinv_step [OF inv p, where pc = GetRetry and y = 0 and x = 0])
  next
    case (PutEnter r force)
    then show ?thesis using put_pinv [OF inv p] pc by simp
  next
    case (PutShut r)
    then show ?thesis using pc cl by (auto simp: pc_to_def do_shutdown_def intro!: pinv_step [OF inv p, where pc = PutDone and y = 0 and x = 0])
  next
    case CloseEnter
    then show ?thesis using close_pinv [OF inv p] pc by simp
  next
    case (CloseShut rs)
    then show ?thesis using pc cl
    proof (cases rs)
      case Nil
      then show ?thesis using CloseShut pc cl by (auto simp: pc_to_def intro!: pinv_step [OF inv p, where pc = CloseWait and y = 0 and x = 0])
    next
      case (Cons r rs')
      then show ?thesis using CloseShut pc cl
        by (auto simp: pc_to_def do_shutdown_def intro!: pinv_step [OF inv p, where pc = "CloseShut rs'" and y = 0 and x = 0])
    qed
  next
    case CloseWait
    then show ?thesis using pc cl inv by (auto simp: pc_to_def intro!: pinv_step [OF inv p, where pc = "CloseDone (Ok ())" and y = 0 and x = 0])
  next
    case CleanTop
    then show ?thesis using pc cl by (auto simp: pc_to_def intro!: pinv_step [OF inv p, where pc = "CleanSelect (idleTimeout (conf l))" and y = 0 and x = 0])
  next
    case (CleanSelect timeout)
    then show ?thesis using pc cl inv by (auto simp: pc_to_def intro!: pinv_step [OF inv p, where pc = CleanDone and y = 0 and x = 0])
  next
    case CleanRun
    then show ?thesis using cleanExpired_pinv [OF inv p] pc by simp
  next
    case (CleanShut rs)
    then show ?thesis
    proof (cases rs)
      case Nil
      then show ?thesis using CleanShut pc cl by (auto simp: pc_to_def intro!: pinv_step [OF inv p, where pc = CleanTop and y = 0 and x = 0])
    next
      case (Cons r rs')
      then show ?thesis using CleanShut pc cl
        by (auto simp: pc_to_def do_shutdown_def intro!: pinv_step [OF inv p, where pc = "CleanShut rs'" and y = 0 and x = 0])
    qed
  qed (use inv in simp_all)
qed

lemma pstep_pinv:
  assumes inv: "pinv l" and p: "p < length (procs l)" and pc: "procs l ! p = pc"
  shows "pinv (pstep p c pc l)"
proof -
  have cl: "closed l \<Longrightarrow> idles l = []" using inv by (simp add: pinv_def)
  show ?thesis
  proof (cases c)
    case (SNew ok)
    show ?thesis
    proof (cases "pc = GetCreate")
      case True
      have "pinv (get_create p ok l)" using True pc cl
        by (cases ok) (auto simp: get_create_def pc_to_def
            intro: pinv_step [OF inv p, where pc = "GetDone (Ok (created l))" and y = 0 and x = 0] pinv_step [OF inv p, where pc = GetFailed and y = 0 and x = 0])
      then show ?thesis using SNew True by (simp add: pstep_def)
    next
      case False
      then show ?thesis using SNew inv by (simp add: pstep_def split: ppc.splits)
    qed
  next
    case SGiveUp
    then show ?thesis using pc cl inv
      by (auto simp: pstep_def pc_to_def intro!: pinv_step [OF inv p, where pc = "GetDone (Err ErrContext)" and y = 0 and x = 0] split: ppc.splits)
  next
    case STimer
    then show ?thesis using pc cl inv
      by (auto simp: pstep_def pc_to_def intro!: pinv_step [OF inv p, where pc = CleanRun and y = 0 and x = 0] split: ppc.splits)
  next
    case SWake
    then show ?thesis using pc cl inv
      by (auto simp: pstep_def pc_to_def intro!: pinv_step [OF inv p, where pc = CleanRun and y = 0 and x = 0] split: ppc.splits)
  qed (use run_step_pinv [OF inv p pc] in \<open>simp add: pstep_def\<close>)
qed

lemma pdo_pinv: "pinv l \<Longrightarrow> pinv (pdo ev l)"
proof (cases ev)
  case (CallPut r force)
  assume inv: "pinv l"
  show ?thesis
  proof (cases "r \<in> set (held l)")
    case True
    then have "mset (held l) = mset (remove1 r (held l)) + {#r#}" "length (held l) = Suc (length (remove1 r (held l)))"
      using length_pos_if_in_set [OF True] by (simp_all add: length_remove1)
    then show ?thesis using inv CallPut True by (simp add: pinv_def in_use_def ac_simps)
  qed (use inv CallPut in simp)
next
  case (PStep p c)
  then show "pinv l \<Longrightarrow> ?thesis" by (simp add: pstep_pinv)
qed (auto simp: pinv_def in_use_def Reload_def Init_def New_def notifyLocked_def wakeCleaner_def Let_def)

lemma NewList_pinv: "pinv (NewList opts)"
  by (simp add: pinv_def NewList_def in_use_def)

lemma prun_pinv: "pinv l \<Longrightarrow> pinv (prun evs l)"
  by (induction evs arbitrary: l) (simp_all add: prun_def pdo_pinv)

text \<open>A call that has returned.\<close>

definition finished :: "ppc \<Rightarrow> bool" where
  "finished pc \<longleftrightarrow> (case pc of GetDone _ \<Rightarrow> True | PutDone \<Rightarrow> True | CloseDone _ \<Rightarrow> True | CleanDone \<Rightarrow> True | _ \<Rightarrow> False)"

lemma finished_nothing: "finished pc \<Longrightarrow> owned pc = {#} \<and> counted pc = 0"
  by (cases pc) (simp_all add: finished_def)

text \<open>
  C7: A resource is in one place. Whatever the interleaving of the calls and of the cleaner, the resources that lie idle,
  that callers hold and that were shut down are all different: no resource is handed to two callers, none is handed out or kept
  after its shutdown, and none is shut down twice. When the pool is closed, every call has returned and every
  resource was put back, all resources the constructor made were shut down and the counter is back at zero.
\<close>

theorem pool_exclusive:
  assumes "l = prun evs (NewList opts)"
  shows "distinct (map res (idles l) @ held l @ shut l) \<and>
    (closed l \<and> held l = [] \<and> (\<forall>pc \<in> set (procs l). finished pc) \<longrightarrow>
       set (shut l) = {0..<created l} \<and> active l = 0)"
proof -
  have inv: "pinv l" unfolding assms by (rule prun_pinv [OF NewList_pinv])
  then have m: "mset (map res (idles l) @ held l @ shut l) + sum_list (map owned (procs l)) = mset [0..<created l]" by (simp add: pinv_def ac_simps)
  have "distinct (map res (idles l) @ held l @ shut l)"
  proof (rule ccontr)
    let ?xs = "map res (idles l) @ held l @ shut l"
    assume "\<not> distinct ?xs"
    then obtain r where r: "count (mset ?xs) r > 1" using distinct_count_atmost_1 [of ?xs]
      by (metis One_nat_def count_mset_0_iff less_one linorder_neqE_nat)
    then have "count (mset [0..<created l]) r > 1" unfolding m [symmetric] by simp
    then show False using distinct_count_atmost_1 [of "[0..<created l]"] by (metis distinct_upt less_numeral_extra(4) not_one_less_zero)
  qed
  moreover have "set (shut l) = {0..<created l} \<and> active l = 0"
    if fin: "closed l \<and> held l = [] \<and> (\<forall>pc \<in> set (procs l). finished pc)"
  proof -
    have h: "closed l \<and> held l = [] \<and> (\<forall>pc \<in> set (procs l). owned pc = {#} \<and> counted pc = 0)" using fin finished_nothing by blast
    have i: "idles l = []" using inv h by (simp add: pinv_def)
    have s: "sum_list (map owned (procs l)) = {#}" "sum_list (map counted (procs l)) = 0" 
      using h sum_list_zero [of "procs l" owned] sum_list_zero [of "procs l" counted] by simp_all
    have "mset (shut l) = mset [0..<created l]" using m i s h by simp
    then have "set (shut l) = {0..<created l}" by (metis atLeastLessThan_upt set_mset_mset)
    then show ?thesis using inv i s h by (simp add: pinv_def in_use_def)
  qed
  ultimately show ?thesis by blast
qed

definition demo_drain :: "pevent list" where
  "demo_drain = (let run = SRun (\<lambda>_. 0) in
     [CallNew True, CallGet, PStep 1 run, PStep 1 (SNew True), CallPut 0 False, PStep 2 run, CallShutdown, PStep 3 run, PStep 3 run, PStep 3 run,
      PStep 0 run, PStep 0 run, PStep 3 run])"

theorem pool_exclusive_witness:
  "set (shut (prun demo_drain (NewList []))) = {0..<created (prun demo_drain (NewList []))} \<and> shut (prun demo_drain (NewList [])) = [0]"
proof -
  have 1: "closed (prun demo_drain (NewList []))" by code_simp
  have 2: "held (prun demo_drain (NewList [])) = []" by code_simp
  have 3: "list_all finished (procs (prun demo_drain (NewList [])))" by code_simp
  have 4: "shut (prun demo_drain (NewList [])) = [0]" by code_simp
  show ?thesis using pool_exclusive [OF refl, of demo_drain "[]"] 1 2 3 4 by (auto simp: list_all_iff)
qed

end
