(* ===== verification/PoolWait.thy ===== *)
theory PoolWait
  imports PoolInv
begin

text \<open>
  The limits of the resource pool and its wake-ups: with a limit on the resources in use, the counter never passes it, the idle
  list never passes its own limit, and a \<open>Get\<close> that sleeps on the present generation sleeps for a reason.
\<close>

section \<open>The invariant\<close>

definition justified :: "pool \<Rightarrow> bool" where
  "justified l \<longleftrightarrow> idles l = [] \<and> \<not> closed l \<and> maxActive (conf l) \<le> active l"

definition winv :: "pool \<Rightarrow> bool" where
  "winv l \<longleftrightarrow> pinv l \<and> maxActive (conf l) \<noteq> 0 \<and> in_use l \<le> unat (maxActive (conf l)) \<and> length (idles l) \<le> unat (maxIdle (conf l)) \<and>
     (\<forall>q < length (procs l). \<forall>g. procs l ! q = GetWait g \<longrightarrow> g \<le> generation l \<and> (g = generation l \<longrightarrow> justified l))"

lemma in_use_active:
  assumes "winv l"
  shows "unat (active l) = in_use l"
proof -
  have "unat (maxActive (conf l)) < 2 ^ LENGTH(64)" by (rule unsigned_less)
  then have "in_use l < 2 ^ 64" using assms by (simp add: winv_def)
  then show ?thesis using assms by (simp add: winv_def pinv_def unat_of_nat)
qed

text \<open>A step of one call. It either notifies the waiting calls or leaves what they wait for.\<close>

lemma pwait_step:
  assumes inv: "winv l" and p: "p < length (procs l)" and procs: "procs l' = (procs l)[p := pc]" and pin: "pinv l'" and conf: "conf l' = conf l"
    and use: "length (idles l') + length (held l') + counted pc \<le> length (idles l) + length (held l) + counted (procs l ! p) + x"
    and grow: "x = 0 \<or> x = 1 \<and> active l < maxActive (conf l)"
    and idle: "length (idles l') \<le> unat (maxIdle (conf l))"
    and quiet: "generation l' = Suc (generation l) \<or> generation l' = generation l \<and> (justified l \<longrightarrow> justified l')"
    and wait: "\<And>g. pc = GetWait g \<Longrightarrow> g \<le> generation l' \<and> (g = generation l' \<longrightarrow> justified l')"
  shows "winv l'"
proof -
  have C: "sum_list (map counted (procs l')) + counted (procs l ! p) = sum_list (map counted (procs l)) + counted pc"
    unfolding procs by (rule sum_list_update_nth [OF p])
  have "in_use l' \<le> in_use l + x" using C use by (simp add: in_use_def)
  moreover have "in_use l + x \<le> unat (maxActive (conf l))"
    using grow inv in_use_active [OF inv] by (auto simp: winv_def word_less_nat_alt)
  ultimately have u: "in_use l' \<le> unat (maxActive (conf l'))" unfolding conf by simp
  have w: "g \<le> generation l' \<and> (g = generation l' \<longrightarrow> justified l')" if q: "q < length (procs l')" "procs l' ! q = GetWait g" for q g
  proof (cases "q = p")
    case True
    then show ?thesis using wait q procs p by simp
  next
    case False
    then have "g \<le> generation l \<and> (g = generation l \<longrightarrow> justified l)" using inv q procs by (auto simp: winv_def)
    then show ?thesis using quiet by auto
  qed
  show ?thesis unfolding winv_def using pin u w idle inv conf by (simp add: winv_def)
qed

lemma winv_quiet:
  assumes inv: "winv l" and p: "p < length (procs l)" and procs: "procs l' = (procs l)[p := pc]" and pin: "pinv l'"
    and same: "conf l' = conf l" "idles l' = idles l" "active l' = active l" "closed l' = closed l" "generation l' = generation l"
    and use: "length (held l') + counted pc \<le> length (held l) + counted (procs l ! p)" and "\<And>g. pc \<noteq> GetWait g"
  shows "winv l'"
  by (rule pwait_step [OF inv p procs pin same(1), where x = 0]) (use assms in \<open>auto simp: winv_def justified_def\<close>)

section \<open>Every step keeps it\<close>

lemma get_loop_winv:
  assumes inv: "winv l" and p: "p < length (procs l)" and pin: "pinv (get_loop p i n l1)"
    and l1: "l1 = l\<lparr>active := a, generation := g\<rparr>" and a: "a + of_nat (counted (procs l ! p)) = active l"
    and g: "g = Suc (generation l) \<and> counted (procs l ! p) = 1 \<or> g = generation l \<and> counted (procs l ! p) = 0 \<and> (i < n \<or> idles l = [])"
  shows "winv (get_loop p i n l1)"
proof (cases rule: get_loop_form [of l1 i n p])
  case (take it rest)
  then show ?thesis
    by (intro pwait_step [OF inv p _ pin, where x = 0 and pc = "GetHave it (idleTimeout (conf l)) i n"])
      (use l1 g inv in \<open>auto simp: pc_to_def take(3) justified_def winv_def\<close>)
next
  case check
  obtain pc where pc: "get_check p l1 = pc_to p pc (l1\<lparr>active := active l1 + of_nat (counted pc)\<rparr>)" "owned pc = {#}"
    "\<forall>g. pc = GetWait g \<longrightarrow> g = generation l1 \<and> \<not> closed l1 \<and> maxActive (conf l1) \<noteq> 0 \<and> maxActive (conf l1) \<le> active l1"
    "counted pc \<noteq> 0 \<longrightarrow> maxActive (conf l1) = 0 \<or> active l1 < maxActive (conf l1)"
    by (rule get_check_form)
  have c1: "counted pc \<le> 1" by (cases pc) simp_all
  have M: "maxActive (conf l) \<noteq> 0" using inv by (simp add: winv_def)
  show ?thesis
  proof (cases "counted (procs l ! p) = 1")
    case True
    have "in_use l \<noteq> 0" using True nth_mem [OF p] by (auto simp: in_use_def intro!: bexI [of _ "procs l ! p"])
    then have nz: "active l \<noteq> 0" using in_use_active [OF inv] by auto
    have "a = active l - 1" using a True by (simp add: eq_diff_eq)
    then have "a < active l" using unat_minus_one [OF nz] nz by (simp add: word_less_nat_alt unat_gt_0)
    then have "active l1 < maxActive (conf l1)" using in_use_active [OF inv] inv l1 by (simp add: winv_def word_less_nat_alt)
    then show ?thesis unfolding check(1) pc(1)
      by (intro pwait_step [OF inv p _ pin [unfolded check(1) pc(1)], where x = 0 and pc = pc])
        (use l1 g inv True c1 pc(3) in \<open>auto simp: pc_to_def winv_def\<close>)
  next
    case False
    then have f: "g = generation l" "counted (procs l ! p) = 0" "idles l = []" "a = active l" using g a check(2) l1 by auto
    show ?thesis unfolding check(1) pc(1)
      by (intro pwait_step [OF inv p _ pin [unfolded check(1) pc(1)], where x = "counted pc" and pc = pc])
        (use l1 f inv c1 pc(3,4) M in \<open>auto simp: pc_to_def winv_def justified_def\<close>)
  qed
qed

lemma put_winv:
  assumes inv: "winv l" and p: "p < length (procs l)" and pc: "procs l ! p = PutEnter r force" and pin: "pinv (put_enter p now r force l)"
  shows "winv (put_enter p now r force l)"
proof -
  let ?xs = "\<lparr>createdAt = now, res = r\<rparr> # idles l"
  have "counted (procs l ! p) \<le> sum_list (map counted (procs l))" using p by (intro member_le_sum_list) simp_all
  then have "length ?xs \<le> in_use l" using pc by (simp add: in_use_def)
  moreover have "in_use l < 2 ^ 64" using in_use_active [OF inv] unsigned_less [of "active l", where 'a = nat] by simp
  ultimately have len: "unat (of_nat (length ?xs) :: u64) = length ?xs" by (simp only: unat_of_nat) simp
  consider (drop) "\<not> closed l" "\<not> force" "of_nat (length ?xs) > maxIdle (conf l)" | (keep) "\<not> closed l" "\<not> force" "\<not> of_nat (length ?xs) > maxIdle (conf l)"
    | (close) "closed l \<or> force" by blast
  then show ?thesis
  proof cases
    case drop
    then show ?thesis
      by (intro pwait_step [OF inv p _ pin, where x = 0 and pc = "PutShut (res (last ?xs))"])
        (use pc inv in \<open>auto simp: put_enter_def pc_to_def notifyLocked_def releaseLocked_def Let_def winv_def\<close>)
  next
    case keep
    then have "length ?xs \<le> unat (maxIdle (conf l))" using len by (simp add: word_less_nat_alt)
    with keep show ?thesis
      by (intro pwait_step [OF inv p _ pin, where x = 0 and pc = PutDone])
        (use pc in \<open>auto simp: put_enter_def pc_to_def notifyLocked_def Let_def\<close>)
  next
    case close
    then show ?thesis
      by (intro pwait_step [OF inv p _ pin, where x = 0 and pc = "PutShut r"])
        (use pc inv in \<open>auto simp: put_enter_def pc_to_def notifyLocked_def releaseLocked_def Let_def winv_def\<close>)
  qed
qed

lemma cleanExpired_winv:
  assumes inv: "winv l" and p: "p < length (procs l)" and pc: "procs l ! p = CleanRun"
  shows "winv (cleanExpired p now l)"
proof -
  have pin: "pinv (cleanExpired p now l)" using cleanExpired_pinv p pc inv by (simp add: winv_def)
  show ?thesis
  proof (cases "closed l \<or> idleTimeout (conf l) \<le>s 0")
    case True
    then show ?thesis by (intro winv_quiet [OF inv p _ pin, where pc = CleanTop]) (use pc in \<open>auto simp: cleanExpired_def pc_to_def\<close>)
  next
    case False
    then show ?thesis
      by (intro pwait_step [OF inv p _ pin, where x = 0 and pc = "CleanShut (expired_back now (idleTimeout (conf l)) (rev (idles l)))"])
        (use pc inv in \<open>auto simp: cleanExpired_def pc_to_def notifyLocked_def Let_def justified_def winv_def\<close>)
  qed
qed

lemma run_step_winv:
  assumes inv: "winv l" and p: "p < length (procs l)" and pc: "procs l ! p = pc"
  shows "winv (run_step p now pc l)"
proof -
  have "pinv l" using inv by (simp add: winv_def)
  from run_step_pinv [OF this p pc] have pin: "pinv (run_step p now pc l)" .
  have g: "l = l\<lparr>active := active l, generation := generation l\<rparr>" by (cases l) simp
  note quiet = winv_quiet [OF inv p _ pin] and loop = get_loop_winv [OF inv p]
  show ?thesis
  proof (cases pc)
    case GetEnter
    show ?thesis
    proof (cases "closed l")
      case True
      then show ?thesis by (intro quiet [where pc = "GetDone (Err ErrPoolClosed)"]) (use GetEnter pc in \<open>auto simp: get_enter_def pc_to_def\<close>)
    next
      case False
      then have "run_step p now pc l = get_loop p 0 (length (idles l)) l" using GetEnter by (simp add: get_enter_def)
      then show ?thesis using loop [OF _ g, of 0 "length (idles l)"] pin pc GetEnter by auto
    qed
  next
    case GetRetry
    then show ?thesis using loop [OF _ g, of 0 "length (idles l)"] pin pc by auto
  next
    case (GetRelease i n)
    have e: "releaseLocked l = l\<lparr>active := active l + NOT 0, generation := generation l + 1\<rparr>" by (simp add: releaseLocked_def notifyLocked_def)
    show ?thesis using loop [OF _ e, of "i + 1" n] pin pc GetRelease by simp
  next
    case (GetHave it timeout i n)
    show ?thesis
    proof (cases "expire (now 0) timeout it")
      case True
      then show ?thesis by (intro quiet [where pc = "GetRelease i n"]) (use GetHave pc in \<open>auto simp: get_have_def do_shutdown_def pc_to_def\<close>)
    next
      case False
      then show ?thesis by (intro quiet [where pc = "GetDone (Ok (res it))"]) (use GetHave pc in \<open>auto simp: get_have_def pc_to_def\<close>)
    qed
  next
    case GetFailed
    then show ?thesis
      by (intro pwait_step [OF inv p _ pin, where x = 0 and pc = "GetDone (Err ErrNew)"])
        (use pc inv in \<open>auto simp: pc_to_def releaseLocked_def notifyLocked_def winv_def\<close>)
  next
    case (GetWait g)
    show ?thesis
    proof (cases "g < generation l")
      case True
      then show ?thesis by (intro quiet [where pc = GetRetry]) (use GetWait pc in \<open>auto simp: pc_to_def\<close>)
    qed (use inv GetWait in simp)
  next
    case (PutEnter r force)
    then show ?thesis using put_winv [OF inv p, of r force "now 0"] pin pc by simp
  next
    case (PutShut r)
    then show ?thesis by (intro quiet [where pc = PutDone]) (use pc in \<open>auto simp: pc_to_def do_shutdown_def\<close>)
  next
    case CloseEnter
    show ?thesis
    proof (cases "closed l")
      case True
      then show ?thesis by (intro quiet [where pc = "CloseDone (Err ErrPoolClosed)"]) (use CloseEnter pc in \<open>auto simp: close_enter_def pc_to_def\<close>)
    next
      case False
      then show ?thesis
        by (intro pwait_step [OF inv p _ pin, where x = 0 and pc = "CloseShut (map res (idles l))"])
          (use CloseEnter pc inv in \<open>auto simp: close_enter_def pc_to_def notifyLocked_def Let_def\<close>)
    qed
  next
    case (CloseShut rs)
    then show ?thesis
      by (intro quiet [where pc = "case rs of [] \<Rightarrow> CloseWait | r # rs' \<Rightarrow> CloseShut rs'"])
        (use pc in \<open>auto simp: pc_to_def do_shutdown_def split: list.splits\<close>)
  next
    case CloseWait
    show ?thesis
    proof (cases "CleanDone \<in> set (procs l)")
      case True
      then show ?thesis by (intro quiet [where pc = "CloseDone (Ok ())"]) (use CloseWait pc in \<open>auto simp: pc_to_def\<close>)
    qed (use inv CloseWait in simp)
  next
    case CleanTop
    then show ?thesis by (intro quiet [where pc = "CleanSelect (idleTimeout (conf l))"]) (use pc in \<open>auto simp: pc_to_def\<close>)
  next
    case (CleanSelect timeout)
    show ?thesis
    proof (cases "cleanerStop l")
      case True
      then show ?thesis by (intro quiet [where pc = CleanDone]) (use CleanSelect pc in \<open>auto simp: pc_to_def\<close>)
    qed (use inv CleanSelect in simp)
  next
    case CleanRun
    then show ?thesis using cleanExpired_winv [OF inv p] pc by simp
  next
    case (CleanShut rs)
    then show ?thesis
      by (intro quiet [where pc = "case rs of [] \<Rightarrow> CleanTop | r # rs' \<Rightarrow> CleanShut rs'"])
        (use pc in \<open>auto simp: pc_to_def do_shutdown_def split: list.splits\<close>)
  qed (use inv in simp_all)
qed

lemma pstep_winv:
  assumes inv: "winv l" and p: "p < length (procs l)" and pc: "procs l ! p = pc"
  shows "winv (pstep p c pc l)"
proof -
  have "pinv l" using inv by (simp add: winv_def)
  from pstep_pinv [OF this p pc] have pin: "pinv (pstep p c pc l)" .
  note quiet = winv_quiet [OF inv p _ pin]
  show ?thesis
  proof (cases c)
    case (SNew ok)
    show ?thesis
    proof (cases "pc = GetCreate")
      case True
      then show ?thesis
        by (intro quiet [where pc = "if ok then GetDone (Ok (created l)) else GetFailed"]) (use SNew pc in \<open>auto simp: pstep_def get_create_def pc_to_def split: if_splits\<close>)
    next
      case False
      then show ?thesis using SNew inv by (simp add: pstep_def split: ppc.splits)
    qed
  next
    case SGiveUp
    show ?thesis
    proof (cases "\<exists>g. pc = GetWait g")
      case True
      then show ?thesis by (intro quiet [where pc = "GetDone (Err ErrContext)"]) (use SGiveUp pc in \<open>auto simp: pstep_def pc_to_def\<close>)
    next
      case False
      then show ?thesis using SGiveUp inv by (simp add: pstep_def split: ppc.splits)
    qed
  next
    case STimer
    show ?thesis
    proof (cases "\<exists>t. pc = CleanSelect t \<and> 0 <s t")
      case True
      then show ?thesis by (intro quiet [where pc = CleanRun]) (use STimer pc in \<open>auto simp: pstep_def pc_to_def\<close>)
    next
      case False
      then show ?thesis using STimer inv by (simp add: pstep_def split: ppc.splits)
    qed
  next
    case SWake
    show ?thesis
    proof (cases "\<exists>t. pc = CleanSelect t \<and> cleanerWake l")
      case True
      then show ?thesis by (intro quiet [where pc = CleanRun]) (use SWake pc in \<open>auto simp: pstep_def pc_to_def\<close>)
    next
      case False
      then show ?thesis using SWake inv by (auto simp: pstep_def split: ppc.splits)
    qed
  qed (use run_step_winv [OF inv p pc] in \<open>simp add: pstep_def\<close>)
qed

section \<open>Runs\<close>

fun keeps_conf :: "pevent \<Rightarrow> bool" where
  "keeps_conf (CallReload opts) = False"
| "keeps_conf ev = True"

lemma winv_call:
  assumes inv: "winv l" and pc: "procs l' = procs l @ [pc]" "\<And>g. pc \<noteq> GetWait g" and pin: "pinv l'"
    and same: "conf l' = conf l" "idles l' = idles l" "active l' = active l" "closed l' = closed l" "generation l' = generation l"
    and use: "length (held l') + counted pc = length (held l)"
  shows "winv l'"
proof -
  have "in_use l' = in_use l" using use pc same by (simp add: in_use_def)
  moreover have "g \<le> generation l \<and> (g = generation l \<longrightarrow> justified l)" if "q < length (procs l')" "procs l' ! q = GetWait g" for q g
    using that pc inv by (auto simp: winv_def nth_append split: if_splits)
  ultimately show ?thesis using inv same pin by (simp add: winv_def justified_def)
qed

lemma pdo_winv: "winv l \<Longrightarrow> keeps_conf ev \<Longrightarrow> winv (pdo ev l)"
proof -
  assume inv: "winv l" and k: "keeps_conf ev"
  have pin: "pinv (pdo ev l)" using inv pdo_pinv by (simp add: winv_def)
  show ?thesis
  proof (cases ev)
    case (CallPut r force)
    show ?thesis
    proof (cases "r \<in> set (held l)")
      case True
      then have "length (held l) = Suc (length (remove1 r (held l)))" using length_pos_if_in_set [OF True] by (simp add: length_remove1)
      then show ?thesis using True CallPut by (intro winv_call [OF inv _ _ pin, where pc = "PutEnter r force"]) auto
    qed (use inv CallPut in simp)
  next
    case (PStep p c)
    then show ?thesis using inv by (simp add: pstep_winv)
  next
    case CallGet
    then show ?thesis by (intro winv_call [OF inv _ _ pin, where pc = GetEnter]) auto
  next
    case CallShutdown
    then show ?thesis by (intro winv_call [OF inv _ _ pin, where pc = CloseEnter]) auto
  qed (use inv k pin in \<open>auto simp: winv_def justified_def in_use_def Init_def New_def wakeCleaner_def\<close>)
qed

lemma pdo_conf: "keeps_conf ev \<Longrightarrow> conf (pdo ev l) = conf l"
proof (cases ev)
  case (PStep p c)
  have "conf (get_loop p i n l1) = conf l1" for i n l1
    by (auto simp: get_loop_def get_check_def pc_to_def split: list.splits)
  then have "conf (run_step p now pc l) = conf l" for now pc
    by (cases pc) (auto simp: get_enter_def get_have_def put_enter_def close_enter_def cleanExpired_def pc_to_def
        releaseLocked_def notifyLocked_def do_shutdown_def Let_def split: list.splits)
  then show ?thesis using PStep by (auto simp: pstep_def get_create_def pc_to_def split: pchoice.splits ppc.splits)
qed (auto simp: Init_def New_def wakeCleaner_def)

lemma prun_winv:
  "winv l \<Longrightarrow> list_all keeps_conf evs \<Longrightarrow> winv (prun evs l) \<and> conf (prun evs l) = conf l"
  by (induction evs arbitrary: l) (simp_all add: prun_def pdo_winv pdo_conf)

lemma NewList_winv: "maxActive (conf (NewList opts)) \<noteq> 0 \<Longrightarrow> winv (NewList opts)"
  using NewList_pinv [of opts] by (auto simp: winv_def NewList_def in_use_def)

text \<open>
  C22: The limits hold. In a pool with a limit that is not reconfigured, whatever the interleaving, the counter is exactly the number of resources
  that are idle, that callers hold, and that are with a call that took one, is making one, or has one yet to give back; it is never above the limit,
  and the idle list is never longer than its own limit. A resource that \<open>Put\<close> or the cleaner gave up is not counted from then on, while
  its \<open>Shutdown\<close> is still to run.
\<close>

theorem pool_bounded:
  assumes "maxActive (conf (NewList opts)) \<noteq> 0" and "list_all keeps_conf evs" and "l = prun evs (NewList opts)"
  shows "unat (active l) = length (idles l) + length (held l) + sum_list (map counted (procs l)) \<and>
    unat (active l) \<le> unat (maxActive (conf (NewList opts))) \<and> length (idles l) \<le> unat (maxIdle (conf (NewList opts)))"
proof -
  have w: "winv l" "conf l = conf (NewList opts)" using prun_winv [OF NewList_winv [OF assms(1)] assms(2)] assms(3) by simp_all
  show ?thesis using w in_use_active [OF w(1)] by (simp add: winv_def in_use_def)
qed

definition demo_pool :: "pevent list" where
  "demo_pool = [CallNew True, CallGet, CallGet, PStep 1 (SRun (\<lambda>_. 0)), PStep 2 (SRun (\<lambda>_. 0)), PStep 1 (SNew True)]"

theorem pool_bounded_witness:
  "unat (active (prun demo_pool (NewList [SetActive 1, SetWait True 0]))) \<le> 1 \<and>
   held (prun demo_pool (NewList [SetActive 1, SetWait True 0])) = [0]"
proof -
  have 1: "maxActive (conf (NewList [SetActive 1, SetWait True 0])) \<noteq> 0" by code_simp
  have 2: "list_all keeps_conf demo_pool" by code_simp
  have 3: "maxActive (conf (NewList [SetActive 1, SetWait True 0])) = 1" by code_simp
  have 4: "held (prun demo_pool (NewList [SetActive 1, SetWait True 0])) = [0]" by code_simp
  show ?thesis using pool_bounded [OF 1 2 refl, THEN conjunct2, THEN conjunct1] unfolding 3 4 by simp
qed

text \<open>
  C11: No wake-up is lost. In a pool with a limit that is not reconfigured, a \<open>Get\<close> that sleeps on a channel that is still
  open sleeps for a reason: the pool is open, nothing is idle, and as many resources as the limit allows are with other calls. As
  soon as a resource is put back, shut down or fails to be made, or the pool is closed, its channel is closed and it can go on.
\<close>

theorem pool_no_lost_wakeup:
  assumes "maxActive (conf (NewList opts)) \<noteq> 0" and "list_all keeps_conf evs" and "l = prun evs (NewList opts)"
    and "p < length (procs l)" and "procs l ! p = GetWait g"
  shows "run_step p now (GetWait g) l = pc_to p GetRetry l \<or>
    g = generation l \<and> \<not> closed l \<and> idles l = [] \<and>
    length (held l) + sum_list (map counted (procs l)) = unat (maxActive (conf (NewList opts)))"
proof -
  have w: "winv l" "conf l = conf (NewList opts)" using prun_winv [OF NewList_winv [OF assms(1)] assms(2)] assms(3) by simp_all
  have "g \<le> generation l \<and> (g = generation l \<longrightarrow> justified l)" using w(1) assms(4,5) by (simp add: winv_def)
  moreover have "in_use l = unat (maxActive (conf l))" if "justified l"
    using that w(1) in_use_active [OF w(1)] by (simp add: winv_def justified_def word_le_nat_alt)
  ultimately show ?thesis using w by (cases "g < generation l") (auto simp: justified_def in_use_def)
qed

theorem pool_no_lost_wakeup_witness:
  "run_step 2 (\<lambda>_. 0) (GetWait 0) (prun demo_pool (NewList [SetActive 1, SetWait True 0])) =
     pc_to 2 GetRetry (prun demo_pool (NewList [SetActive 1, SetWait True 0])) \<or>
   idles (prun demo_pool (NewList [SetActive 1, SetWait True 0])) = []"
proof -
  have 1: "maxActive (conf (NewList [SetActive 1, SetWait True 0])) \<noteq> 0" by code_simp
  have 2: "list_all keeps_conf demo_pool" by code_simp
  have 3: "length (procs (prun demo_pool (NewList [SetActive 1, SetWait True 0]))) = 3" by code_simp
  have 4: "procs (prun demo_pool (NewList [SetActive 1, SetWait True 0])) ! 2 = GetWait 0" by code_simp
  show ?thesis using pool_no_lost_wakeup [OF 1 2 refl _ 4, of "\<lambda>_. 0"] 3 by auto
qed

text \<open>
  The pool must not be reconfigured. Here the limit is lowered and a resource is put back while a \<open>Get\<close> shuts down
  an expired item: its inner loop is over, the new limit is reached, and it goes to sleep on the present channel although a
  resource lies idle and no other call is under way.
\<close>

definition demo_reload :: "pevent list" where
  "demo_reload = (let run = \<lambda>t. SRun (\<lambda>_. t) in
     [CallNew True, CallGet, PStep 1 (run 0), PStep 1 (SNew True), CallGet, PStep 2 (run 0), PStep 2 (SNew True),
      CallPut 0 False, PStep 3 (run 0), CallGet, PStep 4 (run 100000000000), CallReload [SetActive 1],
      CallPut 1 False, PStep 5 (run 100000000000), PStep 4 (run 100000000000), PStep 4 (run 100000000000)])"

theorem reload_sleeps_with_idle:
  "(let l = prun demo_reload (NewList [SetActive 2, SetWait True 0])
    in procs l ! 4 = GetWait (generation l) \<and> map res (idles l) = [1] \<and> held l = [] \<and> list_all finished (take 3 (drop 1 (procs l))))"
  by code_simp

end
