(* ===== verification/Subset.thy ===== *)
theory Subset
  imports Prelude
begin

text \<open>
  Subset selection, \<open>registry/rock_steadier_subset.go\<close>: the services of a cluster are dealt out to its clients as the rows of a
  matrix, and a client is given the services of its own row and then of the rows after it. \<open>AddService\<close> and
  \<open>RemoveService\<close> send commands to one goroutine, the sentinel, which replaces the matrix by a changed copy; readers take
  whole matrices. A slice of pointers is a list of options. The numbers that the shuffles draw are arguments.
\<close>

section \<open>Data\<close>

type_synonym matrix = "int option list list"

datatype subset_err = ErrorHasBeenClosed | ErrorNoClients | ErrorContext

datatype command = CmdAdd "int list" | CmdRemove "int list"

text \<open>A call of \<open>AddService\<close> or \<open>RemoveService\<close>: in its \<open>select\<close>, or returned.\<close>

datatype call = Selecting command | Returned "subset_err option"

record subset =
  clients :: "int list"
  matrixServices :: matrix
  appendIndex :: nat
  hasClient :: "int \<Rightarrow> nat option"
  hasService :: "int \<Rightarrow> (nat \<times> nat) option"
  col :: nat
  commands :: "command list"
  buf :: nat
  closed :: bool
  ctx_done :: bool
  stopped :: bool
  calls :: "call list"

definition Lot :: nat where
  "Lot = 10"

section \<open>Construction\<close>

text \<open>The services without repetitions, in the order of their first occurrence.\<close>

fun unique :: "int list \<Rightarrow> int list \<Rightarrow> int list" where
  "unique seen [] = []"
| "unique seen (s # ss) = (if s \<in> set seen then unique seen ss else s # unique (s # seen) ss)"

definition append_at :: "nat \<Rightarrow> int option \<Rightarrow> matrix \<Rightarrow> matrix" where
  "append_at x v m = m[x := m ! x @ [v]]"

text \<open>The services are dealt to the rows in turn; \<open>i\<close> is the number of those dealt.\<close>

fun deal :: "nat \<Rightarrow> nat \<Rightarrow> int list \<Rightarrow> matrix \<times> nat \<Rightarrow> matrix \<times> nat" where
  "deal pad i [] mc = mc"
| "deal pad i (s # ss) mc =
     (let m1 = append_at (i mod pad) (Some s) (fst mc)
      in deal pad (i + 1) ss (m1, max (snd mc) (length (m1 ! (i mod pad)))))"

text \<open>The rows that got one less are padded with nil. The loop makes fewer than \<open>pad\<close> rounds.\<close>

fun pad_rows :: "nat \<Rightarrow> nat \<Rightarrow> nat \<Rightarrow> matrix \<Rightarrow> matrix" where
  "pad_rows 0 pad ls m = m"
| "pad_rows (Suc fuel) pad ls m =
     (if ls mod pad \<noteq> 0 then pad_rows fuel pad (ls + 1) (append_at (ls mod pad) None m) else m)"

text \<open>\<open>rand.Shuffle\<close>: for \<open>i\<close> from the last index down to 1, swap with an index up to \<open>i\<close> that is drawn.\<close>

definition swap :: "nat \<Rightarrow> nat \<Rightarrow> 'a list \<Rightarrow> 'a list" where
  "swap i j xs = xs[i := xs ! j, j := xs ! i]"

fun shuffle_with :: "(nat \<Rightarrow> nat) \<Rightarrow> nat \<Rightarrow> (nat \<Rightarrow> nat \<Rightarrow> 'a \<Rightarrow> 'a) \<Rightarrow> 'a \<Rightarrow> 'a" where
  "shuffle_with draw 0 sw x = x"
| "shuffle_with draw (Suc i) sw x = shuffle_with draw i sw (sw (Suc i) (draw (Suc i) mod Suc (Suc i)) x)"

definition shuffle :: "(nat \<Rightarrow> nat) \<Rightarrow> (nat \<Rightarrow> nat) \<Rightarrow> int list \<Rightarrow> matrix \<Rightarrow> int list \<times> matrix" where
  "shuffle draw1 draw2 cs m =
     (let (cs1, m1) = shuffle_with draw1 (length m - 1) (\<lambda>i j (cs, m). (swap i j cs, swap i j m)) (cs, m)
      in (cs1, shuffle_with draw2 (length (m1 ! 0) - 1) (\<lambda>i j m. map (swap i j) m) m1))"

text \<open>Later clients overwrite earlier ones with the same number.\<close>

definition client_index :: "int list \<Rightarrow> int \<Rightarrow> nat option" where
  "client_index cs = map_of (rev (zip cs [0..<length cs]))"

definition positions :: "matrix \<Rightarrow> (int \<times> nat \<times> nat) list" where
  "positions m =
     concat (map (\<lambda>x. concat (map (\<lambda>y. case m ! x ! y of None \<Rightarrow> [] | Some v \<Rightarrow> [(v, x, y)]) [0..<length (m ! x)])) [0..<length m])"

definition service_index :: "matrix \<Rightarrow> int \<Rightarrow> (nat \<times> nat) option" where
  "service_index m = map_of (rev (positions m))"

definition NewRockSteadierSubset :: "nat \<Rightarrow> (nat \<Rightarrow> nat) \<Rightarrow> (nat \<Rightarrow> nat) \<Rightarrow> int list \<Rightarrow> int list \<Rightarrow> subset" where
  "NewRockSteadierSubset bufsize draw1 draw2 cs services =
     (let pad = length cs;
          us = unique [] services;
          (m, c) = (if pad > 0 then deal pad 0 us (replicate pad [], 0) else (replicate pad [], 0));
          m1 = (if pad > 0 then pad_rows pad pad (length us) m else m);
          (cs2, m2) = (if pad > 0 then shuffle draw1 draw2 cs m1 else (cs, m1))
      in \<lparr>clients = cs2, matrixServices = m2, appendIndex = 0, hasClient = client_index cs2, hasService = service_index m2, col = c,
          commands = [], buf = bufsize, closed = False, ctx_done = False, stopped = False, calls = []\<rparr>)"

section \<open>Commands\<close>

text \<open>The first free place, in the rows from \<open>appendIndex\<close> on, around the matrix.\<close>

fun first_nil :: "'a option list \<Rightarrow> nat option" where
  "first_nil [] = None"
| "first_nil (v # vs) = (if v = None then Some 0 else map_option Suc (first_nil vs))"

fun find_slot :: "matrix \<Rightarrow> nat \<Rightarrow> nat list \<Rightarrow> (nat \<times> nat) option" where
  "find_slot m a [] = None"
| "find_slot m a (offset # offsets) =
     (let x = (a + offset) mod length m
      in case first_nil (m ! x) of Some y \<Rightarrow> Some (x, y) | None \<Rightarrow> find_slot m a offsets)"

definition add_one :: "int \<Rightarrow> subset \<Rightarrow> subset" where
  "add_one i r =
     (if hasService r i \<noteq> None then r
      else
        let m = matrixServices r;
            (x, y) = (case find_slot m (appendIndex r) [0..<length m] of
                        Some xy \<Rightarrow> xy
                      | None \<Rightarrow> (appendIndex r, length (m ! appendIndex r)));
            row = (if y = length (m ! x) then m ! x @ [Some i] else (m ! x)[y := Some i])
        in r\<lparr>matrixServices := m[x := row], hasService := (hasService r)(i \<mapsto> (x, y)), col := max (col r) (length row),
             appendIndex := (x + 1) mod length m\<rparr>)"

definition addService :: "int list \<Rightarrow> subset \<Rightarrow> subset" where
  "addService ids r = fold add_one ids r"

definition remove_one :: "int \<Rightarrow> subset \<Rightarrow> subset" where
  "remove_one i r =
     (case hasService r i of
        None \<Rightarrow> r
      | Some (x, y) \<Rightarrow>
          r\<lparr>matrixServices := (matrixServices r)[x := (matrixServices r ! x)[y := None]], hasService := (hasService r)(i := None)\<rparr>)"

definition removeService :: "int list \<Rightarrow> subset \<Rightarrow> subset" where
  "removeService ids r = fold remove_one ids r"

text \<open>
  The checks at the start of \<open>AddService\<close> and \<open>RemoveService\<close>. They are a step of their own: the subset may be closed before
  the \<open>select\<close>.
\<close>

definition send_command :: "command \<Rightarrow> subset \<Rightarrow> subset" where
  "send_command c r =
     r\<lparr>calls := calls r @
        [if closed r then Returned (Some ErrorHasBeenClosed)
         else if length (clients r) = 0 then Returned (Some ErrorNoClients)
         else Selecting c]\<rparr>"

definition AddService :: "int list \<Rightarrow> subset \<Rightarrow> subset" where
  "AddService ids r = send_command (CmdAdd ids) r"

definition RemoveService :: "int list \<Rightarrow> subset \<Rightarrow> subset" where
  "RemoveService ids r = send_command (CmdRemove ids) r"

text \<open>
  The channel takes a command when its buffer has room. One without a buffer takes a command when the sentinel waits for it; the command that
  the sentinel then has in hand is the one in \<open>commands\<close>.
\<close>

definition can_send :: "subset \<Rightarrow> bool" where
  "can_send r \<longleftrightarrow> length (commands r) < buf r \<or> buf r = 0 \<and> commands r = [] \<and> \<not> stopped r"

text \<open>
  The \<open>select\<close> of the call with number \<open>i\<close>: the context of the caller may be done, that of the subset may be, or the command is
  sent. A call whose choice is not ready keeps waiting.
\<close>

datatype choice = ChooseContext | ChooseClosed | ChooseSend

definition select_command :: "choice \<Rightarrow> nat \<Rightarrow> subset \<Rightarrow> subset" where
  "select_command ch i r =
     (if i < length (calls r) then
        (case calls r ! i of
           Returned e \<Rightarrow> r
         | Selecting c \<Rightarrow>
             (case ch of
                ChooseContext \<Rightarrow> r\<lparr>calls := (calls r)[i := Returned (Some ErrorContext)]\<rparr>
              | ChooseClosed \<Rightarrow> if ctx_done r then r\<lparr>calls := (calls r)[i := Returned (Some ErrorHasBeenClosed)]\<rparr> else r
              | ChooseSend \<Rightarrow> if can_send r then r\<lparr>calls := (calls r)[i := Returned None], commands := commands r @ [c]\<rparr> else r))
      else r)"

fun exec_command :: "command \<Rightarrow> subset \<Rightarrow> subset" where
  "exec_command (CmdAdd ids) r = addService ids r"
| "exec_command (CmdRemove ids) r = removeService ids r"

text \<open>One round of the sentinel, which takes a command and executes it, and its return when the context is done.\<close>

definition sentinel :: "subset \<Rightarrow> subset" where
  "sentinel r = (if stopped r then r else case commands r of [] \<Rightarrow> r | c # cs \<Rightarrow> exec_command c (r\<lparr>commands := cs\<rparr>))"

definition sentinel_return :: "subset \<Rightarrow> subset" where
  "sentinel_return r = (if ctx_done r \<and> (buf r = 0 \<longrightarrow> commands r = []) then r\<lparr>stopped := True\<rparr> else r)"

text \<open>\<open>Close\<close> sets the flag and then cancels the context, which may also end with the context of the constructor.\<close>

definition Close :: "subset \<Rightarrow> subset" where
  "Close r = r\<lparr>closed := True\<rparr>"

definition cancel :: "subset \<Rightarrow> subset" where
  "cancel r = r\<lparr>ctx_done := True\<rparr>"

section \<open>Reading\<close>

text \<open>The services collected from one row; the loops end when \<open>Lot\<close> are found.\<close>

fun scan_row :: "int option list \<Rightarrow> int list \<Rightarrow> int list" where
  "scan_row [] found = found"
| "scan_row (v # vs) found =
     (if length found = Lot then found
      else case v of
             None \<Rightarrow> scan_row vs found
           | Some s \<Rightarrow> if s \<in> set found then scan_row vs found else scan_row vs (found @ [s]))"

fun scan_rows :: "matrix \<Rightarrow> nat \<Rightarrow> nat \<Rightarrow> nat \<Rightarrow> int list \<Rightarrow> int list" where
  "scan_rows m n 0 idx found = found"
| "scan_rows m n (Suc k) idx found =
     (if length found = Lot then found else scan_rows m n k ((idx + 1) mod n) (scan_row (m ! idx) found))"

definition GetServices :: "subset \<Rightarrow> int \<Rightarrow> int list option" where
  "GetServices r client =
     (case hasClient r client of
        None \<Rightarrow> None
      | Some idx \<Rightarrow> Some (scan_rows (matrixServices r) (length (clients r)) (length (clients r)) idx []))"

datatype sevent = SAdd "int list" | SRemove "int list" | SSelect choice nat | SSentinel | SReturn | SClose | SCancel

fun sdo :: "sevent \<Rightarrow> subset \<Rightarrow> subset" where
  "sdo (SAdd ids) r = AddService ids r"
| "sdo (SRemove ids) r = RemoveService ids r"
| "sdo (SSelect ch i) r = select_command ch i r"
| "sdo SSentinel r = sentinel r"
| "sdo SReturn r = sentinel_return r"
| "sdo SClose r = Close r"
| "sdo SCancel r = cancel r"

definition srun :: "sevent list \<Rightarrow> subset \<Rightarrow> subset" where
  "srun evs r = fold sdo evs r"

end
