(* ===== verification/SubsetSpec.thy ===== *)
theory SubsetSpec
  imports Subset "HOL-Library.Multiset"
begin

text \<open>
  Subset selection refines a plain set of services: the matrix holds every service once, the index of positions is exact, and
  a client is given ten services, or all when there are fewer.
\<close>

section \<open>The values of a matrix\<close>

definition row_vals :: "int option list \<Rightarrow> int multiset" where
  "row_vals row = mset (List.map_filter id row)"

definition vals :: "matrix \<Rightarrow> int multiset" where
  "vals m = sum_list (map row_vals m)"

lemma row_vals_simps [simp]:
  "row_vals [] = {#}" "row_vals (Some s # row) = add_mset s (row_vals row)" "row_vals (None # row) = row_vals row"
  by (simp_all add: row_vals_def map_filter_simps)

lemma row_vals_append [simp]: "row_vals (xs @ ys) = row_vals xs + row_vals ys"
proof (induction xs)
  case (Cons v xs)
  then show ?case by (cases v) simp_all
qed simp

lemma row_vals_mset: "mset xs = mset ys \<Longrightarrow> row_vals xs = row_vals ys"
proof -
  have e: "row_vals zs = image_mset the (filter_mset (\<lambda>v. v \<noteq> None) (mset zs))" for zs
  proof (induction zs)
    case (Cons v zs)
    then show ?case by (cases v) simp_all
  qed simp
  assume "mset xs = mset ys"
  then show ?thesis by (simp add: e)
qed

lemma vals_mset: "mset m = mset m' \<Longrightarrow> vals m = vals m'"
  unfolding vals_def by (metis mset_map sum_mset_sum_list)

lemma vals_append_at: "x < length m \<Longrightarrow> vals (append_at x v m) = vals m + row_vals [v]"
proof -
  assume x: "x < length m"
  have "vals (append_at x v m) + row_vals (m ! x) = vals m + (row_vals (m ! x) + row_vals [v])"
    unfolding vals_def append_at_def using sum_list_update_nth [OF x, of row_vals "m ! x @ [v]"] by simp
  then show ?thesis by (simp add: ac_simps)
qed

section \<open>Dealing and padding\<close>

text \<open>The matrix after \<open>n\<close> places were dealt to its rows in turn.\<close>

definition dealt :: "nat \<Rightarrow> nat \<Rightarrow> matrix \<Rightarrow> bool" where
  "dealt pad n m \<longleftrightarrow> length m = pad \<and> (\<forall>x < pad. length (m ! x) = (n + pad - 1 - x) div pad)"

lemma dealt_count:
  assumes "x < pad"
  shows "(Suc n + pad - 1 - x) div pad = (n + pad - 1 - x) div pad + (if x = n mod pad then 1 else 0)"
proof -
  have e: "Suc n + pad - 1 - x = Suc (n + pad - 1 - x)" using assms by simp
  have "Suc (n + pad - 1 - x) mod pad = 0 \<longleftrightarrow> x = n mod pad"
  proof -
    have "Suc (n + pad - 1 - x) = n + (pad - x)" using assms by simp
    then have "Suc (n + pad - 1 - x) mod pad = 0 \<longleftrightarrow> pad dvd n + (pad - x)" by (simp add: dvd_eq_mod_eq_0)
    also have "\<dots> \<longleftrightarrow> n mod pad = x mod pad"
    proof -
      have "int (n + (pad - x)) = (int n - int x) + int pad" using assms by (simp add: of_nat_diff)
      then have "int pad dvd int (n + (pad - x)) \<longleftrightarrow> int pad dvd (int n - int x)" by (metis dvd_add_left_iff dvd_refl)
      also have "\<dots> \<longleftrightarrow> int n mod int pad = int x mod int pad" by (simp only: mod_eq_dvd_iff)
      finally have "int pad dvd int (n + (pad - x)) \<longleftrightarrow> int n mod int pad = int x mod int pad" .
      then show ?thesis by (metis of_nat_dvd_iff of_nat_mod of_nat_eq_iff)
    qed
    also have "\<dots> \<longleftrightarrow> x = n mod pad" using assms by auto
    finally show ?thesis .
  qed
  then show ?thesis unfolding e by (auto simp: div_Suc)
qed

lemma dealt_step: "dealt pad n m \<Longrightarrow> 0 < pad \<Longrightarrow> dealt pad (Suc n) (append_at (n mod pad) v m)"
  unfolding dealt_def append_at_def
proof (intro conjI allI impI)
  fix x
  assume d: "length m = pad \<and> (\<forall>x < pad. length (m ! x) = (n + pad - 1 - x) div pad)" "0 < pad" "x < pad"
  show "length (m[n mod pad := m ! (n mod pad) @ [v]] ! x) = (Suc n + pad - 1 - x) div pad"
    unfolding dealt_count [OF d(3)] using d by (cases "x = n mod pad") auto
qed auto

lemma deal_effect:
  assumes "0 < pad" and "dealt pad i m"
  shows "dealt pad (i + length ss) (fst (deal pad i ss (m, c))) \<and> vals (fst (deal pad i ss (m, c))) = vals m + mset ss"
  using assms
proof (induction ss arbitrary: i m c)
  case (Cons s ss)
  have d: "dealt pad (Suc i) (append_at (i mod pad) (Some s) m)" using dealt_step [OF Cons.prems(2,1)] .
  have "vals (append_at (i mod pad) (Some s) m) = vals m + {#s#}"
    using vals_append_at [of "i mod pad" m "Some s"] Cons.prems by (simp add: dealt_def)
  then show ?case using Cons.IH [OF Cons.prems(1) d] by (simp add: Let_def)
qed simp

lemma pad_rows_effect:
  assumes "0 < pad" and "dealt pad ls m" and "(pad - ls mod pad) mod pad \<le> fuel"
  shows "\<exists>n. pad dvd n \<and> dealt pad n (pad_rows fuel pad ls m) \<and> vals (pad_rows fuel pad ls m) = vals m"
  using assms
proof (induction fuel arbitrary: ls m)
  case 0
  then have "(pad - ls mod pad) mod pad = 0" by simp
  then have "ls mod pad = 0" using 0(1) by (metis diff_less gr0I mod_less_divisor mod_less nat_neq_iff zero_less_diff)
  then show ?case using 0 by auto
next
  case (Suc fuel)
  show ?case
  proof (cases "ls mod pad = 0")
    case True
    then show ?thesis using Suc.prems by auto
  next
    case False
    have l: "ls mod pad < pad" using Suc.prems(1) by simp
    have "(pad - Suc ls mod pad) mod pad \<le> fuel"
    proof (cases "Suc (ls mod pad) = pad")
      case True
      then have "Suc ls mod pad = 0" by (simp add: mod_Suc)
      then show ?thesis by simp
    next
      case False
      then have "Suc ls mod pad = Suc (ls mod pad)" by (simp add: mod_Suc)
      then show ?thesis using Suc.prems(3) l \<open>ls mod pad \<noteq> 0\<close> False by simp
    qed
    moreover have "dealt pad (Suc ls) (append_at (ls mod pad) None m)" using dealt_step Suc.prems(1,2) by blast
    moreover have "vals (append_at (ls mod pad) None m) = vals m"
      using vals_append_at [of "ls mod pad" m None] Suc.prems by (simp add: dealt_def)
    ultimately show ?thesis using Suc.IH [OF Suc.prems(1), of "Suc ls" "append_at (ls mod pad) None m"] False by simp
  qed
qed

section \<open>Shuffling\<close>

lemma swap_mset: "i < length xs \<Longrightarrow> j < length xs \<Longrightarrow> mset (swap i j xs) = mset xs"
  unfolding swap_def by (rule mset_swap)

lemma swap_length [simp]: "length (swap i j xs) = length xs"
  by (simp add: swap_def)

lemma shuffle_with_keeps:
  assumes "P x" and "\<And>i j x. 0 < i \<Longrightarrow> i \<le> n \<Longrightarrow> j \<le> i \<Longrightarrow> P x \<Longrightarrow> P (sw i j x)"
  shows "P (shuffle_with draw n sw x)"
  using assms
proof (induction n arbitrary: x)
  case (Suc n)
  have "draw (Suc n) mod Suc (Suc n) \<le> Suc n" by (metis mod_less_divisor less_Suc_eq_le zero_less_Suc)
  then have "P (sw (Suc n) (draw (Suc n) mod Suc (Suc n)) x)" using Suc.prems by simp
  then show ?case using Suc.IH Suc.prems(2) by simp
qed simp

definition rect :: "nat \<Rightarrow> nat \<Rightarrow> int multiset \<Rightarrow> matrix \<Rightarrow> bool" where
  "rect n k V m \<longleftrightarrow> length m = n \<and> vals m = V \<and> (\<forall>row \<in> set m. length row = k)"

lemma rect_swap_rows: "rect n k V m \<Longrightarrow> i < n \<Longrightarrow> j < n \<Longrightarrow> rect n k V (swap i j m)"
  using vals_mset [OF swap_mset, of i m j] mset_eq_setD [OF swap_mset, of i m j] by (auto simp: rect_def)

lemma rect_swap_columns:
  assumes "rect n k V m" and "i < k" and "j < k"
  shows "rect n k V (map (swap i j) m)"
proof -
  have "row_vals (swap i j row) = row_vals row" if "row \<in> set m" for row
    by (rule row_vals_mset, rule swap_mset) (use that assms in \<open>auto simp: rect_def\<close>)
  then have "map row_vals (map (swap i j) m) = map row_vals m" by simp
  then have "vals (map (swap i j) m) = vals m" unfolding vals_def by metis
  then show ?thesis using assms(1) by (auto simp: rect_def)
qed

lemma shuffle_rect:
  assumes "rect n k V m" and "0 < n" and "length cs = n"
  shows "rect n k V (snd (shuffle draw1 draw2 cs m)) \<and> mset (fst (shuffle draw1 draw2 cs m)) = mset cs"
proof -
  obtain cs1 m1 where e: "shuffle_with draw1 (length m - 1) (\<lambda>i j (cs, m). (swap i j cs, swap i j m)) (cs, m) = (cs1, m1)" by force
  have "(\<lambda>(cs', m). mset cs' = mset cs \<and> rect n k V m) (shuffle_with draw1 (length m - 1) (\<lambda>i j (cs, m). (swap i j cs, swap i j m)) (cs, m))"
  proof (rule shuffle_with_keeps)
    fix i j :: nat and x :: "int list \<times> matrix"
    assume h: "i \<le> length m - 1" "j \<le> i" "(\<lambda>(cs', m). mset cs' = mset cs \<and> rect n k V m) x"
    obtain cs' m' where x: "x = (cs', m')" by force
    have l: "length cs' = n" "i < n" "j < n" using h x assms mset_eq_length [of cs' cs] by (auto simp: rect_def)
    show "(\<lambda>(cs', m). mset cs' = mset cs \<and> rect n k V m) ((\<lambda>(cs, m). (swap i j cs, swap i j m)) x)"
      using h x l rect_swap_rows [of n k V m' i j] swap_mset [of i cs' j] by simp
  qed (use assms in simp)
  then have r: "mset cs1 = mset cs" "rect n k V m1" unfolding e by simp_all
  have "m1 ! 0 \<in> set m1" using r(2) assms(2) by (simp add: rect_def)
  then have l: "length (m1 ! 0) = k" using r(2) by (simp add: rect_def)
  have "rect n k V (shuffle_with draw2 (length (m1 ! 0) - 1) (\<lambda>i j m. map (swap i j) m) m1)"
    by (rule shuffle_with_keeps [where P = "rect n k V"]) (use r(2) l rect_swap_columns in auto)
  then show ?thesis using r(1) unfolding shuffle_def e by simp
qed

section \<open>The index of positions\<close>

lemma positions_iff: "(v, x, y) \<in> set (positions m) \<longleftrightarrow> x < length m \<and> y < length (m ! x) \<and> m ! x ! y = Some v"
  by (auto simp: positions_def split: option.splits)

lemma positions_vals: "mset (map fst (positions m)) = vals m"
proof -
  have row: "mset (concat (map (\<lambda>v. case v of None \<Rightarrow> [] | Some v \<Rightarrow> [v]) row)) = row_vals row" for row :: "int option list"
  proof (induction row)
    case (Cons v row)
    then show ?case by (cases v) simp_all
  qed simp
  have r: "mset (map fst (concat (map (\<lambda>y. case row ! y of None \<Rightarrow> [] | Some v \<Rightarrow> [(v, x, y)]) [0..<length row]))) = row_vals row"
    for row :: "int option list" and x :: nat
  proof -
    have "map fst (concat (map (\<lambda>y. case row ! y of None \<Rightarrow> [] | Some v \<Rightarrow> [(v, x, y)]) [0..<length row])) =
        concat (map (\<lambda>y. case row ! y of None \<Rightarrow> [] | Some v \<Rightarrow> [v]) [0..<length row])"
      by (simp add: map_concat comp_def option.case_distrib [where h = "map fst"] cong: option.case_cong)
    also have "\<dots> = concat (map (\<lambda>v. case v of None \<Rightarrow> [] | Some v \<Rightarrow> [v]) (map ((!) row) [0..<length row]))" by (simp add: comp_def)
    finally show ?thesis using row [of row] by (simp add: map_nth)
  qed
  have "mset (map fst (concat (map (\<lambda>x. concat (map (\<lambda>y. case m ! x ! y of None \<Rightarrow> [] | Some v \<Rightarrow> [(v, x, y)]) [0..<length (m ! x)])) xs))) =
      sum_list (map (\<lambda>x. row_vals (m ! x)) xs)" for xs
  proof (induction xs)
    case (Cons x xs)
    then show ?case using r [where row = "m ! x" and x = x] by (simp only: map_append concat.simps list.map mset_append sum_list.Cons)
  qed simp
  then have "mset (map fst (positions m)) = sum_list (map row_vals (map ((!) m) [0..<length m]))" unfolding positions_def by (simp add: comp_def)
  then show ?thesis unfolding map_nth vals_def .
qed

lemma service_index_exact:
  assumes "vals m = mset us" and "distinct us"
  shows "service_index m s = Some (x, y) \<longleftrightarrow> x < length m \<and> y < length (m ! x) \<and> m ! x ! y = Some s"
proof -
  have "mset (map fst (positions m)) = mset us" using positions_vals assms(1) by metis
  then have "distinct (map fst (positions m))" using assms(2) by (metis mset_eq_imp_distinct_iff)
  then have "distinct (map fst (rev (positions m)))" by (simp add: rev_map [symmetric])
  then have "map_of (rev (positions m)) s = Some (x, y) \<longleftrightarrow> (s, x, y) \<in> set (rev (positions m))" by (simp add: map_of_eq_Some_iff)
  then show ?thesis unfolding service_index_def by (simp add: positions_iff)
qed

section \<open>The invariant\<close>

definition sinv :: "subset \<Rightarrow> bool" where
  "sinv r \<longleftrightarrow>
     (\<forall>s x y. hasService r s = Some (x, y) \<longleftrightarrow> x < length (matrixServices r) \<and> y < length (matrixServices r ! x) \<and> matrixServices r ! x ! y = Some s) \<and>
     length (matrixServices r) = length (clients r) \<and> (clients r \<noteq> [] \<longrightarrow> appendIndex r < length (clients r)) \<and>
     (\<forall>c i. hasClient r c = Some i \<longrightarrow> i < length (clients r))"

definition registered :: "subset \<Rightarrow> int set" where
  "registered r = dom (hasService r)"

lemma unique_props: "set (unique seen ss) = set ss - set seen \<and> distinct (unique seen ss)"
  by (induction seen ss rule: unique.induct) auto

lemma client_index_bound: "client_index cs c = Some i \<Longrightarrow> i < length cs"
  unfolding client_index_def by (auto dest!: map_of_SomeD simp: set_zip)

lemma client_index_dom: "dom (client_index cs) = set cs"
  by (simp add: client_index_def dom_map_of_conv_image_fst flip: set_map)

lemma New_sinv:
  assumes "r = NewRockSteadierSubset b draw1 draw2 cs services"
  shows "sinv r" and "registered r = (if cs = [] then {} else set services)" and "commands r = []" and "closed r = False" and "buf r = b"
    and "mset (clients r) = mset cs" and "dom (hasClient r) = set cs" and "ctx_done r = False" and "stopped r = False" and "calls r = []"
proof -
  let ?us = "unique [] services"
  have us: "distinct ?us" "set ?us = set services" using unique_props [of "[]" services] by simp_all
  have "\<exists>m2 cs2. matrixServices r = m2 \<and> clients r = cs2 \<and> length m2 = length cs \<and> mset cs2 = mset cs \<and> appendIndex r = 0 \<and>
      hasService r = service_index m2 \<and> hasClient r = client_index cs2 \<and> vals m2 = (if cs = [] then {#} else mset ?us) \<and>
      commands r = [] \<and> closed r = False \<and> buf r = b \<and> ctx_done r = False \<and> stopped r = False \<and> calls r = []"
  proof (cases "cs = []")
    case True
    then show ?thesis using assms by (simp add: NewRockSteadierSubset_def vals_def)
  next
    case False
    let ?p = "length cs"
    have p: "0 < ?p" using False by simp
    have d0: "dealt ?p 0 (replicate ?p [])" by (auto simp: dealt_def)
    obtain m c where dm: "deal ?p 0 ?us (replicate ?p [], 0) = (m, c)" by force
    have "vals (replicate ?p []) = {#}" unfolding vals_def by (rule sum_list_zero) simp
    then have m: "dealt ?p (length ?us) m" "vals m = mset ?us" using deal_effect [OF p d0, of ?us 0] dm by simp_all
    have "(?p - length ?us mod ?p) mod ?p \<le> ?p" using p by (simp add: less_imp_le)
    from pad_rows_effect [OF p m(1) this] obtain n where n: "?p dvd n" "dealt ?p n (pad_rows ?p ?p (length ?us) m)"
      "vals (pad_rows ?p ?p (length ?us) m) = mset ?us" using m(2) by auto
    obtain k where k: "n = ?p * k" using n(1) by (auto elim: dvdE)
    have "(n + ?p - 1 - x) div ?p = k" if "x < ?p" for x
    proof -
      have "n + ?p - 1 - x = ?p * k + (?p - 1 - x)" using that k by simp
      moreover have "(?p - 1 - x) div ?p = 0" using that by simp
      ultimately show ?thesis using p by simp
    qed
    then have rect: "rect ?p k (mset ?us) (pad_rows ?p ?p (length ?us) m)"
      using n(2,3) by (auto simp: rect_def dealt_def in_set_conv_nth)
    obtain cs2 m2 where sh: "shuffle draw1 draw2 cs (pad_rows ?p ?p (length ?us) m) = (cs2, m2)" by force
    have "rect ?p k (mset ?us) m2" "mset cs2 = mset cs" using shuffle_rect [OF rect p refl, of draw1 draw2] sh by simp_all
    then show ?thesis using assms False dm sh by (simp add: NewRockSteadierSubset_def rect_def)
  qed
  then obtain m2 cs2 where r: "matrixServices r = m2" "clients r = cs2" "length m2 = length cs" "mset cs2 = mset cs" "appendIndex r = 0"
      "hasService r = service_index m2" "hasClient r = client_index cs2" "vals m2 = (if cs = [] then {#} else mset ?us)"
      "commands r = []" "closed r = False" "buf r = b" "ctx_done r = False" "stopped r = False" "calls r = []" by blast
  have l: "length cs2 = length cs" using r(4) by (rule mset_eq_length)
  have v: "vals m2 = mset (if cs = [] then [] else ?us)" "distinct (if cs = [] then [] else ?us)" using r(8) us by simp_all
  note x = service_index_exact [OF v]
  show "sinv r" using x r l client_index_bound [of cs2] by (auto simp: sinv_def)
  have "dom (service_index m2) = set (map fst (positions m2))" unfolding service_index_def by (simp add: dom_map_of_conv_image_fst)
  also have "\<dots> = set (if cs = [] then [] else ?us)" using positions_vals [of m2] v(1) by (metis mset_eq_setD)
  finally show "registered r = (if cs = [] then {} else set services)" using us(2) r(6) by (simp add: registered_def)
  show "commands r = []" "closed r = False" "buf r = b" "mset (clients r) = mset cs" "ctx_done r = False" "stopped r = False" "calls r = []" using r by simp_all
  show "dom (hasClient r) = set cs" using r(2,4,7) client_index_dom [of cs2] by (metis mset_eq_setD)
qed

section \<open>Commands keep it\<close>

definition cell :: "matrix \<Rightarrow> nat \<Rightarrow> nat \<Rightarrow> int option" where
  "cell m x y = (if x < length m \<and> y < length (m ! x) then m ! x ! y else None)"

lemma cell_Some: "x < length m \<and> y < length (m ! x) \<and> m ! x ! y = Some s \<longleftrightarrow> cell m x y = Some s"
  by (auto simp: cell_def)

lemma sinv_cells:
  "sinv r \<longleftrightarrow> (\<forall>s x y. hasService r s = Some (x, y) \<longleftrightarrow> cell (matrixServices r) x y = Some s) \<and>
     length (matrixServices r) = length (clients r) \<and> (clients r \<noteq> [] \<longrightarrow> appendIndex r < length (clients r)) \<and>
     (\<forall>c i. hasClient r c = Some i \<longrightarrow> i < length (clients r))"
  unfolding sinv_def cell_Some ..

lemma cell_set:
  assumes "x < length m" and "y < length (m ! x)"
  shows "cell (m[x := (m ! x)[y := v]]) x' y' = (if x' = x \<and> y' = y then v else cell m x' y')"
  using assms by (auto simp: cell_def nth_list_update)

lemma cell_append:
  assumes "x < length m"
  shows "cell (m[x := m ! x @ [v]]) x' y' = (if x' = x \<and> y' = length (m ! x) then v else cell m x' y')"
  using assms by (auto simp: cell_def nth_list_update nth_append)

lemma first_nil_free: "first_nil row = Some y \<Longrightarrow> y < length row \<and> row ! y = None"
proof (induction row arbitrary: y)
  case (Cons v row)
  then show ?case by (cases "v = None") auto
qed simp

lemma find_slot_free: "m \<noteq> [] \<Longrightarrow> find_slot m a offs = Some (x, y) \<Longrightarrow> x < length m \<and> y < length (m ! x) \<and> m ! x ! y = None"
  by (induction offs) (auto simp: Let_def dest: first_nil_free split: option.splits)

definition same_but_services :: "subset \<Rightarrow> subset \<Rightarrow> bool" where
  "same_but_services r r' \<longleftrightarrow> clients r' = clients r \<and> hasClient r' = hasClient r \<and> commands r' = commands r \<and> buf r' = buf r \<and> closed r' = closed r \<and>
     ctx_done r' = ctx_done r \<and> stopped r' = stopped r \<and> calls r' = calls r"

lemma add_one_ok:
  assumes inv: "sinv r" and c: "clients r \<noteq> []"
  shows "sinv (add_one i r) \<and> registered (add_one i r) = insert i (registered r) \<and> same_but_services r (add_one i r)"
proof (cases "hasService r i")
  case None
  let ?m = "matrixServices r"
  have i: "\<And>s x y. hasService r s = Some (x, y) \<longleftrightarrow> cell ?m x y = Some s" and l: "length ?m = length (clients r)" "?m \<noteq> []" "appendIndex r < length ?m"
    using inv c by (auto simp: sinv_def cell_Some)
  obtain x y where xy: "(case find_slot ?m (appendIndex r) [0..<length ?m] of Some xy \<Rightarrow> xy | None \<Rightarrow> (appendIndex r, length (?m ! appendIndex r))) = (x, y)"
    by force
  let ?row = "if y = length (?m ! x) then ?m ! x @ [Some i] else (?m ! x)[y := Some i]"
  have p: "x < length ?m \<and> (y = length (?m ! x) \<or> y < length (?m ! x) \<and> ?m ! x ! y = None)"
  proof (cases "find_slot ?m (appendIndex r) [0..<length ?m]")
    case None
    then show ?thesis using xy l by auto
  next
    case (Some z)
    then show ?thesis using xy find_slot_free [OF l(2)] by (cases z) auto
  qed
  then have free: "cell ?m x y = None" by (auto simp: cell_def)
  have e: "cell (?m[x := ?row]) x' y' = (if x' = x \<and> y' = y then Some i else cell ?m x' y')" for x' y'
    using p cell_set [of x ?m y] cell_append [of x ?m] by auto
  have a: "add_one i r = r\<lparr>matrixServices := ?m[x := ?row], hasService := (hasService r)(i \<mapsto> (x, y)), col := max (col r) (length ?row),
      appendIndex := (x + 1) mod length ?m\<rparr>"
    using None xy by (simp add: add_one_def Let_def)
  have "(hasService (add_one i r) s = Some (x', y')) = (cell (?m[x := ?row]) x' y' = Some s)" for s x' y'
    unfolding a e using i [of s x' y'] i [of i x' y'] None free i [of s x y] by auto
  then have "sinv (add_one i r)" using inv l unfolding sinv_cells by (simp add: a)
  then show ?thesis by (simp add: a registered_def same_but_services_def)
next
  case (Some z)
  then show ?thesis using inv by (auto simp: add_one_def registered_def same_but_services_def)
qed

lemma remove_one_ok:
  assumes inv: "sinv r"
  shows "sinv (remove_one i r) \<and> registered (remove_one i r) = registered r - {i} \<and> same_but_services r (remove_one i r)"
proof (cases "hasService r i")
  case None
  then show ?thesis using inv by (auto simp: remove_one_def registered_def same_but_services_def)
next
  case (Some z)
  then obtain x y where z: "hasService r i = Some (x, y)" by (cases z) auto
  let ?m = "matrixServices r"
  have i: "\<And>s x y. hasService r s = Some (x, y) \<longleftrightarrow> cell ?m x y = Some s" using inv by (auto simp: sinv_def cell_Some)
  have p: "x < length ?m" "y < length (?m ! x)" "cell ?m x y = Some i" using z i inv by (auto simp: sinv_def)
  have a: "remove_one i r = r\<lparr>matrixServices := ?m[x := (?m ! x)[y := None]], hasService := (hasService r)(i := None)\<rparr>"
    using z by (simp add: remove_one_def)
  have "(hasService (remove_one i r) s = Some (x', y')) = (cell (?m[x := (?m ! x)[y := None]]) x' y' = Some s)" for s x' y'
    unfolding a cell_set [OF p(1,2)] using i [of s x' y'] i [of i x' y'] z p(3) by auto
  then have "sinv (remove_one i r)" using inv unfolding sinv_cells by (simp add: a)
  then show ?thesis by (auto simp: a registered_def same_but_services_def)
qed

lemma add_fold:
  "sinv r \<Longrightarrow> clients r \<noteq> [] \<Longrightarrow> sinv (addService ids r) \<and> registered (addService ids r) = registered r \<union> set ids \<and> same_but_services r (addService ids r)"
proof (induction ids arbitrary: r)
  case (Cons i ids)
  have a: "sinv (add_one i r)" "registered (add_one i r) = insert i (registered r)" "same_but_services r (add_one i r)" using add_one_ok [OF Cons.prems] by simp_all
  then have "clients (add_one i r) \<noteq> []" using Cons.prems by (simp add: same_but_services_def)
  from Cons.IH [OF a(1) this] show ?case using a by (auto simp: addService_def same_but_services_def)
qed (simp add: addService_def same_but_services_def)

lemma remove_fold:
  "sinv r \<Longrightarrow> sinv (removeService ids r) \<and> registered (removeService ids r) = registered r - set ids \<and> same_but_services r (removeService ids r)"
proof (induction ids arbitrary: r)
  case (Cons i ids)
  have a: "sinv (remove_one i r)" "registered (remove_one i r) = registered r - {i}" "same_but_services r (remove_one i r)" using remove_one_ok [OF Cons.prems] by simp_all
  from Cons.IH [OF a(1)] show ?case using a by (auto simp: removeService_def same_but_services_def)
qed (simp add: removeService_def same_but_services_def)

section \<open>What a client is given\<close>

definition found_ok :: "int set \<Rightarrow> int set \<Rightarrow> int list \<Rightarrow> bool" where
  "found_ok seen all found \<longleftrightarrow> distinct found \<and> length found \<le> Lot \<and> set found \<subseteq> all \<and> (length found = Lot \<or> seen \<subseteq> set found)"

lemma scan_row_ok:
  "found_ok seen all found \<Longrightarrow> {s. Some s \<in> set row} \<subseteq> all \<Longrightarrow> found_ok (seen \<union> {s. Some s \<in> set row}) all (scan_row row found)"
proof (induction row arbitrary: found seen)
  case (Cons v row)
  show ?case
  proof (cases "length found = Lot")
    case True
    then show ?thesis using Cons.prems by (simp add: found_ok_def)
  next
    case False
    show ?thesis
    proof (cases v)
      case None
      then show ?thesis using False Cons by simp
    next
      case (Some s)
      let ?f = "if s \<in> set found then found else found @ [s]"
      have "found_ok (insert s seen) all ?f" using Cons.prems False Some by (auto simp: found_ok_def)
      moreover have "{s. Some s \<in> set row} \<subseteq> all" using Cons.prems(2) by auto
      ultimately have "found_ok (insert s seen \<union> {s. Some s \<in> set row}) all (scan_row row ?f)" by (rule Cons.IH)
      moreover have "insert s seen \<union> {s. Some s \<in> set row} = seen \<union> {s. Some s \<in> set (v # row)}" using Some by auto
      moreover have "scan_row (v # row) found = scan_row row ?f" using False Some by simp
      ultimately show ?thesis by simp
    qed
  qed
qed simp

lemma scan_rows_ok:
  assumes "0 < n" and "\<And>x. x < n \<Longrightarrow> {s. Some s \<in> set (m ! x)} \<subseteq> all"
  shows "idx < n \<Longrightarrow> found_ok seen all found \<Longrightarrow>
    found_ok (seen \<union> (\<Union>j < k. {s. Some s \<in> set (m ! ((idx + j) mod n))})) all (scan_rows m n k idx found)"
proof (induction k arbitrary: idx seen found)
  case (Suc k)
  let ?R = "\<lambda>idx. {s. Some s \<in> set (m ! idx)}"
  show ?case
  proof (cases "length found = Lot")
    case True
    then show ?thesis using Suc.prems by (simp add: found_ok_def)
  next
    case False
    have f: "found_ok (seen \<union> ?R idx) all (scan_row (m ! idx) found)" using scan_row_ok [OF Suc.prems(2) assms(2)] Suc.prems(1) by blast
    have i: "(idx + 1) mod n < n" using assms(1) by simp
    have e: "((idx + 1) mod n + j) mod n = (idx + Suc j) mod n" for j by (simp add: mod_add_left_eq)
    have "found_ok (seen \<union> ?R idx \<union> (\<Union>j < k. ?R (((idx + 1) mod n + j) mod n))) all (scan_rows m n k ((idx + 1) mod n) (scan_row (m ! idx) found))"
      by (rule Suc.IH [OF i f])
    moreover have "(\<Union>j < Suc k. ?R ((idx + j) mod n)) = ?R idx \<union> (\<Union>j < k. ?R ((idx + Suc j) mod n))"
      using Suc.prems(1) by (simp add: lessThan_Suc_eq_insert_0 image_image)
    ultimately show ?thesis using False unfolding e by (simp add: Un_assoc)
  qed
qed simp

lemma rotate_all: "0 < n \<Longrightarrow> x < n \<Longrightarrow> idx < n \<Longrightarrow> \<exists>j < n. (idx + j) mod n = (x :: nat)"
proof -
  assume h: "0 < n" "x < n" "idx < n"
  have "(idx + (x + n - idx) mod n) mod n = (idx + (x + n - idx)) mod n" by (simp add: mod_add_right_eq)
  also have "\<dots> = x" using h by simp
  finally show ?thesis using h(1) by (intro exI [of _ "(x + n - idx) mod n"]) simp
qed

lemma GetServices_ok:
  assumes inv: "sinv r" and c: "GetServices r client = Some ss"
  shows "distinct ss \<and> set ss \<subseteq> registered r \<and> length ss = min Lot (card (registered r))"
proof -
  let ?m = "matrixServices r" and ?n = "length (clients r)"
  obtain idx where i: "hasClient r client = Some idx" "ss = scan_rows ?m ?n ?n idx []" using c by (auto simp: GetServices_def split: option.splits)
  then have idx: "idx < ?n" using inv by (simp add: sinv_def)
  have row: "{s. Some s \<in> set (?m ! x)} \<subseteq> registered r" if "x < ?n" for x
  proof
    fix s assume "s \<in> {s. Some s \<in> set (?m ! x)}"
    then obtain y where "y < length (?m ! x)" "?m ! x ! y = Some s" by (auto simp: in_set_conv_nth)
    then have "hasService r s = Some (x, y)" using inv that by (simp add: sinv_def)
    then show "s \<in> registered r" by (auto simp: registered_def)
  qed
  have n: "0 < ?n" and fo: "found_ok {} (registered r) []" using idx by (auto simp: found_ok_def)
  from scan_rows_ok [where m = ?m and k = ?n, OF n row idx fo]
  have f: "found_ok (\<Union>j < ?n. {s. Some s \<in> set (?m ! ((idx + j) mod ?n))}) (registered r) ss" using i(2) by simp
  have all: "registered r \<subseteq> (\<Union>j < ?n. {s. Some s \<in> set (?m ! ((idx + j) mod ?n))})"
  proof
    fix s assume "s \<in> registered r"
    then obtain x y where "hasService r s = Some (x, y)" by (auto simp: registered_def)
    then have x: "x < ?n" "Some s \<in> set (?m ! x)" using inv by (auto simp: sinv_def in_set_conv_nth)
    then obtain j where "j < ?n" "(idx + j) mod ?n = x" using rotate_all idx by (metis gr_implies_not0 gr0I)
    then show "s \<in> (\<Union>j < ?n. {s. Some s \<in> set (?m ! ((idx + j) mod ?n))})" using x(2) by auto
  qed
  have fin: "finite (registered r)"
  proof (rule finite_subset [OF all])
    show "finite (\<Union>j < ?n. {s. Some s \<in> set (?m ! ((idx + j) mod ?n))})"
    proof (intro finite_UN_I)
      show "finite {s. Some s \<in> set row}" for row :: "int option list"
        by (rule finite_subset [of _ "the ` set row"]) force+
    qed simp
  qed
  have "distinct ss" "set ss \<subseteq> registered r" "length ss \<le> Lot" using f by (simp_all add: found_ok_def)
  moreover have "length ss = card (set ss)" using \<open>distinct ss\<close> by (simp add: distinct_card)
  moreover have "card (set ss) \<le> card (registered r)" using \<open>set ss \<subseteq> registered r\<close> fin by (rule card_mono [rotated])
  moreover have "length ss = Lot \<or> set ss = registered r" using f all \<open>set ss \<subseteq> registered r\<close> by (auto simp: found_ok_def)
  ultimately show ?thesis by auto
qed

section \<open>The matrix holds every service once\<close>

lemma distinct_concat_map:
  "distinct is \<Longrightarrow> (\<And>i. i \<in> set is \<Longrightarrow> distinct (g i)) \<Longrightarrow> (\<And>i j. i \<noteq> j \<Longrightarrow> set (g i) \<inter> set (g j) = {}) \<Longrightarrow> distinct (concat (map g is))"
proof (induction "is")
  case (Cons i js)
  have "set (g i) \<inter> set (g j) = {}" if "j \<in> set js" for j using Cons.prems that by (metis distinct.simps(2))
  then show ?case using Cons by (auto simp: disjoint_iff)
qed simp

lemma positions_distinct: "distinct (positions m)"
  unfolding positions_def by (intro distinct_concat_map) (auto split: option.splits)

lemma sinv_vals:
  assumes "sinv r"
  shows "vals (matrixServices r) = mset_set (registered r)"
proof -
  let ?ps = "positions (matrixServices r)"
  have p: "(s, x, y) \<in> set ?ps \<longleftrightarrow> hasService r s = Some (x, y)" for s x y using assms by (simp add: positions_iff sinv_def)
  have "inj_on fst (set ?ps)" by (auto simp: inj_on_def p)
  then have "distinct (map fst ?ps)" by (simp add: distinct_map positions_distinct)
  moreover have "set (map fst ?ps) = registered r" unfolding set_map registered_def
  proof (intro set_eqI iffI)
    fix s assume "s \<in> dom (hasService r)"
    then obtain x y where "(s, x, y) \<in> set ?ps" using p by auto
    then show "s \<in> fst ` set ?ps" by force
  qed (auto simp: p)
  ultimately have "mset (map fst ?ps) = mset_set (registered r)" by (metis mset_set_set)
  then show ?thesis by (simp only: positions_vals)
qed

section \<open>Refinement of a set\<close>

text \<open>
  The abstract registry: a set of services, the accepted commands that wait, the calls and what they returned, and how far closing has come.
\<close>

record registry =
  members :: "int set"
  pending :: "command list"
  requests :: "call list"
  room :: nat
  has_clients :: bool
  shut_down :: bool
  cancelled :: bool
  ended :: bool

fun apply_command :: "command \<Rightarrow> int set \<Rightarrow> int set" where
  "apply_command (CmdAdd ids) S = S \<union> set ids"
| "apply_command (CmdRemove ids) S = S - set ids"

definition request :: "command \<Rightarrow> registry \<Rightarrow> registry" where
  "request c a = a\<lparr>requests := requests a @
     [if shut_down a then Returned (Some ErrorHasBeenClosed) else if \<not> has_clients a then Returned (Some ErrorNoClients) else Selecting c]\<rparr>"

definition answer :: "nat \<Rightarrow> subset_err option \<Rightarrow> registry \<Rightarrow> registry" where
  "answer i e a = a\<lparr>requests := (requests a)[i := Returned e]\<rparr>"

definition takes :: "registry \<Rightarrow> bool" where
  "takes a \<longleftrightarrow> (if room a = 0 then pending a = [] \<and> \<not> ended a else length (pending a) < room a)"

fun resolve :: "choice \<Rightarrow> nat \<Rightarrow> command \<Rightarrow> registry \<Rightarrow> registry" where
  "resolve ChooseContext i c a = answer i (Some ErrorContext) a"
| "resolve ChooseClosed i c a = (if cancelled a then answer i (Some ErrorHasBeenClosed) a else a)"
| "resolve ChooseSend i c a = (if takes a then answer i None (a\<lparr>pending := pending a @ [c]\<rparr>) else a)"

fun ado :: "sevent \<Rightarrow> registry \<Rightarrow> registry" where
  "ado (SAdd ids) a = request (CmdAdd ids) a"
| "ado (SRemove ids) a = request (CmdRemove ids) a"
| "ado (SSelect ch i) a = (if i < length (requests a) then (case requests a ! i of Selecting c \<Rightarrow> resolve ch i c a | Returned e \<Rightarrow> a) else a)"
| "ado SSentinel a = (if ended a then a else case pending a of [] \<Rightarrow> a | c # cs \<Rightarrow> a\<lparr>members := apply_command c (members a), pending := cs\<rparr>)"
| "ado SReturn a = (if cancelled a \<and> (room a > 0 \<or> pending a = []) then a\<lparr>ended := True\<rparr> else a)"
| "ado SClose a = a\<lparr>shut_down := True\<rparr>"
| "ado SCancel a = a\<lparr>cancelled := True\<rparr>"

definition new_registry :: "nat \<Rightarrow> int list \<Rightarrow> int list \<Rightarrow> registry" where
  "new_registry b cs services = \<lparr>members = (if cs = [] then {} else set services), pending = [], requests = [], room = b, has_clients = cs \<noteq> [],
     shut_down = False, cancelled = False, ended = False\<rparr>"

definition abs_subset :: "subset \<Rightarrow> registry" where
  "abs_subset r = \<lparr>members = registered r, pending = commands r, requests = calls r, room = buf r, has_clients = clients r \<noteq> [],
     shut_down = closed r, cancelled = ctx_done r, ended = stopped r\<rparr>"

text \<open>When there are no clients no command waits and no call is in its \<open>select\<close>.\<close>

definition rinv :: "subset \<Rightarrow> bool" where
  "rinv r \<longleftrightarrow> sinv r \<and> (clients r = [] \<longrightarrow> commands r = [] \<and> (\<forall>c. Selecting c \<notin> set (calls r)))"

lemma sentinel_refines:
  assumes "rinv r"
  shows "rinv (sentinel r) \<and> abs_subset (sentinel r) = ado SSentinel (abs_subset r) \<and> hasClient (sentinel r) = hasClient r"
proof (cases "stopped r \<or> commands r = []")
  case True
  then show ?thesis using assms by (auto simp: sentinel_def abs_subset_def)
next
  case False
  then obtain c cs where q: "commands r = c # cs" "\<not> stopped r" by (cases "commands r") auto
  let ?r = "r\<lparr>commands := cs\<rparr>"
  have r: "sinv ?r" "clients ?r \<noteq> []" using assms q by (auto simp: rinv_def sinv_def)
  have "sinv (exec_command c ?r) \<and> registered (exec_command c ?r) = apply_command c (registered ?r) \<and> same_but_services ?r (exec_command c ?r)"
    using add_fold [OF r] remove_fold [OF r(1)] by (cases c) simp_all
  then show ?thesis using q r(2) by (auto simp: sentinel_def rinv_def abs_subset_def same_but_services_def registered_def)
qed

lemma select_refines:
  assumes "rinv r"
  shows "rinv (select_command ch i r) \<and> abs_subset (select_command ch i r) = ado (SSelect ch i) (abs_subset r)"
proof (cases "i < length (calls r) \<and> (\<exists>c. calls r ! i = Selecting c)")
  case True
  then obtain c where c: "i < length (calls r)" "calls r ! i = Selecting c" by blast
  then have "clients r \<noteq> []" using assms by (metis nth_mem rinv_def)
  then show ?thesis using assms c
    by (cases ch) (auto simp: select_command_def rinv_def sinv_def abs_subset_def registered_def answer_def takes_def can_send_def)
next
  case False
  then show ?thesis using assms by (auto simp: select_command_def abs_subset_def split: call.splits)
qed

lemma sdo_refines:
  assumes "rinv r"
  shows "rinv (sdo ev r) \<and> abs_subset (sdo ev r) = ado ev (abs_subset r) \<and> hasClient (sdo ev r) = hasClient r"
proof (cases ev)
  case SSentinel
  then show ?thesis using sentinel_refines [OF assms] by simp
next
  case (SSelect ch i)
  then show ?thesis using select_refines [OF assms, of ch i] by (auto simp: select_command_def split: call.splits choice.splits)
qed (use assms in \<open>auto simp: AddService_def RemoveService_def send_command_def Close_def cancel_def sentinel_return_def rinv_def sinv_def
      abs_subset_def registered_def request_def\<close>)

lemma srun_refines:
  "rinv r \<Longrightarrow> rinv (srun evs r) \<and> abs_subset (srun evs r) = fold ado evs (abs_subset r) \<and> hasClient (srun evs r) = hasClient r"
  by (induction evs arbitrary: r) (simp_all add: srun_def sdo_refines)

text \<open>
  C9: Subset selection keeps a set. From its construction, whatever the shuffles draw, and through any interleaving of calls, their selects, rounds
  of the sentinel and the steps of closing, the matrix holds every service of a plain set exactly once, to which the accepted commands add and from
  which they remove, in the order they were accepted; the calls return what the registry says. \<open>GetServices\<close> returns nil exactly for what was
  not given as a client, and a client is given ten different registered services, or all of them when there are fewer than ten.
\<close>

theorem subset_refines:
  assumes "r = srun evs (NewRockSteadierSubset b draw1 draw2 cs services)" and "a = fold ado evs (new_registry b cs services)"
  shows "abs_subset r = a \<and> vals (matrixServices r) = mset_set (members a) \<and>
    (\<forall>client. case GetServices r client of
        None \<Rightarrow> client \<notin> set cs
      | Some ss \<Rightarrow> client \<in> set cs \<and> distinct ss \<and> set ss \<subseteq> members a \<and> length ss = min Lot (card (members a)))"
proof -
  let ?n = "NewRockSteadierSubset b draw1 draw2 cs services"
  note N = New_sinv [OF refl, of b draw1 draw2 cs services]
  have i: "rinv ?n" using N by (simp add: rinv_def)
  have "clients ?n = [] \<longleftrightarrow> cs = []" using N(6) by (metis mset_zero_iff)
  then have "abs_subset ?n = new_registry b cs services" using N by (simp add: abs_subset_def new_registry_def)
  then have r: "rinv r" "abs_subset r = a" "dom (hasClient r) = set cs" using srun_refines [OF i, of evs] assms N(7) by simp_all
  have m: "registered r = members a" using r(2) by (auto simp: abs_subset_def)
  have s: "sinv r" using r(1) by (simp add: rinv_def)
  have n: "GetServices r client = None \<longleftrightarrow> client \<notin> set cs" for client
    unfolding r(3) [symmetric] by (auto simp: GetServices_def split: option.splits)
  have "case GetServices r client of None \<Rightarrow> client \<notin> set cs
      | Some ss \<Rightarrow> client \<in> set cs \<and> distinct ss \<and> set ss \<subseteq> members a \<and> length ss = min Lot (card (members a))" for client
    using n [of client] GetServices_ok [OF s, of client] m by (cases "GetServices r client") auto
  then show ?thesis using r(2) sinv_vals [OF s] m by simp
qed

definition demo_subset :: "sevent list" where
  "demo_subset = [SAdd [7, 8], SRemove [2], SClose, SSelect ChooseSend 1, SSelect ChooseSend 0, SSentinel, SAdd [9], SSentinel, SCancel, SReturn]"

theorem subset_refines_witness:
  "\<exists>ss. GetServices (srun demo_subset (NewRockSteadierSubset 10 (\<lambda>_. 3) (\<lambda>_. 1) [100, 200] [1, 2, 3, 2])) 200 = Some ss \<and>
     distinct ss \<and> set ss \<subseteq> {1, 3, 7, 8} \<and> length ss = 4"
proof -
  let ?r = "srun demo_subset (NewRockSteadierSubset 10 (\<lambda>_. 3) (\<lambda>_. 1) [100, 200] [1, 2, 3, 2])"
  let ?a = "fold ado demo_subset (new_registry 10 [100, 200] [1, 2, 3, 2])"
  have "GetServices ?r 200 \<noteq> None" by code_simp
  then obtain ss where s: "GetServices ?r 200 = Some ss" by blast
  have m: "members ?a = {1, 3, 7, 8}" by (auto simp: demo_subset_def new_registry_def request_def answer_def takes_def)
  have "case GetServices ?r 200 of None \<Rightarrow> (200 :: int) \<notin> set [100, 200]
      | Some ss \<Rightarrow> (200 :: int) \<in> set [100, 200] \<and> distinct ss \<and> set ss \<subseteq> members ?a \<and> length ss = min Lot (card (members ?a))"
    using subset_refines [OF refl refl, of demo_subset 10 "\<lambda>_. 3" "\<lambda>_. 1" "[100, 200]" "[1, 2, 3, 2]"] by blast
  then show ?thesis unfolding s m by (simp add: Lot_def)
qed

end
