(* ===== verification/LazyGroup.thy ===== *)
theory LazyGroup
  imports Prelude
begin

text \<open>
  The lazily filled container of \<open>container/group/group.go\<close>, which the overload limiter keeps one limiter per key in. The two critical
  sections of \<open>Get\<close> are steps, between which other calls run. A function is a number, and an object is the function that made it with the
  number of the call, so two calls never give the same object. \<open>gen\<close> counts the times the container was emptied, and \<open>results\<close> notes
  what every \<open>Get\<close> returned, with the count at that moment; both are there for the statements only.
\<close>

type_synonym object = "nat \<times> nat"

datatype gpc = GetRead string | GetWrite string | GetReturned object

record group =
  func :: nat
  objs :: "string \<Rightarrow> object option"
  procs :: "gpc list"
  calls_f :: "(nat \<times> string) list"
  gen :: nat
  results :: "(nat \<times> string \<times> object) list"

text \<open>\<open>NewGroup\<close> and \<open>ReSet\<close> panic on a nil function, here \<open>None\<close>.\<close>

definition NewGroup :: "nat option \<Rightarrow> (unit, group) go" where
  "NewGroup f = (case f of None \<Rightarrow> Panic | Some n \<Rightarrow> Ok \<lparr>func = n, objs = Map.empty, procs = [], calls_f = [], gen = 0, results = []\<rparr>)"

definition ReSet :: "nat option \<Rightarrow> group \<Rightarrow> (unit, group) go" where
  "ReSet nf g = (case nf of None \<Rightarrow> Panic | Some n \<Rightarrow> Ok (g\<lparr>func := n, objs := Map.empty, gen := gen g + 1\<rparr>))"

definition Clear :: "group \<Rightarrow> group" where
  "Clear g = g\<lparr>objs := Map.empty, gen := gen g + 1\<rparr>"

definition return :: "nat \<Rightarrow> string \<Rightarrow> object \<Rightarrow> group \<Rightarrow> group" where
  "return p key obj g = g\<lparr>procs := (procs g)[p := GetReturned obj], results := results g @ [(gen g, key, obj)]\<rparr>"

text \<open>The section under the read lock.\<close>

definition Get_read :: "nat \<Rightarrow> string \<Rightarrow> group \<Rightarrow> group" where
  "Get_read p key g =
     (case objs g key of
        Some obj \<Rightarrow> return p key obj g
      | None \<Rightarrow> g\<lparr>procs := (procs g)[p := GetWrite key]\<rparr>)"

text \<open>The section under the write lock, with the second look.\<close>

definition Get_write :: "nat \<Rightarrow> string \<Rightarrow> group \<Rightarrow> group" where
  "Get_write p key g =
     (case objs g key of
        Some obj \<Rightarrow> return p key obj g
      | None \<Rightarrow>
          let obj = (func g, length (calls_f g))
          in return p key obj (g\<lparr>calls_f := calls_f g @ [(gen g, key)], objs := (objs g)(key \<mapsto> obj)\<rparr>))"

datatype gevent = GCall string | GStep nat | GReSet nat | GClear

fun gdo :: "gevent \<Rightarrow> group \<Rightarrow> group" where
  "gdo (GCall key) g = g\<lparr>procs := procs g @ [GetRead key]\<rparr>"
| "gdo (GStep p) g =
     (if p < length (procs g) then
        (case procs g ! p of GetRead key \<Rightarrow> Get_read p key g | GetWrite key \<Rightarrow> Get_write p key g | GetReturned obj \<Rightarrow> g)
      else g)"
| "gdo (GReSet n) g = (case ReSet (Some n) g of Ok g1 \<Rightarrow> g1 | _ \<Rightarrow> g)"
| "gdo GClear g = Clear g"

definition grun :: "gevent list \<Rightarrow> group \<Rightarrow> group" where
  "grun evs g = fold gdo evs g"

section \<open>One object per key\<close>

text \<open>The functions in force, one for each time the container was filled anew, as the events say.\<close>

fun factories :: "nat \<Rightarrow> gevent list \<Rightarrow> nat list" where
  "factories f [] = [f]"
| "factories f (GReSet m # evs) = f # factories m evs"
| "factories f (GClear # evs) = f # factories f evs"
| "factories f (ev # evs) = factories f evs"

text \<open>What was returned, and what is stored, was made by the call of that number, of the function in force then.\<close>

definition ginv :: "nat list \<Rightarrow> group \<Rightarrow> bool" where
  "ginv fs g \<longleftrightarrow> length fs = gen g + 1 \<and> fs ! gen g = func g \<and> distinct (calls_f g) \<and>
     (\<forall>key obj. objs g key = Some obj \<longleftrightarrow> fst obj = func g \<and> snd obj < length (calls_f g) \<and> calls_f g ! snd obj = (gen g, key)) \<and>
     (\<forall>(n, key, obj) \<in> set (results g). n \<le> gen g \<and> fst obj = fs ! n \<and> snd obj < length (calls_f g) \<and> calls_f g ! snd obj = (n, key)) \<and>
     (\<forall>(n, key) \<in> set (calls_f g). n \<le> gen g)"

lemma ginv_fresh:
  assumes "ginv fs g" and "objs g key = None"
  shows "(gen g, key) \<notin> set (calls_f g)"
proof
  assume "(gen g, key) \<in> set (calls_f g)"
  then obtain c where "c < length (calls_f g)" "calls_f g ! c = (gen g, key)" by (auto simp: in_set_conv_nth)
  then have "objs g key = Some (func g, c)" using assms(1) by (simp add: ginv_def)
  then show False using assms(2) by simp
qed

lemma return_ginv: "ginv fs g \<Longrightarrow> objs g key = Some obj \<Longrightarrow> ginv fs (return p key obj g)"
  by (cases obj) (auto simp: ginv_def return_def)

lemma make_ginv:
  assumes i: "ginv fs g" and n: "objs g key = None"
  shows "ginv fs (g\<lparr>calls_f := calls_f g @ [(gen g, key)], objs := (objs g)(key \<mapsto> (func g, length (calls_f g)))\<rparr>)"
proof -
  have f: "(gen g, key) \<notin> set (calls_f g)" using ginv_fresh assms by blast
  then have "c < length (calls_f g) \<Longrightarrow> calls_f g ! c \<noteq> (gen g, key)" for c by (metis nth_mem)
  then show ?thesis using i f by (auto simp: ginv_def nth_append less_Suc_eq split: if_splits)
qed

lemma empty_ginv:
  assumes i: "ginv fs g"
  shows "ginv (fs @ [f]) (g\<lparr>func := f, objs := Map.empty, gen := gen g + 1\<rparr>)"
proof -
  have "calls_f g ! c \<noteq> (gen g + 1, key)" if "c < length (calls_f g)" for c key
    using nth_mem [OF that] i by (force simp: ginv_def)
  moreover have "fst obj = (fs @ [f]) ! n" if "(n, key, obj) \<in> set (results g)" for n key obj
    using i that by (auto simp: ginv_def nth_append)
  ultimately show ?thesis using i by (force simp: ginv_def nth_append)
qed

lemma ginv_cong:
  "ginv fs g \<Longrightarrow> func g' = func g \<Longrightarrow> objs g' = objs g \<Longrightarrow> calls_f g' = calls_f g \<Longrightarrow> gen g' = gen g \<Longrightarrow> results g' = results g \<Longrightarrow> ginv fs g'"
  by (simp add: ginv_def)

lemma step_ginv:
  assumes "ginv fs g"
  shows "ginv fs (gdo (GCall key) g)" and "ginv fs (gdo (GStep p) g)"
proof -
  show "ginv fs (gdo (GCall key) g)" using ginv_cong [OF assms] by simp
  have "ginv fs (Get_read p key g)" for key
    using assms return_ginv by (auto simp: Get_read_def intro: ginv_cong [OF assms] split: option.splits)
  moreover have "ginv fs (Get_write p key g)" for key
    using return_ginv [OF assms] return_ginv [OF make_ginv [OF assms], of key] by (auto simp: Get_write_def Let_def split: option.splits)
  ultimately show "ginv fs (gdo (GStep p) g)" using assms by (auto split: gpc.splits)
qed

lemma ginv_func: "ginv fs g \<Longrightarrow> fs = butlast fs @ [func g]"
  by (cases fs rule: rev_cases) (auto simp: ginv_def nth_append)

lemma ginv_func_append: "ginv fs g \<Longrightarrow> fs @ xs = butlast fs @ func g # xs"
  using ginv_func [of fs g] by (metis append.assoc append_Cons append_Nil)

lemma grun_ginv: "ginv fs g \<Longrightarrow> ginv (butlast fs @ factories (func g) evs) (grun evs g)"
proof (induction evs arbitrary: fs g)
  case Nil
  then show ?case using ginv_func [OF Nil] by (simp add: grun_def)
next
  case (Cons ev evs)
  show ?case
  proof (cases ev)
    case (GCall key)
    then show ?thesis using Cons.IH [OF step_ginv(1) [OF Cons.prems, of key]] by (simp add: grun_def)
  next
    case (GStep p)
    have "func (gdo ev g) = func g"
      by (auto simp: GStep Get_read_def Get_write_def return_def Let_def split: gpc.splits option.splits)
    then show ?thesis using Cons.IH [OF step_ginv(2) [OF Cons.prems, of p]] GStep by (simp add: grun_def)
  next
    case (GReSet f)
    let ?g = "g\<lparr>func := f, objs := Map.empty, gen := gen g + 1\<rparr>"
    have "ginv (fs @ factories f evs) (grun evs ?g)" using Cons.IH [OF empty_ginv [OF Cons.prems, of f]] by simp
    then show ?thesis using GReSet unfolding ginv_func_append [OF Cons.prems] by (simp add: grun_def ReSet_def)
  next
    case GClear
    let ?g = "g\<lparr>func := func g, objs := Map.empty, gen := gen g + 1\<rparr>"
    have "ginv (fs @ factories (func g) evs) (grun evs ?g)" using Cons.IH [OF empty_ginv [OF Cons.prems, of "func g"]] by simp
    then show ?thesis using GClear unfolding ginv_func_append [OF Cons.prems] by (simp add: grun_def Clear_def)
  qed
qed

text \<open>
  C32: One object per key. Whatever the interleaving of calls of \<open>Get\<close>, \<open>ReSet\<close> and \<open>Clear\<close>, the function is called at
  most once per key between two times the container is emptied; all calls of \<open>Get\<close> that return for a key in that span return the same
  object, made by the function that was last set before the span began; and calls for another key, or in another span, return another object.
\<close>

theorem group_one_object:
  assumes "NewGroup (Some f) = Ok g0" and "g = grun evs g0"
  shows "distinct (calls_f g) \<and>
    (\<forall>(n, key, obj) \<in> set (results g). n < length (factories f evs) \<and> fst obj = factories f evs ! n) \<and>
    (\<forall>(n, key, obj) \<in> set (results g). \<forall>(n', key', obj') \<in> set (results g). obj = obj' \<longleftrightarrow> n = n' \<and> key = key')"
proof -
  have "ginv [f] g0" "func g0 = f" using assms(1) by (auto simp: NewGroup_def ginv_def)
  then have i: "ginv (factories f evs) g" using grun_ginv [of "[f]" g0 evs] assms(2) by simp
  then have d: "distinct (calls_f g)" by (simp add: ginv_def)
  have r: "n < length (factories f evs)" "fst obj = factories f evs ! n" "snd obj < length (calls_f g)" "calls_f g ! snd obj = (n, key)"
    if "(n, key, obj) \<in> set (results g)" for n key obj using i that by (auto simp: ginv_def)
  have "obj = obj' \<longleftrightarrow> n = n' \<and> key = key'" if a: "(n, key, obj) \<in> set (results g)" and b: "(n', key', obj') \<in> set (results g)" for n key obj n' key' obj'
    using r [OF a] r [OF b] nth_eq_iff_index_eq [OF d r(3) [OF a] r(3) [OF b]] by (auto simp: prod_eq_iff)
  then show ?thesis using d r by blast
qed

definition demo_group :: "gevent list" where
  "demo_group = [GCall ''a'', GCall ''a'', GStep 0, GStep 1, GStep 1, GStep 0, GReSet 8, GCall ''a'', GStep 2, GStep 2]"

theorem group_one_object_witness:
  "distinct (calls_f (grun demo_group \<lparr>func = 5, objs = Map.empty, procs = [], calls_f = [], gen = 0, results = []\<rparr>)) \<and>
   factories 5 demo_group = [5, 8] \<and>
   results (grun demo_group \<lparr>func = 5, objs = Map.empty, procs = [], calls_f = [], gen = 0, results = []\<rparr>) =
     [(0, ''a'', (5, 0)), (0, ''a'', (5, 0)), (1, ''a'', (8, 1))]"
proof -
  have 1: "NewGroup (Some 5) = Ok \<lparr>func = 5, objs = Map.empty, procs = [], calls_f = [], gen = 0, results = []\<rparr>" by (simp add: NewGroup_def)
  have 2: "results (grun demo_group \<lparr>func = 5, objs = Map.empty, procs = [], calls_f = [], gen = 0, results = []\<rparr>) =
     [(0, ''a'', (5, 0)), (0, ''a'', (5, 0)), (1, ''a'', (8, 1))]" by code_simp
  have 3: "factories 5 demo_group = [5, 8]" by code_simp
  show ?thesis using group_one_object [OF 1 refl, of demo_group] 2 3 by simp
qed

end
