(* ===== verification/BytePool.thy ===== *)
theory BytePool
  imports Prelude
begin

text \<open>
  The pool of byte slices of \<open>cache/buffer/byte_pool.go\<close>. A slice is its backing array, a list as long as its capacity, and its length. A
  \<open>sync.Pool\<close> is a list of slices from which \<open>Get\<close> may take any or none, as its caller cannot know; which one is an argument.
  \<open>newBytes\<close> makes zeroed arrays.
\<close>

type_synonym byte = u8

record slice =
  arr :: "byte list"
  slen :: nat

definition minShift :: nat where "minShift = 6"

definition maxShift :: nat where "maxShift = 18"

record bytePool =
  minSize :: nat
  maxSize :: nat
  slots :: "(nat \<times> slice list) list"

text \<open>The loop of \<open>slot\<close>: how often the number can be halved until it is zero.\<close>

fun shifts :: "nat \<Rightarrow> nat" where
  "shifts n = (if n = 0 then 0 else Suc (shifts (n div 2)))"

declare shifts.simps [simp del]

definition slot :: "bytePool \<Rightarrow> nat \<Rightarrow> nat option" where
  "slot b sz =
     (if sz > maxSize b then None
      else Some (if sz > minSize b then shifts (sz - 1) - minShift else 0))"

definition newBytes :: "nat \<Rightarrow> slice" where
  "newBytes sz = \<lparr>arr = replicate sz 0, slen = sz\<rparr>"

definition newBytePool :: bytePool where
  "newBytePool = \<lparr>minSize = 2 ^ minShift, maxSize = 2 ^ maxShift,
     slots = map (\<lambda>i. (2 ^ (i + minShift), [])) [0..<Suc (maxShift - minShift)]\<rparr>"

text \<open>Slicing from the start panics beyond the capacity and below zero.\<close>

definition reslice :: "int \<Rightarrow> slice \<Rightarrow> (unit, slice) go" where
  "reslice n s = (if 0 \<le> n \<and> n \<le> int (length (arr s)) then Ok (s\<lparr>slen := nat n\<rparr>) else Panic)"

text \<open>The \<open>Get\<close> of the \<open>sync.Pool\<close> of a slot: \<open>pick\<close> is the slice that it hands out, if it has one there.\<close>

definition pool_take :: "nat option \<Rightarrow> nat \<Rightarrow> bytePool \<Rightarrow> slice option \<times> bytePool" where
  "pool_take pick k b =
     (case pick of
        Some j \<Rightarrow>
          let (defaultSize, free) = slots b ! k
          in if j < length free then (Some (free ! j), b\<lparr>slots := (slots b)[k := (defaultSize, take j free @ drop (Suc j) free)]\<rparr>) else (None, b)
      | None \<Rightarrow> (None, b))"

text \<open>An index out of range panics. A negative size is in the smallest class, as 0 is, and slicing to it panics.\<close>

definition pool_get :: "nat option \<Rightarrow> int \<Rightarrow> bytePool \<Rightarrow> (unit, slice \<times> bytePool) go" where
  "pool_get pick n b =
     (case slot b (nat n) of
        None \<Rightarrow> Ok (newBytes (nat n), b)
      | Some k \<Rightarrow>
          if k \<ge> length (slots b) then Panic
          else
            let (v, b1) = pool_take pick k b
            in case v of
                 None \<Rightarrow> go_bind (reslice n (newBytes (fst (slots b ! k)))) (\<lambda>s. Ok (s, b1))
               | Some ret \<Rightarrow> go_bind (reslice n ret) (\<lambda>s. Ok (s, b1)))"

definition GetBytes :: "nat option \<Rightarrow> int \<Rightarrow> bytePool \<Rightarrow> (unit, slice \<times> bytePool) go" where
  "GetBytes pick n b = pool_get pick n b"

definition pool_put :: "slice option \<Rightarrow> bytePool \<Rightarrow> (unit, bytePool) go" where
  "pool_put buf b =
     (case buf of
        None \<Rightarrow> Ok b
      | Some s \<Rightarrow>
          let sz = length (arr s)
          in case slot b sz of
               None \<Rightarrow> Ok b
             | Some k \<Rightarrow>
                 if k \<ge> length (slots b) then Panic
                 else let (defaultSize, free) = slots b ! k
                      in if sz \<noteq> defaultSize then Ok b
                         else Ok (b\<lparr>slots := (slots b)[k := (defaultSize, s # free)]\<rparr>))"

text \<open>The container remembers what it handed out and returns all of it at once.\<close>

definition Container_Get :: "nat option \<Rightarrow> int \<Rightarrow> slice list \<times> bytePool \<Rightarrow> (unit, slice list \<times> bytePool) go" where
  "Container_Get pick n c = go_bind (GetBytes pick n (snd c)) (\<lambda>(s, b). Ok (fst c @ [s], b))"

fun put_all :: "slice list \<Rightarrow> bytePool \<Rightarrow> (unit, bytePool) go" where
  "put_all [] b = Ok b"
| "put_all (s # ss) b = go_bind (pool_put (Some s) b) (put_all ss)"

definition Container_Reset :: "slice list \<times> bytePool \<Rightarrow> (unit, slice list \<times> bytePool) go" where
  "Container_Reset c = go_bind (put_all (fst c) (snd c)) (\<lambda>b. Ok ([], b))"

section \<open>Size classes\<close>

lemma shifts_bound: "n < 2 ^ shifts n"
proof (induction n rule: shifts.induct)
  case (1 n)
  show ?case
  proof (cases "n = 0")
    case False
    then have "n div 2 < 2 ^ shifts (n div 2)" using 1 by simp
    then show ?thesis using False by (subst shifts.simps) simp
  qed (simp add: shifts.simps)
qed

lemma shifts_le: "n < 2 ^ k \<Longrightarrow> shifts n \<le> k"
proof (induction n arbitrary: k rule: shifts.induct)
  case (1 n)
  show ?case
  proof (cases "n = 0")
    case False
    then obtain j where j: "k = Suc j" using 1(2) by (cases k) auto
    then have "shifts (n div 2) \<le> j" using 1 False by simp
    then show ?thesis using False j by (subst shifts.simps) simp
  qed (simp add: shifts.simps)
qed

lemma shifts_ge: "2 ^ k \<le> n \<Longrightarrow> k < shifts n"
  using shifts_bound [of n] by (metis leD le_less_trans not_less power_increasing_iff one_less_numeral_iff semiring_norm(76))

text \<open>The class of a size: there is a slot for it, it is big enough, and the next smaller one is not.\<close>

lemma slot_class:
  assumes "slot newBytePool sz = Some k"
  shows "k \<le> maxShift - minShift" and "sz \<le> 2 ^ (k + minShift)" and "k = 0 \<or> 2 ^ (k + minShift - 1) < sz"
proof -
  have c: "k \<le> maxShift - minShift \<and> sz \<le> 2 ^ (k + minShift) \<and> (k = 0 \<or> 2 ^ (k + minShift - 1) < sz)"
  proof (cases "sz > 2 ^ minShift")
    case True
    then have k: "k = shifts (sz - 1) - minShift" "sz \<le> 2 ^ maxShift" using assms by (auto simp: slot_def newBytePool_def split: if_splits)
    have a: "minShift < shifts (sz - 1)" by (rule shifts_ge) (use True in linarith)
    have b: "shifts (sz - 1) \<le> maxShift" by (rule shifts_le) (use k(2) True in linarith)
    have e: "k + minShift = shifts (sz - 1)" using k(1) a by simp
    have "sz - 1 < 2 ^ shifts (sz - 1)" by (rule shifts_bound)
    moreover have "\<not> sz - 1 < 2 ^ (shifts (sz - 1) - 1)"
    proof
      assume "sz - 1 < 2 ^ (shifts (sz - 1) - 1)"
      then have "shifts (sz - 1) \<le> shifts (sz - 1) - 1" by (rule shifts_le)
      then show False using a by simp
    qed
    ultimately have "sz \<le> 2 ^ shifts (sz - 1)" "2 ^ (shifts (sz - 1) - 1) < sz" using True by linarith+
    then show ?thesis unfolding e using k(1) b diff_le_mono [OF b, of minShift] by blast
  next
    case False
    then show ?thesis using assms by (auto simp: slot_def newBytePool_def split: if_splits)
  qed
  then show "k \<le> maxShift - minShift" "sz \<le> 2 ^ (k + minShift)" "k = 0 \<or> 2 ^ (k + minShift - 1) < sz" by simp_all
qed

section \<open>The pool\<close>

text \<open>Every slot holds slices of exactly its size.\<close>

definition bp_ok :: "bytePool \<Rightarrow> bool" where
  "bp_ok b \<longleftrightarrow> minSize b = 2 ^ minShift \<and> maxSize b = 2 ^ maxShift \<and> length (slots b) = Suc (maxShift - minShift) \<and>
     (\<forall>k < length (slots b). fst (slots b ! k) = 2 ^ (k + minShift) \<and> (\<forall>s \<in> set (snd (slots b ! k)). length (arr s) = 2 ^ (k + minShift)))"

lemma newBytePool_ok: "bp_ok newBytePool"
  by (auto simp: bp_ok_def newBytePool_def simp del: upt_Suc)

lemma slot_ok: "bp_ok b \<Longrightarrow> slot b sz = slot newBytePool sz"
  by (simp add: bp_ok_def slot_def newBytePool_def)

lemma pool_take_ok:
  assumes b: "bp_ok b" and k: "k < length (slots b)" and t: "pool_take pick k b = (v, b1)"
  shows "bp_ok b1" and "v = Some ret \<Longrightarrow> length (arr ret) = 2 ^ (k + minShift)"
proof -
  obtain ds free where f: "slots b ! k = (ds, free)" by force
  have ds: "ds = 2 ^ (k + minShift)" "\<forall>s \<in> set free. length (arr s) = 2 ^ (k + minShift)" using b k f by (auto simp: bp_ok_def)
  have "bp_ok (b\<lparr>slots := (slots b)[k := (ds, take j free @ drop (Suc j) free)]\<rparr>)" for j
    using b k ds by (auto simp: bp_ok_def nth_list_update dest: in_set_takeD in_set_dropD)
  then show "bp_ok b1" and "v = Some ret \<Longrightarrow> length (arr ret) = 2 ^ (k + minShift)"
    using t f b ds(2) by (auto simp: pool_take_def split: option.splits if_splits)
qed

lemma pool_get_class:
  assumes b: "bp_ok b" and k: "slot newBytePool (nat n) = Some k"
  obtains s b1 where "pool_get pick n b = go_bind (reslice n s) (\<lambda>s. Ok (s, b1))" "bp_ok b1" "length (arr s) = 2 ^ (k + minShift)"
proof -
  have l: "k < length (slots b)" "fst (slots b ! k) = 2 ^ (k + minShift)" using slot_class(1) [OF k] b by (auto simp: bp_ok_def)
  obtain v b1 where t: "pool_take pick k b = (v, b1)" by force
  show ?thesis using pool_take_ok [OF b l(1) t] l k t slot_ok [OF b, of "nat n"]
    by (cases v) (auto simp: pool_get_def newBytes_def intro!: that [of "newBytes (fst (slots b ! k))" b1] that)
qed

lemma pool_get_neg:
  assumes "bp_ok b" and "n < 0"
  shows "pool_get pick n b = Panic"
proof -
  have "slot newBytePool (nat n) = Some 0" using assms(2) by (simp add: slot_def newBytePool_def)
  from pool_get_class [OF assms(1) this, of pick] show ?thesis using assms(2) by (auto simp: reslice_def)
qed

lemma pool_get_ok:
  assumes b: "bp_ok b"
  obtains s b' where "pool_get pick (int sz) b = Ok (s, b')" "bp_ok b'" "slen s = sz" "sz \<le> length (arr s)"
    "case slot newBytePool sz of None \<Rightarrow> length (arr s) = sz | Some k \<Rightarrow> length (arr s) = 2 ^ (k + minShift)"
proof (cases "slot newBytePool sz")
  case None
  then show ?thesis using b slot_ok [OF b, of sz] by (intro that [of "newBytes sz" b]) (auto simp: pool_get_def newBytes_def)
next
  case (Some k)
  then have "slot newBytePool (nat (int sz)) = Some k" by simp
  from pool_get_class [OF b this, of pick] obtain s b1 where s: "pool_get pick (int sz) b = go_bind (reslice (int sz) s) (\<lambda>s. Ok (s, b1))"
    "bp_ok b1" "length (arr s) = 2 ^ (k + minShift)" by blast
  then show ?thesis using slot_class(2) [OF Some] Some
    by (intro that [of "s\<lparr>slen := sz\<rparr>" b1]) (auto simp: reslice_def)
qed

lemma pool_put_ok:
  assumes b: "bp_ok b"
  obtains b' where "pool_put buf b = Ok b'" "bp_ok b'"
proof (cases buf)
  case None
  then show ?thesis using b by (intro that [of b]) (simp_all add: pool_put_def)
next
  case (Some s)
  show ?thesis
  proof (cases "slot newBytePool (length (arr s))")
    case None
    then show ?thesis using b Some slot_ok [OF b] by (intro that [of b]) (simp_all add: pool_put_def)
  next
    case k: (Some k)
    then have l: "k < length (slots b)" using slot_class(1) [OF k] b by (simp add: bp_ok_def)
    obtain ds free where f: "slots b ! k = (ds, free)" by force
    have ds: "ds = 2 ^ (k + minShift)" using b l f by (auto simp: bp_ok_def)
    show ?thesis
    proof (cases "length (arr s) = ds")
      case True
      let ?b = "b\<lparr>slots := (slots b)[k := (ds, s # free)]\<rparr>"
      have "bp_ok ?b" using b l f ds True by (auto simp: bp_ok_def nth_list_update)
      then show ?thesis using Some k l f True slot_ok [OF b] by (intro that [of ?b]) (auto simp: pool_put_def)
    next
      case False
      then show ?thesis using Some k l f b slot_ok [OF b] by (intro that [of b]) (auto simp: pool_put_def)
    qed
  qed
qed

text \<open>A run of gets and puts. After a get that panics the pool has lost what it had handed out.\<close>

datatype bp_event = BGet "nat option" int | BPut "slice option"

fun bp_run :: "bp_event list \<Rightarrow> bytePool \<Rightarrow> (unit, bytePool) go" where
  "bp_run [] b = Ok b"
| "bp_run (BGet pick n # evs) b =
     (if n < 0 then bp_run evs (snd (pool_take pick 0 b)) else go_bind (pool_get pick n b) (\<lambda>(s, b1). bp_run evs b1))"
| "bp_run (BPut buf # evs) b = go_bind (pool_put buf b) (bp_run evs)"

lemma bp_run_ok: "bp_ok b \<Longrightarrow> \<exists>b'. bp_run evs b = Ok b' \<and> bp_ok b'"
proof (induction evs arbitrary: b)
  case (Cons ev evs)
  show ?case
  proof (cases ev)
    case (BGet pick n)
    show ?thesis
    proof (cases "n < 0")
      case True
      have "0 < length (slots b)" using Cons.prems by (simp add: bp_ok_def)
      from pool_take_ok(1) [OF Cons.prems this prod.collapse [symmetric]] show ?thesis using Cons.IH True BGet by simp
    next
      case False
      then obtain s b' where g: "pool_get pick n b = Ok (s, b')" "bp_ok b'"
        using pool_get_ok [OF Cons.prems, of pick "nat n"] by (metis int_nat_eq not_less)
      then show ?thesis using Cons.IH [OF g(2)] BGet False by simp
    qed
  next
    case (BPut buf)
    obtain b' where p: "pool_put buf b = Ok b'" "bp_ok b'" using pool_put_ok [OF Cons.prems, of buf] by metis
    then show ?thesis using Cons.IH [OF p(2)] BPut by simp
  qed
qed simp

text \<open>
  C33: The byte pool always has a fitting slice. After any sequence of gets and puts of any slices, whatever the underlying pools hand out,
  \<open>GetBytes\<close> panics exactly when the size is negative. Otherwise it returns a slice of exactly that length. Up to 256 KiB its capacity is the
  smallest power of two, at least 64, that holds it; above, the capacity is the size itself.
\<close>

theorem bytePool_get:
  "\<exists>b. bp_run evs newBytePool = Ok b \<and>
    (if n < 0 then GetBytes pick n b = Panic
     else \<exists>s b'. GetBytes pick n b = Ok (s, b') \<and> int (slen s) = n \<and> n \<le> int (length (arr s)) \<and>
       (if n \<le> 2 ^ 18 then \<exists>k \<ge> 6. length (arr s) = 2 ^ k \<and> (k = 6 \<or> 2 ^ (k - 1) < n) else int (length (arr s)) = n))"
proof -
  obtain b where b: "bp_run evs newBytePool = Ok b" "bp_ok b" using bp_run_ok [OF newBytePool_ok, of evs] by auto
  show ?thesis
  proof (cases "n < 0")
    case True
    then show ?thesis using b pool_get_neg [OF b(2)] by (simp add: GetBytes_def)
  next
    case False
    then obtain sz where n: "n = int sz" by (metis nat_0_le not_less)
    obtain s b' where g: "pool_get pick (int sz) b = Ok (s, b')" "slen s = sz"
      "case slot newBytePool sz of None \<Rightarrow> length (arr s) = sz | Some k \<Rightarrow> length (arr s) = 2 ^ (k + minShift)"
      using pool_get_ok [OF b(2), of pick sz] by metis
    have m: "slot newBytePool sz = None \<longleftrightarrow> \<not> sz \<le> 2 ^ 18" by (simp add: slot_def newBytePool_def maxShift_def)
    have e: "n \<le> 2 ^ 18 \<longleftrightarrow> sz \<le> 2 ^ 18" unfolding n by simp
    have c: "n \<le> int (length (arr s)) \<and>
       (if n \<le> 2 ^ 18 then \<exists>k \<ge> 6. length (arr s) = 2 ^ k \<and> (k = 6 \<or> 2 ^ (k - 1) < n) else int (length (arr s)) = n)"
    proof (cases "slot newBytePool sz")
      case None
      then show ?thesis using g(3) m e n by simp
    next
      case (Some k)
      have "k + minShift = 6 \<or> 2 ^ (k + minShift - 1) < n"
        using slot_class(3) [OF Some] of_nat_less_iff [of "2 ^ (k + minShift - 1)" sz, where 'a = int] n by (auto simp: minShift_def)
      moreover have "sz \<le> length (arr s)" using slot_class(2) [OF Some] g(3) Some by simp
      ultimately show ?thesis using g(3) Some m e n by (auto intro!: exI [of _ "k + minShift"] simp: minShift_def)
    qed
    show ?thesis using b(1) g(1,2) c False n by (auto simp: GetBytes_def)
  qed
qed

theorem bytePool_get_witness:
  "\<exists>b s b'. bp_run [BGet None 100, BPut (Some \<lparr>arr = replicate 128 1, slen = 3\<rparr>), BGet (Some 0) (- 1)] newBytePool = Ok b \<and>
     GetBytes (Some 0) 100 b = Ok (s, b') \<and> slen s = 100 \<and> length (arr s) = 128"
proof -
  let ?evs = "[BGet None 100, BPut (Some \<lparr>arr = replicate 128 1, slen = 3\<rparr>), BGet (Some 0) (- 1)]"
  obtain b s b' where r: "bp_run ?evs newBytePool = Ok b" "GetBytes (Some 0) 100 b = Ok (s, b')" "int (slen s) = 100" "100 \<le> int (length (arr s))"
    and c: "\<exists>k \<ge> 6. length (arr s) = 2 ^ k \<and> (k = 6 \<or> 2 ^ (k - 1) < (100 :: int))"
    using bytePool_get [of ?evs 100 "Some 0"] by auto
  obtain k where k: "length (arr s) = 2 ^ k" "k \<ge> 6" "k = 6 \<or> 2 ^ (k - 1) < (100 :: int)" using c by auto
  have "k = 7"
  proof (rule ccontr)
    assume "k \<noteq> 7"
    moreover have "k \<noteq> 6" using r(4) k(1) by auto
    ultimately have "7 \<le> k - 1" using k(2) by simp
    then have "(2 :: int) ^ 7 \<le> 2 ^ (k - 1)" by (rule power_increasing) simp
    then show False using k(3) \<open>k \<noteq> 6\<close> by simp
  qed
  then show ?thesis using r k(1) by auto
qed

end
