(* ===== verification/Iobuf.thy ===== *)
theory Iobuf
  imports BytePool
begin

unbundle bit_operations_syntax

text \<open>
  The io buffer and the pipe of \<open>cache/buffer/iobuffer.go\<close> and the buffer pool of \<open>iobuffer_pool.go\<close>. A buffer is a slice of
  which the part before \<open>off\<close> has been read; the operations also change the byte pool the slices come from. \<open>picks\<close> says for every
  size which slice \<open>sync.Pool\<close> hands out. A reader is a function from the room it is given to the bytes it stores there and its
  error; more bytes than room make the reslicing panic. The model is of one user at a time, except for the pipe, whose methods lock.
\<close>

type_synonym picks = "nat \<Rightarrow> nat option"

datatype io_err = IoEOF | IoErr string

type_synonym reader = "nat \<Rightarrow> byte list \<times> io_err option"

definition AutoExpand :: int where "AutoExpand = - 1"

definition ResetOffMark :: int where "ResetOffMark = - 1"

definition MinRead :: nat where "MinRead = 2 ^ 9"

definition MaxRead :: nat where "MaxRead = 2 ^ 17"

definition DefaultSize :: nat where "DefaultSize = 2 ^ 4"

definition MaxBufferLength :: nat where "MaxBufferLength = 2 ^ 20"

definition MaxThreshold :: nat where "MaxThreshold = 2 ^ 22"

text \<open>\<open>isnil\<close>: \<open>buffer\<close> is nil; \<open>pooled\<close>: \<open>b\<close> is not nil, that is, the slice is from the byte pool.\<close>

record ioBuffer =
  buffer :: slice
  isnil :: bool
  off :: nat
  offMark :: int
  count :: i32
  eof :: bool
  pooled :: bool

type_synonym iobuf = "ioBuffer \<times> bytePool"

abbreviation len :: "ioBuffer \<Rightarrow> nat" where "len i \<equiv> slen (buffer i)"

abbreviation cap :: "ioBuffer \<Rightarrow> nat" where "cap i \<equiv> length (arr (buffer i))"

section \<open>Slices\<close>

definition splice :: "nat \<Rightarrow> byte list \<Rightarrow> byte list \<Rightarrow> byte list" where
  "splice m p xs = take m xs @ p @ drop (m + length p) xs"

text \<open>Go's \<open>copy(s[m:], p)\<close>: as much of \<open>p\<close> as the slice has room for.\<close>

definition copy_at :: "nat \<Rightarrow> byte list \<Rightarrow> slice \<Rightarrow> nat \<times> slice" where
  "copy_at m p s = (let q = take (slen s - m) p in (length q, s\<lparr>arr := splice m q (arr s)\<rparr>))"

text \<open>\<open>binary.BigEndian.PutUint\<close> at \<open>s[m:]\<close>, and a single element.\<close>

definition put_at :: "nat \<Rightarrow> byte list \<Rightarrow> slice \<Rightarrow> (unit, slice) go" where
  "put_at m p s = (if m + length p \<le> slen s then Ok (s\<lparr>arr := splice m p (arr s)\<rparr>) else Panic)"

definition be_bytes :: "nat \<Rightarrow> 'a :: len word \<Rightarrow> byte list" where
  "be_bytes n w = map (\<lambda>k. ucast (drop_bit (8 * (n - 1 - k)) w)) [0..<n]"

text \<open>Data stored behind the length of a slice, and the slice extended over it.\<close>

definition fill :: "byte list \<Rightarrow> slice \<Rightarrow> (unit, slice) go" where
  "fill d s = (if slen s + length d \<le> length (arr s)
               then Ok (s\<lparr>arr := splice (slen s) d (arr s), slen := slen s + length d\<rparr>) else Panic)"

definition set_buffer :: "bytePool \<Rightarrow> ioBuffer \<Rightarrow> (unit, slice) go \<Rightarrow> (unit, iobuf) go" where
  "set_buffer b i r = go_bind r (\<lambda>s. Ok (i\<lparr>buffer := s\<rparr>, b))"

section \<open>Space\<close>

definition Len :: "ioBuffer \<Rightarrow> int" where
  "Len i = int (len i) - int (off i)"

definition Reset :: "ioBuffer \<Rightarrow> ioBuffer" where
  "Reset i = i\<lparr>buffer := (buffer i)\<lparr>slen := 0\<rparr>, off := 0, offMark := ResetOffMark, eof := False\<rparr>"

definition PutBytes :: "ioBuffer \<Rightarrow> bytePool \<Rightarrow> (unit, bytePool) go" where
  "PutBytes i b = pool_put (if pooled i then Some (buffer i) else None) b"

definition putSlice :: "iobuf \<Rightarrow> (unit, iobuf) go" where
  "putSlice ib =
     (case ib of (i, b) \<Rightarrow>
        if pooled i
        then go_bind (PutBytes i b) (\<lambda>b1. Ok (i\<lparr>pooled := False, buffer := \<lparr>arr = [], slen = 0\<rparr>, isnil := True\<rparr>, b1))
        else Ok ib)"

definition Free :: "iobuf \<Rightarrow> (unit, iobuf) go" where
  "Free ib = putSlice (Reset (fst ib), snd ib)"

definition Alloc :: "picks \<Rightarrow> int \<Rightarrow> iobuf \<Rightarrow> (unit, iobuf) go" where
  "Alloc picks n ib =
     go_bind (if isnil (fst ib) then Ok ib else Free ib) (\<lambda>(i, b).
     let k = (if n \<le> 0 then DefaultSize else nat n)
     in go_bind (pool_get (picks k) (int k) b) (\<lambda>(s, b1).
        Ok (i\<lparr>pooled := True, buffer := s\<lparr>slen := 0\<rparr>, isnil := False\<rparr>, b1)))"

definition new_cap :: "nat \<Rightarrow> nat" where
  "new_cap c = (if c < 2 * MinRead then 2 * MinRead else if c < MaxThreshold then 2 * c else c + c div 4)"

text \<open>\<open>copy\<close>: the unread part moves to the front, of a bigger slice if \<open>expand\<close> says so. Slicing from an \<open>off\<close> beyond the length panics.\<close>

definition iobuf_copy :: "picks \<Rightarrow> int \<Rightarrow> iobuf \<Rightarrow> (unit, iobuf) go" where
  "iobuf_copy picks expand ib =
     (case ib of (i, b) \<Rightarrow>
        if off i > len i then Panic
        else
          let rest = drop (off i) (take (len i) (arr (buffer i)))
          in if expand > 0 \<or> expand = AutoExpand
             then
               let k = new_cap (cap i) + nat (if expand = AutoExpand then 0 else expand)
               in go_bind (pool_get (picks k) (int k) b) (\<lambda>(s, b1).
                  go_bind (PutBytes i b1) (\<lambda>b2.
                  go_bind (reslice (int (len i - off i)) (snd (copy_at 0 rest s))) (\<lambda>s1.
                  Ok (i\<lparr>pooled := True, buffer := s1, isnil := False, off := 0\<rparr>, b2))))
             else
               set_buffer b (i\<lparr>off := 0\<rparr>) (reslice (int (len i - off i)) (snd (copy_at 0 rest (buffer i)))))"

definition tryGrowByRelies :: "nat \<Rightarrow> ioBuffer \<Rightarrow> (nat \<times> ioBuffer) option" where
  "tryGrowByRelies n i =
     (if len i + n \<le> cap i then Some (len i, i\<lparr>buffer := (buffer i)\<lparr>slen := len i + n\<rparr>\<rparr>) else None)"

definition grow :: "picks \<Rightarrow> nat \<Rightarrow> iobuf \<Rightarrow> (unit, nat \<times> iobuf) go" where
  "grow picks n ib =
     (case ib of (i, b) \<Rightarrow>
        let m = Len i;
            i1 = (if m = 0 \<and> off i \<noteq> 0 then Reset i else i)
        in case tryGrowByRelies n i1 of
             Some (l, i2) \<Rightarrow> Ok (l, i2, b)
           | None \<Rightarrow>
               go_bind (iobuf_copy picks (if m + int n \<le> int (cap i1) div 2 then 0 else int n) (i1, b)) (\<lambda>(i2, b2).
               go_bind (reslice (m + int n) (buffer i2)) (\<lambda>s.
               Ok (nat m, i2\<lparr>off := 0, buffer := s\<rparr>, b2))))"

text \<open>How every write makes room: by extending the slice if it can, else by \<open>grow\<close>.\<close>

definition make_room :: "picks \<Rightarrow> nat \<Rightarrow> iobuf \<Rightarrow> (unit, nat \<times> iobuf) go" where
  "make_room picks n ib =
     (case tryGrowByRelies n (fst ib) of
        Some (m, i) \<Rightarrow> Ok (m, i, snd ib)
      | None \<Rightarrow> grow picks n ib)"

section \<open>Reading and writing\<close>

definition Read :: "nat \<Rightarrow> ioBuffer \<Rightarrow> (byte list \<times> io_err option) \<times> ioBuffer" where
  "Read k i =
     (if off i \<ge> len i
      then (([], if k = 0 then None else Some IoEOF), if off i > 0 then Reset i else i)
      else let d = take k (drop (off i) (take (len i) (arr (buffer i))))
           in ((d, None), i\<lparr>off := off i + length d\<rparr>))"

definition drop_read :: "ioBuffer \<Rightarrow> ioBuffer" where
  "drop_read i = (if off i > 0 \<and> off i \<ge> len i then Reset i else i)"

definition ReadOnce :: "picks \<Rightarrow> reader \<Rightarrow> iobuf \<Rightarrow> (unit, (nat \<times> io_err option) \<times> iobuf) go" where
  "ReadOnce picks r ib =
     (let i = drop_read (fst ib)
      in go_bind (if off i \<ge> cap i - len i then iobuf_copy picks 0 (i, snd ib) else Ok (i, snd ib)) (\<lambda>(i1, b1).
         go_bind (if off i1 = len i1 \<and> cap i1 > MaxBufferLength
                  then go_bind (Free (i1, b1)) (Alloc picks (int MaxRead)) else Ok (i1, b1)) (\<lambda>(i2, b2).
         let l = cap i2 - len i2; (d, err) = r l
         in go_bind (set_buffer b2 i2 (fill d (buffer i2))) (\<lambda>ib3.
            go_bind (if l = length d then iobuf_copy picks AutoExpand ib3 else Ok ib3) (\<lambda>ib4.
            Ok ((length d, err), ib4))))))"

text \<open>
  One answer of the reader per round. \<open>None\<close>: the reader has not answered yet. The count starts at what was read before.
\<close>

fun ReadFrom_loop :: "(picks \<times> reader) list \<Rightarrow> nat \<Rightarrow> iobuf \<Rightarrow> (unit, ((nat \<times> io_err option) \<times> iobuf) option) go" where
  "ReadFrom_loop [] n ib = Ok None"
| "ReadFrom_loop ((picks, r) # rs) n ib =
     (let i = fst ib; free = cap i - len i
      in go_bind (if free < MinRead then iobuf_copy picks (if off i + free < MinRead then int MinRead else 0) ib else Ok ib) (\<lambda>(i1, b1).
         let (d, e) = r (cap i1 - len i1)
         in go_bind (set_buffer b1 i1 (fill d (buffer i1))) (\<lambda>ib2.
            case e of
              Some IoEOF \<Rightarrow> Ok (Some ((n + length d, None), ib2))
            | Some x \<Rightarrow> Ok (Some ((n + length d, Some x), ib2))
            | None \<Rightarrow> if d = [] then Ok (Some ((n, None), ib2)) else ReadFrom_loop rs (n + length d) ib2)))"

definition ReadFrom :: "(picks \<times> reader) list \<Rightarrow> iobuf \<Rightarrow> (unit, ((nat \<times> io_err option) \<times> iobuf) option) go" where
  "ReadFrom rs ib = ReadFrom_loop rs 0 (drop_read (fst ib), snd ib)"

text \<open>\<open>False\<close>: \<open>ErrNegativeCount\<close>.\<close>

definition Grow :: "picks \<Rightarrow> int \<Rightarrow> iobuf \<Rightarrow> (unit, bool \<times> iobuf) go" where
  "Grow picks n ib =
     (if n < 0 then Ok (False, ib)
      else go_bind (make_room picks (nat n) ib) (\<lambda>(m, i, b).
        if n > 0
        then go_bind (put_at m (replicate (len i - m) 0) (buffer i)) (\<lambda>s. Ok (True, i\<lparr>buffer := s\<rparr>, b))
        else Ok (True, i, b)))"

definition Cup :: "int \<Rightarrow> ioBuffer \<Rightarrow> (unit, ioBuffer option \<times> ioBuffer) go" where
  "Cup n i =
     (if int (off i) + n > int (len i) then Ok (None, i)
      else if n < 0 then Panic
      else
        let d = take (nat n) (drop (off i) (take (len i) (arr (buffer i))))
        in Ok (Some \<lparr>buffer = \<lparr>arr = d, slen = length d\<rparr>, isnil = False, off = 0, offMark = 0, count = 0, eof = False, pooled = False\<rparr>,
               i\<lparr>off := off i + nat n, offMark := ResetOffMark\<rparr>))"

definition Write :: "picks \<Rightarrow> byte list \<Rightarrow> iobuf \<Rightarrow> (unit, nat \<times> iobuf) go" where
  "Write picks p ib =
     go_bind (make_room picks (length p) ib) (\<lambda>(m, i, b).
     let (k, s) = copy_at m p (buffer i) in Ok (k, i\<lparr>buffer := s\<rparr>, b))"

definition put_bytes :: "picks \<Rightarrow> byte list \<Rightarrow> iobuf \<Rightarrow> (unit, iobuf) go" where
  "put_bytes picks p ib = go_bind (make_room picks (length p) ib) (\<lambda>(m, i, b). set_buffer b i (put_at m p (buffer i)))"

definition WriteByte :: "picks \<Rightarrow> byte \<Rightarrow> iobuf \<Rightarrow> (unit, iobuf) go" where
  "WriteByte picks p = put_bytes picks [p]"

definition WriteUint16 :: "picks \<Rightarrow> u16 \<Rightarrow> iobuf \<Rightarrow> (unit, iobuf) go" where
  "WriteUint16 picks p = put_bytes picks (be_bytes 2 p)"

definition WriteUint32 :: "picks \<Rightarrow> u32 \<Rightarrow> iobuf \<Rightarrow> (unit, iobuf) go" where
  "WriteUint32 picks p = put_bytes picks (be_bytes 4 p)"

definition WriteUint64 :: "picks \<Rightarrow> u64 \<Rightarrow> iobuf \<Rightarrow> (unit, iobuf) go" where
  "WriteUint64 picks p = put_bytes picks (be_bytes 8 p)"

text \<open>A writer's answers: how many bytes it took, and its error; \<open>None\<close> while it has not answered. The taken bytes are collected.\<close>

fun WriteTo :: "(nat \<times> io_err option) list \<Rightarrow> byte list \<Rightarrow> ioBuffer \<Rightarrow> (unit, ((byte list \<times> io_err option) \<times> ioBuffer) option) go" where
  "WriteTo ws sent i =
     (if off i < len i
      then
        (case ws of
           [] \<Rightarrow> Ok None
         | (m, e) # ws1 \<Rightarrow>
             if m > len i - off i then Panic
             else
               let d = take m (drop (off i) (take (len i) (arr (buffer i)))); i1 = i\<lparr>off := off i + m\<rparr>
               in if e \<noteq> None then Ok (Some ((sent @ d, e), i1))
                  else if m = 0 \<or> m = len i - off i then Ok (Some ((sent @ d, None), i1))
                  else WriteTo ws1 (sent @ d) i1)
      else Ok (Some ((sent, None), i)))"

declare WriteTo.simps [simp del]

text \<open>\<open>None\<close> is nil.\<close>

definition Peek :: "int \<Rightarrow> ioBuffer \<Rightarrow> byte list option" where
  "Peek n i =
     (if n < 0 then None
      else if Len i < n then None
      else Some (take (nat n) (drop (off i) (take (len i) (arr (buffer i))))))"

definition Mark :: "ioBuffer \<Rightarrow> ioBuffer" where
  "Mark i = i\<lparr>offMark := int (off i)\<rparr>"

definition Bytes :: "ioBuffer \<Rightarrow> (unit, byte list) go" where
  "Bytes i = (if off i > len i then Panic else Ok (drop (off i) (take (len i) (arr (buffer i)))))"

definition Drain :: "int \<Rightarrow> ioBuffer \<Rightarrow> ioBuffer" where
  "Drain n i =
     (if n < 0 then i
      else if int (off i) + n > int (len i) then i
      else i\<lparr>off := off i + nat n, offMark := ResetOffMark\<rparr>)"

definition Restore :: "ioBuffer \<Rightarrow> ioBuffer" where
  "Restore i = (if offMark i \<noteq> ResetOffMark then i\<lparr>off := nat (offMark i), offMark := ResetOffMark\<rparr> else i)"

definition Append :: "picks \<Rightarrow> byte list \<Rightarrow> iobuf \<Rightarrow> (unit, iobuf) go" where
  "Append picks p ib =
     (let i = drop_read (fst ib); free = cap i - len i
      in go_bind (if free < length p
                  then iobuf_copy picks (if off i + free > length p then 0 else int (length p)) (i, snd ib)
                  else Ok (i, snd ib)) (\<lambda>(i1, b1).
         set_buffer b1 i1 (fill p (buffer i1))))"

definition AppendByte :: "picks \<Rightarrow> byte \<Rightarrow> iobuf \<Rightarrow> (unit, iobuf) go" where
  "AppendByte picks p = Append picks [p]"

section \<open>Creation, cloning and the buffer pool\<close>

definition newIoBuffer :: "picks \<Rightarrow> int \<Rightarrow> bytePool \<Rightarrow> (unit, iobuf) go" where
  "newIoBuffer picks n b =
     (let k = (if n \<le> 0 then DefaultSize else nat n)
      in go_bind (pool_get (picks k) (int k) b) (\<lambda>(s, b1).
         Ok (\<lparr>buffer = s\<lparr>slen := 0\<rparr>, isnil = False, off = 0, offMark = ResetOffMark, count = 1, eof = False, pooled = True\<rparr>, b1)))"

text \<open>\<open>None\<close> is nil; \<open>NewIoBufferString\<close> converts to a slice that may have spare capacity.\<close>

definition NewIoBufferBytes :: "picks \<Rightarrow> slice option \<Rightarrow> bytePool \<Rightarrow> (unit, iobuf) go" where
  "NewIoBufferBytes picks s b =
     (case s of
        None \<Rightarrow> newIoBuffer picks 0 b
      | Some s \<Rightarrow> Ok (\<lparr>buffer = s, isnil = False, off = 0, offMark = ResetOffMark, count = 1, eof = False, pooled = False\<rparr>, b))"

definition NewIoBufferString :: "picks \<Rightarrow> nat \<Rightarrow> byte list \<Rightarrow> bytePool \<Rightarrow> (unit, iobuf) go" where
  "NewIoBufferString picks spare s b =
     (if s = [] then newIoBuffer picks 0 b
      else Ok (\<lparr>buffer = \<lparr>arr = s @ replicate spare 0, slen = length s\<rparr>, isnil = False, off = 0, offMark = ResetOffMark,
                count = 1, eof = False, pooled = False\<rparr>, b))"

definition SetEOF :: "bool \<Rightarrow> ioBuffer \<Rightarrow> ioBuffer" where
  "SetEOF e i = i\<lparr>eof := e\<rparr>"

definition NewIoBufferEOF :: "picks \<Rightarrow> bytePool \<Rightarrow> (unit, iobuf) go" where
  "NewIoBufferEOF picks b = go_bind (newIoBuffer picks 0 b) (\<lambda>(i, b1). Ok (SetEOF True i, b1))"

definition Count :: "i32 \<Rightarrow> ioBuffer \<Rightarrow> i32 \<times> ioBuffer" where
  "Count n i = (count i + n, i\<lparr>count := count i + n\<rparr>)"

text \<open>\<open>reuse\<close>: the buffer \<open>sync.Pool\<close> hands out, if any.\<close>

definition GetIoPool :: "picks \<Rightarrow> ioBuffer option \<Rightarrow> int \<Rightarrow> bytePool \<Rightarrow> (unit, iobuf) go" where
  "GetIoPool picks reuse n b =
     (case reuse of
        None \<Rightarrow> newIoBuffer picks n b
      | Some i \<Rightarrow> go_bind (Alloc picks n (i, b)) (\<lambda>(i1, b1). Ok (snd (Count 1 i1), b1)))"

definition Clone :: "picks \<Rightarrow> ioBuffer option \<Rightarrow> iobuf \<Rightarrow> (unit, iobuf) go" where
  "Clone picks reuse ib =
     (case ib of (i, b) \<Rightarrow>
        go_bind (GetIoPool picks reuse (Len i) b) (\<lambda>new.
        go_bind (Bytes i) (\<lambda>d.
        go_bind (Write picks d new) (\<lambda>(_, i1, b1). Ok (SetEOF (eof i) i1, b1)))))"

text \<open>\<open>Some buffer\<close> goes into the pool of buffers; the error is \<open>ErrDuplicate\<close>.\<close>

definition PutIoPool :: "iobuf \<Rightarrow> (unit, (bool \<times> ioBuffer option) \<times> iobuf) go" where
  "PutIoPool ib =
     (case ib of (i, b) \<Rightarrow>
        let (c, i1) = Count (- 1) i
        in if sint c > 0 then Ok ((True, None), i1, b)
           else if sint c < 0 then Ok ((False, None), i1, b)
           else go_bind (Free (i1, b)) (\<lambda>(i2, b2). Ok ((True, Some i2), i2, b2)))"

section \<open>The pipe\<close>

text \<open>
  \<open>waiting\<close> are the readers asleep in \<open>c.Wait()\<close>, in the order in which they went to sleep, each with the length of its buffer;
  \<open>woken\<close> are those that have been signalled and not yet looked again. Every method runs under the lock.
\<close>

record pipe =
  io :: iobuf
  perr :: "io_err option"
  waiting :: "(nat \<times> nat) list"
  woken :: "(nat \<times> nat) list"

datatype pipe_event =
    PRead nat nat
  | PWake nat
  | PWrite picks "byte list"
  | PClose "io_err option"

datatype pipe_ret =
    PNone
  | PGot nat "byte list" "io_err option"
  | PWrote nat
  | PClosed

definition NewPipe :: "picks \<Rightarrow> int \<Rightarrow> bytePool \<Rightarrow> (unit, pipe) go" where
  "NewPipe picks n b = go_bind (newIoBuffer picks n b) (\<lambda>ib. Ok \<lparr>io = ib, perr = None, waiting = [], woken = []\<rparr>)"

definition pipe_Len :: "pipe \<Rightarrow> int" where
  "pipe_Len p = Len (fst (io p))"

text \<open>One round of the loop of \<open>Read\<close>.\<close>

definition pipe_round :: "nat \<Rightarrow> nat \<Rightarrow> pipe \<Rightarrow> pipe_ret \<times> pipe" where
  "pipe_round g k p =
     (if Len (fst (io p)) > 0
      then let ((d, e), i) = Read k (fst (io p)) in (PGot g d e, p\<lparr>io := (i, snd (io p))\<rparr>)
      else case perr p of
             Some e \<Rightarrow> (PGot g [] (Some e), p)
           | None \<Rightarrow> (PNone, p\<lparr>waiting := waiting p @ [(g, k)]\<rparr>))"

definition pipe_Read :: "nat \<Rightarrow> nat \<Rightarrow> pipe \<Rightarrow> pipe_ret \<times> pipe" where
  "pipe_Read g k p = (if k = 0 then (PGot g [] None, p) else pipe_round g k p)"

definition Signal :: "pipe \<Rightarrow> pipe" where
  "Signal p = (case waiting p of [] \<Rightarrow> p | w # ws \<Rightarrow> p\<lparr>waiting := ws, woken := woken p @ [w]\<rparr>)"

definition Broadcast :: "pipe \<Rightarrow> pipe" where
  "Broadcast p = p\<lparr>waiting := [], woken := woken p @ waiting p\<rparr>"

definition pipe_Write :: "picks \<Rightarrow> byte list \<Rightarrow> pipe \<Rightarrow> (unit, pipe_ret \<times> pipe) go" where
  "pipe_Write picks d p =
     (if perr p \<noteq> None then Ok (PClosed, Signal p)
      else go_bind (Append picks d (io p)) (\<lambda>ib. Ok (PWrote (length d), Signal (p\<lparr>io := ib\<rparr>))))"

definition pipe_CloseWithError :: "io_err option \<Rightarrow> pipe \<Rightarrow> pipe" where
  "pipe_CloseWithError err p = Broadcast (p\<lparr>perr := Some (case err of None \<Rightarrow> IoEOF | Some e \<Rightarrow> e)\<rparr>)"

text \<open>\<open>PWake n\<close>: the \<open>n\<close>th woken reader gets the lock back and goes round its loop.\<close>

definition pipe_step :: "pipe_event \<Rightarrow> pipe \<Rightarrow> (unit, pipe_ret \<times> pipe) go" where
  "pipe_step ev p =
     (case ev of
        PRead g k \<Rightarrow> Ok (pipe_Read g k p)
      | PWake n \<Rightarrow>
          if n < length (woken p)
          then Ok (pipe_round (fst (woken p ! n)) (snd (woken p ! n)) (p\<lparr>woken := take n (woken p) @ drop (Suc n) (woken p)\<rparr>))
          else Ok (PNone, p)
      | PWrite picks d \<Rightarrow> pipe_Write picks d p
      | PClose err \<Rightarrow> Ok (PNone, pipe_CloseWithError err p))"

fun pipe_run :: "pipe_event list \<Rightarrow> pipe \<Rightarrow> (unit, pipe_ret list \<times> pipe) go" where
  "pipe_run [] p = Ok ([], p)"
| "pipe_run (ev # evs) p = go_bind (pipe_step ev p) (\<lambda>(r, p1). go_bind (pipe_run evs p1) (\<lambda>(rs, p2). Ok (r # rs, p2)))"

end
