(* ===== verification/IobufSpec.thy ===== *)
theory IobufSpec
  imports Iobuf
begin

text \<open>
  What the io buffer promises: a queue of bytes. The specification knows the unread bytes only, and of a reader's answers that it was given
  some room; the operations of \<open>Iobuf\<close> refine it, whatever slices the byte pool hands out. The pipe is first in, first out.
\<close>

section \<open>Space\<close>

definition contents :: "ioBuffer \<Rightarrow> byte list" where
  "contents i = drop (off i) (take (len i) (arr (buffer i)))"

definition iok :: "ioBuffer \<Rightarrow> bool" where
  "iok i \<longleftrightarrow> off i \<le> len i \<and> len i \<le> cap i \<and> (isnil i \<longrightarrow> arr (buffer i) = [])"

lemma length_contents: "iok i \<Longrightarrow> length (contents i) = len i - off i"
  by (simp add: iok_def contents_def)

lemma Len_contents: "iok i \<Longrightarrow> Len i = int (length (contents i))"
  by (simp add: Len_def length_contents) (simp add: iok_def)

lemma Reset_ok: "iok i \<Longrightarrow> iok (Reset i)" "contents (Reset i) = []"
  by (simp_all add: iok_def contents_def Reset_def)

lemma drop_read_ok: "iok i \<Longrightarrow> iok (drop_read i) \<and> contents (drop_read i) = contents i"
  by (auto simp: drop_read_def Reset_ok) (simp add: contents_def)

lemma length_splice: "m + length p \<le> length xs \<Longrightarrow> length (splice m p xs) = length xs"
  by (simp add: splice_def)

text \<open>Bytes stored right behind the unread ones.\<close>

lemma splice_contents:
  assumes "o' \<le> m" and "m + length p \<le> length xs"
  shows "drop o' (take (m + length p) (splice m p xs)) = drop o' (take m xs) @ p"
  using assms by (simp add: splice_def)

lemma fill_ok:
  assumes "iok i" and "len i + length d \<le> cap i"
  obtains s where "fill d (buffer i) = Ok s" "iok (i\<lparr>buffer := s\<rparr>)" "contents (i\<lparr>buffer := s\<rparr>) = contents i @ d"
  using assms by (intro that) (auto simp: fill_def iok_def contents_def splice_contents length_splice, simp_all add: splice_def)

lemma PutBytes_ok: "bp_ok b \<Longrightarrow> \<exists>b'. PutBytes i b = Ok b' \<and> bp_ok b'"
  using pool_put_ok unfolding PutBytes_def by metis

lemma copy_at_front:
  assumes "length p \<le> slen s" "slen s \<le> length (arr s)"
  shows "length (arr (snd (copy_at 0 p s))) = length (arr s)" "take (length p) (arr (snd (copy_at 0 p s))) = p"
  using assms by (simp_all add: copy_at_def splice_def Let_def)

lemma new_cap_ge: "c \<le> new_cap c" "2 * MinRead \<le> new_cap c"
  by (auto simp: new_cap_def)

text \<open>\<open>copy\<close> keeps the unread bytes, starts the slice with them and makes room.\<close>

lemma iobuf_copy_ok:
  assumes i: "iok i" and b: "bp_ok b"
  obtains i' b' where "iobuf_copy picks expand (i, b) = Ok (i', b')" "iok i'" "bp_ok b'" "contents i' = contents i" "off i' = 0"
    "len i' = length (contents i)" "cap i \<le> cap i'" "expand > 0 \<longrightarrow> cap i + nat expand \<le> cap i' \<and> 2 * MinRead \<le> cap i'"
proof (cases "expand > 0 \<or> expand = AutoExpand")
  case True
  let ?k = "new_cap (cap i) + nat (if expand = AutoExpand then 0 else expand)"
  let ?rest = "contents i"
  obtain s b1 where g: "pool_get (picks ?k) (int ?k) b = Ok (s, b1)" "bp_ok b1" "slen s = ?k" "?k \<le> length (arr s)"
    using pool_get_ok [OF b, of "picks ?k" ?k] by metis
  obtain b2 where p: "PutBytes i b1 = Ok b2" "bp_ok b2" using PutBytes_ok [OF g(2)] by blast
  have l: "length ?rest \<le> ?k" using i new_cap_ge(1) [of "cap i"] length_contents [OF i] unfolding iok_def by linarith
  then have f: "length ?rest \<le> slen s" "slen s \<le> length (arr s)" using g by simp_all
  let ?s = "(snd (copy_at 0 ?rest s))\<lparr>slen := len i - off i\<rparr>"
  note c = copy_at_front [OF f]
  have r: "reslice (int (len i - off i)) (snd (copy_at 0 ?rest s)) = Ok ?s"
    using c(1) l g(4) i by (simp add: reslice_def length_contents)
  have n: "\<not> len i < off i" using i by (simp add: iok_def)
  have e: "iobuf_copy picks expand (i, b) = Ok (i\<lparr>pooled := True, buffer := ?s, isnil := False, off := 0\<rparr>, b2)" (is "_ = Ok (?i, _)")
    using True n g(1) p(1) r by (simp add: iobuf_copy_def Let_def contents_def)
  have "iok ?i" using c(1) l g(4) i by (simp add: iok_def length_contents)
  moreover have "contents ?i = contents i" using c(2) i by (simp add: contents_def [of ?i] length_contents)
  moreover have "cap i + nat expand \<le> cap ?i \<and> 2 * MinRead \<le> cap ?i" if "expand > 0"
    using that c(1) g(4) new_cap_ge [of "cap i"] by (simp add: AutoExpand_def)
  moreover have "cap i \<le> cap ?i" using c(1) g(4) new_cap_ge(1) [of "cap i"] by simp
  ultimately show ?thesis using e p(2) i by (intro that [OF e]) (simp_all add: length_contents)
next
  case False
  have f: "length (contents i) \<le> slen (buffer i)" "slen (buffer i) \<le> length (arr (buffer i))" using i by (simp_all add: length_contents) (simp add: iok_def)
  note c = copy_at_front [OF f]
  let ?s = "(snd (copy_at 0 (contents i) (buffer i)))\<lparr>slen := len i - off i\<rparr>"
  let ?i = "i\<lparr>off := 0, buffer := ?s\<rparr>"
  have n: "\<not> len i < off i" using i by (simp add: iok_def)
  have e: "iobuf_copy picks expand (i, b) = Ok (?i, b)"
    using False n c(1) f by (auto simp: iobuf_copy_def Let_def contents_def [symmetric] set_buffer_def reslice_def)
  have "iok ?i" using c(1) f i by (auto simp: iok_def)
  moreover have "contents ?i = contents i" using c(2) i by (simp add: contents_def [of ?i] length_contents)
  ultimately show ?thesis using e b c(1) i False by (intro that [OF e]) (simp_all add: length_contents)
qed

text \<open>The room a write gets: behind the unread bytes, at the end of the slice.\<close>

definition room :: "nat \<Rightarrow> nat \<Rightarrow> ioBuffer \<Rightarrow> byte list \<Rightarrow> bool" where
  "room m n i q \<longleftrightarrow> off i \<le> m \<and> m + n = len i \<and> len i \<le> cap i \<and> (isnil i \<longrightarrow> arr (buffer i) = []) \<and>
     drop (off i) (take m (arr (buffer i))) = q"

lemma tryGrow_room:
  assumes "iok i" and "tryGrowByRelies n i = Some (m, i')"
  shows "room m n i' (contents i)"
  using assms by (auto simp: room_def tryGrowByRelies_def iok_def contents_def split: if_splits)

lemma grow_ok:
  assumes i: "iok i" and b: "bp_ok b" and no: "tryGrowByRelies n i = None"
  obtains m i' b' where "grow picks n (i, b) = Ok (m, i', b')" "room m n i' (contents i)" "bp_ok b'"
proof -
  define j where "j = (if Len i = 0 \<and> off i \<noteq> 0 then Reset i else i)"
  have c: "iok j" "contents j = contents i" using i Len_contents [OF i] by (simp_all add: Reset_ok j_def)
  have L: "Len i = int (length (contents i))" by (rule Len_contents [OF i])
  have gd: "grow picks n (i, b) = (case tryGrowByRelies n j of
       Some (l, i2) \<Rightarrow> Ok (l, i2, b)
     | None \<Rightarrow>
         go_bind (iobuf_copy picks (if Len i + int n \<le> int (cap j) div 2 then 0 else int n) (j, b)) (\<lambda>(i2, b2).
         go_bind (reslice (Len i + int n) (buffer i2)) (\<lambda>s. Ok (nat (Len i), i2\<lparr>off := 0, buffer := s\<rparr>, b2))))"
    unfolding grow_def j_def Let_def prod.case ..
  show ?thesis
  proof (cases "tryGrowByRelies n j")
    case (Some r)
    then obtain l i2 where r: "tryGrowByRelies n j = Some (l, i2)" by (cases r) simp
    then show ?thesis using tryGrow_room [OF c(1) r] c(2) b by (intro that [of l i2 b]) (simp_all add: gd)
  next
    case None
    let ?e = "if Len i + int n \<le> int (cap j) div 2 then 0 else int n"
    obtain i2 b2 where k: "iobuf_copy picks ?e (j, b) = Ok (i2, b2)" "iok i2" "bp_ok b2" "contents i2 = contents j" "off i2 = 0"
      "len i2 = length (contents j)" "cap j \<le> cap i2" "?e > 0 \<longrightarrow> cap j + nat ?e \<le> cap i2 \<and> 2 * MinRead \<le> cap i2"
      by (rule iobuf_copy_ok [OF c(1) b, of picks ?e])
    have le: "length (contents i) \<le> cap j" using c(1) length_contents [OF c(1)] unfolding c(2) iok_def by linarith
    have n0: "n > 0" using None c(1) by (cases n) (auto simp: tryGrowByRelies_def iok_def split: if_splits)
    have fit: "length (contents i) + n \<le> cap i2"
    proof (cases "Len i + int n \<le> int (cap j) div 2")
      case True
      then show ?thesis using k(7) L by linarith
    next
      case False
      then show ?thesis using k(8) le n0 by simp
    qed
    let ?s = "(buffer i2)\<lparr>slen := length (contents i) + n\<rparr>"
    have e: "grow picks n (i, b) = Ok (length (contents i), i2\<lparr>off := 0, buffer := ?s\<rparr>, b2)"
      using None k(1) fit L by (simp add: gd reslice_def nat_add_distrib)
    show ?thesis
      by (rule that [OF e _ k(3)]) (use fit k(2,4,5,6) c(2) in \<open>simp add: room_def iok_def contents_def [of i2]\<close>)
  qed
qed

lemma make_room_ok:
  assumes i: "iok i" and b: "bp_ok b"
  obtains m i' b' where "make_room picks n (i, b) = Ok (m, i', b')" "room m n i' (contents i)" "bp_ok b'"
proof (cases "tryGrowByRelies n i")
  case None
  then show ?thesis using grow_ok [OF i b None, of picks] that by (auto simp: make_room_def)
next
  case (Some r)
  then obtain m i' where "tryGrowByRelies n i = Some (m, i')" by (cases r) simp
  then show ?thesis using tryGrow_room [OF i] b that by (auto simp: make_room_def)
qed

lemma room_store:
  assumes "room m (length p) i q"
  shows "iok (i\<lparr>buffer := (buffer i)\<lparr>arr := splice m p (arr (buffer i))\<rparr>\<rparr>)"
    and "contents (i\<lparr>buffer := (buffer i)\<lparr>arr := splice m p (arr (buffer i))\<rparr>\<rparr>) = q @ p"
proof -
  have l: "len i = m + length p" "m + length p \<le> cap i" "off i \<le> m" "drop (off i) (take m (arr (buffer i))) = q"
    "isnil i \<longrightarrow> arr (buffer i) = []" using assms by (auto simp: room_def)
  then show "iok (i\<lparr>buffer := (buffer i)\<lparr>arr := splice m p (arr (buffer i))\<rparr>\<rparr>)" by (auto simp: iok_def length_splice splice_def)
  show "contents (i\<lparr>buffer := (buffer i)\<lparr>arr := splice m p (arr (buffer i))\<rparr>\<rparr>) = q @ p"
    using l by (simp add: contents_def splice_contents)
qed

lemma room_put: "room m (length p) i q \<Longrightarrow> put_at m p (buffer i) = Ok ((buffer i)\<lparr>arr := splice m p (arr (buffer i))\<rparr>)"
  by (simp add: room_def put_at_def)

lemma Write_ok:
  assumes "iok i" and "bp_ok b"
  obtains i' b' where "Write picks p (i, b) = Ok (length p, i', b')" "iok i'" "bp_ok b'" "contents i' = contents i @ p"
proof -
  obtain m i1 b1 where r: "make_room picks (length p) (i, b) = Ok (m, i1, b1)" "room m (length p) i1 (contents i)" "bp_ok b1"
    by (rule make_room_ok [OF assms, of picks "length p"])
  have "len i1 - m = length p" using r(2) by (auto simp: room_def)
  then show ?thesis using r room_store [OF r(2)] by (intro that) (auto simp: Write_def copy_at_def Let_def)
qed

lemma put_bytes_ok:
  assumes "iok i" and "bp_ok b"
  obtains i' b' where "put_bytes picks p (i, b) = Ok (i', b')" "iok i'" "bp_ok b'" "contents i' = contents i @ p"
proof -
  obtain m i1 b1 where r: "make_room picks (length p) (i, b) = Ok (m, i1, b1)" "room m (length p) i1 (contents i)" "bp_ok b1"
    by (rule make_room_ok [OF assms, of picks "length p"])
  then show ?thesis using room_store [OF r(2)] room_put [OF r(2)] by (intro that) (auto simp: put_bytes_def set_buffer_def)
qed

lemma Grow_ok:
  assumes "iok i" and "bp_ok b" and "n \<ge> 0"
  obtains i' b' where "Grow picks n (i, b) = Ok (True, i', b')" "iok i'" "bp_ok b'" "contents i' = contents i @ replicate (nat n) 0"
proof -
  obtain m i1 b1 where r: "make_room picks (nat n) (i, b) = Ok (m, i1, b1)" "room m (nat n) i1 (contents i)" "bp_ok b1"
    by (rule make_room_ok [OF assms(1,2), of picks "nat n"])
  have l: "len i1 - m = nat n" using r(2) by (auto simp: room_def)
  show ?thesis
  proof (cases "n > 0")
    case True
    have r2: "room m (length (replicate (nat n) (0 :: byte))) i1 (contents i)" using r(2) by simp
    show ?thesis using True r l room_store [OF r2] room_put [OF r2] by (intro that) (auto simp: Grow_def)
  next
    case False
    then have "n = 0" using assms(3) by simp
    then show ?thesis using r by (intro that [of i1 b1]) (auto simp: Grow_def room_def iok_def contents_def)
  qed
qed

lemma Append_ok:
  assumes i: "iok i" and b: "bp_ok b"
  obtains i' b' where "Append picks p (i, b) = Ok (i', b')" "iok i'" "bp_ok b'" "contents i' = contents i @ p"
proof -
  let ?i = "drop_read i"
  have d: "iok ?i" "contents ?i = contents i" using drop_read_ok [OF i] by simp_all
  let ?free = "cap ?i - len ?i"
  let ?e = "if off ?i + ?free > length p then 0 else int (length p)"
  have le: "length (contents i) + off ?i = len ?i" "len ?i \<le> cap ?i" using d length_contents [OF d(1)] by (auto simp: iok_def)
  obtain i1 b1 where c: "(if ?free < length p then iobuf_copy picks ?e (?i, b) else Ok (?i, b)) = Ok (i1, b1)"
    "iok i1" "bp_ok b1" "contents i1 = contents i" "len i1 + length p \<le> cap i1"
  proof (cases "?free < length p")
    case True
    obtain i1 b1 where k: "iobuf_copy picks ?e (?i, b) = Ok (i1, b1)" "iok i1" "bp_ok b1" "contents i1 = contents ?i"
      "off i1 = 0" "len i1 = length (contents ?i)" "cap ?i \<le> cap i1" "?e > 0 \<longrightarrow> cap ?i + nat ?e \<le> cap i1 \<and> 2 * MinRead \<le> cap i1"
      by (rule iobuf_copy_ok [OF d(1) b, of picks ?e])
    have "len i1 + length p \<le> cap i1"
    proof (cases "off ?i + ?free > length p")
      case True
      then show ?thesis using le k(6,7) d(2) by simp
    next
      case False
      then show ?thesis using le k(6,8) d(2) True by (cases p) auto
    qed
    then show ?thesis using True k d(2) by (intro that [of i1 b1]) simp_all
  next
    case False
    then show ?thesis using d b le by (intro that [of ?i b]) simp_all
  qed
  obtain s where f: "fill p (buffer i1) = Ok s" "iok (i1\<lparr>buffer := s\<rparr>)" "contents (i1\<lparr>buffer := s\<rparr>) = contents i1 @ p"
    by (rule fill_ok [OF c(2,5)])
  show ?thesis using c f by (intro that) (auto simp: Append_def Let_def set_buffer_def)
qed

section \<open>Allocation and readers\<close>

lemma Free_returns:
  assumes "bp_ok b"
  obtains i' b' where "Free (i, b) = Ok (i', b')" "bp_ok b'" "off i' = 0" "contents i' = []" "iok i \<longrightarrow> iok i'"
proof (cases "pooled i")
  case True
  obtain b' where p: "PutBytes (Reset i) b = Ok b'" "bp_ok b'" using PutBytes_ok [OF assms] by blast
  have "pooled (Reset i)" using True by (simp add: Reset_def)
  then show ?thesis using p by (intro that) (auto simp: Free_def putSlice_def iok_def contents_def Reset_def)
next
  case False
  then show ?thesis using assms Reset_ok [of i] by (intro that [of "Reset i" b]) (auto simp: Free_def putSlice_def Reset_def)
qed

lemma Alloc_ok:
  assumes "bp_ok b" and "isnil i \<longrightarrow> off i = 0"
  obtains i' b' where "Alloc picks n (i, b) = Ok (i', b')" "iok i'" "bp_ok b'" "contents i' = []"
proof -
  obtain i1 b1 where f: "(if isnil i then Ok (i, b) else Free (i, b)) = Ok (i1, b1)" "bp_ok b1" "off i1 = 0"
  proof (cases "isnil i")
    case False
    obtain i1 b1 where "Free (i, b) = Ok (i1, b1)" "bp_ok b1" "off i1 = 0" by (rule Free_returns [OF assms(1)])
    then show ?thesis using False that by simp
  qed (use assms that in simp)
  let ?k = "if n \<le> 0 then DefaultSize else nat n"
  obtain s b2 where g: "pool_get (picks ?k) (int ?k) b1 = Ok (s, b2)" "bp_ok b2" using pool_get_ok [OF f(2), of "picks ?k" ?k] by metis
  have a: "Alloc picks n (i, b) = Ok (i1\<lparr>pooled := True, buffer := s\<lparr>slen := 0\<rparr>, isnil := False\<rparr>, b2)"
    unfolding Alloc_def fst_conv f(1) go_bind.simps prod.case Let_def g(1) ..
  show ?thesis by (rule that [OF a]) (use f g in \<open>simp_all add: iok_def contents_def\<close>)
qed

lemma newIoBuffer_ok:
  assumes "bp_ok b"
  obtains i b' where "newIoBuffer picks n b = Ok (i, b')" "iok i" "bp_ok b'" "contents i = []"
proof -
  let ?k = "if n \<le> 0 then DefaultSize else nat n"
  obtain s b2 where g: "pool_get (picks ?k) (int ?k) b = Ok (s, b2)" "bp_ok b2" using pool_get_ok [OF assms, of "picks ?k" ?k] by metis
  show ?thesis using g by (intro that) (auto simp: newIoBuffer_def Let_def iok_def contents_def)
qed

text \<open>A clone holds the same bytes; a reused buffer is one that was freed.\<close>

lemma Clone_ok:
  assumes i: "iok i" and b: "bp_ok b" and r: "\<forall>j. reuse = Some j \<longrightarrow> (isnil j \<longrightarrow> off j = 0)"
  obtains i' b' where "Clone picks reuse (i, b) = Ok (i', b')" "iok i'" "bp_ok b'" "contents i' = contents i" "eof i' = eof i"
proof -
  obtain i1 b1 where g: "GetIoPool picks reuse (Len i) b = Ok (i1, b1)" "iok i1" "bp_ok b1" "contents i1 = []"
  proof (cases reuse)
    case None
    obtain i1 b1 where "newIoBuffer picks (Len i) b = Ok (i1, b1)" "iok i1" "bp_ok b1" "contents i1 = []" by (rule newIoBuffer_ok [OF b])
    then show ?thesis using None by (intro that) (auto simp: GetIoPool_def)
  next
    case (Some j)
    then have j: "isnil j \<longrightarrow> off j = 0" using r by simp
    obtain i1 b1 where a: "Alloc picks (Len i) (j, b) = Ok (i1, b1)" "iok i1" "bp_ok b1" "contents i1 = []" by (rule Alloc_ok [OF b j])
    then show ?thesis using Some by (intro that [of "snd (Count 1 i1)" b1]) (auto simp: GetIoPool_def Count_def iok_def contents_def)
  qed
  obtain i2 b2 where w: "Write picks (contents i) (i1, b1) = Ok (length (contents i), i2, b2)" "iok i2" "bp_ok b2" "contents i2 = contents i1 @ contents i"
    by (rule Write_ok [OF g(2,3)])
  have y: "Bytes i = Ok (contents i)" using i by (simp add: Bytes_def iok_def contents_def)
  show ?thesis using g w y
    by (intro that [of "SetEOF (eof i) i2" b2]) (auto simp: Clone_def SetEOF_def iok_def contents_def [of "i2\<lparr>eof := eof i\<rparr>"] contents_def [of i2])
qed

text \<open>A reader that claims more bytes than it has room for makes the reslicing panic.\<close>

lemma reader_fill:
  assumes "iok i" and "length d \<le> cap i - len i"
  obtains s where "fill d (buffer i) = Ok s" "iok (i\<lparr>buffer := s\<rparr>)" "contents (i\<lparr>buffer := s\<rparr>) = contents i @ d"
proof -
  have "len i + length d \<le> cap i" using assms unfolding iok_def by linarith
  then show ?thesis using fill_ok [OF assms(1)] that by metis
qed

lemma reader_lies: "\<not> length d \<le> cap i - len i \<Longrightarrow> fill d (buffer i) = Panic"
  by (simp add: fill_def)

lemma ReadOnce_ok:
  assumes i: "iok i" and b: "bp_ok b"
  obtains (lies) n where "n < length (fst (r n))" "ReadOnce picks r (i, b) = Panic"
    | (answers) n i' b' where "length (fst (r n)) \<le> n" "ReadOnce picks r (i, b) = Ok ((length (fst (r n)), snd (r n)), i', b')" "iok i'" "bp_ok b'"
        "contents i' = contents i @ fst (r n)"
proof -
  let ?i = "drop_read i"
  have d: "iok ?i" "contents ?i = contents i" using drop_read_ok [OF i] by simp_all
  obtain i1 b1 where c: "(if off ?i \<ge> cap ?i - len ?i then iobuf_copy picks 0 (?i, b) else Ok (?i, b)) = Ok (i1, b1)"
    "iok i1" "bp_ok b1" "contents i1 = contents i"
  proof (cases "off ?i \<ge> cap ?i - len ?i")
    case True
    obtain i1 b1 where "iobuf_copy picks 0 (?i, b) = Ok (i1, b1)" "iok i1" "bp_ok b1" "contents i1 = contents ?i"
      using iobuf_copy_ok [OF d(1) b, of picks 0] by metis
    then show ?thesis using True d(2) that by simp
  qed (use d b that in simp)
  obtain i2 b2 where a: "(if off i1 = len i1 \<and> cap i1 > MaxBufferLength then go_bind (Free (i1, b1)) (Alloc picks (int MaxRead)) else Ok (i1, b1)) = Ok (i2, b2)"
    "iok i2" "bp_ok b2" "contents i2 = contents i"
  proof (cases "off i1 = len i1 \<and> cap i1 > MaxBufferLength")
    case True
    then have e: "contents i = []" using c(2,4) length_contents [OF c(2)] by simp
    obtain j bj where f: "Free (i1, b1) = Ok (j, bj)" "bp_ok bj" "off j = 0" by (rule Free_returns [OF c(3)])
    then obtain i2 b2 where "Alloc picks (int MaxRead) (j, bj) = Ok (i2, b2)" "iok i2" "bp_ok b2" "contents i2 = []"
      using Alloc_ok [OF f(2), of j picks "int MaxRead"] by metis
    then show ?thesis using True f e that by simp
  next
    case False
    then have "(if off i1 = len i1 \<and> cap i1 > MaxBufferLength then go_bind (Free (i1, b1)) (Alloc picks (int MaxRead)) else Ok (i1, b1)) = Ok (i1, b1)" by (rule if_not_P)
    then show ?thesis using c by (intro that)
  qed
  let ?n = "cap i2 - len i2"
  obtain d e where de: "r ?n = (d, e)" by force
  show ?thesis
  proof (cases "length d \<le> ?n")
    case True
    obtain s where f: "fill d (buffer i2) = Ok s" "iok (i2\<lparr>buffer := s\<rparr>)" "contents (i2\<lparr>buffer := s\<rparr>) = contents i2 @ d"
      by (rule reader_fill [OF a(2) True])
    obtain i4 b4 where x: "(if ?n = length d then iobuf_copy picks AutoExpand (i2\<lparr>buffer := s\<rparr>, b2) else Ok (i2\<lparr>buffer := s\<rparr>, b2)) = Ok (i4, b4)"
      "iok i4" "bp_ok b4" "contents i4 = contents i @ d"
    proof (cases "?n = length d")
      case True
      obtain i4 b4 where "iobuf_copy picks AutoExpand (i2\<lparr>buffer := s\<rparr>, b2) = Ok (i4, b4)" "iok i4" "bp_ok b4" "contents i4 = contents (i2\<lparr>buffer := s\<rparr>)"
        using iobuf_copy_ok [OF f(2) a(3), of picks AutoExpand] by metis
      then show ?thesis using True f(3) a(4) that by simp
    qed (use f a that in simp)
    have "ReadOnce picks r (i, b) = Ok ((length d, e), i4, b4)"
      unfolding ReadOnce_def Let_def fst_conv snd_conv c(1) go_bind.simps prod.case a(1) de set_buffer_def f(1) x(1) by simp
    then show ?thesis using x de True by (intro answers [of ?n i4 b4]) simp_all
  next
    case False
    have "ReadOnce picks r (i, b) = Panic"
      unfolding ReadOnce_def Let_def fst_conv snd_conv c(1) go_bind.simps prod.case a(1) de set_buffer_def reader_lies [OF False] ..
    then show ?thesis using de False by (intro lies [of ?n]) simp_all
  qed
qed

fun spec_ReadFrom :: "(nat \<times> reader) list \<Rightarrow> nat \<Rightarrow> byte list \<Rightarrow> (unit, ((nat \<times> io_err option) \<times> byte list) option) go" where
  "spec_ReadFrom [] n q = Ok None"
| "spec_ReadFrom ((k, r) # rs) n q =
     (let (d, e) = r k
      in if length d > k then Panic
         else case e of
           Some IoEOF \<Rightarrow> Ok (Some ((n + length d, None), q @ d))
         | Some x \<Rightarrow> Ok (Some ((n + length d, Some x), q @ d))
         | None \<Rightarrow> if d = [] then Ok (Some ((n, None), q)) else spec_ReadFrom rs (n + length d) (q @ d))"

text \<open>Every answer is given at least 512 bytes of room.\<close>

lemma ReadFrom_room:
  assumes i: "iok i" and b: "bp_ok b"
  obtains i' b' where "(if cap i - len i < MinRead then iobuf_copy picks (if off i + (cap i - len i) < MinRead then int MinRead else 0) (i, b) else Ok (i, b)) = Ok (i', b')"
    "iok i'" "bp_ok b'" "contents i' = contents i" "MinRead \<le> cap i' - len i'"
proof (cases "cap i - len i < MinRead")
  case True
  let ?e = "if off i + (cap i - len i) < MinRead then int MinRead else 0"
  obtain i' b' where k: "iobuf_copy picks ?e (i, b) = Ok (i', b')" "iok i'" "bp_ok b'" "contents i' = contents i" "off i' = 0"
    "len i' = length (contents i)" "cap i \<le> cap i'" "?e > 0 \<longrightarrow> cap i + nat ?e \<le> cap i' \<and> 2 * MinRead \<le> cap i'"
    by (rule iobuf_copy_ok [OF i b, of picks ?e])
  have l: "length (contents i) = len i - off i" "off i \<le> len i" "len i \<le> cap i" using i length_contents [OF i] by (simp_all add: iok_def)
  have "MinRead \<le> cap i' - len i'"
  proof (cases "off i + (cap i - len i) < MinRead")
    case True
    then have "cap i + MinRead \<le> cap i'" using k(8) by (simp add: MinRead_def)
    then show ?thesis using l k(6) by linarith
  next
    case False
    then show ?thesis using l k(6,7) by linarith
  qed
  then show ?thesis using True k by (intro that [of i' b']) simp_all
next
  case False
  then show ?thesis using assms that by simp
qed

definition abs_read :: "((nat \<times> io_err option) \<times> iobuf) option \<Rightarrow> (unit, ((nat \<times> io_err option) \<times> byte list) option) go" where
  "abs_read res = Ok (map_option (\<lambda>(ret, i', b'). (ret, contents i')) res)"

lemma ReadFrom_loop_ok:
  assumes "iok i" and "bp_ok b"
  shows "\<exists>ks. length ks = length rs \<and> (\<forall>k \<in> set ks. MinRead \<le> k) \<and>
    spec_ReadFrom (zip ks (map snd rs)) n (contents i) = go_bind (ReadFrom_loop rs n (i, b)) abs_read \<and>
    (\<forall>ret i' b'. ReadFrom_loop rs n (i, b) = Ok (Some (ret, i', b')) \<longrightarrow> iok i' \<and> bp_ok b')"
  using assms
proof (induction rs arbitrary: n i b)
  case (Cons x rs)
  obtain picks r where x: "x = (picks, r)" by force
  obtain i1 b1 where c: "(if cap i - len i < MinRead then iobuf_copy picks (if off i + (cap i - len i) < MinRead then int MinRead else 0) (i, b) else Ok (i, b)) = Ok (i1, b1)"
    "iok i1" "bp_ok b1" "contents i1 = contents i" "MinRead \<le> cap i1 - len i1" by (rule ReadFrom_room [OF Cons.prems(1,2)])
  let ?k = "cap i1 - len i1"
  obtain d e where de: "r ?k = (d, e)" by force
  show ?case
  proof (cases "length d \<le> ?k")
    case False
    have "ReadFrom_loop (x # rs) n (i, b) = Panic"
      unfolding x ReadFrom_loop.simps Let_def fst_conv c(1) go_bind.simps prod.case de set_buffer_def reader_lies [OF False] ..
    then show ?thesis using False c(5) by (intro exI [of _ "replicate (length (x # rs)) ?k"]) (simp add: x de)
  next
    case fits: True
    obtain s where f: "fill d (buffer i1) = Ok s" "iok (i1\<lparr>buffer := s\<rparr>)" "contents (i1\<lparr>buffer := s\<rparr>) = contents i1 @ d"
      by (rule reader_fill [OF c(2) fits])
    let ?i = "i1\<lparr>buffer := s\<rparr>"
    let ?stop = "Some ((n + length d, case e of Some IoEOF \<Rightarrow> None | _ \<Rightarrow> e), ?i, b1)"
    have u: "ReadFrom_loop (x # rs) n (i, b) = (if e = None \<and> d \<noteq> [] then ReadFrom_loop rs (n + length d) (?i, b1) else Ok ?stop)"
      unfolding x ReadFrom_loop.simps Let_def fst_conv c(1) go_bind.simps prod.case de set_buffer_def f(1) by (auto split: option.splits io_err.splits)
    have sp: "spec_ReadFrom (zip (?k # ks) (map snd (x # rs))) n (contents i) =
        (if e = None \<and> d \<noteq> [] then spec_ReadFrom (zip ks (map snd rs)) (n + length d) (contents ?i) else abs_read ?stop)" for ks
      unfolding f(3) c(4) using fits by (auto simp: x de abs_read_def f(3) c(4) split: option.splits io_err.splits)
    obtain ks where ih: "length ks = length rs" "\<forall>k \<in> set ks. MinRead \<le> k"
      "spec_ReadFrom (zip ks (map snd rs)) (n + length d) (contents ?i) = go_bind (ReadFrom_loop rs (n + length d) (?i, b1)) abs_read"
      "\<forall>ret i' b'. ReadFrom_loop rs (n + length d) (?i, b1) = Ok (Some (ret, i', b')) \<longrightarrow> iok i' \<and> bp_ok b'"
      using Cons.IH [OF f(2) c(3), of "n + length d"] by blast
    have "spec_ReadFrom (zip (?k # ks) (map snd (x # rs))) n (contents i) = go_bind (ReadFrom_loop (x # rs) n (i, b)) abs_read"
      unfolding u sp using ih(3) by simp
    then show ?thesis unfolding u using ih f(2) c(3,5) by (intro exI [of _ "?k # ks"] conjI) auto
  qed
qed (simp add: abs_read_def)

section \<open>The queue of bytes\<close>

text \<open>
  The operations of the \<open>IoBuffer\<close> interface that touch its bytes, but for \<open>Restore\<close>, of which \<open>Restore_after_move\<close> below speaks, and
  \<open>WriteString\<close> and \<open>String\<close>, which do what \<open>Write\<close> and \<open>Bytes\<close> do. \<open>OClone\<close>: its second argument is the buffer the pool of buffers hands out.
\<close>

datatype io_op =
    ORead nat
  | OReadOnce picks reader
  | OReadFrom "(picks \<times> reader) list"
  | OGrow picks int
  | OCup int
  | OWrite picks "byte list"
  | OWriteByte picks byte
  | OWriteUint16 picks u16
  | OWriteUint32 picks u32
  | OWriteUint64 picks u64
  | OWriteTo "(nat \<times> io_err option) list"
  | OPeek int
  | OBytes
  | ODrain int
  | OLen
  | OReset
  | OMark
  | OAlloc picks int
  | OFree
  | OClone picks "ioBuffer option"
  | OAppend picks "byte list"
  | OAppendByte picks byte

datatype io_ret =
    RUnit
  | RBool bool
  | RLen int
  | RCount nat "io_err option"
  | RBytes "byte list" "io_err option"
  | ROpt "byte list option"

text \<open>\<open>Err ()\<close>: the call is still waiting for its reader or writer.\<close>

definition io_do :: "io_op \<Rightarrow> iobuf \<Rightarrow> (unit, io_ret \<times> iobuf) go" where
  "io_do op ib =
     (let i = fst ib; b = snd ib
      in case op of
           ORead k \<Rightarrow> (case Read k i of ((d, e), i1) \<Rightarrow> Ok (RBytes d e, i1, b))
         | OReadOnce picks r \<Rightarrow> go_bind (ReadOnce picks r ib) (\<lambda>((n, e), ib1). Ok (RCount n e, ib1))
         | OReadFrom rs \<Rightarrow> go_bind (ReadFrom rs ib) (\<lambda>x. case x of None \<Rightarrow> Err () | Some ((n, e), ib1) \<Rightarrow> Ok (RCount n e, ib1))
         | OGrow picks n \<Rightarrow> go_bind (Grow picks n ib) (\<lambda>(ok, ib1). Ok (RBool ok, ib1))
         | OCup n \<Rightarrow> go_bind (Cup n i) (\<lambda>(j, i1). Ok (ROpt (map_option contents j), i1, b))
         | OWrite picks p \<Rightarrow> go_bind (Write picks p ib) (\<lambda>(n, ib1). Ok (RCount n None, ib1))
         | OWriteByte picks p \<Rightarrow> go_bind (WriteByte picks p ib) (\<lambda>ib1. Ok (RUnit, ib1))
         | OWriteUint16 picks p \<Rightarrow> go_bind (WriteUint16 picks p ib) (\<lambda>ib1. Ok (RUnit, ib1))
         | OWriteUint32 picks p \<Rightarrow> go_bind (WriteUint32 picks p ib) (\<lambda>ib1. Ok (RUnit, ib1))
         | OWriteUint64 picks p \<Rightarrow> go_bind (WriteUint64 picks p ib) (\<lambda>ib1. Ok (RUnit, ib1))
         | OWriteTo ws \<Rightarrow> go_bind (WriteTo ws [] i) (\<lambda>x. case x of None \<Rightarrow> Err () | Some ((d, e), i1) \<Rightarrow> Ok (RBytes d e, i1, b))
         | OPeek n \<Rightarrow> Ok (ROpt (Peek n i), ib)
         | OBytes \<Rightarrow> go_bind (Bytes i) (\<lambda>d. Ok (RBytes d None, ib))
         | ODrain n \<Rightarrow> Ok (RUnit, Drain n i, b)
         | OLen \<Rightarrow> Ok (RLen (Len i), ib)
         | OReset \<Rightarrow> Ok (RUnit, Reset i, b)
         | OMark \<Rightarrow> Ok (RUnit, Mark i, b)
         | OAlloc picks n \<Rightarrow> go_bind (Alloc picks n ib) (\<lambda>ib1. Ok (RUnit, ib1))
         | OFree \<Rightarrow> go_bind (Free ib) (\<lambda>ib1. Ok (RUnit, ib1))
         | OClone picks reuse \<Rightarrow> go_bind (Clone picks reuse ib) (\<lambda>(j, b1). Ok (RBytes (contents j) None, i, b1))
         | OAppend picks p \<Rightarrow> go_bind (Append picks p ib) (\<lambda>ib1. Ok (RUnit, ib1))
         | OAppendByte picks p \<Rightarrow> go_bind (AppendByte picks p ib) (\<lambda>ib1. Ok (RUnit, ib1)))"

fun io_run :: "io_op list \<Rightarrow> iobuf \<Rightarrow> (unit, io_ret list \<times> iobuf) go" where
  "io_run [] ib = Ok ([], ib)"
| "io_run (op # ops) ib = go_bind (io_do op ib) (\<lambda>(r, ib1). go_bind (io_run ops ib1) (\<lambda>(rs, ib2). Ok (r # rs, ib2)))"

fun spec_WriteTo :: "(nat \<times> io_err option) list \<Rightarrow> byte list \<Rightarrow> byte list \<Rightarrow> (unit, io_ret \<times> byte list) go" where
  "spec_WriteTo ws sent q =
     (if q = [] then Ok (RBytes sent None, [])
      else case ws of
             [] \<Rightarrow> Err ()
           | (m, e) # ws1 \<Rightarrow>
               if m > length q then Panic
               else if e \<noteq> None \<or> m = 0 \<or> m = length q then Ok (RBytes (sent @ take m q) e, drop m q)
               else spec_WriteTo ws1 (sent @ take m q) (drop m q))"

declare spec_WriteTo.simps [simp del]

definition io_spec :: "io_op \<Rightarrow> byte list \<Rightarrow> (unit, io_ret \<times> byte list) go \<Rightarrow> bool" where
  "io_spec op q out =
     (case op of
        ORead k \<Rightarrow> out = Ok (RBytes (take k q) (if q = [] \<and> k > 0 then Some IoEOF else None), drop k q)
      | OReadOnce picks r \<Rightarrow> (\<exists>n. out = (if length (fst (r n)) > n then Panic else Ok (RCount (length (fst (r n))) (snd (r n)), q @ fst (r n))))
      | OReadFrom rs \<Rightarrow>
          (\<exists>ks. length ks = length rs \<and> (\<forall>k \<in> set ks. MinRead \<le> k) \<and>
             out = go_bind (spec_ReadFrom (zip ks (map snd rs)) 0 q) (\<lambda>x. case x of None \<Rightarrow> Err () | Some ((n, e), q1) \<Rightarrow> Ok (RCount n e, q1)))
      | OGrow picks n \<Rightarrow> out = Ok (RBool (n \<ge> 0), q @ replicate (nat n) 0)
      | OCup n \<Rightarrow>
          out = (if n > int (length q) then Ok (ROpt None, q)
                 else if n < 0 then Panic
                 else Ok (ROpt (Some (take (nat n) q)), drop (nat n) q))
      | OWrite picks p \<Rightarrow> out = Ok (RCount (length p) None, q @ p)
      | OWriteByte picks p \<Rightarrow> out = Ok (RUnit, q @ [p])
      | OWriteUint16 picks p \<Rightarrow> out = Ok (RUnit, q @ be_bytes 2 p)
      | OWriteUint32 picks p \<Rightarrow> out = Ok (RUnit, q @ be_bytes 4 p)
      | OWriteUint64 picks p \<Rightarrow> out = Ok (RUnit, q @ be_bytes 8 p)
      | OWriteTo ws \<Rightarrow> out = spec_WriteTo ws [] q
      | OPeek n \<Rightarrow> out = Ok (ROpt (if 0 \<le> n \<and> n \<le> int (length q) then Some (take (nat n) q) else None), q)
      | OBytes \<Rightarrow> out = Ok (RBytes q None, q)
      | ODrain n \<Rightarrow> out = Ok (RUnit, if 0 \<le> n \<and> n \<le> int (length q) then drop (nat n) q else q)
      | OLen \<Rightarrow> out = Ok (RLen (int (length q)), q)
      | OReset \<Rightarrow> out = Ok (RUnit, [])
      | OMark \<Rightarrow> out = Ok (RUnit, q)
      | OAlloc picks n \<Rightarrow> out = Ok (RUnit, [])
      | OFree \<Rightarrow> out = Ok (RUnit, [])
      | OClone picks reuse \<Rightarrow> out = Ok (RBytes q None, q)
      | OAppend picks p \<Rightarrow> out = Ok (RUnit, q @ p)
      | OAppendByte picks p \<Rightarrow> out = Ok (RUnit, q @ [p]))"

fun spec_run :: "io_op list \<Rightarrow> byte list \<Rightarrow> (unit, io_ret list \<times> byte list) go \<Rightarrow> bool" where
  "spec_run [] q out = (out = Ok ([], q))"
| "spec_run (op # ops) q out =
     (\<exists>o1. io_spec op q o1 \<and>
        (case o1 of
           Ok (r, q1) \<Rightarrow> \<exists>o2. spec_run ops q1 o2 \<and> out = go_bind o2 (\<lambda>(rs, q2). Ok (r # rs, q2))
         | Err e \<Rightarrow> out = Err e
         | Panic \<Rightarrow> out = Panic))"

text \<open>A buffer in the pool of buffers was freed.\<close>

definition op_ok :: "io_op \<Rightarrow> bool" where
  "op_ok op =
     (case op of
        OClone picks reuse \<Rightarrow> (case reuse of None \<Rightarrow> True | Some j \<Rightarrow> off j = 0)
      | _ \<Rightarrow> True)"

lemma advance_ok:
  assumes "iok i" and "n \<le> length (contents i)"
  shows "iok (i\<lparr>off := off i + n\<rparr>) \<and> contents (i\<lparr>off := off i + n\<rparr>) = drop n (contents i)"
  using assms by (auto simp: iok_def contents_def add.commute)

lemma Read_ok:
  assumes "iok i"
  obtains i' where "Read k i = ((take k (contents i), if contents i = [] \<and> k > 0 then Some IoEOF else None), i')" "iok i'" "contents i' = drop k (contents i)"
proof (cases "off i \<ge> len i")
  case True
  then have "contents i = []" by (simp add: contents_def)
  then show ?thesis using True assms by (intro that [of "if off i > 0 then Reset i else i"]) (auto simp: Read_def Reset_ok)
next
  case False
  then have n: "contents i \<noteq> []" using length_contents [OF assms] by auto
  let ?i = "i\<lparr>off := off i + length (take k (contents i))\<rparr>"
  have l: "length (take k (contents i)) \<le> length (contents i)" by simp
  have d: "drop (length (take k (contents i))) (contents i) = drop k (contents i)" by (cases "k \<le> length (contents i)") simp_all
  have "Read k i = ((take k (contents i), None), ?i)" using False by (simp add: Read_def Let_def contents_def [symmetric])
  then show ?thesis using n advance_ok [OF assms l] unfolding d by (intro that [of ?i]) simp_all
qed

lemma WriteTo_ok:
  assumes "iok i"
  shows "(case WriteTo ws sent i of
      Ok None \<Rightarrow> spec_WriteTo ws sent (contents i) = Err ()
    | Ok (Some ((d, e), i')) \<Rightarrow> spec_WriteTo ws sent (contents i) = Ok (RBytes d e, contents i') \<and> iok i'
    | Err x \<Rightarrow> False
    | Panic \<Rightarrow> spec_WriteTo ws sent (contents i) = Panic)"
  using assms
proof (induction ws arbitrary: sent i)
  case Nil
  have "contents i = [] \<longleftrightarrow> \<not> off i < len i" using length_contents [OF Nil] by auto
  then show ?case using Nil by (auto simp: WriteTo.simps spec_WriteTo.simps)
next
  case (Cons w ws)
  obtain m e where w: "w = (m, e)" by force
  have l: "length (contents i) = len i - off i" by (rule length_contents [OF Cons.prems])
  show ?case
  proof (cases "off i < len i \<and> m \<le> len i - off i")
    case True
    then have n: "contents i \<noteq> []" "m \<le> length (contents i)" using l by auto
    note a = advance_ok [OF Cons.prems n(2)]
    let ?i = "i\<lparr>off := off i + m\<rparr>" and ?sent = "sent @ take m (contents i)" and ?stop = "e \<noteq> None \<or> m = 0 \<or> m = len i - off i"
    have u: "WriteTo (w # ws) sent i = (if ?stop then Ok (Some ((?sent, e), ?i)) else WriteTo ws ?sent ?i)"
      using True by (auto simp: WriteTo.simps [of "(m, e) # ws"] w Let_def contents_def [of i, symmetric])
    have v: "spec_WriteTo (w # ws) sent (contents i) = (if ?stop then Ok (RBytes ?sent e, drop m (contents i)) else spec_WriteTo ws ?sent (drop m (contents i)))"
      using n l by (simp add: spec_WriteTo.simps [of "(m, e) # ws"] w)
    show ?thesis
    proof (cases ?stop)
      case True
      then have "WriteTo (w # ws) sent i = Ok (Some ((?sent, e), ?i))" "spec_WriteTo (w # ws) sent (contents i) = Ok (RBytes ?sent e, drop m (contents i))"
        unfolding u v by simp_all
      then show ?thesis using a by simp
    next
      case False
      then have "WriteTo (w # ws) sent i = WriteTo ws ?sent ?i" "spec_WriteTo (w # ws) sent (contents i) = spec_WriteTo ws ?sent (contents ?i)"
        unfolding u v conjunct2 [OF a] by simp_all
      then show ?thesis using Cons.IH [OF conjunct1 [OF a], of ?sent] by (simp only:)
    qed
  next
    case False
    moreover have "contents i = [] \<longleftrightarrow> \<not> off i < len i" using l by auto
    ultimately show ?thesis using l Cons.prems by (auto simp: WriteTo.simps [of "(m, e) # ws"] spec_WriteTo.simps [of "(m, e) # ws"] w)
  qed
qed

section \<open>Refinement\<close>

text \<open>One call refines the queue and keeps the buffer and the byte pool well-formed.\<close>

definition sim :: "io_op \<Rightarrow> iobuf \<Rightarrow> bool" where
  "sim op ib \<longleftrightarrow> io_spec op (contents (fst ib)) (go_bind (io_do op ib) (\<lambda>(r, i', b'). Ok (r, contents i'))) \<and>
     (\<forall>r i' b'. io_do op ib = Ok (r, i', b') \<longrightarrow> iok i' \<and> bp_ok b')"

lemma simI:
  assumes "io_do op (i, b) = Ok (r, i', b')" and "iok i'" and "bp_ok b'" and "io_spec op (contents i) (Ok (r, contents i'))"
  shows "sim op (i, b)"
  using assms by (simp add: sim_def)

lemma sim_reads:
  assumes i: "iok i" and b: "bp_ok b"
  shows "sim (ORead k) (i, b)" and "sim (OReadOnce picks r) (i, b)" and "sim (OReadFrom rs) (i, b)"
proof -
  obtain i' where r: "Read k i = ((take k (contents i), if contents i = [] \<and> k > 0 then Some IoEOF else None), i')" "iok i'" "contents i' = drop k (contents i)"
    by (rule Read_ok [OF i])
  have e: "io_do (ORead k) (i, b) = Ok (RBytes (take k (contents i)) (if contents i = [] \<and> k > 0 then Some IoEOF else None), i', b)"
    unfolding io_do_def Let_def io_op.case fst_conv snd_conv r(1) prod.case ..
  show "sim (ORead k) (i, b)" by (rule simI [OF e r(2) b]) (simp add: io_spec_def r(3))
next
  show "sim (OReadOnce picks r) (i, b)"
  proof (rule ReadOnce_ok [OF i b, of r picks])
    fix n assume "n < length (fst (r n))" "ReadOnce picks r (i, b) = Panic"
    then show ?thesis by (auto simp: sim_def io_do_def io_spec_def intro!: exI [of _ n])
  next
    fix n i' b'
    assume r: "length (fst (r n)) \<le> n" "ReadOnce picks r (i, b) = Ok ((length (fst (r n)), snd (r n)), i', b')" "iok i'" "bp_ok b'"
      "contents i' = contents i @ fst (r n)"
    have e: "io_do (OReadOnce picks r) (i, b) = Ok (RCount (length (fst (r n))) (snd (r n)), i', b')"
      unfolding io_do_def Let_def io_op.case r(2) go_bind.simps prod.case ..
    show ?thesis by (rule simI [OF e r(3,4)]) (use r(1,5) in \<open>auto simp: io_spec_def intro!: exI [of _ n]\<close>)
  qed
next
  have d: "iok (drop_read i)" "contents (drop_read i) = contents i" using drop_read_ok [OF i] by simp_all
  obtain ks where r: "length ks = length rs" "\<forall>k \<in> set ks. MinRead \<le> k"
    "spec_ReadFrom (zip ks (map snd rs)) 0 (contents i) = go_bind (ReadFrom_loop rs 0 (drop_read i, b)) abs_read"
    "\<forall>ret i' b'. ReadFrom_loop rs 0 (drop_read i, b) = Ok (Some (ret, i', b')) \<longrightarrow> iok i' \<and> bp_ok b'"
    using ReadFrom_loop_ok [OF d(1) b, of rs 0] d(2) by auto
  have "go_bind (io_do (OReadFrom rs) (i, b)) (\<lambda>(r, i', b'). Ok (r, contents i')) =
      go_bind (go_bind (ReadFrom_loop rs 0 (drop_read i, b)) abs_read) (\<lambda>x. case x of None \<Rightarrow> Err () | Some ((n, e), q1) \<Rightarrow> Ok (RCount n e, q1))"
    by (cases "ReadFrom_loop rs 0 (drop_read i, b)") (auto simp: io_do_def ReadFrom_def abs_read_def split: option.splits)
  then have "io_spec (OReadFrom rs) (contents i) (go_bind (io_do (OReadFrom rs) (i, b)) (\<lambda>(r, i', b'). Ok (r, contents i')))"
    unfolding io_spec_def io_op.case using r(1-3) by (intro exI [of _ ks] conjI) simp_all
  then show "sim (OReadFrom rs) (i, b)"
    using r(4) by (auto simp: sim_def io_do_def ReadFrom_def go_bind_Ok split: option.splits)
qed

lemma sim_put_bytes:
  assumes i: "iok i" and b: "bp_ok b"
    and d: "io_do op (i, b) = go_bind (put_bytes picks p (i, b)) (\<lambda>ib1. Ok (RUnit, ib1))"
    and s: "\<And>q out. io_spec op q out = (out = Ok (RUnit, q @ p))"
  shows "sim op (i, b)"
proof -
  obtain i' b' where w: "put_bytes picks p (i, b) = Ok (i', b')" "iok i'" "bp_ok b'" "contents i' = contents i @ p" by (rule put_bytes_ok [OF i b])
  show ?thesis by (rule simI [of _ _ _ RUnit i' b']) (simp_all add: d w s)
qed

lemma sim_append:
  assumes i: "iok i" and b: "bp_ok b"
    and d: "io_do op (i, b) = go_bind (Append picks p (i, b)) (\<lambda>ib1. Ok (RUnit, ib1))"
    and s: "\<And>q out. io_spec op q out = (out = Ok (RUnit, q @ p))"
  shows "sim op (i, b)"
proof -
  obtain i' b' where w: "Append picks p (i, b) = Ok (i', b')" "iok i'" "bp_ok b'" "contents i' = contents i @ p" by (rule Append_ok [OF i b])
  show ?thesis by (rule simI [of _ _ _ RUnit i' b']) (simp_all add: d w s)
qed

lemma sim_writes:
  assumes i: "iok i" and b: "bp_ok b"
  shows "sim (OWrite picks p) (i, b)" and "sim (OGrow picks n) (i, b)" and "sim (OWriteTo ws) (i, b)"
proof -
  obtain i' b' where w: "Write picks p (i, b) = Ok (length p, i', b')" "iok i'" "bp_ok b'" "contents i' = contents i @ p" by (rule Write_ok [OF i b])
  show "sim (OWrite picks p) (i, b)" by (rule simI [of _ _ _ "RCount (length p) None" i' b']) (simp_all add: io_do_def w io_spec_def)
next
  show "sim (OGrow picks n) (i, b)"
  proof (cases "n \<ge> 0")
    case True
    then obtain i' b' where w: "Grow picks n (i, b) = Ok (True, i', b')" "iok i'" "bp_ok b'" "contents i' = contents i @ replicate (nat n) 0" by (rule Grow_ok [OF i b])
    show ?thesis by (rule simI [of _ _ _ "RBool True" i' b']) (simp_all add: io_do_def w io_spec_def True)
  next
    case False
    then show ?thesis using i b by (intro simI [of _ _ _ "RBool False" i b]) (simp_all add: io_do_def Grow_def io_spec_def)
  qed
next
  show "sim (OWriteTo ws) (i, b)"
    using WriteTo_ok [OF i, of ws "[]"] b by (auto simp: sim_def io_do_def io_spec_def split: go.splits option.splits prod.splits)
qed

lemma sim_queries:
  assumes i: "iok i" and b: "bp_ok b"
  shows "sim (OPeek n) (i, b)" and "sim OBytes (i, b)" and "sim OLen (i, b)" and "sim OReset (i, b)"
    and "sim OMark (i, b)" and "sim (OAlloc picks m) (i, b)" and "sim OFree (i, b)"
    and "(case reuse of None \<Rightarrow> True | Some j \<Rightarrow> off j = 0) \<Longrightarrow> sim (OClone picks reuse) (i, b)"
proof -
  show "sim (OPeek n) (i, b)"
    by (rule simI [of _ _ _ "ROpt (Peek n i)" i b]) (simp_all add: io_do_def i b io_spec_def Peek_def Len_contents contents_def [of i, symmetric])
  show "sim OBytes (i, b)"
    by (rule simI [of _ _ _ "RBytes (contents i) None" i b]) (use i in \<open>simp_all add: io_do_def b io_spec_def Bytes_def contents_def iok_def\<close>)
  show "sim OLen (i, b)" by (rule simI [of _ _ _ "RLen (Len i)" i b]) (simp_all add: io_do_def i b io_spec_def Len_contents)
  show "sim OReset (i, b)" by (rule simI [of _ _ _ RUnit "Reset i" b]) (simp_all add: io_do_def b i io_spec_def Reset_ok)
  show "sim OMark (i, b)"
    by (rule simI [of _ _ _ RUnit "Mark i" b]) (use i in \<open>simp_all add: io_do_def b io_spec_def Mark_def iok_def contents_def\<close>)
  have "isnil i \<longrightarrow> off i = 0" using i by (auto simp: iok_def)
  from Alloc_ok [OF b this, of picks m] obtain i' b' where "Alloc picks m (i, b) = Ok (i', b')" "iok i'" "bp_ok b'" "contents i' = []" .
  then show "sim (OAlloc picks m) (i, b)" by (intro simI [of _ _ _ RUnit i' b']) (simp_all add: io_do_def io_spec_def)
  from Free_returns [OF b, of i] obtain i' b' where "Free (i, b) = Ok (i', b')" "bp_ok b'" "contents i' = []" "iok i \<longrightarrow> iok i'" .
  then show "sim OFree (i, b)" using i by (intro simI [of _ _ _ RUnit i' b']) (simp_all add: io_do_def io_spec_def)
next
  assume "case reuse of None \<Rightarrow> True | Some j \<Rightarrow> off j = 0"
  then have "\<forall>j. reuse = Some j \<longrightarrow> (isnil j \<longrightarrow> off j = 0)" by auto
  then obtain j b' where c: "Clone picks reuse (i, b) = Ok (j, b')" "iok j" "bp_ok b'" "contents j = contents i" "eof j = eof i" by (rule Clone_ok [OF i b])
  show "sim (OClone picks reuse) (i, b)" by (rule simI [of _ _ _ "RBytes (contents j) None" i b']) (simp_all add: io_do_def c i io_spec_def)
qed

lemma mark_only: "iok (i\<lparr>offMark := m\<rparr>) = iok i" "contents (i\<lparr>offMark := m\<rparr>) = contents i"
  by (simp_all add: iok_def contents_def)

lemma sim_skips:
  assumes i: "iok i" and b: "bp_ok b"
  shows "sim (OCup n) (i, b)" and "sim (ODrain n) (i, b)"
proof -
  have l: "n > int (length (contents i)) \<longleftrightarrow> int (off i) + n > int (len i)" using i length_contents [OF i] by (auto simp: iok_def)
  have a: "iok (i\<lparr>off := off i + nat n, offMark := m\<rparr>) \<and> contents (i\<lparr>off := off i + nat n, offMark := m\<rparr>) = drop (nat n) (contents i)"
    if "n \<ge> 0" "\<not> n > int (length (contents i))" for m
    using advance_ok [OF i, of "nat n"] that by (simp add: mark_only)
  let ?c = "\<lparr>buffer = \<lparr>arr = take (nat n) (contents i), slen = length (take (nat n) (contents i))\<rparr>, isnil = False, off = 0, offMark = 0, count = 0, eof = False, pooled = False\<rparr>"
  have c: "contents ?c = take (nat n) (contents i)" unfolding contents_def [of ?c] by (simp add: min_def)
  consider (over) "n > int (length (contents i))" | (neg) "n < 0" | (inside) "n \<ge> 0" "\<not> n > int (length (contents i))" by linarith
  then have "sim (OCup n) (i, b) \<and> sim (ODrain n) (i, b)"
  proof cases
    case over
    then show ?thesis using i b l by (auto intro!: simI [of "OCup n" _ _ "ROpt None" i b] simI [of "ODrain n" _ _ RUnit i b] simp: io_do_def io_spec_def Cup_def Drain_def)
  next
    case neg
    have "\<not> n > int (length (contents i))" using neg by simp
    then have "io_do (OCup n) (i, b) = Panic" "io_spec (OCup n) (contents i) Panic" using neg l by (simp_all add: io_do_def Cup_def io_spec_def)
    moreover have "sim (ODrain n) (i, b)" using neg i b by (intro simI [of _ _ _ RUnit i b]) (simp_all add: io_do_def io_spec_def Drain_def)
    ultimately show ?thesis by (simp add: sim_def)
  next
    case inside
    let ?i = "i\<lparr>off := off i + nat n, offMark := ResetOffMark\<rparr>"
    have "io_do (OCup n) (i, b) = Ok (ROpt (Some (contents ?c)), ?i, b)"
      using inside l by (simp add: io_do_def Cup_def Let_def contents_def [of i, symmetric])
    moreover have "io_spec (OCup n) (contents i) (Ok (ROpt (Some (contents ?c)), contents ?i))"
      unfolding c using inside a by (simp add: io_spec_def)
    moreover have "io_do (ODrain n) (i, b) = Ok (RUnit, ?i, b)" using inside l by (simp add: io_do_def Drain_def)
    moreover have "io_spec (ODrain n) (contents i) (Ok (RUnit, contents ?i))" using inside a by (simp add: io_spec_def)
    ultimately show ?thesis using a [OF inside] b by (blast intro: simI)
  qed
  then show "sim (OCup n) (i, b)" "sim (ODrain n) (i, b)" by simp_all
qed

lemma io_do_sim:
  assumes i: "iok i" and b: "bp_ok b" and o: "op_ok op"
  shows "sim op (i, b)"
proof (cases op)
  case (OWriteByte picks p)
  then show ?thesis by (intro sim_put_bytes [OF i b, of _ picks "[p]"]) (simp_all add: io_do_def WriteByte_def io_spec_def)
next
  case (OWriteUint16 picks p)
  then show ?thesis by (intro sim_put_bytes [OF i b, of _ picks "be_bytes 2 p"]) (simp_all add: io_do_def WriteUint16_def io_spec_def)
next
  case (OWriteUint32 picks p)
  then show ?thesis by (intro sim_put_bytes [OF i b, of _ picks "be_bytes 4 p"]) (simp_all add: io_do_def WriteUint32_def io_spec_def)
next
  case (OWriteUint64 picks p)
  then show ?thesis by (intro sim_put_bytes [OF i b, of _ picks "be_bytes 8 p"]) (simp_all add: io_do_def WriteUint64_def io_spec_def)
next
  case (OAppend picks p)
  then show ?thesis by (intro sim_append [OF i b, of _ picks p]) (simp_all add: io_do_def io_spec_def)
next
  case (OAppendByte picks p)
  then show ?thesis by (intro sim_append [OF i b, of _ picks "[p]"]) (simp_all add: io_do_def AppendByte_def io_spec_def)
qed (use o in \<open>simp_all add: op_ok_def sim_reads [OF i b] sim_writes [OF i b] sim_queries [OF i b] sim_skips [OF i b]\<close>)

lemma io_run_refines:
  assumes "iok i" and "bp_ok b" and "\<forall>op \<in> set ops. op_ok op"
  shows "spec_run ops (contents i) (go_bind (io_run ops (i, b)) (\<lambda>(rs, i', b'). Ok (rs, contents i')))"
  using assms
proof (induction ops arbitrary: i b)
  case (Cons op ops)
  have s: "io_spec op (contents i) (go_bind (io_do op (i, b)) (\<lambda>(r, i', b'). Ok (r, contents i')))"
    "\<forall>r i' b'. io_do op (i, b) = Ok (r, i', b') \<longrightarrow> iok i' \<and> bp_ok b'"
    using io_do_sim [of i b op] Cons.prems by (simp_all add: sim_def)
  show ?case
  proof (cases "io_do op (i, b)")
    case (Ok x)
    obtain r i1 b1 where x: "x = (r, i1, b1)" by (cases x) auto
    let ?o = "go_bind (io_run ops (i1, b1)) (\<lambda>(rs, i', b'). Ok (rs, contents i'))"
    have "spec_run ops (contents i1) ?o" using Cons.IH [of i1 b1] s(2) Ok x Cons.prems(3) by simp
    then show ?thesis using s(1) Ok x
      by (auto intro!: exI [of _ "Ok (r, contents i1)"] exI [of _ ?o]) (cases "io_run ops (i1, b1)"; auto)
  next
    case (Err e)
    then show ?thesis using s(1) by (auto intro!: exI [of _ "Err e"])
  next
    case Panic
    then show ?thesis using s(1) by (auto intro!: exI [of _ Panic])
  qed
qed simp


definition demo_reader :: reader where
  "demo_reader n = (take n (replicate 100 7), Some IoEOF)"

definition demo_ops :: "io_op list" where
  "demo_ops = [OFree, OAlloc (\<lambda>_. None) 8, OWrite (\<lambda>_. None) [1, 2, 3], ORead 2, OReadFrom [(\<lambda>_. None, demo_reader)], OWriteUint16 (\<lambda>_. None) 258, ODrain 99, OCup 2, OBytes]"


section \<open>Marks\<close>

text \<open>A mark survives reading: from the mark on, reading and restoring gives the marked bytes again.\<close>

lemma Mark_Read_Restore:
  assumes i: "iok i" and k: "contents i \<noteq> []"
  shows "contents (Restore (snd (Read k (Mark i)))) = contents i"
proof -
  have "off i < len i" using length_contents [OF i] k length_greater_0_conv [of "contents i"] by linarith
  then show ?thesis by (simp add: Read_def Mark_def Restore_def Let_def contents_def ResetOffMark_def)
qed

text \<open>
  A mark does not survive a write that moves the unread bytes: the offset is restored into bytes that have moved. Of a buffer over 8 bytes
  that is full, 5 bytes are read, a mark is set, 2 are read and one is written, which moves the unread byte to the front. \<open>Restore\<close>
  then sets the offset 5, beyond the length of 2: the buffer says that it holds -3 bytes, and \<open>Bytes\<close> panics.
\<close>

definition marked_demo :: "bytePool \<Rightarrow> (unit, iobuf) go" where
  "marked_demo b =
     go_bind (NewIoBufferBytes (\<lambda>_. None) (Some \<lparr>arr = [1, 2, 3, 4, 5, 6, 7, 8], slen = 8\<rparr>) b) (\<lambda>(i, b1).
     go_bind (Write (\<lambda>_. None) [9] (snd (Read 2 (Mark (snd (Read 5 i)))), b1)) (\<lambda>(_, i1, b2). Ok (Restore i1, b2)))"

theorem Restore_after_move: "\<exists>i. marked_demo b = Ok (i, b) \<and> Len i = - 3 \<and> Bytes i = Panic"
proof -
  let ?mk = "\<lambda>xs l k m. \<lparr>buffer = \<lparr>arr = xs, slen = l\<rparr>, isnil = False, off = k, offMark = m, count = 1, eof = False, pooled = False\<rparr>"
  let ?i = "?mk [1, 2, 3, 4, 5, 6, 7, 8] 8 7 5" and ?j = "?mk [8, 9, 3, 4, 5, 6, 7, 8] 2 5 (- 1)"
  have r: "snd (Read 2 (Mark (snd (Read 5 (?mk [1, 2, 3, 4, 5, 6, 7, 8] 8 0 (- 1)))))) = ?i"
    by (simp add: Read_def Mark_def Let_def)
  have c: "iobuf_copy (\<lambda>_. None) 0 (?i, b) = Ok (?mk [8, 2, 3, 4, 5, 6, 7, 8] 1 0 5, b)"
    by (simp add: iobuf_copy_def reslice_def copy_at_def splice_def set_buffer_def AutoExpand_def Let_def)
  have m: "make_room (\<lambda>_. None) 1 (?i, b) = Ok (1, ?mk [8, 2, 3, 4, 5, 6, 7, 8] 2 0 5, b)"
    using c by (simp add: make_room_def tryGrowByRelies_def grow_def Len_def reslice_def Let_def)
  have w: "Write (\<lambda>_. None) [9] (?i, b) = Ok (1, ?mk [8, 9, 3, 4, 5, 6, 7, 8] 2 0 5, b)"
    using m by (simp add: Write_def copy_at_def splice_def Let_def)
  have "marked_demo b = Ok (?j, b)"
    by (simp add: marked_demo_def NewIoBufferBytes_def ResetOffMark_def r w Restore_def)
  then show ?thesis by (intro exI [of _ ?j]) (simp add: Len_def Bytes_def)
qed

text \<open>
  The buffer that \<open>Cup\<close> returns is created with the mark 0 and the count 0 instead of no mark and one reference. \<open>Restore\<close> without a \<open>Mark\<close> takes
  back what was read from it, and \<open>PutIoPool\<close> refuses it as a duplicate.
\<close>

theorem Cup_buffer_marked:
  assumes "Cup n i = Ok (Some c, i')"
  shows "contents (Restore (c\<lparr>off := k\<rparr>)) = contents c \<and> (\<exists>c'. PutIoPool (c, b) = Ok ((False, None), c', b))"
proof -
  obtain d where c: "c = \<lparr>buffer = \<lparr>arr = d, slen = length d\<rparr>, isnil = False, off = 0, offMark = 0, count = 0, eof = False, pooled = False\<rparr>"
    using assms unfolding Cup_def Let_def by (metis (no_types, lifting) go.distinct(3) go.inject(1) option.distinct(1) option.inject prod.inject)
  have "contents (Restore (c\<lparr>off := k\<rparr>)) = contents c" by (simp add: c Restore_def ResetOffMark_def contents_def)
  moreover have "PutIoPool (c, b) = Ok ((False, None), c\<lparr>count := - 1\<rparr>, b)" by (simp add: c PutIoPool_def Count_def)
  ultimately show ?thesis by blast
qed

end
