(* ===== verification/PipeSpec.thy ===== *)
theory PipeSpec
  imports IobufSpec
begin

text \<open>
  The pipe of \<open>cache/buffer/iobuffer.go\<close> on the io buffer's contract: first in, first out, for any number of readers and writers and any
  order in which they get the lock; after closing nobody sleeps. Its one weakness is shown too: one signal per write can leave a reader
  asleep beside data.
\<close>

definition unread :: "pipe \<Rightarrow> byte list" where
  "unread p = contents (fst (io p))"

definition got :: "pipe_ret list \<Rightarrow> byte list" where
  "got rs = concat (map (\<lambda>r. case r of PGot g d e \<Rightarrow> d | _ \<Rightarrow> []) rs)"

text \<open>The bytes of the writes that were accepted.\<close>

definition accepted :: "pipe_event \<Rightarrow> pipe_ret \<Rightarrow> byte list" where
  "accepted ev r = (case ev of PWrite picks d \<Rightarrow> (if r = PClosed then [] else d) | _ \<Rightarrow> [])"

definition written :: "pipe_event list \<Rightarrow> pipe_ret list \<Rightarrow> byte list" where
  "written evs rs = concat (map2 accepted evs rs)"

definition pipe_ok :: "pipe \<Rightarrow> bool" where
  "pipe_ok p \<longleftrightarrow> iok (fst (io p)) \<and> bp_ok (snd (io p)) \<and> (perr p \<noteq> None \<longrightarrow> waiting p = [])"

lemma Signal_same: "io (Signal p) = io p" "perr (Signal p) = perr p" "waiting p = [] \<Longrightarrow> Signal p = p"
  by (simp_all add: Signal_def split: list.splits)

text \<open>What one round of a reader does.\<close>

lemma pipe_round_eq:
  assumes "pipe_ok p" and "k > 0"
  obtains p' where "pipe_ok p'" "perr p' = perr p" "pipe_round g k p =
    (if unread p \<noteq> [] then PGot g (take k (unread p)) None else case perr p of Some e \<Rightarrow> PGot g [] (Some e) | None \<Rightarrow> PNone, p')"
    "unread p' = drop k (unread p)"
proof (cases "unread p = []")
  case True
  have l: "\<not> Len (fst (io p)) > 0" using Len_contents [of "fst (io p)"] assms True by (simp add: pipe_ok_def unread_def)
  show ?thesis
  proof (cases "perr p")
    case None
    then show ?thesis using True l assms by (intro that [of "p\<lparr>waiting := waiting p @ [(g, k)]\<rparr>"]) (auto simp: pipe_ok_def pipe_round_def unread_def)
  next
    case (Some e)
    then show ?thesis using True l assms by (intro that [of p]) (auto simp: pipe_ok_def pipe_round_def unread_def)
  qed
next
  case False
  have l: "Len (fst (io p)) > 0" using Len_contents [of "fst (io p)"] assms False by (simp add: pipe_ok_def unread_def)
  have i: "iok (fst (io p))" using assms by (simp add: pipe_ok_def)
  obtain i' where r: "Read k (fst (io p)) = ((take k (contents (fst (io p))), if contents (fst (io p)) = [] \<and> k > 0 then Some IoEOF else None), i')"
    "iok i'" "contents i' = drop k (contents (fst (io p)))" by (rule Read_ok [OF i])
  show ?thesis using False l r assms by (intro that [of "p\<lparr>io := (i', snd (io p))\<rparr>"]) (auto simp: pipe_ok_def pipe_round_def unread_def)
qed

lemma pipe_round_step:
  assumes p: "pipe_ok p" and k: "k > 0" and w: "\<forall>x \<in> set (waiting p @ woken p). snd x > 0"
  obtains r p' where "pipe_round g k p = (r, p')" "pipe_ok p'" "\<forall>x \<in> set (waiting p' @ woken p'). snd x > 0" "got [r] @ unread p' = unread p"
proof -
  obtain p' where r: "pipe_ok p'" "perr p' = perr p" "pipe_round g k p =
    (if unread p \<noteq> [] then PGot g (take k (unread p)) None else case perr p of Some e \<Rightarrow> PGot g [] (Some e) | None \<Rightarrow> PNone, p')"
    (is "_ = (?r, p')") "unread p' = drop k (unread p)" by (rule pipe_round_eq [OF p k])
  have "set (waiting p' @ woken p') \<subseteq> insert (g, k) (set (waiting p @ woken p))"
    using arg_cong [OF r(3), of snd] by (auto simp: pipe_round_def split: if_splits option.splits prod.splits)
  then have s: "\<forall>x \<in> set (waiting p' @ woken p'). snd x > 0" using w k by fastforce
  have "got [?r] @ unread p' = unread p"
    unfolding r(4) by (cases "unread p = []"; cases "perr p") (simp_all add: got_def)
  then show ?thesis by (rule that [OF r(3,1) s])
qed

text \<open>One event: what was handed out and what is left is what was there and what came in.\<close>

lemma pipe_step_ok:
  assumes p: "pipe_ok p" and w: "\<forall>x \<in> set (waiting p @ woken p). snd x > 0"
  obtains r p' where "pipe_step ev p = Ok (r, p')" "pipe_ok p'" "\<forall>x \<in> set (waiting p' @ woken p'). snd x > 0"
    "got [r] @ unread p' = unread p @ accepted ev r"
proof (cases ev)
  case (PRead g k)
  show ?thesis
  proof (cases "k = 0")
    case True
    then show ?thesis using PRead p w by (intro that [of "PGot g [] None" p]) (auto simp: pipe_step_def pipe_Read_def got_def accepted_def)
  next
    case False
    then have k: "k > 0" by simp
    obtain r p' where r: "pipe_round g k p = (r, p')" "pipe_ok p'" "\<forall>x \<in> set (waiting p' @ woken p'). snd x > 0" "got [r] @ unread p' = unread p"
      by (rule pipe_round_step [OF p k w])
    show ?thesis by (rule that [OF _ r(2,3)]) (use r(1,4) PRead False in \<open>simp_all add: pipe_step_def pipe_Read_def accepted_def\<close>)
  qed
next
  case (PWake n)
  show ?thesis
  proof (cases "n < length (woken p)")
    case True
    obtain g k where x: "woken p ! n = (g, k)" by force
    have "(g, k) \<in> set (waiting p @ woken p)" using nth_mem [OF True] x by simp
    then have "snd (g, k) > 0" using w by blast
    then have k: "k > 0" by simp
    let ?p = "p\<lparr>woken := take n (woken p) @ drop (Suc n) (woken p)\<rparr>"
    have p1: "pipe_ok ?p" "unread ?p = unread p" using p by (simp_all add: pipe_ok_def unread_def)
    have w1: "\<forall>x \<in> set (waiting ?p @ woken ?p). snd x > 0" using w by (auto dest: in_set_takeD in_set_dropD)
    obtain r p' where r: "pipe_round g k ?p = (r, p')" "pipe_ok p'" "\<forall>x \<in> set (waiting p' @ woken p'). snd x > 0" "got [r] @ unread p' = unread ?p"
      by (rule pipe_round_step [OF p1(1) k w1])
    show ?thesis by (rule that [OF _ r(2,3)]) (use r(1,4) p1 x PWake True in \<open>simp_all add: pipe_step_def accepted_def\<close>)
  next
    case False
    then show ?thesis using PWake p w by (intro that [of PNone p]) (auto simp: pipe_step_def got_def accepted_def)
  qed
next
  case (PWrite picks d)
  show ?thesis
  proof (cases "perr p")
    case None
    have i: "iok (fst (io p))" "bp_ok (snd (io p))" using p by (simp_all add: pipe_ok_def)
    obtain i' b' where a: "Append picks d (fst (io p), snd (io p)) = Ok (i', b')" "iok i'" "bp_ok b'" "contents i' = contents (fst (io p)) @ d"
      by (rule Append_ok [OF i])
    let ?p = "Signal (p\<lparr>io := (i', b')\<rparr>)"
    have e: "pipe_step ev p = Ok (PWrote (length d), ?p)" using PWrite None a(1) by (simp add: pipe_step_def pipe_Write_def)
    show ?thesis
      by (rule that [OF e]) (use a None w PWrite in \<open>auto simp: pipe_ok_def Signal_same unread_def got_def accepted_def Signal_def split: list.splits\<close>)
  next
    case (Some x)
    then have "waiting p = []" using p by (simp add: pipe_ok_def)
    then show ?thesis using PWrite Some p w
      by (intro that [of PClosed p]) (auto simp: pipe_step_def pipe_Write_def Signal_same got_def accepted_def)
  qed
next
  case (PClose err)
  then show ?thesis using p w
    by (intro that [of PNone "pipe_CloseWithError err p"])
      (auto simp: pipe_step_def pipe_CloseWithError_def Broadcast_def pipe_ok_def unread_def got_def accepted_def)
qed

lemma pipe_run_ok:
  assumes "pipe_ok p" and "\<forall>x \<in> set (waiting p @ woken p). snd x > 0"
  shows "\<exists>rs p'. pipe_run evs p = Ok (rs, p') \<and> pipe_ok p' \<and> got rs @ unread p' = unread p @ written evs rs"
  using assms
proof (induction evs arbitrary: p)
  case Nil
  then show ?case by (simp add: got_def written_def)
next
  case (Cons ev evs)
  obtain r p1 where s: "pipe_step ev p = Ok (r, p1)" "pipe_ok p1" "\<forall>x \<in> set (waiting p1 @ woken p1). snd x > 0"
    "got [r] @ unread p1 = unread p @ accepted ev r" by (rule pipe_step_ok [OF Cons.prems])
  obtain rs p2 where t: "pipe_run evs p1 = Ok (rs, p2)" "pipe_ok p2" "got rs @ unread p2 = unread p1 @ written evs rs"
    using Cons.IH [OF s(2,3)] by blast
  have "got (r # rs) @ unread p2 = got [r] @ unread p1 @ written evs rs" using t(3) by (simp add: got_def)
  also have "\<dots> = (got [r] @ unread p1) @ written evs rs" by simp
  also have "\<dots> = unread p @ written (ev # evs) (r # rs)" unfolding s(4) by (simp add: written_def)
  finally show ?case using s(1) t by simp
qed

text \<open>
  C17: The pipe is first in, first out. Whatever readers, writers and closers do, in whatever order they get the lock, no call panics; the
  bytes the reads returned, in order, followed by those still buffered, are the bytes of the accepted writes, in order. The next reader
  gets the oldest unread bytes; if there are none, it gets the error the pipe was closed with; only if the pipe is open does it sleep. Once the pipe
  is closed nobody is left asleep.
\<close>

theorem pipe_fifo:
  assumes "bp_run pre newBytePool = Ok b" and "NewPipe picks n b = Ok p" and "k > 0"
  shows "\<exists>rs p' left. pipe_run evs p = Ok (rs, p') \<and> got rs @ left = written evs rs \<and> (perr p' \<noteq> None \<longrightarrow> waiting p' = []) \<and>
    fst (pipe_Read g k p') = (if left \<noteq> [] then PGot g (take k left) None else case perr p' of Some e \<Rightarrow> PGot g [] (Some e) | None \<Rightarrow> PNone)"
proof -
  have b: "bp_ok b" using bp_run_ok [OF newBytePool_ok, of pre] assms(1) by simp
  obtain i b' where i: "newIoBuffer picks n b = Ok (i, b')" "iok i" "bp_ok b'" "contents i = []" by (rule newIoBuffer_ok [OF b])
  then have p: "p = \<lparr>io = (i, b'), perr = None, waiting = [], woken = []\<rparr>" using assms(2) by (simp add: NewPipe_def)
  then have "pipe_ok p" "\<forall>x \<in> set (waiting p @ woken p). snd x > 0" "unread p = []" using i by (simp_all add: pipe_ok_def unread_def)
  then obtain rs p' where r: "pipe_run evs p = Ok (rs, p')" "pipe_ok p'" "got rs @ unread p' = written evs rs" using pipe_run_ok [of p evs] by auto
  obtain q where "pipe_round g k p' =
    (if unread p' \<noteq> [] then PGot g (take k (unread p')) None else case perr p' of Some e \<Rightarrow> PGot g [] (Some e) | None \<Rightarrow> PNone, q)"
    using pipe_round_eq [OF r(2) assms(3), of g] by metis
  then show ?thesis using r assms(3) by (intro exI [of _ rs] exI [of _ p'] exI [of _ "unread p'"]) (auto simp: pipe_ok_def pipe_Read_def)
qed

theorem pipe_fifo_witness:
  "\<exists>p rs p' left. NewPipe (\<lambda>_. None) 8 newBytePool = Ok p \<and>
     pipe_run [PRead 1 4, PWrite (\<lambda>_. None) [1, 2, 3], PWake 0, PWrite (\<lambda>_. None) [4, 5], PClose None] p = Ok (rs, p') \<and>
     got rs @ left = written [PRead 1 4, PWrite (\<lambda>_. None) [1, 2, 3], PWake 0, PWrite (\<lambda>_. None) [4, 5], PClose None] rs"
proof -
  obtain i b where "newIoBuffer (\<lambda>_. None) 8 newBytePool = Ok (i, b)" by (rule newIoBuffer_ok [OF newBytePool_ok])
  then obtain p where p: "NewPipe (\<lambda>_. None) 8 newBytePool = Ok p" by (simp add: NewPipe_def)
  have b: "bp_run [] newBytePool = Ok newBytePool" by simp
  show ?thesis
    using pipe_fifo [OF b p zero_less_one, of "[PRead 1 4, PWrite (\<lambda>_. None) [1, 2, 3], PWake 0, PWrite (\<lambda>_. None) [4, 5], PClose None]" 1] p by blast
qed

text \<open>
  A write signals one reader, and a reader that leaves bytes behind signals nobody: of two sleeping readers, the first, woken by a write
  of two bytes, takes one, and the second sleeps on beside the other.
\<close>

theorem pipe_reader_sleeps_beside_data:
  assumes "NewPipe picks n newBytePool = Ok p"
  shows "\<exists>rs p'. pipe_run [PRead 1 1, PRead 2 1, PWrite picks [5, 6], PWake 0] p = Ok (rs, p') \<and>
    unread p' = [6] \<and> waiting p' = [(2, 1)] \<and> woken p' = []"
proof -
  obtain i b where i: "newIoBuffer picks n newBytePool = Ok (i, b)" "iok i" "bp_ok b" "contents i = []" by (rule newIoBuffer_ok [OF newBytePool_ok])
  then have p: "p = \<lparr>io = (i, b), perr = None, waiting = [], woken = []\<rparr>" using assms by (simp add: NewPipe_def)
  have l: "Len i = 0" using Len_contents [OF i(2)] i(4) by simp
  obtain i1 b1 where a: "Append picks [5, 6] (i, b) = Ok (i1, b1)" "iok i1" "bp_ok b1" "contents i1 = contents i @ [5, 6]" by (rule Append_ok [OF i(2,3)])
  have l1: "Len i1 = 2" using Len_contents [OF a(2)] a(4) i(4) by simp
  obtain i2 where r: "Read 1 i1 = ((take 1 (contents i1), if contents i1 = [] \<and> (1 :: nat) > 0 then Some IoEOF else None), i2)" "iok i2" "contents i2 = drop 1 (contents i1)"
    by (rule Read_ok [OF a(2)])
  show ?thesis using l l1 a r i(4) unfolding p
    by (simp add: pipe_step_def pipe_Read_def pipe_round_def pipe_Write_def Signal_def unread_def)
qed

end
