(* ===== verification/Delayed.thy ===== *)
theory Delayed
  imports Prelude "HOL-Library.Multiset"
begin

text \<open>
  The delay queue of \<open>delayed\<close>: the heap of \<open>delayed.go\<close>, in which every node has four children, and the dispatcher of \<open>do.go\<close>. A task is
  its time of execution and its identity; the time does not change. Every method runs under the lock and is one step; the sentinel
  goroutine takes one step per iteration of its loops.
\<close>

record task =
  ExecTime :: i64
  Identify :: string

section \<open>The heap\<close>

definition parent :: "nat \<Rightarrow> nat" where
  "parent i = (i - 1) div 4"

lemma parent_less: "0 < i \<Longrightarrow> parent i < i"
  by (simp add: parent_def)

text \<open>The loop of \<open>siftupDelayed\<close>: position \<open>i\<close> is free; parents that are later move down.\<close>

function siftup_loop :: "i64 \<Rightarrow> task list \<Rightarrow> nat \<Rightarrow> task list \<times> nat" where
  "siftup_loop when d i =
     (if i > 0 then
        let p = parent i
        in if ExecTime (d ! p) \<le>s when then (d, i) else siftup_loop when (d[i := d ! p]) p
      else (d, i))"
  by auto
termination by (relation "measure (\<lambda>(w, d, i). i)") (simp_all add: parent_less)

declare siftup_loop.simps [simp del]

definition siftupDelayed :: "task list \<Rightarrow> nat \<Rightarrow> task list" where
  "siftupDelayed d i =
     (if i \<ge> length d then d
      else
        let when = ExecTime (d ! i)
        in if when \<le>s 0 then d
           else let tmp = d ! i; (d1, i1) = siftup_loop when d i in d1[i1 := tmp])"

text \<open>The earliest child: of the first two and of the last two, then of these.\<close>

definition earliest_child :: "task list \<Rightarrow> nat \<Rightarrow> nat" where
  "earliest_child d i =
     (let n = length d; c = i * 4 + 1; c3 = c + 2;
          c' = (if c + 1 < n \<and> ExecTime (d ! (c + 1)) <s ExecTime (d ! c) then c + 1 else c)
      in if c3 < n then
           let c3' = (if c3 + 1 < n \<and> ExecTime (d ! (c3 + 1)) <s ExecTime (d ! c3) then c3 + 1 else c3)
           in if ExecTime (d ! c3') <s ExecTime (d ! c') then c3' else c'
         else c')"

lemma earliest_child_bounds: "i * 4 + 1 < length d \<Longrightarrow> i < earliest_child d i \<and> earliest_child d i < length d"
  by (auto simp: earliest_child_def Let_def)

function siftdown_loop :: "i64 \<Rightarrow> task list \<Rightarrow> nat \<Rightarrow> task list \<times> nat" where
  "siftdown_loop when d i =
     (if i * 4 + 1 \<ge> length d then (d, i)
      else
        let c = earliest_child d i
        in if when \<le>s ExecTime (d ! c) then (d, i) else siftdown_loop when (d[i := d ! c]) c)"
  by auto
termination
proof (relation "measure (\<lambda>(w, d, i). length d - i)", goal_cases)
  case (2 w d i c)
  then show ?case using earliest_child_bounds [of i d] by auto
qed simp

declare siftdown_loop.simps [simp del]

definition siftdownDelayed :: "task list \<Rightarrow> nat \<Rightarrow> task list" where
  "siftdownDelayed d i =
     (if i \<ge> length d then d
      else
        let when = ExecTime (d ! i)
        in if when \<le>s 0 then d
           else let tmp = d ! i; (d1, i1) = siftdown_loop when d i in d1[i1 := tmp])"

section \<open>The dispatcher\<close>

text \<open>Where the sentinel stands: in its \<open>select\<close>, in a round for the time it read, or returned.\<close>

datatype sentinel = Select | Round i64 | Stopped

text \<open>
  \<open>submitted\<close> are the tasks passed to \<open>AddTaskN\<close> of the goroutine pool, which may refuse one on closing, each with the time of its round, \<open>dropped\<close> those discarded on closing and \<open>deleted\<close> those
  removed by \<open>delDelayed\<close> and \<open>delDelayedTop\<close>.
\<close>

record dispatcher =
  delays :: "task list"
  isClose :: bool
  sentinel_at :: sentinel
  submitted :: "(task \<times> i64) list"
  dropped :: "task list"
  deleted :: "task list"

definition NewDispatchingDelayed :: dispatcher where
  "NewDispatchingDelayed = \<lparr>delays = [], isClose = False, sentinel_at = Select, submitted = [], dropped = [], deleted = []\<rparr>"

definition AddDelayed :: "task \<Rightarrow> dispatcher \<Rightarrow> dispatcher" where
  "AddDelayed t d =
     (if ExecTime t \<le>s 0 then d
      else if isClose d then d
      else let i = length (delays d) in d\<lparr>delays := siftupDelayed (delays d @ [t]) i\<rparr>)"

text \<open>\<open>None\<close> is \<open>BadDelayed\<close>.\<close>

definition delDelayed :: "nat \<Rightarrow> dispatcher \<Rightarrow> task option \<times> dispatcher" where
  "delDelayed i d =
     (if i \<ge> length (delays d) then (None, d)
      else
        let ret = delays d ! i; last = length (delays d) - 1;
            ds = take last (if i \<noteq> last then (delays d)[i := delays d ! last] else delays d)
        in (Some ret, d\<lparr>delays := if i \<noteq> last then siftdownDelayed (siftupDelayed ds i) i else ds\<rparr>))"

definition delDelayedTop :: "dispatcher \<Rightarrow> task option \<times> dispatcher" where
  "delDelayedTop d =
     (if delays d = [] then (None, d)
      else
        let ret = delays d ! 0; last = length (delays d) - 1;
            ds = take last (if last > 0 then (delays d)[0 := delays d ! last] else delays d)
        in (Some ret, d\<lparr>delays := if last > 0 then siftdownDelayed ds 0 else ds\<rparr>))"

definition getTopDelayed :: "dispatcher \<Rightarrow> task option" where
  "getTopDelayed d = (if delays d = [] then None else Some (delays d ! 0))"

definition popIfReady :: "i64 \<Rightarrow> dispatcher \<Rightarrow> task option \<times> dispatcher" where
  "popIfReady now d =
     (if delays d = [] then (None, d)
      else if now <s ExecTime (delays d ! 0) then (None, d)
      else
        let ret = delays d ! 0; last = length (delays d) - 1;
            ds = take last (if last > 0 then (delays d)[0 := delays d ! last] else delays d)
        in (Some ret, d\<lparr>delays := if last > 0 then siftdownDelayed ds 0 else ds\<rparr>))"

text \<open>The result is whether this call closes.\<close>

definition Close :: "dispatcher \<Rightarrow> bool \<times> dispatcher" where
  "Close d = (if isClose d then (False, d) else (True, d\<lparr>isClose := True\<rparr>))"

text \<open>
  The sentinel wakes up by the ticker or by \<open>Refresh\<close> and reads the clock; it takes one ready task; it takes the closing branch. Closing
  closes the channel after the flag is set.
\<close>

definition sentinel_wake :: "i64 \<Rightarrow> dispatcher \<Rightarrow> dispatcher" where
  "sentinel_wake now d = (if sentinel_at d = Select then d\<lparr>sentinel_at := Round now\<rparr> else d)"

definition sentinel_pop :: "dispatcher \<Rightarrow> dispatcher" where
  "sentinel_pop d =
     (case sentinel_at d of
        Round now \<Rightarrow>
          (case popIfReady now d of
             (None, d1) \<Rightarrow> d1\<lparr>sentinel_at := Select\<rparr>
           | (Some t, d1) \<Rightarrow> d1\<lparr>submitted := submitted d1 @ [(t, now)]\<rparr>)
      | _ \<Rightarrow> d)"

definition sentinel_close :: "dispatcher \<Rightarrow> dispatcher" where
  "sentinel_close d =
     (if sentinel_at d = Select \<and> isClose d then d\<lparr>dropped := dropped d @ delays d, delays := [], sentinel_at := Stopped\<rparr> else d)"

datatype devent = DAdd task | DDel nat | DDelTop | DClose | DWake i64 | DPop | DStop

fun ddo :: "devent \<Rightarrow> dispatcher \<Rightarrow> dispatcher" where
  "ddo (DAdd t) d = AddDelayed t d"
| "ddo (DDel i) d = (case delDelayed i d of (r, d1) \<Rightarrow> d1\<lparr>deleted := deleted d1 @ (case r of None \<Rightarrow> [] | Some t \<Rightarrow> [t])\<rparr>)"
| "ddo DDelTop d = (case delDelayedTop d of (r, d1) \<Rightarrow> d1\<lparr>deleted := deleted d1 @ (case r of None \<Rightarrow> [] | Some t \<Rightarrow> [t])\<rparr>)"
| "ddo DClose d = snd (Close d)"
| "ddo (DWake now) d = sentinel_wake now d"
| "ddo DPop d = sentinel_pop d"
| "ddo DStop d = sentinel_close d"

definition drun :: "devent list \<Rightarrow> dispatcher \<Rightarrow> dispatcher" where
  "drun evs d = fold ddo evs d"

end
