(* ===== verification/DelayedSpec.thy ===== *)
theory DelayedSpec
  imports Delayed
begin

text \<open>
  What the delay queue promises: a bag of pending tasks from which the sentinel takes, in each round, the earliest due one until none is due. The loops
  that move a hole are shown equal to exchanges of neighbours, and these to keep the tasks and restore the order of the heap.
\<close>

section \<open>Order\<close>

definition key :: "task \<Rightarrow> int" where
  "key t = sint (ExecTime t)"

definition heap :: "task list \<Rightarrow> bool" where
  "heap d \<longleftrightarrow> (\<forall>k < length d. 0 < k \<longrightarrow> key (d ! parent k) \<le> key (d ! k))"

lemma key_le: "ExecTime s \<le>s ExecTime t \<longleftrightarrow> key s \<le> key t"
  by (simp add: key_def word_sle_eq)

lemma key_less: "ExecTime s <s ExecTime t \<longleftrightarrow> key s < key t"
  by (simp add: key_def word_sless_alt)

lemma heap_top: "heap d \<Longrightarrow> k < length d \<Longrightarrow> key (d ! 0) \<le> key (d ! k)"
proof (induction k rule: less_induct)
  case (less k)
  show ?case
  proof (cases "k = 0")
    case False
    then have p: "parent k < k" using parent_less by simp
    then have "key (d ! 0) \<le> key (d ! parent k)" using less by simp
    then show ?thesis using less.prems False by (force simp: heap_def)
  qed simp
qed

section \<open>Sifting by exchange\<close>

definition exch :: "nat \<Rightarrow> nat \<Rightarrow> task list \<Rightarrow> task list" where
  "exch i j d = d[i := d ! j, j := d ! i]"

lemma exch_simps:
  assumes "i < length d" "j < length d"
  shows "length (exch i j d) = length d" "mset (exch i j d) = mset d"
    "k < length d \<Longrightarrow> exch i j d ! k = (if k = j then d ! i else if k = i then d ! j else d ! k)"
  using assms by (simp_all add: exch_def mset_swap nth_list_update)

function up :: "task list \<Rightarrow> nat \<Rightarrow> task list" where
  "up d i = (if i > 0 \<and> key (d ! i) < key (d ! parent i) then up (exch i (parent i) d) (parent i) else d)"
  by auto
termination by (relation "measure snd") (simp_all add: parent_less)

declare up.simps [simp del]

lemma siftup_up:
  assumes "i < length d" and "when = ExecTime t"
  shows "(case siftup_loop when d i of (d1, i1) \<Rightarrow> d1[i1 := t]) = up (d[i := t]) i"
  using assms
proof (induction "when" d i rule: siftup_loop.induct)
  case (1 w d i)
  let ?p = "parent i"
  show ?case
  proof (cases "i > 0 \<and> \<not> ExecTime (d ! ?p) \<le>s w")
    case True
    have p: "?p < i" using True parent_less by simp
    have less: "key ((d[i := t]) ! i) < key ((d[i := t]) ! ?p)" using True p 1(2,3) by (simp add: key_le)
    have e: "exch i ?p (d[i := t]) = d[i := d ! ?p, ?p := t]" using p 1(2) by (simp add: exch_def)
    have "siftup_loop w d i = siftup_loop w (d[i := d ! ?p]) ?p" using True by (simp add: siftup_loop.simps [of w d i] Let_def)
    moreover have "up (d[i := t]) i = up (d[i := d ! ?p, ?p := t]) ?p"
      using True less e by (simp add: up.simps [of "d[i := t]" i])
    moreover have "(case siftup_loop w (d[i := d ! ?p]) ?p of (d1, i1) \<Rightarrow> d1[i1 := t]) = up (d[i := d ! ?p, ?p := t]) ?p"
      using 1(1) [OF _ refl] True p 1(2,3) by simp
    ultimately show ?thesis by simp
  next
    case False
    have "siftup_loop w d i = (d, i)" using False by (auto simp: siftup_loop.simps [of w d i] Let_def)
    moreover have "up (d[i := t]) i = d[i := t]"
      using False parent_less [of i] 1(2,3) by (auto simp: up.simps [of "d[i := t]" i] key_le)
    ultimately show ?thesis by simp
  qed
qed

function down :: "task list \<Rightarrow> nat \<Rightarrow> task list" where
  "down d i =
     (if i * 4 + 1 < length d \<and> key (d ! earliest_child d i) < key (d ! i)
      then down (exch i (earliest_child d i) d) (earliest_child d i) else d)"
  by auto
termination
proof (relation "measure (\<lambda>(d, i). length d - i)", goal_cases)
  case (2 d i)
  then show ?case using earliest_child_bounds [of i d] by (simp add: exch_def) linarith
qed simp

declare down.simps [simp del]

lemma earliest_child_update: "i < length d \<Longrightarrow> earliest_child (d[i := t]) i = earliest_child d i"
  by (simp add: earliest_child_def Let_def)

lemma siftdown_down:
  assumes "i < length d" and "when = ExecTime t"
  shows "(case siftdown_loop when d i of (d1, i1) \<Rightarrow> d1[i1 := t]) = down (d[i := t]) i"
  using assms
proof (induction "when" d i rule: siftdown_loop.induct)
  case (1 w d i)
  let ?c = "earliest_child d i"
  have ec: "earliest_child (d[i := t]) i = ?c" by (rule earliest_child_update [OF 1(2)])
  show ?case
  proof (cases "i * 4 + 1 < length d \<and> \<not> w \<le>s ExecTime (d ! ?c)")
    case True
    have c: "i < ?c" "?c < length d" using earliest_child_bounds [of i d] True by simp_all
    have less: "key ((d[i := t]) ! ?c) < key ((d[i := t]) ! i)" using True c 1(2,3) by (simp add: key_le)
    have e: "exch i ?c (d[i := t]) = d[i := d ! ?c, ?c := t]" using c 1(2) by (simp add: exch_def)
    have "siftdown_loop w d i = siftdown_loop w (d[i := d ! ?c]) ?c" using True by (simp add: siftdown_loop.simps [of w d i] Let_def)
    moreover have "down (d[i := t]) i = down (d[i := d ! ?c, ?c := t]) ?c"
      using True less e ec by (simp add: down.simps [of "d[i := t]" i])
    moreover have "(case siftdown_loop w (d[i := d ! ?c]) ?c of (d1, i1) \<Rightarrow> d1[i1 := t]) = down (d[i := d ! ?c, ?c := t]) ?c"
      using 1(1) [OF _ refl] True c 1(2,3) by simp
    ultimately show ?thesis by simp
  next
    case False
    have "siftdown_loop w d i = (d, i)" using False by (auto simp: siftdown_loop.simps [of w d i] Let_def)
    moreover have "down (d[i := t]) i = d[i := t]"
      using False earliest_child_bounds [of i d] 1(2,3) ec by (auto simp: down.simps [of "d[i := t]" i] key_le)
    ultimately show ?thesis by simp
  qed
qed

text \<open>Tasks in the queue have a positive time, so that sifting is never refused.\<close>

definition positive :: "task list \<Rightarrow> bool" where
  "positive d \<longleftrightarrow> (\<forall>t \<in> set d. 0 < key t)"

lemma siftup_eq:
  assumes "i < length d" and "positive d"
  shows "siftupDelayed d i = up d i"
proof -
  have "0 < key (d ! i)" using assms nth_mem [of i d] by (simp add: positive_def)
  then show ?thesis using assms(1) siftup_up [of i d "ExecTime (d ! i)" "d ! i"]
    by (simp add: siftupDelayed_def Let_def key_def word_sle_eq)
qed

lemma siftdown_eq:
  assumes "i < length d" and "positive d"
  shows "siftdownDelayed d i = down d i"
proof -
  have "0 < key (d ! i)" using assms nth_mem [of i d] by (simp add: positive_def)
  then show ?thesis using assms(1) siftdown_down [of i d "ExecTime (d ! i)" "d ! i"]
    by (simp add: siftdownDelayed_def Let_def key_def word_sle_eq)
qed

section \<open>The heap is restored\<close>

text \<open>A heap but for position \<open>i\<close>, which may be too early for its parent.\<close>

definition up_ok :: "task list \<Rightarrow> nat \<Rightarrow> bool" where
  "up_ok d i \<longleftrightarrow> i < length d \<and> (\<forall>k < length d. 0 < k \<longrightarrow> k \<noteq> i \<longrightarrow> key (d ! parent k) \<le> key (d ! k)) \<and>
     (\<forall>k < length d. 0 < k \<longrightarrow> parent k = i \<longrightarrow> 0 < i \<longrightarrow> key (d ! parent i) \<le> key (d ! k))"

lemma up_ok_step:
  assumes u: "up_ok d i" and i: "0 < i" "key (d ! i) < key (d ! parent i)"
  shows "up_ok (exch i (parent i) d) (parent i)"
proof -
  let ?p = "parent i" and ?e = "exch i (parent i) d"
  have il: "i < length d" and a: "\<And>k. k < length d \<Longrightarrow> 0 < k \<Longrightarrow> k \<noteq> i \<Longrightarrow> key (d ! parent k) \<le> key (d ! k)"
    and b: "\<And>k. k < length d \<Longrightarrow> 0 < k \<Longrightarrow> parent k = i \<Longrightarrow> key (d ! ?p) \<le> key (d ! k)" using u i(1) by (auto simp: up_ok_def)
  have pi: "?p < i" by (rule parent_less [OF i(1)])
  have pl: "?p < length d" using pi il by simp
  note e = exch_simps [OF il pl]
  have pk: "parent k < k" "parent k < length d" if "0 < k" "k < length d" for k using parent_less [OF that(1)] that by simp_all
  have "key (?e ! parent k) \<le> key (?e ! k)" if k: "k < length d" "0 < k" "k \<noteq> ?p" for k
  proof -
    consider "k = i" | "k \<noteq> i" "parent k = i" | "k \<noteq> i" "parent k = ?p" | "k \<noteq> i" "parent k \<noteq> i" "parent k \<noteq> ?p" by blast
    then show ?thesis using a [of k] b [of k] i k pk [of k] pi by cases (simp_all add: e(3))
  qed
  moreover have "key (?e ! parent ?p) \<le> key (?e ! k)" if k: "k < length d" "0 < k" "parent k = ?p" "0 < ?p" for k
  proof -
    have "parent ?p < ?p" by (rule parent_less [OF k(4)])
    moreover have "key (d ! parent ?p) \<le> key (d ! ?p)" using a [of ?p] pl k(4) pi by simp
    ultimately show ?thesis using a [of k] k pk [of k] pi pl by (cases "k = i") (simp_all add: e(3))
  qed
  ultimately show ?thesis using pl by (simp add: up_ok_def e(1))
qed

lemma up_heap: "up_ok d i \<Longrightarrow> heap (up d i) \<and> mset (up d i) = mset d"
proof (induction d i rule: up.induct)
  case (1 d i)
  show ?case
  proof (cases "i > 0 \<and> key (d ! i) < key (d ! parent i)")
    case True
    have l: "i < length d" "parent i < length d" using 1(2) True parent_less [of i] by (auto simp: up_ok_def)
    show ?thesis using 1(1) [OF True up_ok_step] 1(2) True exch_simps(2) [OF l] by (simp add: up.simps [of d i])
  next
    case False
    have "heap d" unfolding heap_def
    proof (intro allI impI)
      fix k assume "k < length d" "0 < k"
      then show "key (d ! parent k) \<le> key (d ! k)" using 1(2) False by (cases "k = i") (auto simp: up_ok_def)
    qed
    then show ?thesis using False by (auto simp: up.simps [of d i])
  qed
qed

text \<open>A heap but for position \<open>i\<close>, which may be too late for its children.\<close>

definition down_ok :: "task list \<Rightarrow> nat \<Rightarrow> bool" where
  "down_ok d i \<longleftrightarrow> i < length d \<and> (\<forall>k < length d. 0 < k \<longrightarrow> parent k \<noteq> i \<longrightarrow> key (d ! parent k) \<le> key (d ! k)) \<and>
     (\<forall>k < length d. 0 < k \<longrightarrow> parent k = i \<longrightarrow> 0 < i \<longrightarrow> key (d ! parent i) \<le> key (d ! k))"

lemma children: "0 < k \<Longrightarrow> parent k = i \<Longrightarrow> k = i * 4 + 1 \<or> k = i * 4 + 2 \<or> k = i * 4 + 3 \<or> k = i * 4 + 4"
  unfolding parent_def by linarith

lemma earliest_child_least:
  assumes "i * 4 + 1 < length d"
  shows "parent (earliest_child d i) = i" and "k < length d \<Longrightarrow> 0 < k \<Longrightarrow> parent k = i \<Longrightarrow> key (d ! earliest_child d i) \<le> key (d ! k)"
proof -
  show "parent (earliest_child d i) = i" by (auto simp: earliest_child_def Let_def parent_def)
  assume k: "k < length d" "0 < k" "parent k = i"
  from children [OF k(2,3)] show "key (d ! earliest_child d i) \<le> key (d ! k)"
    using k(1) by (elim disjE) (auto simp: earliest_child_def Let_def key_less numeral_eq_Suc)
qed

lemma down_ok_step:
  assumes u: "down_ok d i" and i: "i * 4 + 1 < length d" "key (d ! earliest_child d i) < key (d ! i)"
  shows "down_ok (exch i (earliest_child d i) d) (earliest_child d i)"
proof -
  let ?c = "earliest_child d i"
  let ?e = "exch i ?c d"
  have il: "i < length d" and a: "\<And>k. k < length d \<Longrightarrow> 0 < k \<Longrightarrow> parent k \<noteq> i \<Longrightarrow> key (d ! parent k) \<le> key (d ! k)"
    and b: "\<And>k. k < length d \<Longrightarrow> 0 < k \<Longrightarrow> parent k = i \<Longrightarrow> 0 < i \<Longrightarrow> key (d ! parent i) \<le> key (d ! k)" using u by (auto simp: down_ok_def)
  have c: "i < ?c" "?c < length d" "parent ?c = i" using earliest_child_bounds [OF i(1)] earliest_child_least(1) [OF i(1)] by simp_all
  note e = exch_simps [OF il c(2)]
  have pk: "parent k < k" "parent k < length d" if "0 < k" "k < length d" for k using parent_less [OF that(1)] that by simp_all
  have "key (?e ! parent k) \<le> key (?e ! k)" if k: "k < length d" "0 < k" "parent k \<noteq> ?c" for k
  proof -
    consider "k = ?c" | "k = i" | "k \<noteq> ?c" "k \<noteq> i" "parent k = i" | "k \<noteq> ?c" "k \<noteq> i" "parent k \<noteq> i" by blast
    then show ?thesis
      using a [of k] b [OF c(2) _ c(3)] earliest_child_least(2) [OF i(1), of k] i k pk [of k] c by cases (simp_all add: e(3))
  qed
  moreover have "key (?e ! parent ?c) \<le> key (?e ! k)" if k: "k < length d" "0 < k" "parent k = ?c" for k
    using a [of k] k pk [of k] c il by (simp add: e(3))
  ultimately show ?thesis using c(2) by (simp add: down_ok_def e(1))
qed

lemma down_heap: "down_ok d i \<Longrightarrow> heap (down d i) \<and> mset (down d i) = mset d"
proof (induction d i rule: down.induct)
  case (1 d i)
  show ?case
  proof (cases "i * 4 + 1 < length d \<and> key (d ! earliest_child d i) < key (d ! i)")
    case True
    have l: "i < length d" "earliest_child d i < length d" using 1(2) True earliest_child_bounds [of i d] by (auto simp: down_ok_def)
    show ?thesis using 1(1) [OF True down_ok_step] 1(2) True exch_simps(2) [OF l] by (simp add: down.simps [of d i])
  next
    case False
    have "heap d" unfolding heap_def
    proof (intro allI impI)
      fix k assume k: "k < length d" "0 < k"
      show "key (d ! parent k) \<le> key (d ! k)"
      proof (cases "parent k = i")
        case True
        have "i * 4 + 1 < length d" using children [OF k(2) True] k(1) by auto
        then show ?thesis using earliest_child_least(2) [of i d k] k True False by auto
      qed (use 1(2) k in \<open>simp add: down_ok_def\<close>)
    qed
    then show ?thesis using False by (auto simp: down.simps [of d i])
  qed
qed

section \<open>Operations on the heap\<close>

definition queue_ok :: "task list \<Rightarrow> bool" where
  "queue_ok d \<longleftrightarrow> heap d \<and> positive d"

lemma positive_mset: "mset d = mset e \<Longrightarrow> positive d = positive e"
  unfolding positive_def by (metis set_mset_mset)

lemma push_ok:
  assumes "queue_ok d" and "0 < key t"
  shows "queue_ok (siftupDelayed (d @ [t]) (length d)) \<and> mset (siftupDelayed (d @ [t]) (length d)) = add_mset t (mset d)"
proof -
  have p: "positive (d @ [t])" using assms by (simp add: queue_ok_def positive_def)
  have "up_ok (d @ [t]) (length d)"
    unfolding up_ok_def
  proof (intro conjI allI impI)
    fix k assume k: "k < length (d @ [t])" "0 < k" "k \<noteq> length d"
    then show "key ((d @ [t]) ! parent k) \<le> key ((d @ [t]) ! k)"
      using assms(1) parent_less [OF k(2)] by (simp add: nth_append queue_ok_def heap_def)
  next
    fix k assume k: "k < length (d @ [t])" "0 < k" "parent k = length d"
    then show "key ((d @ [t]) ! parent (length d)) \<le> key ((d @ [t]) ! k)" using parent_less [OF k(2)] by simp
  qed simp
  then have u: "heap (up (d @ [t]) (length d)) \<and> mset (up (d @ [t]) (length d)) = mset (d @ [t])" by (rule up_heap)
  then show ?thesis using siftup_eq [OF _ p, of "length d"] p positive_mset [of "up (d @ [t]) (length d)" "d @ [t]"] by (simp add: queue_ok_def)
qed

text \<open>The last task in the place of the one at \<open>i\<close>.\<close>

lemma fill_hole:
  assumes i: "i < length d - 1"
  shows "mset (take (length d - 1) (d[i := d ! (length d - 1)])) = mset d - {#d ! i#}"
    and "k < length d - 1 \<Longrightarrow> take (length d - 1) (d[i := d ! (length d - 1)]) ! k = (if k = i then d ! (length d - 1) else d ! k)"
proof -
  let ?l = "length d - 1" and ?x = "d ! (length d - 1)"
  have l: "i < length d" "?l < length d" "i \<noteq> ?l" using i by simp_all
  have ne: "d[i := ?x] \<noteq> []" using l by auto
  have "last (d[i := ?x]) = ?x" unfolding last_conv_nth [OF ne] using l(3) by simp
  then have "mset (d[i := ?x]) = add_mset ?x (mset (butlast (d[i := ?x])))"
    using arg_cong [OF append_butlast_last_id [OF ne], of mset] by simp
  then have "mset (butlast (d[i := ?x])) = mset (d[i := ?x]) - {#?x#}" by simp
  also have "\<dots> = mset d - {#d ! i#}" using l(1) by (simp add: mset_update)
  finally show "mset (take ?l (d[i := ?x])) = mset d - {#d ! i#}" by (simp add: butlast_conv_take)
  show "k < ?l \<Longrightarrow> take ?l (d[i := ?x]) ! k = (if k = i then ?x else d ! k)" using l(1) by simp
qed

lemma positive_sub:
  assumes "positive d" and "mset e = mset d - m"
  shows "positive e"
proof -
  have "set_mset (mset e) \<subseteq> set_mset (mset d)" unfolding assms(2) by (auto dest: in_diffD)
  then show ?thesis using assms(1) by (auto simp: positive_def)
qed

lemma last_gone: "d \<noteq> [] \<Longrightarrow> mset (take (length d - 1) d) = mset d - {#d ! (length d - 1)#}"
  by (cases d rule: rev_cases) (simp_all add: nth_append)

lemma heap_take:
  assumes "heap d"
  shows "heap (take n d)"
  unfolding heap_def
proof (intro allI impI)
  fix k assume k: "k < length (take n d)" "0 < k"
  then show "key (take n d ! parent k) \<le> key (take n d ! k)" using assms parent_less [OF k(2)] by (simp add: heap_def)
qed

lemma pop_ok:
  assumes q: "queue_ok d" and n: "d \<noteq> []"
  defines "ds \<equiv> take (length d - 1) (if length d - 1 > 0 then d[0 := d ! (length d - 1)] else d)"
  shows "queue_ok (if length d - 1 > 0 then siftdownDelayed ds 0 else ds) \<and>
    mset (if length d - 1 > 0 then siftdownDelayed ds 0 else ds) = mset d - {#d ! 0#}"
proof (cases "length d - 1 > 0")
  case True
  then have m: "mset ds = mset d - {#d ! 0#}" using fill_hole(1) [of 0 d] by (simp add: ds_def)
  have p: "positive ds" using positive_sub [OF _ m] q by (simp add: queue_ok_def)
  have l: "length ds = length d - 1" using True by (simp add: ds_def)
  have nth: "ds ! k = (if k = 0 then d ! (length d - 1) else d ! k)" if "k < length d - 1" for k
    using fill_hole(2) [of 0 d k] True that by (simp add: ds_def)
  have "key (ds ! parent k) \<le> key (ds ! k)" if "k < length ds" "0 < k" "parent k \<noteq> 0" for k
  proof -
    have "parent k < k" by (rule parent_less [OF that(2)])
    then show ?thesis using nth [of k] nth [of "parent k"] that l q by (auto simp: queue_ok_def heap_def)
  qed
  then have "down_ok ds 0" using True l by (simp add: down_ok_def)
  then have h: "heap (down ds 0)" "mset (down ds 0) = mset ds" using down_heap by simp_all
  then show ?thesis using True m p siftdown_eq [OF _ p, of 0] l positive_mset [OF h(2)] by (simp add: queue_ok_def)
next
  case False
  then obtain t where d: "d = [t]" using n by (cases d) auto
  then show ?thesis using False by (simp add: ds_def queue_ok_def heap_def positive_def)
qed

lemma heap_down_ok: "heap d \<Longrightarrow> i < length d \<Longrightarrow> down_ok d i"
proof (unfold down_ok_def, intro conjI allI impI)
  fix k assume h: "heap d" and i: "i < length d" and k: "k < length d" "0 < k" "parent k = i" "0 < i"
  then have "key (d ! parent i) \<le> key (d ! i)" "key (d ! i) \<le> key (d ! k)" by (auto simp: heap_def)
  then show "key (d ! parent i) \<le> key (d ! k)" by simp
qed (simp_all add: heap_def)

lemma delete_ok:
  assumes q: "queue_ok d" and i: "i < length d"
  defines "ds \<equiv> take (length d - 1) (if i \<noteq> length d - 1 then d[i := d ! (length d - 1)] else d)"
  shows "queue_ok (if i \<noteq> length d - 1 then siftdownDelayed (siftupDelayed ds i) i else ds) \<and>
    mset (if i \<noteq> length d - 1 then siftdownDelayed (siftupDelayed ds i) i else ds) = mset d - {#d ! i#}"
proof (cases "i = length d - 1")
  case True
  have n: "d \<noteq> []" using i by auto
  have "mset ds = mset d - {#d ! i#}" using last_gone [OF n] True by (simp add: ds_def)
  then show ?thesis using True q positive_sub [of d ds] heap_take [of d] by (auto simp: queue_ok_def ds_def)
next
  case False
  then have i1: "i < length d - 1" using i by simp
  have m: "mset ds = mset d - {#d ! i#}" using fill_hole(1) [OF i1] False by (simp add: ds_def)
  have p: "positive ds" using positive_sub [OF _ m] q by (simp add: queue_ok_def)
  have l: "length ds = length d - 1" by (simp add: ds_def)
  have nth: "ds ! k = (if k = i then d ! (length d - 1) else d ! k)" if "k < length d - 1" for k
    using fill_hole(2) [OF i1 that] False by (simp add: ds_def)
  have hd: "key (d ! parent k) \<le> key (d ! k)" if "k < length d" "0 < k" for k using q that by (simp add: queue_ok_def heap_def)
  have pl: "parent k < k" if "0 < k" for k by (rule parent_less [OF that])
  have other: "key (ds ! parent k) \<le> key (ds ! k)" if "k < length ds" "0 < k" "k \<noteq> i" "parent k \<noteq> i" for k
    using nth [of k] nth [of "parent k"] that l hd [of k] pl [of k] by simp
  have grand: "key (ds ! parent i) \<le> key (ds ! k)" if "k < length ds" "0 < k" "parent k = i" "0 < i" for k
    using nth [of k] nth [of "parent i"] that l order_trans [OF hd [of i] hd [of k, unfolded that(3)]] pl [of k] pl [of i] by simp
  have "heap (down (up ds i) i) \<and> mset (down (up ds i) i) = mset ds \<and> mset (up ds i) = mset ds \<and> length (up ds i) = length ds"
  proof (cases "i > 0 \<and> key (ds ! i) < key (ds ! parent i)")
    case True
    have "up_ok ds i" unfolding up_ok_def
    proof (intro conjI allI impI)
      fix k assume k: "k < length ds" "0 < k" "k \<noteq> i"
      show "key (ds ! parent k) \<le> key (ds ! k)" using other [OF k] grand [of k] k True by (cases "parent k = i") auto
    qed (use i1 l grand in auto)
    then have u: "heap (up ds i)" "mset (up ds i) = mset ds" using up_heap by simp_all
    then have ul: "length (up ds i) = length ds" by (metis size_mset)
    have "down_ok (up ds i) i" by (rule heap_down_ok [OF u(1)]) (use ul l i1 in simp)
    then show ?thesis using down_heap u(2) ul by metis
  next
    case False
    then have u: "up ds i = ds" by (auto simp: up.simps [of ds i])
    have "down_ok ds i" unfolding down_ok_def
    proof (intro conjI allI impI)
      fix k assume k: "k < length ds" "0 < k" "parent k \<noteq> i"
      show "key (ds ! parent k) \<le> key (ds ! k)" using other [of k] k False by (cases "k = i") auto
    qed (use i1 l grand in auto)
    then show ?thesis using down_heap u by simp
  qed
  moreover have pu: "positive (up ds i)" using positive_mset [of "up ds i" ds] p calculation by simp
  ultimately have c: "heap (down (up ds i) i)" "mset (down (up ds i) i) = mset ds" "i < length (up ds i)" using i1 l by simp_all
  then show ?thesis
    using False m p siftup_eq [of i ds] siftdown_eq [OF c(3) pu] i1 l positive_mset [OF c(2)] by (simp add: queue_ok_def)
qed

section \<open>The bag of pending tasks\<close>

record bag =
  pending :: "task multiset"
  bclosed :: bool
  bsentinel :: sentinel
  bsubmitted :: "(task \<times> i64) list"
  bdropped :: "task multiset"
  bdeleted :: "task list"

definition earliest :: "task \<Rightarrow> task multiset \<Rightarrow> bool" where
  "earliest t P \<longleftrightarrow> t \<in># P \<and> (\<forall>u \<in># P. key t \<le> key u)"

text \<open>
  What an event may do. Of several earliest tasks any may be taken; \<open>delDelayed\<close> takes any pending task, since an index says nothing about it.
\<close>

inductive spec_step :: "devent \<Rightarrow> bag \<Rightarrow> bag \<Rightarrow> bool" where
  add: "0 < key t \<Longrightarrow> \<not> bclosed b \<Longrightarrow> spec_step (DAdd t) b (b\<lparr>pending := add_mset t (pending b)\<rparr>)"
| refuse: "key t \<le> 0 \<or> bclosed b \<Longrightarrow> spec_step (DAdd t) b b"
| del: "i < size (pending b) \<Longrightarrow> t \<in># pending b \<Longrightarrow> spec_step (DDel i) b (b\<lparr>pending := pending b - {#t#}, bdeleted := bdeleted b @ [t]\<rparr>)"
| del_none: "size (pending b) \<le> i \<Longrightarrow> spec_step (DDel i) b b"
| top: "earliest t (pending b) \<Longrightarrow> spec_step DDelTop b (b\<lparr>pending := pending b - {#t#}, bdeleted := bdeleted b @ [t]\<rparr>)"
| top_none: "pending b = {#} \<Longrightarrow> spec_step DDelTop b b"
| close: "spec_step DClose b (b\<lparr>bclosed := True\<rparr>)"
| wake: "bsentinel b = Select \<Longrightarrow> spec_step (DWake now) b (b\<lparr>bsentinel := Round now\<rparr>)"
| busy: "bsentinel b \<noteq> Select \<Longrightarrow> spec_step (DWake now) b b"
| submit: "bsentinel b = Round now \<Longrightarrow> earliest t (pending b) \<Longrightarrow> key t \<le> sint now \<Longrightarrow>
    spec_step DPop b (b\<lparr>pending := pending b - {#t#}, bsubmitted := bsubmitted b @ [(t, now)]\<rparr>)"
| round_over: "bsentinel b = Round now \<Longrightarrow> \<forall>u \<in># pending b. sint now < key u \<Longrightarrow> spec_step DPop b (b\<lparr>bsentinel := Select\<rparr>)"
| no_round: "\<forall>now. bsentinel b \<noteq> Round now \<Longrightarrow> spec_step DPop b b"
| stop: "bsentinel b = Select \<Longrightarrow> bclosed b \<Longrightarrow>
    spec_step DStop b (b\<lparr>pending := {#}, bdropped := bdropped b + pending b, bsentinel := Stopped\<rparr>)"
| go_on: "bsentinel b \<noteq> Select \<or> \<not> bclosed b \<Longrightarrow> spec_step DStop b b"

inductive spec_run :: "devent list \<Rightarrow> bag \<Rightarrow> bag \<Rightarrow> bool" where
  finish: "spec_run [] b b"
| step: "spec_step ev b b1 \<Longrightarrow> spec_run evs b1 b2 \<Longrightarrow> spec_run (ev # evs) b b2"

definition bag_of :: "dispatcher \<Rightarrow> bag" where
  "bag_of d = \<lparr>pending = mset (delays d), bclosed = isClose d, bsentinel = sentinel_at d, bsubmitted = submitted d,
     bdropped = mset (dropped d), bdeleted = deleted d\<rparr>"

lemma top_earliest: "queue_ok d \<Longrightarrow> d \<noteq> [] \<Longrightarrow> earliest (d ! 0) (mset d)"
  by (auto simp: earliest_def queue_ok_def in_set_conv_nth heap_top)

lemma pop_queue:
  assumes "queue_ok (delays d)" and "delays d \<noteq> []"
  obtains ds where "delDelayedTop d = (Some (delays d ! 0), d\<lparr>delays := ds\<rparr>)" "queue_ok ds" "mset ds = mset (delays d) - {#delays d ! 0#}"
    "\<not> now <s ExecTime (delays d ! 0) \<longrightarrow> popIfReady now d = (Some (delays d ! 0), d\<lparr>delays := ds\<rparr>)"
  using pop_ok [OF assms] assms(2) by (intro that) (auto simp: delDelayedTop_def popIfReady_def Let_def)

lemma delete_queue:
  assumes "queue_ok (delays d)" and "i < length (delays d)"
  obtains ds where "delDelayed i d = (Some (delays d ! i), d\<lparr>delays := ds\<rparr>)" "queue_ok ds" "mset ds = mset (delays d) - {#delays d ! i#}"
proof -
  have "\<not> length (delays d) \<le> i" using assms(2) by simp
  then show ?thesis using delete_ok [OF assms] by (intro that) (auto simp only: delDelayed_def Let_def if_False)
qed

lemma ddo_refines:
  assumes q: "queue_ok (delays d)"
  shows "queue_ok (delays (ddo ev d)) \<and> spec_step ev (bag_of d) (bag_of (ddo ev d))"
proof (cases ev)
  case (DAdd t)
  have k: "ExecTime t \<le>s 0 \<longleftrightarrow> key t \<le> 0" by (simp add: key_def word_sle_eq)
  show ?thesis
  proof (cases "key t \<le> 0 \<or> isClose d")
    case True
    then have "ddo ev d = d" using DAdd k by (auto simp: AddDelayed_def)
    then show ?thesis using q True DAdd by (auto intro: spec_step.refuse simp: bag_of_def)
  next
    case False
    then have e: "ddo ev d = d\<lparr>delays := siftupDelayed (delays d @ [t]) (length (delays d))\<rparr>" using DAdd k by (simp add: AddDelayed_def)
    then show ?thesis using push_ok [OF q, of t] False spec_step.add [of t "bag_of d"] DAdd by (simp add: bag_of_def)
  qed
next
  case (DDel i)
  show ?thesis
  proof (cases "i < length (delays d)")
    case True
    obtain ds where e: "delDelayed i d = (Some (delays d ! i), d\<lparr>delays := ds\<rparr>)" "queue_ok ds" "mset ds = mset (delays d) - {#delays d ! i#}"
      by (rule delete_queue [OF q True])
    then show ?thesis using spec_step.del [of i "bag_of d" "delays d ! i"] True DDel by (simp add: bag_of_def)
  next
    case False
    then show ?thesis using q DDel spec_step.del_none [of "bag_of d" i] by (simp add: delDelayed_def bag_of_def)
  qed
next
  case DDelTop
  show ?thesis
  proof (cases "delays d = []")
    case True
    then show ?thesis using q DDelTop spec_step.top_none [of "bag_of d"] by (simp add: delDelayedTop_def bag_of_def)
  next
    case False
    obtain ds where e: "delDelayedTop d = (Some (delays d ! 0), d\<lparr>delays := ds\<rparr>)" "queue_ok ds" "mset ds = mset (delays d) - {#delays d ! 0#}"
      "\<not> 0 <s ExecTime (delays d ! 0) \<longrightarrow> popIfReady 0 d = (Some (delays d ! 0), d\<lparr>delays := ds\<rparr>)"
      by (rule pop_queue [OF q False])
    then show ?thesis using spec_step.top [of "delays d ! 0" "bag_of d"] top_earliest [OF q False] DDelTop by (simp add: bag_of_def)
  qed
next
  case DClose
  then show ?thesis using q spec_step.close [of "bag_of d"] by (cases "isClose d") (simp_all add: Close_def bag_of_def)
next
  case (DWake now)
  then show ?thesis using q spec_step.wake [of "bag_of d" now] spec_step.busy [of "bag_of d" now] by (simp add: sentinel_wake_def bag_of_def)
next
  case DPop
  show ?thesis
  proof (cases "sentinel_at d")
    case (Round now)
    show ?thesis
    proof (cases "delays d = [] \<or> now <s ExecTime (delays d ! 0)")
      case True
      then have e: "ddo ev d = d\<lparr>sentinel_at := Select\<rparr>" using DPop Round by (auto simp: sentinel_pop_def popIfReady_def)
      have "sint now < key u" if "u \<in> set (delays d)" for u
      proof -
        have "delays d \<noteq> []" using that by auto
        then have "key (delays d ! 0) \<le> key u" using top_earliest [OF q] that by (simp add: earliest_def)
        then show ?thesis using True \<open>delays d \<noteq> []\<close> by (simp add: key_def word_sless_alt)
      qed
      then show ?thesis using q e DPop Round spec_step.round_over [of "bag_of d" now] by (simp add: bag_of_def)
    next
      case False
      then have n: "delays d \<noteq> []" by simp
      obtain ds where g: "delDelayedTop d = (Some (delays d ! 0), d\<lparr>delays := ds\<rparr>)" "queue_ok ds" "mset ds = mset (delays d) - {#delays d ! 0#}"
        "\<not> now <s ExecTime (delays d ! 0) \<longrightarrow> popIfReady now d = (Some (delays d ! 0), d\<lparr>delays := ds\<rparr>)"
        by (rule pop_queue [OF q n])
      have "key (delays d ! 0) \<le> sint now" using False by (simp add: key_def word_sless_alt)
      then show ?thesis using g False DPop Round top_earliest [OF q n] spec_step.submit [of "bag_of d" now "delays d ! 0"]
        by (simp add: bag_of_def sentinel_pop_def)
    qed
  qed (use q DPop spec_step.no_round [of "bag_of d"] in \<open>simp_all add: sentinel_pop_def bag_of_def\<close>)
next
  case DStop
  show ?thesis
  proof (cases "sentinel_at d = Select \<and> isClose d")
    case True
    then show ?thesis using DStop spec_step.stop [of "bag_of d"] by (simp add: sentinel_close_def bag_of_def queue_ok_def heap_def positive_def)
  next
    case False
    then show ?thesis using q DStop spec_step.go_on [of "bag_of d"] by (auto simp: sentinel_close_def bag_of_def)
  qed
qed

lemma drun_refines: "queue_ok (delays d) \<Longrightarrow> spec_run evs (bag_of d) (bag_of (drun evs d))"
proof (induction evs arbitrary: d)
  case (Cons ev evs)
  have s: "queue_ok (delays (ddo ev d))" "spec_step ev (bag_of d) (bag_of (ddo ev d))" using ddo_refines [OF Cons.prems] by simp_all
  show ?case using spec_run.step [OF s(2) Cons.IH [OF s(1)]] by (simp add: drun_def)
qed (simp add: drun_def spec_run.finish)

text \<open>
  C24: The delay queue is a bag of pending tasks. Whatever callers add, delete and close while the sentinel runs its rounds, every step is one of the
  bag: a valid task that is added to an open dispatcher is pending until it is taken, exactly once; each task a round submits is due and the earliest
  pending one; a round ends only when no pending task is due; and on closing the pending tasks are dropped.
\<close>

theorem delayed_refines:
  "spec_run evs \<lparr>pending = {#}, bclosed = False, bsentinel = Select, bsubmitted = [], bdropped = {#}, bdeleted = []\<rparr>
     (bag_of (drun evs NewDispatchingDelayed))"
  using drun_refines [of NewDispatchingDelayed evs]
  by (simp add: NewDispatchingDelayed_def bag_of_def queue_ok_def heap_def positive_def)

end
