(* ===== verification/Spec2Isabelle.thy ===== *)
theory Spec2Isabelle
  imports LocalCache CronSpec Snowflake Match ZSetRun LeapInv SlideWindow Codel BbrSpec ChordMongo PoolWait SubsetSpec LazyGroup PipeSpec DelayedSpec
begin

text \<open>
  \<^bold>\<open>A verification of the gkit library.\<close>

  gkit is a collection of Go packages for services: caches and buffers, containers, concurrent windows and limiters, a distributed task
  system with durable chords, and data structures. The packages below are modelled definition by definition; each stands
  mostly alone, and the dependencies among them are those of the imports.

  \<^bold>\<open>Conventions.\<close>
  A Go integer is a word of its width, and wrap-around is that of the word; \<open>float64\<close> is \<open>gofloat\<close> of \<open>GoFloat\<close>, exact IEEE-754 arithmetic
  over the rationals; a \<open>time.Time\<close> is an integer of nanoseconds and a \<open>time.Duration\<close> a 64-bit word. A struct is a record, an error or
  a panic a value of \<open>go\<close> in \<open>Prelude\<close> (\<open>Ok\<close>, \<open>Err\<close>, \<open>Panic\<close>) or a branch of an option. Readings of the clock, random draws, orders of map iteration,
  what \<open>sync.Pool\<close> hands out and user functions are arguments, so that every theorem is for all of them. Concurrent code is a step function per
  atomic action or critical section on a state that lists where every call stands; a run is a list of events, and a theorem about all lists is
  about all interleavings.

  \<^bold>\<open>Foundations.\<close>
  \<^item> \<open>Prelude\<close>: the number types, \<open>go\<close>, and the lemmas on lists, maps, words and sums that the components share.
  \<^item> \<open>GoStrings\<close>, \<open>GoUtf8\<close>, \<open>GoTime\<close>, \<open>GoFloat\<close>, \<open>GoMath\<close>: what the code uses of \<open>strings\<close>, \<open>strconv\<close>, \<open>unicode/utf8\<close>, \<open>time\<close>, floating point and
    \<open>math\<close>, with the lemmas on the civil calendar that schedules need.

  \<^bold>\<open>Durable chords\<close> (\<open>distributed/backend\<close>).
  A chord is a group of tasks and a callback that is published once all of them succeeded.
  \<^item> \<open>Chord\<close> is \<open>durable_chord.go\<close>: the record and its transitions, each with the record it leaves on every error path. \<open>ChordEffect\<close> says
    what each transition changes; \<open>ChordInv\<close> shows the invariant of all reachable records, that the callback is leased only after every member succeeded, with all
    results, and that terminal states are final; \<open>ChordLease\<close> shows that an outcome is accepted only for the latest lease and that a chord
    is never stuck once its deadlines have passed.
  \<^item> \<open>ChordStore\<close> is \<open>backend_mongodb/durable_chord.go\<close>, one step per request to the server, with requests that fail before or after they took effect. The collection
    is an argument; the locale \<open>chord_collection\<close> states its documented behaviour and is interpreted by a list of documents. \<open>ChordLin\<close>
    and \<open>ChordMongo\<close> show that the optimistic update loop is linearizable on the transitions of \<open>Chord\<close>, so that the theorems on one record hold for
    concurrent processes as long as its document is not deleted; two theorems show races with cleanup and re-registration.

  \<^bold>\<open>Schedules\<close> (\<open>distributed/schedule\<close>).
  \<open>CronParse\<close> is the crontab parser, which always returns: it panics exactly on a time zone prefix without a blank after it, and the fields it accepts are in bounds; \<open>CronSpec\<close> the next activation: in a zone of fixed offset (locale \<open>fixed_zone\<close>) it is the earliest
  matching second within five years. The \<open>goto\<close> loops are \<open>partial_function\<close>s; that they return is part of the theorem.

  \<^bold>\<open>Sorted set\<close> (\<open>structure/zset\<close>).
  \<open>ZSkip\<close> is the skip list with its nodes in a store of addresses; \<open>ZSkipInv\<close>, \<open>ZSkipUpd\<close>, \<open>ZSkipIns\<close> and \<open>ZSkipDel\<close> show
  its invariant, spans included, over search, insertion and deletion; \<open>ZSet\<close> is the set; \<open>ZSetSpec\<close>, \<open>ZSetQuery\<close>, \<open>ZSetRemove\<close>, \<open>ZSetAlg\<close> and \<open>ZSetRun\<close>
  refine every operation to a sorted list of scored values. The locale \<open>scored_set\<close> is what union and intersection need of their destination.

  \<^bold>\<open>Caches and buffers\<close> (\<open>cache\<close>).
  \<^item> \<open>LocalCache\<close> is \<open>local_cache\<close>: the store with expiry, the counters and the sentinel; it refines a map whose entries end (locale \<open>expiring_store\<close>).
  \<^item> \<open>BytePool\<close> is \<open>buffer/byte_pool.go\<close>: a get of a size that is not negative returns a slice of the right class. \<open>Iobuf\<close> is \<open>buffer/iobuffer.go\<close> with
    \<open>iobuffer_pool.go\<close>; \<open>IobufSpec\<close> refines the io buffer to a queue of bytes, and \<open>PipeSpec\<close> shows that the pipe is first in, first out. Three theorems show
    what marks, cut-out buffers and a second sleeping reader cannot rely on.

  \<^bold>\<open>Containers\<close> (\<open>container\<close>, \<open>registry\<close>, \<open>delayed\<close>).
  \<^item> \<open>Pool\<close> is \<open>pool/list.go\<close> and \<open>pool.go\<close> with its cleaner; \<open>PoolInv\<close> shows that a resource is in one place only, \<open>PoolWait\<close> that the
    count is exact and bounded and that no waiting caller misses a wake-up, in a pool whose limit is not reloaded. A resource is put back by its holder.
  \<^item> \<open>LazyGroup\<close> is \<open>group/group.go\<close>: one object per key between resets, made by the function set then. \<open>Codel\<close> is \<open>queue/codel\<close>: which packets are dropped.
  \<^item> \<open>Subset\<close> is \<open>registry/rock_steadier_subset.go\<close>; \<open>SubsetSpec\<close> refines the matrix to the set of services, with
    calls that check, wait and send as separate steps.
  \<^item> \<open>Delayed\<close> is \<open>delayed/delayed.go\<close> and \<open>do.go\<close>, the four-way heap and its dispatcher; \<open>DelayedSpec\<close> refines them to a bag of pending tasks
    from which the earliest due one is taken.

  \<^bold>\<open>Windows and limits\<close> (\<open>window\<close>, \<open>internal/stat\<close>, \<open>overload\<close>).
  \<^item> \<open>LeapArray\<close> and \<open>LeapInv\<close>: the lock-free array of time buckets; all calls for one period get one bucket, and a query
    of the window misses none of the recent ones, when there is more than one bucket.
  \<^item> \<open>SlideWindow\<close>: the window run by a sentinel goroutine. \<open>Rolling\<close> and \<open>RollingSpec\<close>: the rolling counter, refined to the points of the last window.
  \<^item> \<open>Bbr\<close> and \<open>BbrSpec\<close>: the adaptive limiter on the rolling counter.

  \<^bold>\<open>Generators and tools.\<close>
  \<open>Snowflake\<close> is \<open>generator/snowflake.go\<close>: numbers are unique, also when the clock goes back. \<open>Match\<close> is \<open>tools/match/match.go\<close>: the matcher decides the glob language.

  \<^bold>\<open>Bounds and fuel.\<close>
  Loops are structural or terminate by a measure. The exceptions: the loops of \<open>CronParse\<close> and \<open>CronSpec\<close> are \<open>partial_function\<close>s with
  proofs that they return; the padding loop of \<open>Subset\<close> has as many rounds of fuel as there are rows, and \<open>SubsetSpec\<close> shows that these suffice;
  \<open>ReadFrom\<close> and \<open>WriteTo\<close> of \<open>Iobuf\<close> run over the answers of their reader or writer and say so when these run out. The update loop of
  \<open>ChordStore\<close> has the source's 16 attempts.

  \<^bold>\<open>Not modelled.\<close>
  Packages whose guarantee lies in code outside the repository: the Redis and SQL backends, controllers and locks (Lua scripts and transactions), codecs, ciphers,
  tracing, circuit breakers and rate limiters (wrappers). Packages that are reflection over arbitrary Go values (binding, copying, printing), input and output (network, log,
  process watcher) or access to the Go runtime (processor counters, goroutine ids, GC tuning, lock-free pools, 128-bit compare-and-swap). The generated concurrent skip lists and hash sets: the former need
  a model of per-node locks and atomic loads, the latter are Go maps. Of the modelled packages: the group and task rows that the MongoDB backend writes beside a chord, index creation and
  paging; aliasing of the slices that \<open>Bytes\<close> and \<open>Peek\<close> return; requests beyond the memory.
\<close>

end
